(* ===== verification/Prelude.thy ===== *)
theory Prelude
  imports Main "HOL-Library.Word"
begin

text \<open>
  What every component shares: the machine integers of the C code, the outcome of a kernel
  function, and the lemmas on lists and outcomes that the component proofs use.

  A kernel function that works on a state of type \<open>'s\<close> has type \<open>'s \<Rightarrow> ('s, 'a) res\<close>. It
  returns a value and the new state (\<open>Ok\<close>), puts the calling process to sleep (\<open>Sleeps\<close>, with
  the state in which the scheduler takes over), stops the machine (\<open>Panic\<close>, with the message
  of the source), reads or writes outside every object (\<open>Fault\<close>), or never gets past some
  point on its own: a spin lock that another CPU holds, or a loop that does not end (\<open>Hang\<close>).
\<close>

type_synonym u8 = "8 word"
type_synonym u16 = "16 word"
type_synonym u32 = "32 word"
type_synonym u64 = "64 word"

section \<open>Outcomes of kernel functions\<close>

datatype ('s, 'a) res = Ok 'a 's | Sleeps 's | Panic string | Fault | Hang

definition bind :: "('s, 'a) res \<Rightarrow> ('a \<Rightarrow> 's \<Rightarrow> ('s, 'b) res) \<Rightarrow> ('s, 'b) res" where
  "bind m f = (case m of Ok a s \<Rightarrow> f a s | Sleeps s \<Rightarrow> Sleeps s | Panic e \<Rightarrow> Panic e
     | Fault \<Rightarrow> Fault | Hang \<Rightarrow> Hang)"

text \<open>The equations that reason backwards from a normal return.\<close>

named_theorems ok_iff

lemma bind_simps [simp]:
  "bind (Ok a s) f = f a s"
  "bind (Sleeps s) f = Sleeps s"
  "bind (Panic e) f = Panic e"
  "bind Fault f = Fault"
  "bind Hang f = Hang"
  by (simp_all add: bind_def)

lemma bind_cong [fundef_cong]:
  "m = m' \<Longrightarrow> (\<And>a s. m' = Ok a s \<Longrightarrow> f a s = f' a s) \<Longrightarrow> bind m f = bind m' f'"
  by (cases m') auto

lemma bind_Ok_iff [ok_iff]:
  "bind m f = Ok b t \<longleftrightarrow> (\<exists>a s. m = Ok a s \<and> f a s = Ok b t)"
  by (cases m) auto

lemma if_Ok_iff [ok_iff]:
  "(if c then m else n) = Ok b t \<longleftrightarrow> (c \<and> m = Ok b t \<or> \<not> c \<and> n = Ok b t)"
  by simp

lemma bind_assoc: "bind (bind m f) g = bind m (\<lambda>a s. bind (f a s) g)"
  by (cases m) auto

text \<open>A run that returns: neither panic, fault, sleep nor hang.\<close>

definition returns :: "('s, 'a) res \<Rightarrow> bool" where
  "returns m = (case m of Ok _ _ \<Rightarrow> True | _ \<Rightarrow> False)"

lemma returns_iff: "returns m \<longleftrightarrow> (\<exists>a s. m = Ok a s)"
  by (cases m) (auto simp: returns_def)

section \<open>Searching a table\<close>

text \<open>
  Index of the first entry that satisfies a test: the \<open>for\<close> loops over the fixed tables
  (processes, files, inodes, descriptors) that stop at the first hit.
\<close>

fun find_idx :: "('a \<Rightarrow> bool) \<Rightarrow> 'a list \<Rightarrow> nat option" where
  "find_idx P [] = None"
| "find_idx P (x # xs) = (if P x then Some 0 else map_option Suc (find_idx P xs))"

lemma find_idx_None [simp]: "find_idx P xs = None \<longleftrightarrow> (\<forall>x\<in>set xs. \<not> P x)"
  by (induction xs) auto

lemma find_idx_Some:
  "find_idx P xs = Some i \<longleftrightarrow> i < length xs \<and> P (xs ! i) \<and> (\<forall>j<i. \<not> P (xs ! j))"
proof (induction xs arbitrary: i)
  case (Cons x xs)
  show ?case
    by (cases i) (auto simp: Cons.IH All_less_Suc2)
qed simp

lemma find_idx_SomeD:
  assumes "find_idx P xs = Some i"
  shows "i < length xs" "P (xs ! i)" "\<And>j. j < i \<Longrightarrow> \<not> P (xs ! j)"
  using assms by (auto simp: find_idx_Some)

end
