(* ===== verification/Spinlock.thy ===== *)
theory Spinlock
  imports Prelude
begin

text \<open>
  kernel/spinlock.c and the CPU part of kernel/proc.h and kernel/proc.c: the per-CPU state,
  the nesting of interrupt disabling, and spin locks. The state of one running CPU is the
  record \<open>lst\<close>; every later component extends it with its own globals, so that the lock
  operations work on all of them.

  The CPU the code runs on is the one whose \<open>apicid\<close> is the value of the local APIC's ID
  register. A spin lock is found in \<open>locks\<close> under its name in the source. The debugging
  field \<open>pcs\<close> of a lock (a copy of return addresses of the stack) is left out.
\<close>

section \<open>State\<close>

datatype lockid = Lkmem | Lptable | Lftable | Licache | Lbcache | Llog | Lticks | Lcons | Lide
  | Lpipe u32 | Lbufsleep nat | Linodesleep nat

record spinlock =
  locked :: u32
  lkname :: string
  lkcpu :: "nat option"

text \<open>
  Of the task state segment the kernel writes three fields; \<open>ts_addr\<close> is the address of the
  structure. The context pointer \<open>scheduler\<close> of a CPU is left out: a switch to the scheduler is
  an outcome of the model.
\<close>

record taskstate =
  ts_addr :: u32
  ss0 :: u16
  esp0 :: u32
  iomb :: u16

record cpu =
  apicid :: u8
  ts :: taskstate
  gdt :: "u64 list"
  started :: bool
  ncli :: int
  intena :: bool
  cproc :: "nat option"

record lst =
  cpus :: "cpu list"
  ncpu :: nat
  lapicid :: u8
  fl_if :: bool
  locks :: "lockid \<Rightarrow> spinlock"

section \<open>Operations\<close>

definition initlock :: "lockid \<Rightarrow> string \<Rightarrow> 'a lst_scheme \<Rightarrow> 'a lst_scheme" where
  "initlock l nm s = s\<lparr>locks := (locks s)(l := \<lparr>locked = 0, lkname = nm, lkcpu = None\<rparr>)\<rparr>"

definition mycpu :: "'a lst_scheme \<Rightarrow> ('a lst_scheme, nat) res" where
  "mycpu s =
     (if fl_if s then Panic (''mycpu called with interrupts enabled'' @ [CHR 0x0A])
      else case find_idx (\<lambda>c. apicid c = lapicid s) (take (ncpu s) (cpus s)) of
        Some i \<Rightarrow> Ok i s
      | None \<Rightarrow> Panic (''unknown apicid'' @ [CHR 0x0A]))"

definition cpuid :: "'a lst_scheme \<Rightarrow> ('a lst_scheme, nat) res" where
  "cpuid s = mycpu s"

definition upd_cpu :: "nat \<Rightarrow> (cpu \<Rightarrow> cpu) \<Rightarrow> 'a lst_scheme \<Rightarrow> 'a lst_scheme" where
  "upd_cpu i f s = s\<lparr>cpus := (cpus s)[i := f (cpus s ! i)]\<rparr>"

definition pushcli :: "'a lst_scheme \<Rightarrow> ('a lst_scheme, unit) res" where
  "pushcli s =
     (let eflags = fl_if s; s = s\<lparr>fl_if := False\<rparr> in
      bind (mycpu s) (\<lambda>c s.
      let s = (if ncli (cpus s ! c) = 0 then upd_cpu c (\<lambda>c. c\<lparr>intena := eflags\<rparr>) s else s) in
      Ok () (upd_cpu c (\<lambda>c. c\<lparr>ncli := ncli c + 1\<rparr>) s)))"

definition popcli :: "'a lst_scheme \<Rightarrow> ('a lst_scheme, unit) res" where
  "popcli s =
     (if fl_if s then Panic ''popcli - interruptible''
      else bind (mycpu s) (\<lambda>c s.
      let s = upd_cpu c (\<lambda>c. c\<lparr>ncli := ncli c - 1\<rparr>) s in
      if ncli (cpus s ! c) < 0 then Panic ''popcli''
      else if ncli (cpus s ! c) = 0 \<and> intena (cpus s ! c) then Ok () (s\<lparr>fl_if := True\<rparr>)
      else Ok () s))"

definition holding :: "lockid \<Rightarrow> 'a lst_scheme \<Rightarrow> ('a lst_scheme, bool) res" where
  "holding l s =
     bind (pushcli s) (\<lambda>_ s.
     bind (mycpu s) (\<lambda>c s.
     let r = locked (locks s l) \<noteq> 0 \<and> lkcpu (locks s l) = Some c in
     bind (popcli s) (\<lambda>_ s. Ok r s)))"

definition acquire :: "lockid \<Rightarrow> 'a lst_scheme \<Rightarrow> ('a lst_scheme, unit) res" where
  "acquire l s =
     bind (pushcli s) (\<lambda>_ s.
     bind (holding l s) (\<lambda>h s.
     if h then Panic ''acquire''
     else if locked (locks s l) \<noteq> 0 then Hang
     else bind (mycpu s) (\<lambda>c s.
       Ok () (s\<lparr>locks := (locks s)(l := (locks s l)\<lparr>locked := 1, lkcpu := Some c\<rparr>)\<rparr>))))"

definition release :: "lockid \<Rightarrow> 'a lst_scheme \<Rightarrow> ('a lst_scheme, unit) res" where
  "release l s =
     bind (holding l s) (\<lambda>h s.
     if \<not> h then Panic ''release''
     else popcli (s\<lparr>locks := (locks s)(l := (locks s l)\<lparr>lkcpu := None, locked := 0\<rparr>)\<rparr>))"

definition myproc :: "'a lst_scheme \<Rightarrow> ('a lst_scheme, nat option) res" where
  "myproc s =
     bind (pushcli s) (\<lambda>_ s.
     bind (mycpu s) (\<lambda>c s.
     let p = cproc (cpus s ! c) in
     bind (popcli s) (\<lambda>_ s. Ok p s)))"

section \<open>States in which locks can be taken\<close>

text \<open>
  The current CPU, and the state a kernel function starts in: the CPU is known, the nesting
  depth is not negative, interrupts are on only at depth 0, and \<open>intena\<close> is the interrupt flag
  at depth 0. The last clause holds after any matched \<open>pushcli\<close> and \<open>popcli\<close>.
\<close>

definition cur :: "'a lst_scheme \<Rightarrow> nat" where
  "cur s = (case find_idx (\<lambda>c. apicid c = lapicid s) (take (ncpu s) (cpus s)) of
      Some i \<Rightarrow> i | None \<Rightarrow> 0)"

definition curcpu :: "'a lst_scheme \<Rightarrow> cpu" where
  "curcpu s = cpus s ! cur s"

definition quiet :: "'a lst_scheme \<Rightarrow> bool" where
  "quiet s \<longleftrightarrow>
     find_idx (\<lambda>c. apicid c = lapicid s) (take (ncpu s) (cpus s)) = Some (cur s) \<and>
     0 \<le> ncli (curcpu s) \<and> (fl_if s \<longrightarrow> ncli (curcpu s) = 0) \<and>
     (ncli (curcpu s) = 0 \<longrightarrow> intena (curcpu s) = fl_if s)"

definition lk_free :: "lockid \<Rightarrow> 'a lst_scheme \<Rightarrow> bool" where
  "lk_free l s \<longleftrightarrow> locked (locks s l) = 0 \<and> lkcpu (locks s l) = None"

definition lk_held :: "lockid \<Rightarrow> 'a lst_scheme \<Rightarrow> bool" where
  "lk_held l s \<longleftrightarrow> locked (locks s l) = 1 \<and> lkcpu (locks s l) = Some (cur s) \<and>
     \<not> fl_if s \<and> 0 < ncli (curcpu s)"

definition push :: "'a lst_scheme \<Rightarrow> 'a lst_scheme" where
  "push s = s\<lparr>fl_if := False,
     cpus := (cpus s)[cur s := (curcpu s)\<lparr>ncli := ncli (curcpu s) + 1\<rparr>]\<rparr>"

definition pop :: "'a lst_scheme \<Rightarrow> 'a lst_scheme" where
  "pop s = s\<lparr>fl_if := (ncli (curcpu s) = 1 \<and> intena (curcpu s)),
     cpus := (cpus s)[cur s := (curcpu s)\<lparr>ncli := ncli (curcpu s) - 1\<rparr>]\<rparr>"

definition hold :: "lockid \<Rightarrow> 'a lst_scheme \<Rightarrow> 'a lst_scheme" where
  "hold l s = (push s)\<lparr>locks := (locks s)(l := (locks s l)\<lparr>locked := 1, lkcpu := Some (cur s)\<rparr>)\<rparr>"

definition unhold :: "lockid \<Rightarrow> 'a lst_scheme \<Rightarrow> 'a lst_scheme" where
  "unhold l s = pop (s\<lparr>locks := (locks s)(l := (locks s l)\<lparr>lkcpu := None, locked := 0\<rparr>)\<rparr>)"

lemma find_idx_upd:
  assumes "\<And>x. P (f x) = P x" and "i < length xs"
  shows "find_idx P (xs[i := f (xs ! i)]) = find_idx P xs"
  using assms
proof (induction xs arbitrary: i)
  case (Cons x xs)
  then show ?case by (cases i) auto
qed simp

lemma find_cpu_upd:
  assumes "\<And>x. apicid (f x) = apicid x"
  shows "find_idx (\<lambda>c. apicid c = a) (take n (cs[i := f (cs ! i)]))
       = find_idx (\<lambda>c. apicid c = a) (take n cs)"
proof (cases "i < length (take n cs)")
  case True
  then show ?thesis
    using find_idx_upd [of "\<lambda>c. apicid c = a" f i "take n cs"] assms
    by (simp add: take_update_swap)
next
  case False
  then have "take n (cs[i := f (cs ! i)]) = take n cs"
    by (cases "i < length cs") (auto simp: take_update_swap list_update_beyond)
  then show ?thesis by simp
qed

lemma quiet_cur: "quiet s \<Longrightarrow> cur s < length (cpus s) \<and> cur s < ncpu s"
  by (auto simp: quiet_def dest: find_idx_SomeD(1))

section \<open>Interrupt nesting\<close>

lemma find_cpu_set:
  assumes "apicid c = apicid (cs ! i)"
  shows "find_idx (\<lambda>c. apicid c = a) (take n (cs[i := c])) = find_idx (\<lambda>c. apicid c = a) (take n cs)"
proof -
  have "c\<lparr>apicid := apicid (cs ! i)\<rparr> = c" using assms by (cases c) simp
  then show ?thesis using find_cpu_upd [of "\<lambda>x. c\<lparr>apicid := apicid x\<rparr>" a n cs i] by simp
qed

lemma cur_push [simp]: "cur (push s) = cur s"
  by (simp add: cur_def push_def curcpu_def find_cpu_set)

lemma cur_pop [simp]: "cur (pop s) = cur s"
  by (simp add: cur_def pop_def curcpu_def find_cpu_set)

lemma cur_locks [simp]: "cur (s\<lparr>locks := x\<rparr>) = cur s"
  by (simp add: cur_def)

lemma curcpu_locks [simp]: "curcpu (s\<lparr>locks := x\<rparr>) = curcpu s"
  by (simp add: curcpu_def)

lemma quiet_locks [simp]: "quiet (s\<lparr>locks := x\<rparr>) = quiet s"
  by (simp add: quiet_def)

lemma curcpu_push: "quiet s \<Longrightarrow> curcpu (push s) = (curcpu s)\<lparr>ncli := ncli (curcpu s) + 1\<rparr>"
  by (auto simp: curcpu_def push_def cur_push [unfolded push_def curcpu_def] dest: quiet_cur)

lemma quiet_push [simp]: "quiet s \<Longrightarrow> quiet (push s)"
  using quiet_cur [of s]
  by (auto simp: quiet_def curcpu_push) (simp add: push_def curcpu_def find_cpu_set)+

lemma pop_push:
  assumes "quiet s"
  shows "pop (push s) = s"
proof (rule lst.equality)
  have "cpus (pop (push s)) = (cpus (push s))[cur s := (curcpu s)\<lparr>ncli := ncli (curcpu s)\<rparr>]"
    using curcpu_push [OF assms] by (simp add: pop_def)
  then show "cpus (pop (push s)) = cpus s"
    by (simp add: push_def curcpu_def)
  show "fl_if (pop (push s)) = fl_if s"
    using curcpu_push [OF assms] assms by (auto simp: pop_def quiet_def)
qed (simp_all add: pop_def push_def)

lemma mycpu_eq: "quiet s \<Longrightarrow> \<not> fl_if s \<Longrightarrow> mycpu s = Ok (cur s) s"
  by (simp add: mycpu_def quiet_def)

lemma cur_if [simp]: "cur (s\<lparr>fl_if := x\<rparr>) = cur s"
  by (simp add: cur_def)

lemma intena_noop: "intena c = b \<Longrightarrow> c\<lparr>intena := b, ncli := n\<rparr> = c\<lparr>ncli := n\<rparr>"
  by (cases c) simp

lemma pushcli_eq: "quiet s \<Longrightarrow> pushcli s = Ok () (push s)"
  using quiet_cur [of s]
  by (auto simp: pushcli_def mycpu_def Let_def quiet_def push_def upd_cpu_def curcpu_def intena_noop)

lemma popcli_eq:
  "quiet s \<Longrightarrow> \<not> fl_if s \<Longrightarrow> 0 < ncli (curcpu s) \<Longrightarrow> popcli s = Ok () (pop s)"
  using quiet_cur [of s]
  by (cases s) (auto simp: popcli_def mycpu_def Let_def quiet_def pop_def upd_cpu_def curcpu_def)

lemma fl_if_push [simp]: "\<not> fl_if (push s)"
  by (simp add: push_def)

lemma popcli_push:
  assumes "quiet s"
  shows "popcli (push s) = Ok () s"
proof -
  have "0 < ncli (curcpu (push s))"
    using assms by (auto simp: curcpu_push quiet_def)
  then show ?thesis using assms by (simp add: popcli_eq pop_push)
qed

lemma locks_push [simp]: "locks (push s) = locks s"
  by (simp add: push_def)

section \<open>Taking and giving back a lock\<close>

definition curproc :: "'a lst_scheme \<Rightarrow> nat option" where
  "curproc s = cproc (curcpu s)"

lemma myproc_eq:
  assumes "quiet s"
  shows "myproc s = Ok (curproc s) s"
proof -
  have "cpus (push s) ! cur s = curcpu (push s)" by (simp add: curcpu_def)
  then show ?thesis
    using assms
    by (simp add: myproc_def pushcli_eq mycpu_eq popcli_push curcpu_push curproc_def Let_def)
qed

lemma holding_eq:
  "quiet s \<Longrightarrow> holding l s = Ok (locked (locks s l) \<noteq> 0 \<and> lkcpu (locks s l) = Some (cur s)) s"
  by (simp add: holding_def pushcli_eq mycpu_eq popcli_push Let_def)

lemma acquire_eq: "quiet s \<Longrightarrow> lk_free l s \<Longrightarrow> acquire l s = Ok () (hold l s)"
  by (simp add: acquire_def pushcli_eq holding_eq mycpu_eq hold_def lk_free_def)

lemma acquire_self:
  "quiet s \<Longrightarrow> locked (locks s l) \<noteq> 0 \<Longrightarrow> lkcpu (locks s l) = Some (cur s) \<Longrightarrow>
    acquire l s = Panic ''acquire''"
  by (simp add: acquire_def pushcli_eq holding_eq)

lemma acquire_other:
  "quiet s \<Longrightarrow> locked (locks s l) \<noteq> 0 \<Longrightarrow> lkcpu (locks s l) \<noteq> Some (cur s) \<Longrightarrow>
    acquire l s = Hang"
  by (simp add: acquire_def pushcli_eq holding_eq)

lemma release_eq: "quiet s \<Longrightarrow> lk_held l s \<Longrightarrow> release l s = Ok () (unhold l s)"
  by (simp add: release_def holding_eq lk_held_def popcli_eq unhold_def)

lemma release_unheld:
  "quiet s \<Longrightarrow> locked (locks s l) = 0 \<or> lkcpu (locks s l) \<noteq> Some (cur s) \<Longrightarrow>
    release l s = Panic ''release''"
  by (auto simp: release_def holding_eq)

lemma cur_hold [simp]: "cur (hold l s) = cur s"
  by (simp add: hold_def)

lemma quiet_hold [simp]: "quiet s \<Longrightarrow> quiet (hold l s)"
  by (simp add: hold_def)

lemma curproc_hold [simp]: "quiet s \<Longrightarrow> curproc (hold l s) = curproc s"
  by (simp add: curproc_def hold_def curcpu_push)

lemma lk_held_hold [simp]: "quiet s \<Longrightarrow> lk_held l (hold l s)"
  by (auto simp: lk_held_def hold_def curcpu_push quiet_def)

lemma lk_free_hold [simp]: "l \<noteq> k \<Longrightarrow> lk_free l (hold k s) = lk_free l s"
  by (simp add: lk_free_def hold_def)

lemma lk_held_hold_other [simp]: "quiet s \<Longrightarrow> l \<noteq> k \<Longrightarrow> lk_held l s \<Longrightarrow> lk_held l (hold k s)"
  by (auto simp: lk_held_def hold_def curcpu_push)

lemma unhold_hold [simp]:
  assumes "quiet s" "lk_free l s"
  shows "unhold l (hold l s) = s"
proof -
  have "(locks s l)\<lparr>lkcpu := None, locked := 0\<rparr> = locks s l"
    using assms(2) by (cases "locks s l") (simp add: lk_free_def)
  then have "unhold l (hold l s) = pop ((push s)\<lparr>locks := locks s\<rparr>)"
    by (simp add: unhold_def hold_def)
  also have "(push s)\<lparr>locks := locks s\<rparr> = push s"
    by (cases s) (simp add: push_def curcpu_def)
  finally show ?thesis by (simp add: pop_push assms(1))
qed

lemmas lock_eqs = myproc_eq holding_eq acquire_eq release_eq

section \<open>Properties\<close>

text \<open>
  C10: a CPU that takes a free spin lock has it to itself: taking it again on the same CPU
  panics, every other CPU that sees the lock hangs trying to take it and panics trying to
  release it, and releasing it on the owner brings back the state before.
\<close>

theorem acquire_excludes:
  fixes s :: "'a lst_scheme"
  assumes "quiet s" and "lk_free l s"
  shows "\<exists>s1. acquire l s = Ok () s1 \<and> acquire l s1 = Panic ''acquire'' \<and> release l s1 = Ok () s \<and>
    (\<forall>t :: 'a lst_scheme. quiet t \<and> locks t = locks s1 \<and> cur t \<noteq> cur s \<longrightarrow>
      acquire l t = Hang \<and> release l t = Panic ''release'')"
proof (intro exI conjI allI impI)
  show "acquire l s = Ok () (hold l s)" using assms by (rule acquire_eq)
  show "acquire l (hold l s) = Panic ''acquire''"
    using assms by (intro acquire_self) (simp_all add: hold_def)
  show "release l (hold l s) = Ok () s"
    using assms by (simp add: release_eq)
next
  fix t :: "'a lst_scheme"
  assume t: "quiet t \<and> locks t = locks (hold l s) \<and> cur t \<noteq> cur s"
  show "acquire l t = Hang"
    using t by (intro acquire_other) (simp_all add: hold_def)
  show "release l t = Panic ''release''"
    using t by (intro release_unheld) (simp_all add: hold_def)
qed

definition ex_cpu :: cpu where
  "ex_cpu = \<lparr>apicid = 0, ts = \<lparr>ts_addr = 0x80110010, ss0 = 0, esp0 = 0, iomb = 0\<rparr>,
     gdt = replicate 6 0, started = True, ncli = 0, intena = True, cproc = Some 0\<rparr>"

definition ex_lst :: lst where
  "ex_lst = \<lparr>cpus = [ex_cpu, ex_cpu\<lparr>apicid := 2, intena := False, cproc := None\<rparr>],
    ncpu = 2, lapicid = 0, fl_if = True,
    locks = (\<lambda>_. \<lparr>locked = 0, lkname = ''lk'', lkcpu = None\<rparr>)\<rparr>"

lemma ex_lst_ready: "quiet ex_lst" "lk_free l ex_lst"
  by (simp_all add: ex_lst_def ex_cpu_def quiet_def cur_def curcpu_def lk_free_def)

lemma lst_truncate:
  "quiet (lst.truncate s) = quiet s" "lk_free l (lst.truncate s) = lk_free l s"
  by (simp_all add: lst.truncate_def quiet_def cur_def curcpu_def lk_free_def)

theorem acquire_excludes_witness:
  "\<exists>s1. acquire Lkmem ex_lst = Ok () s1 \<and> acquire Lkmem s1 = Panic ''acquire'' \<and>
    release Lkmem s1 = Ok () ex_lst \<and>
    (\<forall>t :: lst. quiet t \<and> locks t = locks s1 \<and> cur t \<noteq> cur ex_lst \<longrightarrow>
      acquire Lkmem t = Hang \<and> release Lkmem t = Panic ''release'')"
  by (rule acquire_excludes [OF ex_lst_ready(1) ex_lst_ready(2)])

text \<open>A nest of interrupt-disabled sections of depth \<open>n\<close>.\<close>

fun pushes :: "nat \<Rightarrow> 'a lst_scheme \<Rightarrow> ('a lst_scheme, unit) res" where
  "pushes 0 s = Ok () s"
| "pushes (Suc n) s = bind (pushcli s) (\<lambda>_ s. pushes n s)"

fun pops :: "nat \<Rightarrow> 'a lst_scheme \<Rightarrow> ('a lst_scheme, unit) res" where
  "pops 0 s = Ok () s"
| "pops (Suc n) s = bind (pops n s) (\<lambda>_ s. popcli s)"

lemma pushes_pops:
  "quiet s \<Longrightarrow> \<exists>t. pushes n s = Ok () t \<and> pops n t = Ok () s \<and> (0 < n \<longrightarrow> \<not> fl_if t)"
proof (induction n arbitrary: s)
  case (Suc n)
  then obtain t where "pushes n (push s) = Ok () t" "pops n t = Ok () (push s)"
    "0 < n \<longrightarrow> \<not> fl_if t" using quiet_push by blast
  with Suc.prems show ?case
    by (cases n) (auto simp: pushcli_eq popcli_push)
qed simp



end
