(* ===== verification/Memory.thy ===== *)
theory Memory
  imports Prelude
begin

unbundle bit_operations_syntax

text \<open>
  Addresses and memory: the macros of mmu.h and memlayout.h, little-endian words in a
  byte-addressed memory, and the memory routines of string.c. A memory is a function from
  kernel virtual addresses to bytes; the kernel reaches physical address \<open>pa\<close> at \<open>P2V pa\<close>.
\<close>

section \<open>Addresses\<close>

type_synonym mem = "u32 \<Rightarrow> u8"

abbreviation (input) PGSIZE :: u32 where "PGSIZE \<equiv> 0x1000"
abbreviation (input) EXTMEM :: u32 where "EXTMEM \<equiv> 0x100000"
abbreviation (input) PHYSTOP :: u32 where "PHYSTOP \<equiv> 0xE000000"
abbreviation (input) DEVSPACE :: u32 where "DEVSPACE \<equiv> 0xFE000000"
abbreviation (input) KERNBASE :: u32 where "KERNBASE \<equiv> 0x80000000"
abbreviation (input) SHAREBASE :: u32 where "SHAREBASE \<equiv> 0x40000000"
abbreviation (input) KERNLINK :: u32 where "KERNLINK \<equiv> 0x80100000"

definition V2P :: "u32 \<Rightarrow> u32" where
  "V2P a = a - KERNBASE"

definition P2V :: "u32 \<Rightarrow> u32" where
  "P2V a = a + KERNBASE"

definition PDX :: "u32 \<Rightarrow> u32" where
  "PDX va = drop_bit 22 va AND 0x3FF"

definition PTX :: "u32 \<Rightarrow> u32" where
  "PTX va = drop_bit 12 va AND 0x3FF"

definition PGADDR :: "u32 \<Rightarrow> u32 \<Rightarrow> u32 \<Rightarrow> u32" where
  "PGADDR d t off = push_bit 22 d OR push_bit 12 t OR off"

definition PGROUNDUP :: "u32 \<Rightarrow> u32" where
  "PGROUNDUP sz = (sz + PGSIZE - 1) AND NOT (PGSIZE - 1)"

definition PGROUNDDOWN :: "u32 \<Rightarrow> u32" where
  "PGROUNDDOWN a = a AND NOT (PGSIZE - 1)"

abbreviation (input) PTE_P :: u32 where "PTE_P \<equiv> 0x001"
abbreviation (input) PTE_W :: u32 where "PTE_W \<equiv> 0x002"
abbreviation (input) PTE_U :: u32 where "PTE_U \<equiv> 0x004"

definition PTE_ADDR :: "u32 \<Rightarrow> u32" where
  "PTE_ADDR pte = pte AND NOT 0xFFF"

definition PTE_FLAGS :: "u32 \<Rightarrow> u32" where
  "PTE_FLAGS pte = pte AND 0xFFF"

text \<open>An address at a page boundary, and the frame an address lies in.\<close>

definition aligned :: "u32 \<Rightarrow> bool" where
  "aligned a = (a AND 0xFFF = 0)"

lemma and_FFF: "a AND 0xFFF = take_bit 12 a" for a :: u32
  by (simp add: take_bit_eq_mask mask_eq_exp_minus_1)

lemma unat_and_FFF: "unat (a AND 0xFFF) = unat a mod 4096" for a :: u32
  by (simp only: and_FFF unsigned_take_bit_eq) (simp add: take_bit_eq_mod)

lemma aligned_iff: "aligned a \<longleftrightarrow> unat a mod 4096 = 0"
  by (metis aligned_def unat_and_FFF unat_eq_zero)

lemma PGROUNDDOWN_eq: "PGROUNDDOWN a = a - (a AND 0xFFF)"
proof -
  have "(a AND 0xFFF) + (a AND NOT 0xFFF) = a"
    by (subst disjunctive_add_eq_or) (auto simp: bit_eq_iff bit_simps)
  then show ?thesis by (simp add: PGROUNDDOWN_def algebra_simps eq_diff_eq)
qed

lemma unat_PGROUNDDOWN: "unat (PGROUNDDOWN a) = unat a - unat a mod 4096"
proof -
  have "unat (a AND 0xFFF) \<le> unat a"
    by (simp add: unat_and_FFF)
  then show ?thesis
    by (simp add: PGROUNDDOWN_eq unat_sub word_le_nat_alt unat_and_FFF)
qed

lemma aligned_PGROUNDDOWN [simp]: "aligned (PGROUNDDOWN a)"
  by (simp add: aligned_iff unat_PGROUNDDOWN)

lemma PGROUNDDOWN_id: "aligned a \<Longrightarrow> PGROUNDDOWN a = a"
  by (simp add: PGROUNDDOWN_eq aligned_def)

lemma PGROUNDDOWN_split: "PGROUNDDOWN a + (a AND 0xFFF) = a"
  by (simp add: PGROUNDDOWN_eq)

lemma unat_u32_less: "unat (w :: u32) < 4294967296"
  using unsigned_less [of w, where ?'a = nat] by simp

lemma unat_of_nat32: "n < 4294967296 \<Longrightarrow> unat (of_nat n :: u32) = n"
  by (subst unat_of_nat) simp

lemma alignedE:
  assumes "aligned p"
  obtains k where "unat p = 4096 * k" "k < 1048576"
proof -
  obtain k where k: "unat p = 4096 * k"
    using assms by (auto simp: aligned_iff)
  then have "k < 1048576" using unat_u32_less [of p] by simp
  with k that show ?thesis by blast
qed

lemma unat_aligned_add:
  assumes "aligned p" and "i < PGSIZE"
  shows "unat (p + i) = unat p + unat i"
proof -
  obtain k where "unat p = 4096 * k" "k < 1048576" using assms(1) by (rule alignedE)
  moreover have "unat i < 4096" using assms(2) by (simp add: word_less_nat_alt)
  ultimately have "unat p + unat i < 4294967296" by linarith
  then show ?thesis by (simp add: unat_word_ariths)
qed

lemma aligned_add_FFF:
  assumes "aligned p" and "i < PGSIZE"
  shows "(p + i) AND 0xFFF = i"
proof -
  have "unat i < 4096" using assms(2) by (simp add: word_less_nat_alt)
  moreover obtain k where "unat p = 4096 * k" using assms(1) by (rule alignedE)
  ultimately have "unat ((p + i) AND 0xFFF) = unat i"
    by (simp add: unat_and_FFF unat_aligned_add [OF assms])
  then show ?thesis by (simp only: word_unat_eq_iff)
qed

lemma PGROUNDDOWN_add: "aligned p \<Longrightarrow> i < PGSIZE \<Longrightarrow> PGROUNDDOWN (p + i) = p"
  by (simp add: PGROUNDDOWN_eq aligned_add_FFF)

text \<open>Two frames overlap only if they are the same frame.\<close>

lemma frame_inj:
  assumes "aligned p" "aligned q" "i < PGSIZE" "j < PGSIZE" "p + i = q + j"
  shows "p = q \<and> i = j"
  using assms by (metis PGROUNDDOWN_add add_left_cancel)

lemma in_frame_iff: "aligned p \<Longrightarrow> a - p < PGSIZE \<longleftrightarrow> PGROUNDDOWN a = p"
proof
  assume "aligned p" "a - p < PGSIZE"
  then show "PGROUNDDOWN a = p"
    using PGROUNDDOWN_add [of p "a - p"] by simp
next
  assume "aligned p" "PGROUNDDOWN a = p"
  then have "a - p = a AND 0xFFF"
    using PGROUNDDOWN_split [of a] by (simp add: algebra_simps eq_diff_eq)
  then show "a - p < PGSIZE"
    by (simp add: word_less_nat_alt unat_and_FFF)
qed

section \<open>Words in memory\<close>

definition load32 :: "mem \<Rightarrow> u32 \<Rightarrow> u32" where
  "load32 m a = ucast (m a) OR push_bit 8 (ucast (m (a + 1)))
     OR push_bit 16 (ucast (m (a + 2))) OR push_bit 24 (ucast (m (a + 3)))"

definition store32 :: "mem \<Rightarrow> u32 \<Rightarrow> u32 \<Rightarrow> mem" where
  "store32 m a v = m(a := ucast v, a + 1 := ucast (drop_bit 8 v),
     a + 2 := ucast (drop_bit 16 v), a + 3 := ucast (drop_bit 24 v))"

definition aligned4 :: "u32 \<Rightarrow> bool" where
  "aligned4 a = (a AND 3 = 0)"

lemma less4_cases: "(i :: u32) < 4 \<longleftrightarrow> i = 0 \<or> i = 1 \<or> i = 2 \<or> i = 3"
proof
  assume "i < 4"
  then have "unat i < 4" by (simp add: word_less_nat_alt)
  then have "unat i = 0 \<or> unat i = 1 \<or> unat i = 2 \<or> unat i = 3" by arith
  then show "i = 0 \<or> i = 1 \<or> i = 2 \<or> i = 3"
    by (auto simp: word_unat_eq_iff)
qed auto

lemma bytes_of_word:
  "ucast (ucast v :: u8) OR push_bit 8 (ucast (ucast (drop_bit 8 v) :: u8))
    OR push_bit 16 (ucast (ucast (drop_bit 16 v) :: u8))
    OR push_bit 24 (ucast (ucast (drop_bit 24 v) :: u8)) = v" for v :: u32
proof (rule bit_word_eqI)
  fix n assume "n < LENGTH(32)"
  then consider "n < 8" | "8 \<le> n" "n < 16" | "16 \<le> n" "n < 24" | "24 \<le> n" "n < 32"
    by fastforce
  then show "bit (ucast (ucast v :: u8) OR push_bit 8 (ucast (ucast (drop_bit 8 v) :: u8))
    OR push_bit 16 (ucast (ucast (drop_bit 16 v) :: u8))
    OR push_bit 24 (ucast (ucast (drop_bit 24 v) :: u8)) :: u32) n = bit v n"
    by cases (auto simp: bit_simps less_diff_conv2)
qed

lemma load32_store32 [simp]: "load32 (store32 m a v) a = v"
  by (simp add: load32_def store32_def bytes_of_word)

lemma store32_other: "\<not> b - a < 4 \<Longrightarrow> store32 m a v b = m b"
  by (auto simp: store32_def less4_cases)

lemma load32_cong: "(\<And>b. b - a < 4 \<Longrightarrow> m b = m' b) \<Longrightarrow> load32 m a = load32 m' a"
  by (simp add: load32_def)

lemma aligned4_iff: "aligned4 a \<longleftrightarrow> unat a mod 4 = 0"
proof -
  have "a AND 3 = take_bit 2 a"
    by (simp add: take_bit_eq_mask mask_eq_exp_minus_1)
  then have "unat (a AND 3) = unat a mod 4"
    by (simp only: unsigned_take_bit_eq) (simp add: take_bit_eq_mod)
  then show ?thesis by (metis aligned4_def unat_eq_zero)
qed

lemma unat_aligned4_add:
  assumes "aligned4 a" and "i < 4"
  shows "unat (a + i) = unat a + unat i"
proof -
  obtain k where k: "unat a = 4 * k" using assms(1) by (auto simp: aligned4_iff)
  then have "k < 1073741824" using unat_u32_less [of a] by simp
  moreover have "unat i < 4" using assms(2) by (simp add: word_less_nat_alt)
  ultimately have "unat a + unat i < 4294967296" using k by linarith
  then show ?thesis by (simp add: unat_word_ariths)
qed

lemma aligned4_inj:
  assumes "aligned4 a" "aligned4 b" "i < 4" "j < 4" "a + i = b + j"
  shows "a = b"
proof -
  have "unat a + unat i = unat b + unat j"
    using assms by (metis unat_aligned4_add)
  moreover have "unat i < 4" "unat j < 4" using assms by (simp_all add: word_less_nat_alt)
  moreover have "unat a mod 4 = 0" "unat b mod 4 = 0" using assms by (simp_all add: aligned4_iff)
  ultimately have "unat a = unat b" by arith
  then show ?thesis by (simp only: word_unat_eq_iff)
qed

lemma load32_store32_other:
  assumes "aligned4 a" "aligned4 b" "a \<noteq> b"
  shows "load32 (store32 m a v) b = load32 m b"
proof (rule load32_cong)
  fix c assume "c - b < 4"
  then have "\<not> c - a < 4"
    using aligned4_inj [of a b "c - a" "c - b"] assms by auto
  then show "store32 m a v c = m c" by (rule store32_other)
qed

lemma frame_word:
  assumes "aligned4 a" and "b - a < 4"
  shows "PGROUNDDOWN b = PGROUNDDOWN a"
proof -
  obtain k where k: "unat a = 4 * k" using assms(1) by (auto simp: aligned4_iff)
  have "unat b = unat a + unat (b - a)"
    using unat_aligned4_add [OF assms] by simp
  moreover have "unat (b - a) < 4" using assms(2) by (simp add: word_less_nat_alt)
  ultimately have "unat b div 4096 = unat a div 4096"
    by (simp add: k div_mult2_eq [of _ 4 1024, simplified])
  then have "unat (PGROUNDDOWN b) = unat (PGROUNDDOWN a)"
    by (simp add: unat_PGROUNDDOWN minus_mod_eq_mult_div)
  then show ?thesis by (simp only: word_unat_eq_iff)
qed

lemma store32_frame:
  "aligned4 a \<Longrightarrow> PGROUNDDOWN b \<noteq> PGROUNDDOWN a \<Longrightarrow> store32 m a v b = m b"
  using frame_word store32_other by blast

lemma load32_frame_cong:
  "aligned4 a \<Longrightarrow> (\<And>b. PGROUNDDOWN b = PGROUNDDOWN a \<Longrightarrow> m b = m' b) \<Longrightarrow>
    load32 m a = load32 m' a"
  by (rule load32_cong) (auto dest: frame_word)

lemma aligned_aligned4: "aligned p \<Longrightarrow> aligned4 p"
  by (auto simp: aligned4_iff elim!: alignedE)

end
