(* ===== verification/KString.thy ===== *)
theory KString
  imports Memory
begin

unbundle bit_operations_syntax

text \<open>
  kernel/string.c. The routines on raw memory work on the byte memory; the routines on C
  strings work on the bytes of the object a pointer points into, as a list, and return
  \<open>None\<close> when they would read or write past its end.
\<close>

section \<open>Memory routines\<close>

text \<open>The string instructions \<^verbatim>\<open>rep stosb\<close> and \<^verbatim>\<open>rep stosl\<close> of x86.h.\<close>

fun stosb :: "mem \<Rightarrow> u32 \<Rightarrow> u8 \<Rightarrow> nat \<Rightarrow> mem" where
  "stosb m a c 0 = m"
| "stosb m a c (Suc n) = stosb (m(a := c)) (a + 1) c n"

fun stosl :: "mem \<Rightarrow> u32 \<Rightarrow> u32 \<Rightarrow> nat \<Rightarrow> mem" where
  "stosl m a v 0 = m"
| "stosl m a v (Suc n) = stosl (store32 m a v) (a + 4) v n"

definition memset :: "mem \<Rightarrow> u32 \<Rightarrow> u32 \<Rightarrow> u32 \<Rightarrow> mem" where
  "memset m dst c n =
     (if dst mod 4 = 0 \<and> n mod 4 = 0
      then let c = c AND 0xFF in
        stosl m dst (push_bit 24 c OR push_bit 16 c OR push_bit 8 c OR c) (unat (n div 4))
      else stosb m dst (ucast c) (unat n))"

fun memcmp :: "mem \<Rightarrow> u32 \<Rightarrow> u32 \<Rightarrow> nat \<Rightarrow> int" where
  "memcmp m s1 s2 0 = 0"
| "memcmp m s1 s2 (Suc n) =
     (if m s1 \<noteq> m s2 then uint (m s1) - uint (m s2) else memcmp m (s1 + 1) (s2 + 1) n)"

fun copy_up :: "mem \<Rightarrow> u32 \<Rightarrow> u32 \<Rightarrow> nat \<Rightarrow> mem" where
  "copy_up m d s 0 = m"
| "copy_up m d s (Suc n) = copy_up (m(d := m s)) (d + 1) (s + 1) n"

fun copy_down :: "mem \<Rightarrow> u32 \<Rightarrow> u32 \<Rightarrow> nat \<Rightarrow> mem" where
  "copy_down m d s 0 = m"
| "copy_down m d s (Suc n) = copy_down (m(d - 1 := m (s - 1))) (d - 1) (s - 1) n"

definition memmove :: "mem \<Rightarrow> u32 \<Rightarrow> u32 \<Rightarrow> u32 \<Rightarrow> mem" where
  "memmove m dst src n =
     (if src < dst \<and> src + n > dst then copy_down m (dst + n) (src + n) (unat n)
      else copy_up m dst src (unat n))"

definition memcpy :: "mem \<Rightarrow> u32 \<Rightarrow> u32 \<Rightarrow> u32 \<Rightarrow> mem" where
  "memcpy m dst src n = memmove m dst src n"

section \<open>C strings\<close>

fun strncmp :: "u8 list \<Rightarrow> u8 list \<Rightarrow> nat \<Rightarrow> int option" where
  "strncmp p q 0 = Some 0"
| "strncmp (x # p) (y # q) (Suc n) =
     (if x \<noteq> 0 \<and> x = y then strncmp p q n else Some (uint x - uint y))"
| "strncmp p q (Suc n) = None"

fun zero_fill :: "u8 list \<Rightarrow> nat \<Rightarrow> u8 list option" where
  "zero_fill s 0 = Some s"
| "zero_fill (x # s) (Suc n) = map_option ((#) 0) (zero_fill s n)"
| "zero_fill [] (Suc n) = None"

fun strncpy :: "u8 list \<Rightarrow> u8 list \<Rightarrow> nat \<Rightarrow> u8 list option" where
  "strncpy s t 0 = Some s"
| "strncpy (x # s) (y # t) (Suc n) =
     map_option ((#) y) (if y \<noteq> 0 then strncpy s t n else zero_fill s n)"
| "strncpy s t (Suc n) = None"

fun copy_nul :: "u8 list \<Rightarrow> u8 list \<Rightarrow> nat \<Rightarrow> u8 list option" where
  "copy_nul (x # s) t 0 = Some (0 # s)"
| "copy_nul (x # s) (y # t) (Suc n) =
     map_option ((#) y) (if y \<noteq> 0 then copy_nul s t n
       else case s of [] \<Rightarrow> None | z # s' \<Rightarrow> Some (0 # s'))"
| "copy_nul s t n = None"

definition safestrcpy :: "u8 list \<Rightarrow> u8 list \<Rightarrow> int \<Rightarrow> u8 list option" where
  "safestrcpy s t n = (if n \<le> 0 then Some s else copy_nul s t (nat (n - 1)))"

fun strlen :: "u8 list \<Rightarrow> nat option" where
  "strlen [] = None"
| "strlen (x # s) = (if x = 0 then Some 0 else map_option Suc (strlen s))"

section \<open>Filling and copying memory\<close>

lemma unat_minus_1: "(x :: u32) \<noteq> 0 \<Longrightarrow> unat (x - 1) = unat x - 1"
  by (rule unat_minus_one)

lemma stosb_eq:
  "n \<le> 4294967295 \<Longrightarrow> stosb m a c n = (\<lambda>b. if unat (b - a) < n then c else m b)"
proof (induction n arbitrary: m a)
  case (Suc n)
  have "unat (b - a) < Suc n \<longleftrightarrow> b = a \<or> unat (b - (a + 1)) < n" for b
  proof (cases "b = a")
    case False
    then have "unat (b - a) > 0" "unat (b - (a + 1)) = unat (b - a) - 1"
      using unat_minus_1 [of "b - a"] by (simp_all add: diff_diff_eq unat_gt_0)
    with False show ?thesis by arith
  qed simp
  with Suc show ?case by (auto simp: fun_eq_iff)
qed simp

lemma store32_fill:
  assumes v: "v = push_bit 24 c OR push_bit 16 c OR push_bit 8 c OR c" and c: "c = ucast (x :: u8)"
  shows "store32 m a v = (\<lambda>b. if b - a < 4 then x else m b)"
proof -
  have "ucast v = x" "ucast (drop_bit 8 v) = x" "ucast (drop_bit 16 v) = x"
    "ucast (drop_bit 24 v) = x"
    by (rule bit_word_eqI; auto simp: v c bit_simps dest: bit_imp_le_length)+
  then show ?thesis
    by (auto simp: store32_def less4_cases fun_eq_iff diff_eq_eq add.commute)
qed

lemma stosl_eq:
  assumes "v = push_bit 24 c OR push_bit 16 c OR push_bit 8 c OR c" and "c = ucast (x :: u8)"
  shows "4 * n \<le> 4294967295 \<Longrightarrow> stosl m a v n = (\<lambda>b. if unat (b - a) < 4 * n then x else m b)"
proof (induction n arbitrary: m a)
  case (Suc n)
  have "unat (b - a) < 4 * Suc n \<longleftrightarrow> b - a < 4 \<or> unat (b - (a + 4)) < 4 * n" for b
  proof (cases "b - a < 4")
    case True
    then show ?thesis by (simp add: word_less_nat_alt)
  next
    case False
    then have "unat (b - (a + 4)) = unat (b - a) - 4"
      by (simp add: unat_sub word_less_nat_alt word_le_nat_alt flip: diff_diff_eq)
    with False show ?thesis by (simp add: word_less_nat_alt) arith
  qed
  with Suc show ?case by (auto simp: fun_eq_iff store32_fill [OF assms])
qed simp

lemma mod4_iff: "(a :: u32) mod 4 = 0 \<longleftrightarrow> unat a mod 4 = 0"
proof -
  have "unat (a mod 4) = unat a mod 4" by (simp add: unat_mod_distrib)
  then show ?thesis by (metis unat_eq_zero)
qed

lemma memset_eq: "memset m dst c n = (\<lambda>a. if a - dst < n then ucast c else m a)"
proof (cases "dst mod 4 = 0 \<and> n mod 4 = 0")
  case True
  have "c AND 0xFF = take_bit 8 c"
    by (simp add: take_bit_eq_mask mask_eq_exp_minus_1)
  also have "\<dots> = ucast (ucast c :: u8)"
    by (rule bit_word_eqI) (auto simp: bit_simps)
  finally have "c AND 0xFF = ucast (ucast c :: u8)" .
  moreover have "4 * unat (n div 4) = unat n"
    using True by (auto simp: unat_div_distrib mod4_iff)
  ultimately show ?thesis
    using True stosl_eq [OF refl, of "c AND 0xFF" "ucast c" "unat (n div 4)"] unat_u32_less [of n]
    by (simp add: memset_def Let_def word_less_nat_alt)
next
  case False
  then show ?thesis
    using stosb_eq [of "unat n"] unat_u32_less [of n]
    by (auto simp: memset_def word_less_nat_alt)
qed

lemma copy_up_eq:
  assumes "n \<le> 4294967295" and "\<not> (0 < unat (d - s) \<and> unat (d - s) < n)"
  shows "copy_up m d s n = (\<lambda>a. if unat (a - d) < n then m (s + (a - d)) else m a)"
  using assms
proof (induction n arbitrary: m d s)
  case (Suc n)
  let ?m = "m(d := m s)"
  have "copy_up ?m (d + 1) (s + 1) n
      = (\<lambda>a. if unat (a - (d + 1)) < n then ?m (s + 1 + (a - (d + 1))) else ?m a)"
    using Suc.prems by (intro Suc.IH) auto
  moreover have "(if unat (a - (d + 1)) < n then ?m (s + 1 + (a - (d + 1))) else ?m a)
      = (if unat (a - d) < Suc n then m (s + (a - d)) else m a)" for a
  proof (cases "a = d")
    case False
    then have nz: "unat (a - d) > 0" and un: "unat (a - (d + 1)) = unat (a - d) - 1"
      using unat_minus_1 [of "a - d"] by (simp_all add: diff_diff_eq unat_gt_0)
    have "s + (a - d) \<noteq> d" if "unat (a - d) < Suc n"
    proof
      assume "s + (a - d) = d"
      then have "d - s = a - d" by (simp add: algebra_simps)
      with Suc.prems(2) nz that show False by simp
    qed
    with False nz un show ?thesis by (auto simp: algebra_simps)
  qed simp
  ultimately show ?case by simp
qed simp

lemma copy_down_eq:
  assumes "n \<le> 4294967295" and "\<not> (0 < unat (s - d) \<and> unat (s - d) < n)"
  shows "copy_down m (d + of_nat n) (s + of_nat n) n
      = (\<lambda>a. if unat (a - d) < n then m (s + (a - d)) else m a)"
  using assms
proof (induction n arbitrary: m)
  case (Suc n)
  let ?m = "m(d + of_nat n := m (s + of_nat n))"
  have un: "unat (of_nat n :: u32) = n"
    using Suc.prems(1) by (simp add: unat_of_nat)
  have "copy_down ?m (d + of_nat n) (s + of_nat n) n
      = (\<lambda>a. if unat (a - d) < n then ?m (s + (a - d)) else ?m a)"
    using Suc.prems by (intro Suc.IH) auto
  moreover have "(if unat (a - d) < n then ?m (s + (a - d)) else ?m a)
      = (if unat (a - d) < Suc n then m (s + (a - d)) else m a)" for a
  proof (cases "a = d + of_nat n")
    case False
    have ne: "unat (a - d) \<noteq> n"
    proof
      assume "unat (a - d) = n"
      then have "a - d = of_nat n" by (simp flip: \<open>unat (a - d) = n\<close>)
      with False show False by (simp add: algebra_simps)
    qed
    have "s + (a - d) \<noteq> d + of_nat n" if "unat (a - d) < n"
    proof
      assume "s + (a - d) = d + of_nat n"
      then have "s - d = of_nat n - (a - d)" by (simp add: algebra_simps)
      then have "unat (s - d) = unat (of_nat n - (a - d))" by (simp only:)
      also have "\<dots> = n - unat (a - d)"
        using that un unat_sub [of "a - d" "of_nat n"] by (simp add: word_le_nat_alt)
      finally have "unat (s - d) = n - unat (a - d)" .
      with Suc.prems(2) that show False by simp
    qed
    with False ne show ?thesis by auto
  qed (simp add: un)
  ultimately show ?case by (simp add: algebra_simps)
qed simp

text \<open>
  \<open>memmove\<close> copies as if through a snapshot of the source, whether or not the two regions
  overlap, as long as neither runs past the end of the address space.
\<close>

lemma memmove_eq:
  assumes "unat src + unat n < 4294967296" and "unat dst + unat n < 4294967296"
  shows "memmove m dst src n = (\<lambda>a. if a - dst < n then m (src + (a - dst)) else m a)"
proof -
  have len: "unat n \<le> 4294967295" using assms(1) by simp
  have sn: "unat (src + n) = unat src + unat n"
    using assms(1) by (simp add: unat_word_ariths)
  show ?thesis
  proof (cases "src < dst \<and> src + n > dst")
    case True
    then have "unat src < unat dst" by (simp add: word_less_nat_alt)
    then have "unat (src - dst) = 4294967296 + unat src - unat dst"
      by (simp add: unat_sub_if' )
    then have "\<not> (0 < unat (src - dst) \<and> unat (src - dst) < unat n)"
      using assms(2) by simp
    with True show ?thesis
      using copy_down_eq [OF len, of src dst] by (simp add: memmove_def word_less_nat_alt)
  next
    case False
    have "\<not> (0 < unat (dst - src) \<and> unat (dst - src) < unat n)"
    proof (cases "src \<le> dst")
      case True
      with False sn show ?thesis
        by (auto simp: word_le_nat_alt word_less_nat_alt unat_sub)
    next
      case False
      then show ?thesis
        using assms(1) by (simp add: unat_sub_if' word_le_nat_alt)
    qed
    with False show ?thesis
      using copy_up_eq [OF len, of dst src] by (auto simp: memmove_def word_less_nat_alt)
  qed
qed

section \<open>What the string routines compute\<close>

text \<open>
  The string an object holds when at most \<open>n\<close> bytes of it are looked at, and that looking
  at it stays inside the object: it has \<open>n\<close> bytes or a NUL.
\<close>

definition cstr :: "nat \<Rightarrow> u8 list \<Rightarrow> u8 list" where
  "cstr n s = takeWhile (\<lambda>c. c \<noteq> 0) (take n s)"

definition readable_str :: "nat \<Rightarrow> u8 list \<Rightarrow> bool" where
  "readable_str n s \<longleftrightarrow> n \<le> length s \<or> 0 \<in> set s"

lemma cstr_0 [simp]: "cstr 0 s = []"
  by (simp add: cstr_def)

lemma cstr_Cons [simp]: "cstr (Suc n) (x # s) = (if x = 0 then [] else x # cstr n s)"
  by (simp add: cstr_def)

lemma cstr_Nil [simp]: "cstr n [] = []"
  by (simp add: cstr_def)

lemma readable_Cons: "readable_str (Suc n) (x # s) \<longleftrightarrow> x = 0 \<or> readable_str n s"
  by (auto simp: readable_str_def)

lemma not_readable_Nil: "\<not> readable_str (Suc n) []"
  by (simp add: readable_str_def)

lemma length_cstr: "length (cstr n s) \<le> n"
  unfolding cstr_def by (metis length_take length_takeWhile_le min.bounded_iff order_trans order_refl)

lemma cstr_nonzero: "0 \<notin> set (cstr n s)"
  by (auto simp: cstr_def dest: set_takeWhileD)

lemma strncmp_readable:
  assumes "readable_str n p" and "readable_str n q"
  shows "\<exists>r. strncmp p q n = Some r \<and> (r = 0 \<longleftrightarrow> cstr n p = cstr n q)"
  using assms
proof (induction p q n rule: strncmp.induct)
  case (2 x p y q n)
  show ?case
  proof (cases "x \<noteq> 0 \<and> x = y")
    case True
    with 2 show ?thesis by (auto simp: readable_Cons)
  next
    case False
    moreover have "uint x - uint y = 0 \<longleftrightarrow> x = y"
      by (simp add: word_uint_eq_iff)
    ultimately show ?thesis by auto
  qed
qed (auto simp: not_readable_Nil)

lemma zero_fill_eq: "n \<le> length s \<Longrightarrow> zero_fill s n = Some (replicate n 0 @ drop n s)"
  by (induction s n rule: zero_fill.induct) auto

lemma strncpy_eq:
  assumes "n \<le> length s" and "readable_str n t"
  shows "strncpy s t n = Some (cstr n t @ replicate (n - length (cstr n t)) 0 @ drop n s)"
  using assms
  by (induction s t n rule: strncpy.induct) (auto simp: readable_Cons not_readable_Nil zero_fill_eq)

lemma copy_nul_eq:
  assumes "n < length s" and "readable_str n t"
  shows "\<exists>r. copy_nul s t n = Some (cstr n t @ 0 # r) \<and> length s = length (cstr n t) + Suc (length r)"
  using assms
proof (induction s t n rule: copy_nul.induct)
  case (2 x s y t n)
  show ?case
  proof (cases "y = 0")
    case True
    then show ?thesis using "2.prems" by (cases s) auto
  next
    case False
    then show ?thesis using 2 by (auto simp: readable_Cons)
  qed
qed (auto simp: not_readable_Nil)

lemma strlen_eq: "0 \<in> set s \<Longrightarrow> strlen s = Some (length (takeWhile (\<lambda>c. c \<noteq> 0) s))"
  by (induction s) auto

lemma cstr_append_zero: "0 \<notin> set c \<Longrightarrow> length c < n \<Longrightarrow> cstr n (c @ 0 # r) = c"
proof (induction c arbitrary: n)
  case Nil
  then show ?case by (cases n) auto
next
  case (Cons x c)
  then show ?case by (cases n) auto
qed

lemma cstr_append_long: "0 \<notin> set c \<Longrightarrow> length c = n \<Longrightarrow> cstr n (c @ r) = c"
  by (induction c arbitrary: n) auto

text \<open>A copied name compares equal to its source, and only to sources that share it.\<close>

lemma cstr_strncpy:
  assumes "n \<le> length s" "readable_str n t" "strncpy s t n = Some r"
  shows "cstr n r = cstr n t" "length r = length s"
proof -
  let ?c = "cstr n t"
  have r: "r = ?c @ replicate (n - length ?c) 0 @ drop n s"
    using strncpy_eq [OF assms(1,2)] assms(3) by simp
  show "cstr n r = ?c"
  proof (cases "length ?c = n")
    case True
    then show ?thesis using r cstr_append_long [OF cstr_nonzero] by simp
  next
    case False
    then obtain k where "n - length ?c = Suc k"
      using length_cstr [of n t] by (metis Suc_diff_Suc le_neq_implies_less)
    with r False show ?thesis
      using cstr_append_zero [OF cstr_nonzero] length_cstr [of n t] by simp
  qed
  show "length r = length s" using r assms(1) length_cstr [of n t] by simp
qed

section \<open>Properties\<close>

text \<open>
  C30: \<open>memmove\<close> copies \<open>n\<close> bytes as if it had taken a snapshot of the source first, also when
  source and destination overlap in either direction, and changes no other byte, provided
  neither region runs past the end of the address space.
\<close>

theorem memmove_snapshot:
  assumes "unat src + unat n < 2 ^ 32" and "unat dst + unat n < 2 ^ 32"
  shows "memmove m dst src n = (\<lambda>a. if a - dst < n then m (src + (a - dst)) else m a)"
  by (rule memmove_eq) (use assms in simp_all)

theorem memmove_snapshot_witness:
  "memmove (\<lambda>a. ucast a) 10 8 4 = (\<lambda>a. if a - 10 < 4 then ucast (8 + (a - 10)) else ucast a)"
  using memmove_snapshot [of 8 4 10 "\<lambda>a. ucast a"] by simp

text \<open>
  \<open>memset\<close>, whether it stores words or bytes, fills exactly the \<open>n\<close> bytes from \<open>dst\<close> on with
  the low byte of \<open>c\<close> and leaves the rest of memory alone.
\<close>

theorem memset_fills: "memset m dst c n = (\<lambda>a. if a - dst < n then ucast c else m a)"
  by (rule memset_eq)

text \<open>
  C36: a name copied with \<open>strncpy\<close> into an array of at least \<open>n\<close> bytes stays inside the array,
  and \<open>strncmp\<close> with the same bound then reports a string equal to the copy exactly when it
  is equal to the original up to \<open>n\<close> bytes.
\<close>

theorem strncpy_strncmp:
  assumes "n \<le> length s" and "readable_str n t"
  shows "\<exists>r. strncpy s t n = Some r \<and> length r = length s \<and>
    (\<forall>u. readable_str n u \<longrightarrow> (strncmp u r n = Some 0 \<longleftrightarrow> cstr n u = cstr n t))"
proof -
  obtain r where r: "strncpy s t n = Some r" using strncpy_eq [OF assms] by blast
  note c = cstr_strncpy [OF assms r]
  have rr: "readable_str n r" using c(2) assms(1) by (simp add: readable_str_def)
  have "strncmp u r n = Some 0 \<longleftrightarrow> cstr n u = cstr n t" if "readable_str n u" for u
    using strncmp_readable [OF that rr] c(1) by auto
  with r c(2) show ?thesis by blast
qed

theorem strncpy_strncmp_witness:
  "\<exists>r. strncpy (replicate 4 7) [105, 100, 0] 4 = Some r \<and> length r = 4 \<and>
    (\<forall>u. readable_str 4 u \<longrightarrow> (strncmp u r 4 = Some 0 \<longleftrightarrow> cstr 4 u = cstr 4 [105, 100, 0]))"
  using strncpy_strncmp [of 4 "replicate 4 7" "[105, 100, 0]"] by (simp add: readable_str_def)

text \<open>
  \<open>safestrcpy\<close> with \<open>n > 0\<close> into an array of at least \<open>n\<close> bytes keeps the array's length,
  leaves a NUL among the first \<open>n\<close> bytes and stores the first \<open>n - 1\<close> bytes of the source
  string before it.
\<close>

theorem safestrcpy_terminates:
  assumes "0 < n" and "nat n \<le> length s" and "readable_str (nat n - 1) t"
  shows "\<exists>r. safestrcpy s t n = Some r \<and> length r = length s \<and> 0 \<in> set (take (nat n) r) \<and>
    takeWhile (\<lambda>c. c \<noteq> 0) r = cstr (nat n - 1) t"
proof -
  let ?k = "nat n - 1"
  have k: "nat (n - 1) = ?k" using assms(1) by simp
  obtain r where r: "copy_nul s t ?k = Some (cstr ?k t @ 0 # r)"
    "length s = length (cstr ?k t) + Suc (length r)"
    using copy_nul_eq [of ?k s t] assms by fastforce
  have "0 \<in> set (take (nat n) (cstr ?k t @ 0 # r))"
    using length_cstr [of ?k t] assms(1) by (auto simp: take_Cons')
  moreover have "takeWhile (\<lambda>c. c \<noteq> 0) (cstr ?k t @ 0 # r) = cstr ?k t"
    using cstr_nonzero [of ?k t] by (subst takeWhile_append2) auto
  ultimately show ?thesis using r assms(1) k by (simp add: safestrcpy_def)
qed

theorem safestrcpy_terminates_witness:
  "\<exists>r. safestrcpy (replicate 16 9) [115, 104, 0] 16 = Some r \<and> length r = 16 \<and>
    0 \<in> set (take 16 r) \<and> takeWhile (\<lambda>c. c \<noteq> 0) r = cstr 15 [115, 104, 0]"
  using safestrcpy_terminates [of 16 "replicate 16 9" "[115, 104, 0]"]
  by (simp add: readable_str_def)

end
