(* ===== verification/Kalloc.thy ===== *)
theory Kalloc
  imports Spinlock KString
begin

unbundle bit_operations_syntax

text \<open>
  kernel/kalloc.c, the physical page allocator. The free pages form a linked list threaded
  through the pages themselves: the first word of a free page is the address of the next one.
  The state adds the byte memory, the allocator's globals and the two linker symbols the code
  uses (\<open>end\<close>, the first address after the kernel image, and \<open>data\<close>, the start of its data).
\<close>

section \<open>State and operations\<close>

record mst = lst +
  mem :: mem
  kend :: u32
  kdata :: u32
  use_lock :: bool
  freelist :: u32

definition upd_mem :: "(mem \<Rightarrow> mem) \<Rightarrow> 'a mst_scheme \<Rightarrow> 'a mst_scheme" where
  "upd_mem f s = s\<lparr>mem := f (mem s)\<rparr>"

definition kfree :: "u32 \<Rightarrow> 'a mst_scheme \<Rightarrow> ('a mst_scheme, unit) res" where
  "kfree v s =
     (if v mod PGSIZE \<noteq> 0 \<or> v < kend s \<or> V2P v \<ge> PHYSTOP then Panic ''kfree''
      else
        let s = s\<lparr>mem := memset (mem s) v 1 PGSIZE\<rparr> in
        bind (if use_lock s then acquire Lkmem s else Ok () s) (\<lambda>_ s.
        let s = s\<lparr>mem := store32 (mem s) v (freelist s)\<rparr>;
            s = s\<lparr>freelist := v\<rparr> in
        if use_lock s then release Lkmem s else Ok () s))"

definition kalloc :: "'a mst_scheme \<Rightarrow> ('a mst_scheme, u32) res" where
  "kalloc s =
     bind (if use_lock s then acquire Lkmem s else Ok () s) (\<lambda>_ s.
     let r = freelist s;
         s = (if r \<noteq> 0 then s\<lparr>freelist := load32 (mem s) r\<rparr> else s) in
     bind (if use_lock s then release Lkmem s else Ok () s) (\<lambda>_ s. Ok r s))"

fun freerange_loop :: "nat \<Rightarrow> u32 \<Rightarrow> u32 \<Rightarrow> 'a mst_scheme \<Rightarrow> ('a mst_scheme, unit) res" where
  "freerange_loop 0 p vend s = Hang"
| "freerange_loop (Suc fuel) p vend s =
     (if p + PGSIZE \<le> vend
      then bind (kfree p s) (\<lambda>_ s. freerange_loop fuel (p + PGSIZE) vend s)
      else Ok () s)"

text \<open>Page numbers wrap after \<open>2 ^ 20\<close> steps, so a loop with more iterations never ends.\<close>

definition freerange :: "u32 \<Rightarrow> u32 \<Rightarrow> 'a mst_scheme \<Rightarrow> ('a mst_scheme, unit) res" where
  "freerange vstart vend s = freerange_loop 1048577 (PGROUNDUP vstart) vend s"

definition kinit1 :: "u32 \<Rightarrow> u32 \<Rightarrow> 'a mst_scheme \<Rightarrow> ('a mst_scheme, unit) res" where
  "kinit1 vstart vend s =
     (let s = (initlock Lkmem ''kmem'' s)\<lparr>use_lock := False\<rparr> in freerange vstart vend s)"

definition kinit2 :: "u32 \<Rightarrow> u32 \<Rightarrow> 'a mst_scheme \<Rightarrow> ('a mst_scheme, unit) res" where
  "kinit2 vstart vend s =
     bind (freerange vstart vend s) (\<lambda>_ s. Ok () (s\<lparr>use_lock := True\<rparr>))"

section \<open>Lock operations leave the allocator's state alone\<close>

lemma mst_more_lock [simp]:
  "lst.more (push s) = lst.more s" "lst.more (pop s) = lst.more s"
  "lst.more (hold l s) = lst.more s" "lst.more (unhold l s) = lst.more s"
  by (simp_all add: push_def pop_def hold_def unhold_def)

lemma lock_fields_mst [simp]:
  "mem (hold l s) = mem s" "kend (hold l s) = kend s" "kdata (hold l s) = kdata s"
  "use_lock (hold l s) = use_lock s" "freelist (hold l s) = freelist s"
  "mem (unhold l s) = mem s" "kend (unhold l s) = kend s" "kdata (unhold l s) = kdata s"
  "use_lock (unhold l s) = use_lock s" "freelist (unhold l s) = freelist s"
  by (simp_all add: hold_def unhold_def push_def pop_def)

lemma unhold_mst [simp]:
  "unhold l (s\<lparr>mem := x\<rparr>) = (unhold l s)\<lparr>mem := x\<rparr>"
  "unhold l (s\<lparr>freelist := y\<rparr>) = (unhold l s)\<lparr>freelist := y\<rparr>"
  "hold l (s\<lparr>mem := x\<rparr>) = (hold l s)\<lparr>mem := x\<rparr>"
  "hold l (s\<lparr>freelist := y\<rparr>) = (hold l s)\<lparr>freelist := y\<rparr>"
  by (simp_all add: unhold_def pop_def hold_def push_def curcpu_def cur_def)

lemma cpu_mst [simp]:
  "cur (s\<lparr>mem := x\<rparr>) = cur s" "cur (s\<lparr>freelist := y\<rparr>) = cur s"
  "curcpu (s\<lparr>mem := x\<rparr>) = curcpu s" "curcpu (s\<lparr>freelist := y\<rparr>) = curcpu s"
  "curproc (s\<lparr>mem := x\<rparr>) = curproc s" "curproc (s\<lparr>freelist := y\<rparr>) = curproc s"
  "quiet (s\<lparr>mem := x\<rparr>) = quiet s" "quiet (s\<lparr>freelist := y\<rparr>) = quiet s"
  "lk_free l (s\<lparr>mem := x\<rparr>) = lk_free l s" "lk_free l (s\<lparr>freelist := y\<rparr>) = lk_free l s"
  "lk_held l (s\<lparr>mem := x\<rparr>) = lk_held l s" "lk_held l (s\<lparr>freelist := y\<rparr>) = lk_held l s"
  by (simp_all add: cur_def curcpu_def curproc_def quiet_def lk_free_def lk_held_def)

text \<open>When the lock is free, both functions are what they are between the lock operations.\<close>

definition km_ready :: "'a mst_scheme \<Rightarrow> bool" where
  "km_ready s \<longleftrightarrow> quiet s \<and> lk_free Lkmem s"

definition page_ok :: "u32 \<Rightarrow> u32 \<Rightarrow> bool" where
  "page_ok e p \<longleftrightarrow> aligned p \<and> e \<le> p \<and> V2P p < PHYSTOP"

lemma mod_PGSIZE: "v mod PGSIZE = 0 \<longleftrightarrow> aligned v"
proof -
  have "unat (v mod PGSIZE) = unat v mod 4096" by (simp add: unat_mod_distrib)
  then show ?thesis by (metis aligned_iff unat_eq_zero)
qed

lemma kfree_ready:
  "km_ready s \<Longrightarrow> kfree v s = (if page_ok (kend s) v
     then Ok () (s\<lparr>mem := store32 (memset (mem s) v 1 PGSIZE) v (freelist s), freelist := v\<rparr>)
     else Panic ''kfree'')"
  by (auto simp: kfree_def km_ready_def page_ok_def mod_PGSIZE lock_eqs Let_def not_less not_le)

lemma kalloc_ready:
  "km_ready s \<Longrightarrow> kalloc s = Ok (freelist s)
     (if freelist s = 0 then s else s\<lparr>freelist := load32 (mem s) (freelist s)\<rparr>)"
  by (auto simp: kalloc_def km_ready_def lock_eqs Let_def)

section \<open>The free list as a stack of pages\<close>

fun flist :: "mem \<Rightarrow> u32 \<Rightarrow> u32 list \<Rightarrow> bool" where
  "flist m p [] \<longleftrightarrow> p = 0"
| "flist m p (x # xs) \<longleftrightarrow> p = x \<and> x \<noteq> 0 \<and> flist m (load32 m x) xs"

definition free_inv :: "'a mst_scheme \<Rightarrow> u32 list \<Rightarrow> bool" where
  "free_inv s xs \<longleftrightarrow> km_ready s \<and> KERNBASE < kend s \<and> flist (mem s) (freelist s) xs \<and> distinct xs \<and>
     (\<forall>x\<in>set xs. page_ok (kend s) x)"

text \<open>Two memories that agree outside a set of frames.\<close>

definition same_outside :: "u32 set \<Rightarrow> mem \<Rightarrow> mem \<Rightarrow> bool" where
  "same_outside P m m' \<longleftrightarrow> (\<forall>a. PGROUNDDOWN a \<notin> P \<longrightarrow> m' a = m a)"

lemma same_outside_refl [simp]: "same_outside P m m"
  by (simp add: same_outside_def)

lemma same_outside_trans:
  "same_outside P m m' \<Longrightarrow> same_outside Q m' m'' \<Longrightarrow> P \<union> Q \<subseteq> R \<Longrightarrow> same_outside R m m''"
  unfolding same_outside_def by (metis UnCI subsetD)

lemma same_outside_mono: "same_outside P m m' \<Longrightarrow> P \<subseteq> Q \<Longrightarrow> same_outside Q m m'"
  unfolding same_outside_def by blast

lemma same_outside_load32:
  "same_outside P m m' \<Longrightarrow> aligned4 a \<Longrightarrow> PGROUNDDOWN a \<notin> P \<Longrightarrow> load32 m' a = load32 m a"
  by (rule load32_frame_cong) (auto simp: same_outside_def)

lemma flist_cong:
  "(\<And>x. x \<in> set xs \<Longrightarrow> load32 m' x = load32 m x) \<Longrightarrow> flist m' p xs = flist m p xs"
  by (induction xs arbitrary: p) auto

lemma page_ok_aligned: "page_ok e p \<Longrightarrow> aligned p"
  by (simp add: page_ok_def)

lemma page_ok_nz: "page_ok e p \<Longrightarrow> KERNBASE < e \<Longrightarrow> p \<noteq> 0 \<and> V2P p \<noteq> 0"
  by (auto simp: page_ok_def V2P_def)

lemma free_inv_mem:
  assumes "free_inv s xs" "same_outside P (mem s) m'" "P \<inter> set xs = {}"
  shows "free_inv (s\<lparr>mem := m'\<rparr>) xs"
proof -
  have "load32 m' x = load32 (mem s) x" if "x \<in> set xs" for x
  proof -
    have "aligned x" using assms(1) that by (auto simp: free_inv_def page_ok_def)
    moreover have "x \<notin> P" using assms(3) that by blast
    ultimately show ?thesis
      using same_outside_load32 [OF assms(2), of x] by (simp add: aligned_aligned4 PGROUNDDOWN_id)
  qed
  then show ?thesis
    using assms(1) flist_cong [of xs m' "mem s"] by (simp add: free_inv_def km_ready_def)
qed

lemma kfree_memory: "aligned v \<Longrightarrow> same_outside {v} m (store32 (memset m v 1 PGSIZE) v w)"
  by (auto simp: same_outside_def memset_eq in_frame_iff store32_frame aligned_aligned4 PGROUNDDOWN_id)

lemma kfree_push:
  assumes "free_inv s xs" "page_ok (kend s) v" "v \<notin> set xs"
  shows "\<exists>s'. kfree v s = Ok () s' \<and> free_inv s' (v # xs) \<and> same_outside {v} (mem s) (mem s') \<and>
    s' = s\<lparr>mem := mem s', freelist := v\<rparr>"
proof -
  let ?m = "store32 (memset (mem s) v 1 PGSIZE) v (freelist s)"
  have fr: "same_outside {v} (mem s) ?m"
    using assms(2) by (intro kfree_memory page_ok_aligned)
  have "free_inv (s\<lparr>mem := ?m\<rparr>) xs"
    using free_inv_mem [OF assms(1) fr] assms(3) by simp
  moreover have "v \<noteq> 0" using assms page_ok_nz by (auto simp: free_inv_def)
  ultimately have "free_inv (s\<lparr>mem := ?m, freelist := v\<rparr>) (v # xs)"
    using assms by (simp add: free_inv_def km_ready_def)
  moreover have "kfree v s = Ok () (s\<lparr>mem := ?m, freelist := v\<rparr>)"
    using assms by (simp add: kfree_ready free_inv_def)
  ultimately show ?thesis using fr by simp
qed

lemma kalloc_pop:
  assumes "free_inv s (x # xs)"
  shows "\<exists>s'. kalloc s = Ok x s' \<and> free_inv s' xs \<and> s' = s\<lparr>freelist := freelist s'\<rparr>"
  using assms by (auto simp: free_inv_def kalloc_ready km_ready_def)

lemma kalloc_empty: "free_inv s [] \<Longrightarrow> kalloc s = Ok 0 s"
  by (auto simp: free_inv_def kalloc_ready)

section \<open>The allocator's contract\<close>

text \<open>
  What a client of a page allocator relies on: while pages are free an allocation hands out
  one of them, a page handed back is free again, and neither touches memory other than the
  page handed back. The virtual memory code uses the allocator through this contract.
\<close>

locale page_allocator =
  fixes alloc :: "'s \<Rightarrow> ('s, u32) res"
    and free :: "u32 \<Rightarrow> 's \<Rightarrow> ('s, unit) res"
    and inv :: "'s \<Rightarrow> u32 list \<Rightarrow> bool"
    and valid :: "'s \<Rightarrow> u32 \<Rightarrow> bool"
    and memory :: "'s \<Rightarrow> mem"
  assumes alloc_some: "inv s (x # xs) \<Longrightarrow> \<exists>s'. alloc s = Ok x s' \<and> inv s' xs \<and>
      memory s' = memory s \<and> valid s' = valid s"
    and alloc_none: "inv s [] \<Longrightarrow> alloc s = Ok 0 s"
    and free_page: "inv s xs \<Longrightarrow> valid s v \<Longrightarrow> v \<notin> set xs \<Longrightarrow> \<exists>s'. free v s = Ok () s' \<and>
      inv s' (v # xs) \<and> same_outside {v} (memory s) (memory s') \<and> valid s' = valid s"
    and inv_distinct: "inv s xs \<Longrightarrow> distinct xs"
    and inv_valid: "inv s xs \<Longrightarrow> x \<in> set xs \<Longrightarrow> valid s x \<and> x \<noteq> 0"
begin

text \<open>\<open>n\<close> allocations in a row.\<close>

fun alloc_n :: "nat \<Rightarrow> 's \<Rightarrow> ('s, u32 list) res" where
  "alloc_n 0 s = Ok [] s"
| "alloc_n (Suc n) s = bind (alloc s) (\<lambda>p s. bind (alloc_n n s) (\<lambda>ps s. Ok (p # ps) s))"

lemma alloc_n_distinct:
  assumes "inv s xs" "n \<le> length xs"
  shows "\<exists>s'. alloc_n n s = Ok (take n xs) s' \<and> inv s' (drop n xs) \<and> memory s' = memory s \<and>
    distinct (take n xs) \<and> 0 \<notin> set (take n xs)"
  using assms
proof (induction n arbitrary: s xs)
  case (Suc n)
  from Suc.prems obtain x ys where xs: "xs = x # ys" by (cases xs) auto
  with Suc.prems obtain s1 where s1: "alloc s = Ok x s1" "inv s1 ys" "memory s1 = memory s"
    using alloc_some by blast
  from Suc.IH [OF s1(2)] Suc.prems(2) xs obtain s2 where
    "alloc_n n s1 = Ok (take n ys) s2" "inv s2 (drop n ys)" "memory s2 = memory s1"
    "0 \<notin> set (take n ys)" by auto
  moreover have "x \<noteq> 0" using inv_valid [OF Suc.prems(1)] xs by simp
  moreover have "distinct (take (Suc n) xs)"
    using inv_distinct [OF Suc.prems(1)] by (rule distinct_take)
  ultimately show ?case using s1 xs by simp
qed simp

lemma free_then_alloc:
  assumes "inv s xs" "valid s v" "v \<notin> set xs"
  shows "\<exists>s'. bind (free v s) (\<lambda>_ s. alloc s) = Ok v s' \<and> inv s' xs \<and>
    same_outside {v} (memory s) (memory s')"
  using free_page [OF assms] alloc_some by fastforce

end

interpretation kp: page_allocator kalloc kfree free_inv "\<lambda>s. page_ok (kend s)" mem
proof
  fix s :: "'a mst_scheme" and x xs
  assume "free_inv s (x # xs)"
  then obtain s' where s': "kalloc s = Ok x s'" "free_inv s' xs" "s' = s\<lparr>freelist := freelist s'\<rparr>"
    using kalloc_pop by blast
  have "mem s' = mem s" "kend s' = kend s" by (subst s'(3), simp)+
  with s' show "\<exists>s'. kalloc s = Ok x s' \<and> free_inv s' xs \<and> mem s' = mem s \<and>
      page_ok (kend s') = page_ok (kend s)" by auto
next
  fix s :: "'a mst_scheme" and xs v
  assume "free_inv s xs" "page_ok (kend s) v" "v \<notin> set xs"
  then obtain s' where s': "kfree v s = Ok () s'" "free_inv s' (v # xs)"
    "same_outside {v} (mem s) (mem s')" "s' = s\<lparr>mem := mem s', freelist := v\<rparr>"
    using kfree_push by blast
  have "kend s' = kend s" by (subst s'(4), simp)
  with s' show "\<exists>s'. kfree v s = Ok () s' \<and> free_inv s' (v # xs) \<and>
      same_outside {v} (mem s) (mem s') \<and> page_ok (kend s') = page_ok (kend s)" by auto
next
  show "free_inv s xs \<Longrightarrow> x \<in> set xs \<Longrightarrow> page_ok (kend s) x \<and> x \<noteq> 0"
    for s :: "'a mst_scheme" and x xs using page_ok_nz by (auto simp: free_inv_def)
qed (auto simp: kalloc_empty free_inv_def)

section \<open>Handing a range of memory to the allocator\<close>

definition range_pages :: "u32 \<Rightarrow> nat \<Rightarrow> u32 list" where
  "range_pages p n = map (\<lambda>k. p + 4096 * of_nat k) [0..<n]"

lemma range_pages_Suc: "range_pages p (Suc n) = p # range_pages (p + PGSIZE) n"
  by (simp add: range_pages_def map_upt_Suc algebra_simps del: upt_Suc)

lemma aligned_add: "aligned a \<Longrightarrow> aligned (a + PGSIZE)"
  by (auto simp: aligned_iff unat_word_ariths mod_mod_cancel elim!: alignedE)

lemma unat_page:
  fixes p :: u32
  assumes "unat p + 4096 * k < 4294967296"
  shows "unat (p + 4096 * of_nat k) = unat p + 4096 * k"
proof -
  have eq: "p + 4096 * of_nat k = of_nat (unat p + 4096 * k)" by simp
  show ?thesis unfolding eq using assms by (rule unat_of_nat32)
qed

lemma PGROUNDUP_ge:
  assumes "unat a \<le> 4294963200"
  shows "a \<le> PGROUNDUP a \<and> aligned (PGROUNDUP a)"
proof -
  have "PGROUNDUP a = PGROUNDDOWN (a + 0xFFF)" by (simp add: PGROUNDUP_def PGROUNDDOWN_def add.commute)
  moreover have "unat (a + 0xFFF) = unat a + 4095" using assms by (simp add: unat_word_ariths)
  ultimately show ?thesis by (simp add: word_le_nat_alt unat_PGROUNDDOWN)
qed

lemma freerange_loop_ok:
  assumes "free_inv s xs" and "\<And>v. v \<in> set (range_pages p n) \<Longrightarrow> page_ok (kend s) v \<and> v \<notin> set xs"
    and "unat p + 4096 * n \<le> unat vend" "unat vend < unat p + 4096 * Suc n"
    and "unat p + 4096 * Suc n < 4294967296" and "n < fuel"
  shows "\<exists>s'. freerange_loop fuel p vend s = Ok () s' \<and>
    free_inv s' (rev (range_pages p n) @ xs) \<and> kend s' = kend s \<and>
    same_outside (set (range_pages p n)) (mem s) (mem s')"
  using assms
proof (induction n arbitrary: s xs p fuel)
  case 0
  then have "\<not> p + PGSIZE \<le> vend"
    by (simp add: word_le_nat_alt unat_word_ariths)
  moreover obtain f where "fuel = Suc f" using "0.prems"(6) by (cases fuel) auto
  ultimately show ?case using "0.prems"(1) by (simp add: range_pages_def)
next
  case (Suc n)
  obtain f where f: "fuel = Suc f" using Suc.prems(6) by (cases fuel) auto
  have up: "unat (p + PGSIZE) = unat p + 4096"
    using Suc.prems(5) by (simp add: unat_word_ariths)
  have le: "p + PGSIZE \<le> vend" using Suc.prems(3) by (simp add: word_le_nat_alt up)
  have p: "page_ok (kend s) p" "p \<notin> set xs" using Suc.prems(2) by (simp_all add: range_pages_Suc)
  obtain s1 where s1: "kfree p s = Ok () s1" "free_inv s1 (p # xs)"
    "same_outside {p} (mem s) (mem s1)" "s1 = s\<lparr>mem := mem s1, freelist := p\<rparr>"
    using kfree_push [OF Suc.prems(1) p] by blast
  have k1: "kend s1 = kend s" by (subst s1(4)) simp
  have "p \<notin> set (range_pages (p + PGSIZE) n)"
  proof
    assume "p \<in> set (range_pages (p + PGSIZE) n)"
    then obtain k where "k < n" "p = p + PGSIZE + 4096 * of_nat k" by (auto simp: range_pages_def)
    then have "0 = (of_nat (4096 * Suc k) :: u32)" by (simp add: algebra_simps)
    moreover have "4096 * Suc k < 4294967296" using Suc.prems(5) \<open>k < n\<close> by simp
    then have "unat (of_nat (4096 * Suc k) :: u32) = 4096 * Suc k" by (rule unat_of_nat32)
    ultimately show False by (metis unat_0 mult_is_0 nat.distinct(1) zero_neq_numeral)
  qed
  then have "\<And>v. v \<in> set (range_pages (p + PGSIZE) n) \<Longrightarrow> page_ok (kend s1) v \<and> v \<notin> set (p # xs)"
    using Suc.prems(2) k1 by (auto simp: range_pages_Suc)
  then obtain s2 where "freerange_loop f (p + PGSIZE) vend s1 = Ok () s2"
    "free_inv s2 (rev (range_pages (p + PGSIZE) n) @ p # xs)" "kend s2 = kend s1"
    "same_outside (set (range_pages (p + PGSIZE) n)) (mem s1) (mem s2)"
    using Suc.IH [OF s1(2), of "p + PGSIZE" f] Suc.prems(3-6) f up by fastforce
  moreover from this(4) have "same_outside (set (range_pages p (Suc n))) (mem s) (mem s2)"
    by (rule same_outside_trans [OF s1(3)]) (auto simp: range_pages_Suc)
  ultimately show ?case
    using f le s1(1) k1 by (simp add: range_pages_Suc)
qed

section \<open>Properties\<close>

text \<open>
  C29: on a well-formed free list the allocator is a stack of pages. \<open>kalloc\<close> returns and
  removes the first free page without touching memory, or returns 0 when there is none;
  \<open>kfree\<close> of a page that is not free pushes it and writes that page only; so \<open>kalloc\<close> after
  \<open>kfree\<close> returns the page just freed.
\<close>

theorem kalloc_kfree_stack:
  assumes "free_inv s xs" and "page_ok (kend s) v" and "v \<notin> set xs"
  shows "(case xs of [] \<Rightarrow> kalloc s = Ok 0 s
      | x # ys \<Rightarrow> \<exists>t. kalloc s = Ok x t \<and> free_inv t ys \<and> mem t = mem s) \<and>
    (\<exists>t. kfree v s = Ok () t \<and> free_inv t (v # xs) \<and> same_outside {v} (mem s) (mem t)) \<and>
    (\<exists>t. bind (kfree v s) (\<lambda>_ s. kalloc s) = Ok v t \<and> free_inv t xs)"
proof (intro conjI)
  show "case xs of [] \<Rightarrow> kalloc s = Ok 0 s
      | x # ys \<Rightarrow> \<exists>t. kalloc s = Ok x t \<and> free_inv t ys \<and> mem t = mem s"
    using assms(1) kp.alloc_some kp.alloc_none by (fastforce split: list.splits)
  show "\<exists>t. kfree v s = Ok () t \<and> free_inv t (v # xs) \<and> same_outside {v} (mem s) (mem t)"
    using kp.free_page [OF assms] by blast
  show "\<exists>t. bind (kfree v s) (\<lambda>_ s. kalloc s) = Ok v t \<and> free_inv t xs"
    using kp.free_then_alloc [OF assms] by blast
qed

text \<open>A state with two free pages, at 4 MB and the page after it.\<close>

definition ex_mst :: mst where
  "ex_mst = lst.extend ex_lst \<lparr>mem = store32 (\<lambda>_. 0) 0x80400000 0x80401000,
     kend = 0x80110000, kdata = 0x80108000, use_lock = True, freelist = 0x80400000\<rparr>"

lemma ex_mst_lst: "lst.truncate ex_mst = ex_lst"
  by (simp add: ex_mst_def lst.defs)

lemma ex_mst_ready: "km_ready ex_mst"
  using lst_truncate(1) [of ex_mst] lst_truncate(2) [of _ ex_mst] ex_lst_ready
  by (simp add: ex_mst_lst km_ready_def)

lemma ex_mst_inv: "free_inv ex_mst [0x80400000, 0x80401000]"
proof -
  have "load32 (store32 (\<lambda>_. 0) 0x80400000 0x80401000) 0x80401000 = 0"
    by (subst load32_store32_other) (simp_all add: aligned4_def load32_def)
  then show ?thesis
    using ex_mst_ready
    by (simp add: free_inv_def ex_mst_def lst.defs page_ok_def aligned_def V2P_def)
qed

lemma mst_truncate: "free_inv (mst.truncate s) xs = free_inv s xs"
  by (simp add: mst.truncate_def free_inv_def km_ready_def quiet_def cur_def curcpu_def lk_free_def)

theorem kalloc_kfree_stack_witness:
  "(\<exists>t. kalloc ex_mst = Ok 0x80400000 t \<and> free_inv t [0x80401000] \<and> mem t = mem ex_mst) \<and>
    (\<exists>t. bind (kfree 0x80500000 ex_mst) (\<lambda>_ s. kalloc s) = Ok 0x80500000 t \<and>
      free_inv t [0x80400000, 0x80401000])"
  using kalloc_kfree_stack [OF ex_mst_inv, of "0x80500000"]
  by (simp add: page_ok_def ex_mst_def lst.defs aligned_def V2P_def)

text \<open>
  C31: \<open>freerange\<close> ends, panics on nothing and puts exactly the whole pages between \<open>vstart\<close> and
  \<open>vend\<close> on the free list, last page first, when the range lies between the end of the kernel
  and the top of physical memory and none of its pages is free already. It writes only those
  pages.
\<close>

theorem freerange_frees_whole_pages:
  assumes "free_inv s xs" and "n = (unat vend - unat (PGROUNDUP vstart)) div 4096"
    and "kend s \<le> vstart" and "vstart \<le> vend" and "vend \<le> P2V PHYSTOP"
    and "PGROUNDUP vstart \<le> vend" and "KERNBASE \<le> vstart"
    and "set (range_pages (PGROUNDUP vstart) n) \<inter> set xs = {}"
  shows "\<exists>t. freerange vstart vend s = Ok () t \<and>
    free_inv t (rev (range_pages (PGROUNDUP vstart) n) @ xs) \<and>
    same_outside (set (range_pages (PGROUNDUP vstart) n)) (mem s) (mem t)"
proof -
  let ?p = "PGROUNDUP vstart"
  have top: "unat vend \<le> 2382364672" "unat ?p \<le> unat vend" "2147483648 \<le> unat vstart"
    using assms(5,6,7) by (simp_all add: P2V_def word_le_nat_alt)
  have up: "unat vstart \<le> unat ?p" "aligned ?p"
    using PGROUNDUP_ge [of vstart] top assms(4) by (simp_all add: word_le_nat_alt)
  obtain r where r: "unat vend - unat ?p = 4096 * n + r" "r < 4096"
    using assms(2) by (metis mult_div_mod_eq mod_less_divisor zero_less_numeral)
  have n: "unat ?p + 4096 * n \<le> unat vend" "unat vend < unat ?p + 4096 * Suc n"
    using top(2) r by simp_all
  have "page_ok (kend s) v \<and> v \<notin> set xs" if v: "v \<in> set (range_pages ?p n)" for v
  proof -
    from v obtain k where k: "k < n" "v = ?p + 4096 * of_nat k" by (auto simp: range_pages_def)
    have uv: "unat v = unat ?p + 4096 * k"
      unfolding k(2) using k(1) n top by (intro unat_page) linarith
    have "unat (V2P v) = unat v - 2147483648"
      using uv up top by (simp add: V2P_def unat_sub word_le_nat_alt)
    with uv k n up top assms(3) have "page_ok (kend s) v"
      by (auto simp: page_ok_def word_le_nat_alt word_less_nat_alt aligned_iff)
    then show ?thesis using v assms(8) by blast
  qed
  moreover have "n < 1048577" using n top by linarith
  ultimately show ?thesis
    using freerange_loop_ok [OF assms(1), of ?p n vend 1048577] n top
    by (fastforce simp: freerange_def)
qed

lemma ex_range: "range_pages (PGROUNDUP 0x80402001) 2 = [0x80403000, 0x80404000]"
  by (simp add: range_pages_def PGROUNDUP_def upt_rec)

theorem freerange_frees_whole_pages_witness:
  "\<exists>t. freerange 0x80402001 0x80405FFF ex_mst = Ok () t \<and>
    free_inv t [0x80404000, 0x80403000, 0x80400000, 0x80401000] \<and>
    same_outside {0x80403000, 0x80404000} (mem ex_mst) (mem t)"
  using freerange_frees_whole_pages [OF ex_mst_inv, of 2 "0x80405FFF" "0x80402001"]
  by (simp add: ex_range ex_mst_def lst.defs P2V_def) (simp add: PGROUNDUP_def)

end
