(* ===== verification/Console.thy ===== *)
theory Console
  imports Kalloc
begin

unbundle bit_operations_syntax

text \<open>
  The output half of kernel/console.c with the transmitter of kernel/uart.c: characters go to
  the serial port and to the CGA screen, \<open>cprintf\<close> formats a message under the console lock,
  and \<open>panic\<close> prints and stops the machine. The serial port is the sequence of bytes written
  to its data register (waiting for the transmitter is bounded and has no other effect); the
  screen is its array of cells and the cursor register.

  A call of \<open>panic\<close> elsewhere in the model is the outcome \<open>Panic\<close> with the message.
\<close>

section \<open>State\<close>

record tty =
  uart :: bool
  uart_out :: "u8 list"
  crt :: "nat \<Rightarrow> u16"
  crt_pos :: u16

record cst = mst +
  cons_locking :: bool
  panicked :: bool
  ttyd :: tty

section \<open>Characters\<close>

abbreviation (input) BACKSPACE :: int where "BACKSPACE \<equiv> 0x100"

definition uartputc :: "int \<Rightarrow> tty \<Rightarrow> tty" where
  "uartputc c t = (if \<not> uart t then t else t\<lparr>uart_out := uart_out t @ [of_int c]\<rparr>)"

text \<open>
  The new cursor position (column plus 80 times row), and the whole routine; \<open>None\<close> is the
  panic \<open>pos under/overflow\<close>.
\<close>

definition cga_next :: "int \<Rightarrow> int \<Rightarrow> int" where
  "cga_next c pos =
     (if c = 10 then pos + (80 - pos mod 80)
      else if c = BACKSPACE then (if pos > 0 then pos - 1 else pos)
      else pos + 1)"

definition cga_scroll :: "tty \<Rightarrow> int \<Rightarrow> tty \<times> int" where
  "cga_scroll t pos =
     (if pos div 80 \<ge> 24
      then let cells = (\<lambda>i. if i < 23 * 80 then crt t (i + 80) else crt t i);
               pos = pos - 80;
               cells = (\<lambda>i. if nat pos \<le> i \<and> i < 24 * 80 then 0 else cells i)
           in (t\<lparr>crt := cells\<rparr>, pos)
      else (t, pos))"

definition cgaputc :: "int \<Rightarrow> tty \<Rightarrow> tty option" where
  "cgaputc c t =
     (let pos = uint (crt_pos t);
          t = (if c = 10 \<or> c = BACKSPACE then t
               else t\<lparr>crt := (crt t)(nat pos := (of_int c AND 0xFF) OR 0x0700)\<rparr>);
          pos = cga_next c pos
      in
      if pos < 0 \<or> pos > 25 * 80 then None
      else
        let (t, pos) = cga_scroll t pos;
            t = t\<lparr>crt_pos := of_int pos\<rparr>
        in Some (t\<lparr>crt := (crt t)(nat pos := 0x0720)\<rparr>))"

definition consputc :: "int \<Rightarrow> 'a cst_scheme \<Rightarrow> ('a cst_scheme, unit) res" where
  "consputc c s =
     (if panicked s then Hang
      else
        let t = (if c = BACKSPACE then uartputc 8 (uartputc 32 (uartputc 8 (ttyd s)))
                 else uartputc c (ttyd s)) in
        case cgaputc c t of None \<Rightarrow> Panic ''pos under/overflow''
        | Some t \<Rightarrow> Ok () (s\<lparr>ttyd := t\<rparr>))"

fun consputs :: "int list \<Rightarrow> 'a cst_scheme \<Rightarrow> ('a cst_scheme, unit) res" where
  "consputs [] s = Ok () s"
| "consputs (c # cs) s = bind (consputc c s) (\<lambda>_ s. consputs cs s)"

section \<open>Formatted output\<close>

text \<open>
  The digits of \<open>x\<close>, last digit first, in a buffer with \<open>room\<close> bytes left; \<open>None\<close> when the
  buffer overflows.
\<close>

fun digits_rev :: "nat \<Rightarrow> string \<Rightarrow> u32 \<Rightarrow> u32 \<Rightarrow> string option" where
  "digits_rev 0 digits base x = None"
| "digits_rev (Suc room) digits base x =
     map_option ((#) (digits ! unat (x mod base)))
       (if x div base \<noteq> 0 then digits_rev room digits base (x div base) else Some [])"

definition printint_buf :: "string \<Rightarrow> u32 \<Rightarrow> u32 \<Rightarrow> bool \<Rightarrow> string option" where
  "printint_buf digits xx base sign =
     (let neg = (sign \<and> sint xx < 0);
          x = (if neg then - xx else xx) in
      case digits_rev 16 digits base x of None \<Rightarrow> None
      | Some buf \<Rightarrow> if neg then (if length buf < 16 then Some (buf @ ''-'') else None) else Some buf)"

definition printint :: "u32 \<Rightarrow> u32 \<Rightarrow> bool \<Rightarrow> 'a cst_scheme \<Rightarrow> ('a cst_scheme, unit) res" where
  "printint xx base sign s =
     (case printint_buf ''0123456789abcdef'' xx base sign of None \<Rightarrow> Fault
      | Some buf \<Rightarrow> consputs (map (\<lambda>c. of_char c) (rev buf)) s)"

text \<open>An argument on the stack: a word, or a pointer to a string (\<open>None\<close> is the null pointer).\<close>

datatype carg = Aint u32 | Astr "u8 list option"

fun cprintf_loop :: "string \<Rightarrow> carg list \<Rightarrow> 'a cst_scheme \<Rightarrow> ('a cst_scheme, unit) res" where
  "cprintf_loop [] args s = Ok () s"
| "cprintf_loop [c] args s = (if c \<noteq> CHR ''%'' then consputc (of_char c) s else Ok () s)"
| "cprintf_loop (c # d # fmt) args s =
     (if c \<noteq> CHR ''%'' then bind (consputc (of_char c) s) (\<lambda>_ s. cprintf_loop (d # fmt) args s)
      else if d = CHR ''d'' then
        (case args of Aint x # args \<Rightarrow> bind (printint x 10 True s) (\<lambda>_ s. cprintf_loop fmt args s)
         | _ \<Rightarrow> Fault)
      else if d = CHR ''x'' \<or> d = CHR ''p'' then
        (case args of Aint x # args \<Rightarrow> bind (printint x 16 False s) (\<lambda>_ s. cprintf_loop fmt args s)
         | _ \<Rightarrow> Fault)
      else if d = CHR ''s'' then
        (case args of
           Astr None # args \<Rightarrow>
             bind (consputs (map (\<lambda>c. of_char c) ''(null)'') s) (\<lambda>_ s. cprintf_loop fmt args s)
         | Astr (Some bs) # args \<Rightarrow>
             (if 0 \<notin> set bs then Fault
              else bind (consputs (map sint (takeWhile (\<lambda>b. b \<noteq> 0) bs)) s)
                (\<lambda>_ s. cprintf_loop fmt args s))
         | _ \<Rightarrow> Fault)
      else if d = CHR ''%'' then
        bind (consputc (of_char CHR ''%'') s) (\<lambda>_ s. cprintf_loop fmt args s)
      else
        bind (consputc (of_char CHR ''%'') s) (\<lambda>_ s.
        bind (consputc (of_char d) s) (\<lambda>_ s. cprintf_loop fmt args s)))"

definition cprintf :: "string \<Rightarrow> carg list \<Rightarrow> 'a cst_scheme \<Rightarrow> ('a cst_scheme, unit) res" where
  "cprintf fmt args s =
     (let locking = cons_locking s in
      bind (if locking then acquire Lcons s else Ok () s) (\<lambda>_ s.
      bind (cprintf_loop fmt args s) (\<lambda>_ s.
      if locking then release Lcons s else Ok () s)))"

section \<open>Frames\<close>

lemma lock_fields_cst [simp]:
  "cons_locking (hold l s) = cons_locking s"
  "panicked (hold l s) = panicked s"
  "ttyd (hold l s) = ttyd s"
  "cons_locking (unhold l s) = cons_locking s"
  "panicked (unhold l s) = panicked s"
  "ttyd (unhold l s) = ttyd s"
  by (simp_all add: hold_def unhold_def push_def pop_def)

lemma lock_update_cst [simp]:
  "hold l (s\<lparr>cons_locking := x_cons_locking\<rparr>) = (hold l s)\<lparr>cons_locking := x_cons_locking\<rparr>"
  "hold l (s\<lparr>panicked := x_panicked\<rparr>) = (hold l s)\<lparr>panicked := x_panicked\<rparr>"
  "hold l (s\<lparr>ttyd := x_term\<rparr>) = (hold l s)\<lparr>ttyd := x_term\<rparr>"
  "unhold l (s\<lparr>cons_locking := x_cons_locking\<rparr>) = (unhold l s)\<lparr>cons_locking := x_cons_locking\<rparr>"
  "unhold l (s\<lparr>panicked := x_panicked\<rparr>) = (unhold l s)\<lparr>panicked := x_panicked\<rparr>"
  "unhold l (s\<lparr>ttyd := x_term\<rparr>) = (unhold l s)\<lparr>ttyd := x_term\<rparr>"
  by (simp_all add: unhold_def pop_def hold_def push_def curcpu_def cur_def)

lemma cpu_frame_cst [simp]:
  "cur (s\<lparr>cons_locking := x_cons_locking\<rparr>) = cur s"
  "curcpu (s\<lparr>cons_locking := x_cons_locking\<rparr>) = curcpu s"
  "curproc (s\<lparr>cons_locking := x_cons_locking\<rparr>) = curproc s"
  "quiet (s\<lparr>cons_locking := x_cons_locking\<rparr>) = quiet s"
  "lk_free l (s\<lparr>cons_locking := x_cons_locking\<rparr>) = lk_free l s"
  "lk_held l (s\<lparr>cons_locking := x_cons_locking\<rparr>) = lk_held l s"
  "cur (s\<lparr>panicked := x_panicked\<rparr>) = cur s"
  "curcpu (s\<lparr>panicked := x_panicked\<rparr>) = curcpu s"
  "curproc (s\<lparr>panicked := x_panicked\<rparr>) = curproc s"
  "quiet (s\<lparr>panicked := x_panicked\<rparr>) = quiet s"
  "lk_free l (s\<lparr>panicked := x_panicked\<rparr>) = lk_free l s"
  "lk_held l (s\<lparr>panicked := x_panicked\<rparr>) = lk_held l s"
  "cur (s\<lparr>ttyd := x_term\<rparr>) = cur s"
  "curcpu (s\<lparr>ttyd := x_term\<rparr>) = curcpu s"
  "curproc (s\<lparr>ttyd := x_term\<rparr>) = curproc s"
  "quiet (s\<lparr>ttyd := x_term\<rparr>) = quiet s"
  "lk_free l (s\<lparr>ttyd := x_term\<rparr>) = lk_free l s"
  "lk_held l (s\<lparr>ttyd := x_term\<rparr>) = lk_held l s"
  by (simp_all add: cur_def curcpu_def curproc_def quiet_def lk_free_def lk_held_def)

lemma inv_frame_cst [simp]:
  "km_ready (s\<lparr>cons_locking := x_cons_locking\<rparr>) = km_ready s"
  "km_ready (s\<lparr>panicked := x_panicked\<rparr>) = km_ready s"
  "km_ready (s\<lparr>ttyd := x_term\<rparr>) = km_ready s"
  "free_inv (s\<lparr>cons_locking := x_cons_locking\<rparr>) xs = free_inv s xs"
  "free_inv (s\<lparr>panicked := x_panicked\<rparr>) xs = free_inv s xs"
  "free_inv (s\<lparr>ttyd := x_term\<rparr>) xs = free_inv s xs"
  by (simp_all add: km_ready_def free_inv_def)

section \<open>Printing keeps the cursor on the screen and changes nothing else\<close>

definition cons_ok :: "'a cst_scheme \<Rightarrow> bool" where
  "cons_ok s \<longleftrightarrow> \<not> panicked s \<and> uint (crt_pos (ttyd s)) < 24 * 80"

lemma cons_ok_hold [simp]: "cons_ok (hold l s) = cons_ok s" "cons_ok (unhold l s) = cons_ok s"
  by (simp_all add: cons_ok_def)

lemma uartputc_pos [simp]: "crt_pos (uartputc c t) = crt_pos t"
  by (simp add: uartputc_def)

lemma cga_next_bounds: "0 \<le> p \<Longrightarrow> p < 24 * 80 \<Longrightarrow> 0 \<le> cga_next c p \<and> cga_next c p \<le> 24 * 80"
  by (simp add: cga_next_def) presburger

lemma cga_scroll_bounds:
  assumes "0 \<le> p" "p \<le> 24 * 80"
  shows "\<exists>t' q. cga_scroll t p = (t', q) \<and> 0 \<le> q \<and> q < 24 * 80 \<and> uart t' = uart t \<and>
    uart_out t' = uart_out t"
proof (cases "p = 24 * 80")
  case False
  with assms have "\<not> 24 \<le> p div 80" by linarith
  with assms False show ?thesis by (simp add: cga_scroll_def)
qed (simp add: cga_scroll_def Let_def)

lemma cgaputc_ok:
  assumes "uint (crt_pos t) < 24 * 80"
  shows "\<exists>t'. cgaputc c t = Some t' \<and> uint (crt_pos t') < 24 * 80 \<and> uart t' = uart t \<and>
    uart_out t' = uart_out t"
proof -
  let ?p = "cga_next c (uint (crt_pos t))"
  let ?t = "if c = 10 \<or> c = BACKSPACE then t
    else t\<lparr>crt := (crt t)(nat (uint (crt_pos t)) := (of_int c AND 0xFF) OR 0x0700)\<rparr>"
  have p: "0 \<le> ?p" "?p \<le> 24 * 80" using cga_next_bounds [OF _ assms] by simp_all
  obtain t' q where q: "cga_scroll ?t ?p = (t', q)" "0 \<le> q" "q < 24 * 80"
    "uart t' = uart ?t" "uart_out t' = uart_out ?t"
    using cga_scroll_bounds [OF p] by blast
  have u: "uart ?t = uart t" "uart_out ?t = uart_out t" by simp_all
  have "uint (word_of_int q :: u16) = q" using q by (simp add: uint_word_of_int)
  with p q u show ?thesis unfolding cgaputc_def Let_def by simp
qed

text \<open>The same on the terminal alone.\<close>

definition tputc :: "int \<Rightarrow> tty \<Rightarrow> tty option" where
  "tputc c t = cgaputc c (if c = BACKSPACE then uartputc 8 (uartputc 32 (uartputc 8 t)) else uartputc c t)"

fun tputs :: "int list \<Rightarrow> tty \<Rightarrow> tty option" where
  "tputs [] t = Some t"
| "tputs (c # cs) t = (case tputc c t of None \<Rightarrow> None | Some t \<Rightarrow> tputs cs t)"

lemma consputs_tputs:
  "\<not> panicked s \<Longrightarrow> consputs cs s = (case tputs cs (ttyd s) of None \<Rightarrow> Panic ''pos under/overflow''
     | Some t \<Rightarrow> Ok () (s\<lparr>ttyd := t\<rparr>))"
proof (induction cs arbitrary: s)
  case (Cons c cs)
  show ?case
    using Cons.prems
    by (auto simp: consputc_def Cons.IH tputc_def Let_def split: option.splits)
qed simp

definition serial :: "int \<Rightarrow> u8 list" where
  "serial c = (if c = BACKSPACE then [8, 32, 8] else [of_int c])"

lemma tputc_ok:
  assumes "uint (crt_pos t) < 24 * 80"
  shows "\<exists>t'. tputc c t = Some t' \<and> uint (crt_pos t') < 24 * 80 \<and> uart t' = uart t \<and>
    uart_out t' = uart_out t @ (if uart t then serial c else [])"
proof -
  let ?t = "if c = BACKSPACE then uartputc 8 (uartputc 32 (uartputc 8 t)) else uartputc c t"
  have "uint (crt_pos ?t) < 24 * 80" using assms by simp
  from cgaputc_ok [OF this, of c] show ?thesis
    by (auto simp: tputc_def uartputc_def serial_def)
qed

lemma tputs_ok:
  "uint (crt_pos t) < 24 * 80 \<Longrightarrow> \<exists>t'. tputs cs t = Some t' \<and> uint (crt_pos t') < 24 * 80 \<and>
    uart t' = uart t \<and> uart_out t' = uart_out t @ (if uart t then concat (map serial cs) else [])"
proof (induction cs arbitrary: t)
  case (Cons c cs)
  from tputc_ok [OF Cons.prems, of c] obtain t1 where t1: "tputc c t = Some t1"
    "uint (crt_pos t1) < 24 * 80" "uart t1 = uart t"
    "uart_out t1 = uart_out t @ (if uart t then serial c else [])" by blast
  from Cons.IH [OF t1(2)] t1 show ?case by auto
qed simp

lemma consputs_append: "consputs (cs @ ds) s = bind (consputs cs s) (\<lambda>_. consputs ds)"
  by (induction cs arbitrary: s) (simp_all add: bind_assoc cong: bind_cong)

section \<open>What a format prints\<close>

lemma digits_rev_ok:
  assumes "1 < unat base" "unat x < unat base ^ Suc k" "k < room"
  shows "\<exists>ds. digits_rev room digits base x = Some (map ((!) digits) ds) \<and> length ds \<le> Suc k \<and>
    (\<forall>d\<in>set ds. d < unat base) \<and> foldr (\<lambda>d n. d + unat base * n) ds 0 = unat x"
  using assms(2,3)
proof (induction k arbitrary: x room)
  case 0
  then obtain r where r: "room = Suc r" by (cases room) auto
  have "unat (x div base) = 0" "unat (x mod base) = unat x"
    using 0 by (simp_all add: unat_div_distrib unat_mod_distrib)
  then have "x div base = 0" "x mod base = x" by (metis unat_eq_zero, metis word_unat_eq_iff)
  with r 0 show ?case by (intro exI [of _ "[unat x]"]) simp
next
  case (Suc k)
  then obtain r where r: "room = Suc r" "k < r" by (cases room) auto
  let ?d = "unat (x mod base)"
  have d: "?d = unat x mod unat base" by (simp add: unat_mod_distrib)
  have lt: "?d < unat base" using assms(1) by (simp add: d)
  have q: "unat (x div base) = unat x div unat base" by (simp add: unat_div_distrib)
  show ?case
  proof (cases "x div base = 0")
    case True
    then have "unat x div unat base = 0" using q by simp
    then have "unat x < unat base" using assms(1) by (simp add: div_eq_0_iff)
    with True r d show ?thesis by (intro exI [of _ "[?d]"]) simp
  next
    case False
    have "unat (x div base) < unat base ^ Suc k"
      using Suc.prems(1) by (simp add: q less_mult_imp_div_less mult.commute)
    from Suc.IH [OF this r(2)] obtain ds where ds:
      "digits_rev r digits base (x div base) = Some (map ((!) digits) ds)" "length ds \<le> Suc k"
      "\<forall>d\<in>set ds. d < unat base" "foldr (\<lambda>d n. d + unat base * n) ds 0 = unat (x div base)"
      by blast
    have "?d + unat base * unat (x div base) = unat x" by (simp add: d q)
    with False r ds lt show ?thesis by (intro exI [of _ "?d # ds"]) simp
  qed
qed

lemma printint_buf_ok:
  assumes "base = 10 \<or> base = 16"
  shows "\<exists>ds. printint_buf digits xx base sign =
      Some (map ((!) digits) ds @ (if sign \<and> sint xx < 0 then ''-'' else [])) \<and>
    (\<forall>d\<in>set ds. d < unat base) \<and>
    foldr (\<lambda>d n. d + unat base * n) ds 0 = unat (if sign \<and> sint xx < 0 then - xx else xx)"
proof -
  let ?x = "if sign \<and> sint xx < 0 then - xx else xx"
  have "unat ?x < unat base ^ Suc 9" "1 < unat base"
    using assms unat_u32_less [of ?x] by auto
  from digits_rev_ok [OF this(2,1), of 16 digits] show ?thesis
    by (fastforce simp: printint_buf_def Let_def)
qed

lemma sint_abs:
  fixes x :: u32
  shows "sint x < 0 \<Longrightarrow> uint (- x) = - sint x" "\<not> sint x < 0 \<Longrightarrow> uint x = sint x"
proof -
  have u: "uint x = sint x mod 4294967296" by (simp add: uint_sint take_bit_eq_mod)
  have r: "- 2147483648 \<le> sint x" "sint x < 2147483648"
    using sint_greater_eq [of x] sint_less [of x] by simp_all
  show "uint x = sint x" if "\<not> sint x < 0" using that r u by simp
  show "uint (- x) = - sint x" if "sint x < 0"
    using that r by (simp add: uint_word_ariths u mod_minus_eq)
qed

text \<open>The characters a format prints with its arguments, \<open>None\<close> when an argument is missing.\<close>

fun fmt_out :: "string \<Rightarrow> carg list \<Rightarrow> int list option" where
  "fmt_out [] args = Some []"
| "fmt_out [c] args = Some (if c \<noteq> CHR ''%'' then [of_char c] else [])"
| "fmt_out (c # d # fmt) args =
     (if c \<noteq> CHR ''%'' then map_option ((#) (of_char c)) (fmt_out (d # fmt) args)
      else if d = CHR ''d'' \<or> d = CHR ''x'' \<or> d = CHR ''p'' then
        (case args of Aint x # args \<Rightarrow>
           map_option ((@) (map of_char (rev (the (printint_buf ''0123456789abcdef'' x
             (if d = CHR ''d'' then 10 else 16) (d = CHR ''d'')))))) (fmt_out fmt args)
         | _ \<Rightarrow> None)
      else if d = CHR ''s'' then
        (case args of Astr None # args \<Rightarrow> map_option ((@) (map of_char ''(null)'')) (fmt_out fmt args)
         | Astr (Some bs) # args \<Rightarrow> if 0 \<in> set bs
             then map_option ((@) (map sint (takeWhile (\<lambda>b. b \<noteq> 0) bs))) (fmt_out fmt args) else None
         | _ \<Rightarrow> None)
      else map_option ((@) (if d = CHR ''%'' then [37] else [37, of_char d])) (fmt_out fmt args))"

lemma fmt_plain: "CHR ''%'' \<notin> set fmt \<Longrightarrow> fmt_out fmt args = Some (map of_char fmt)"
  by (induction fmt args rule: fmt_out.induct) auto

lemma printint_out:
  assumes "base = 10 \<or> base = 16"
  shows "printint x base sign s =
    consputs (map of_char (rev (the (printint_buf ''0123456789abcdef'' x base sign)))) s"
  using printint_buf_ok [OF assms, of "''0123456789abcdef''" x sign] by (auto simp: printint_def)

lemma consputs_single: "bind (consputc c s) (\<lambda>_. consputs []) = consputc c s"
  by (cases "consputc c s") simp_all

lemma cprintf_loop_out:
  "fmt_out fmt args = Some cs \<Longrightarrow> cprintf_loop fmt args = (consputs cs :: 'a cst_scheme \<Rightarrow> _)"
proof (induction fmt args arbitrary: cs rule: fmt_out.induct)
  case (3 c d fmt args)
  consider "c \<noteq> CHR ''%''" | "c = CHR ''%''" "d = CHR ''d'' \<or> d = CHR ''x'' \<or> d = CHR ''p''"
    | "c = CHR ''%''" "d = CHR ''s''" | "c = CHR ''%''" "d \<notin> set ''dxps''" by auto
  then show ?case
  proof cases
    case 1
    with 3 show ?thesis by (auto intro!: ext)
  next
    case 2
    then obtain x as where "args = Aint x # as" using "3.prems" by (auto split: list.splits carg.splits)
    with 2 3 show ?thesis by (auto simp: printint_out consputs_append intro!: ext)
  next
    case c: 3
    then obtain p as where a: "args = Astr p # as" using "3.prems" by (auto split: list.splits carg.splits)
    define q :: "int list" where "q = (case p of None \<Rightarrow> map of_char ''(null)''
      | Some bs \<Rightarrow> map sint (takeWhile (\<lambda>b. b \<noteq> 0) bs))"
    obtain z where z: "fmt_out fmt as = Some z" "cs = q @ z" "p = None \<or> 0 \<in> set (the p)"
      using "3.prems" c a by (auto simp: q_def split: option.splits if_splits)
    have ih: "cprintf_loop fmt as = (consputs z :: 'a cst_scheme \<Rightarrow> _)"
      using "3.IH" z c a by (cases p) auto
    have "cprintf_loop (c # d # fmt) args s = bind (consputs q s) (\<lambda>_. cprintf_loop fmt as)"
      for s :: "'a cst_scheme"
      using c a z(3) by (cases p) (simp_all add: q_def)
    then show ?thesis unfolding z(2) ih by (simp add: consputs_append fun_eq_iff)
  next
    case 4
    with 3 show ?thesis by (auto intro!: ext bind_cong split: if_splits)
  qed
qed (auto intro!: ext simp: consputs_single split: if_splits)

lemma cprintf_out:
  assumes "quiet s" "cons_locking s \<longrightarrow> lk_free Lcons s" "cons_ok s" "fmt_out fmt args = Some cs"
  shows "\<exists>t. cprintf fmt args s = Ok () (s\<lparr>ttyd := t\<rparr>) \<and> tputs cs (ttyd s) = Some t \<and>
    cons_ok (s\<lparr>ttyd := t\<rparr>)"
proof -
  obtain t where t: "tputs cs (ttyd s) = Some t" "uint (crt_pos t) < 24 * 80"
    using tputs_ok [of "ttyd s" cs] assms(3) by (auto simp: cons_ok_def)
  have p: "\<not> panicked s" using assms(3) by (simp add: cons_ok_def)
  then have "consputs cs (hold Lcons s) = Ok () ((hold Lcons s)\<lparr>ttyd := t\<rparr>)"
    "consputs cs s = Ok () (s\<lparr>ttyd := t\<rparr>)"
    using t(1) by (simp_all add: consputs_tputs)
  then have "cprintf fmt args s = Ok () (s\<lparr>ttyd := t\<rparr>)"
    using assms(1,2) unfolding cprintf_def cprintf_loop_out [OF assms(4)]
    by (cases "cons_locking s") (simp_all add: lock_eqs)
  then show ?thesis using t p by (auto simp: cons_ok_def)
qed

section \<open>Properties\<close>


definition ex_cst :: cst where
  "ex_cst = mst.extend ex_mst \<lparr>cons_locking = True, panicked = False,
     ttyd = \<lparr>uart = True, uart_out = [], crt = (\<lambda>_. 0), crt_pos = 1919\<rparr>\<rparr>"

lemma ex_cst_mst: "mst.truncate ex_cst = ex_mst" "lst.truncate ex_cst = ex_lst"
  by (simp_all add: ex_cst_def mst.defs ex_mst_def lst.defs)

lemma ex_cst_ready: "quiet ex_cst" "lk_free l ex_cst" "cons_ok ex_cst"
  using lst_truncate(1) [of ex_cst] lst_truncate(2) [of l ex_cst] ex_lst_ready
  by (simp_all add: ex_cst_mst) (simp add: ex_cst_def mst.defs cons_ok_def)


text \<open>
  C38: the digits \<open>printint\<close> puts in its 16-byte buffer never overflow it for the bases 10 and
  16, each is below the base, and reading them back gives the number printed: its magnitude,
  after a minus sign, when it is printed signed and is negative.
\<close>

theorem printint_digits:
  assumes "base = 10 \<or> base = 16"
  shows "\<exists>ds. printint xx base sign s = consputs (map of_char
      ((if sign \<and> sint xx < 0 then ''-'' else []) @ map (\<lambda>d. ''0123456789abcdef'' ! d) (rev ds))) s \<and>
    (\<forall>d\<in>set ds. d < unat base) \<and>
    int (foldr (\<lambda>d n. d + unat base * n) ds 0) = (if sign then \<bar>sint xx\<bar> else uint xx)"
proof -
  obtain ds where ds: "printint_buf ''0123456789abcdef'' xx base sign =
      Some (map ((!) ''0123456789abcdef'') ds @ (if sign \<and> sint xx < 0 then ''-'' else []))"
    "\<forall>d\<in>set ds. d < unat base"
    "foldr (\<lambda>d n. d + unat base * n) ds 0 = unat (if sign \<and> sint xx < 0 then - xx else xx)"
    using printint_buf_ok [OF assms, of "''0123456789abcdef''" xx sign] by blast
  have "int (unat (if sign \<and> sint xx < 0 then - xx else xx)) = (if sign then \<bar>sint xx\<bar> else uint xx)"
    by (simp add: sint_abs)
  with ds show ?thesis by (intro exI [of _ ds]) (auto simp: printint_def rev_map)
qed

theorem printint_digits_witness:
  "\<exists>ds. printint 255 16 False ex_cst = consputs (map of_char (map (\<lambda>d. ''0123456789abcdef'' ! d) (rev ds))) ex_cst \<and>
    (\<forall>d\<in>set ds. d < 16) \<and> int (foldr (\<lambda>d n. d + 16 * n) ds 0) = 255"
  using printint_digits [of 16 255 False ex_cst] by simp

end
