(* ===== verification/Ptable.thy ===== *)
theory Ptable
  imports Console
begin

text \<open>
  The data of kernel/proc.h and of the process table of kernel/proc.c: processes with their
  named shared regions, trap frames and contexts. A pointer into the process table is an index,
  the null pointer is \<open>None\<close>. The trap frame and the context, which the kernel keeps on the
  process's kernel stack, are fields of the process.
\<close>

section \<open>Processes\<close>

abbreviation (input) NPROC :: nat where "NPROC \<equiv> 64"
abbreviation (input) KSTACKSIZE :: u32 where "KSTACKSIZE \<equiv> 4096"
abbreviation (input) NOFILE :: nat where "NOFILE \<equiv> 16"
abbreviation (input) SHAREDNAME :: nat where "SHAREDNAME \<equiv> 20"
abbreviation (input) MAXSHARED :: nat where "MAXSHARED \<equiv> 10"

record shared =
  sh_name :: "u8 list"
  sh_memstart :: u32
  sh_sz :: u32

record trapframe =
  tf_edi :: u32
  tf_esi :: u32
  tf_ebp :: u32
  tf_oesp :: u32
  tf_ebx :: u32
  tf_edx :: u32
  tf_ecx :: u32
  tf_eax :: u32
  tf_gs :: u16
  tf_fs :: u16
  tf_es :: u16
  tf_ds :: u16
  tf_trapno :: u32
  tf_err :: u32
  tf_eip :: u32
  tf_cs :: u16
  tf_eflags :: u32
  tf_esp :: u32
  tf_ss :: u16

text \<open>
  Where a context resumes: a new process starts at \<open>forkret\<close>, any other one in \<open>sched\<close>, whose
  local variable \<open>intena\<close> is on the stack the context belongs to.
\<close>

datatype resume = Forkret | Insched bool

record kcontext =
  cx_edi :: u32
  cx_esi :: u32
  cx_ebx :: u32
  cx_ebp :: u32
  cx_eip :: resume

datatype procstate = UNUSED | EMBRYO | SLEEPING | RUNNABLE | RUNNING | ZOMBIE

text \<open>
  What a process can sleep on: the address passed as channel, by the object it is the
  address of.
\<close>

datatype chan = Cnull | Cproc nat | Cparent nat | Cticks | Cinput | Cnread u32 | Cnwrite u32 | Cbuf nat | Clog
  | Csleep lockid

record proc =
  p_sz :: u32
  p_pgdir :: u32
  p_parentpgdir :: u32
  p_kstack :: u32
  p_state :: procstate
  p_pid :: int
  p_parent :: "nat option"
  p_tf :: trapframe
  p_context :: kcontext
  p_chan :: chan
  p_killed :: bool
  p_ofile :: "nat option list"
  p_cwd :: "nat option"
  p_name :: "u8 list"
  p_shared :: "shared list"

record pst = cst +
  procs :: "proc list"
  initproc :: "nat option"
  nextpid :: int

definition upd_proc :: "nat \<Rightarrow> (proc \<Rightarrow> proc) \<Rightarrow> 'a pst_scheme \<Rightarrow> 'a pst_scheme" where
  "upd_proc i f s = s\<lparr>procs := (procs s)[i := f (procs s ! i)]\<rparr>"

section \<open>Frames\<close>

lemma lock_fields_pst [simp]:
  "procs (hold l s) = procs s"
  "initproc (hold l s) = initproc s"
  "nextpid (hold l s) = nextpid s"
  "procs (unhold l s) = procs s"
  "initproc (unhold l s) = initproc s"
  "nextpid (unhold l s) = nextpid s"
  by (simp_all add: hold_def unhold_def push_def pop_def)

lemma lock_update_pst [simp]:
  "hold l (s\<lparr>procs := x_procs\<rparr>) = (hold l s)\<lparr>procs := x_procs\<rparr>"
  "hold l (s\<lparr>initproc := x_initproc\<rparr>) = (hold l s)\<lparr>initproc := x_initproc\<rparr>"
  "hold l (s\<lparr>nextpid := x_nextpid\<rparr>) = (hold l s)\<lparr>nextpid := x_nextpid\<rparr>"
  "unhold l (s\<lparr>procs := x_procs\<rparr>) = (unhold l s)\<lparr>procs := x_procs\<rparr>"
  "unhold l (s\<lparr>initproc := x_initproc\<rparr>) = (unhold l s)\<lparr>initproc := x_initproc\<rparr>"
  "unhold l (s\<lparr>nextpid := x_nextpid\<rparr>) = (unhold l s)\<lparr>nextpid := x_nextpid\<rparr>"
  by (simp_all add: unhold_def pop_def hold_def push_def curcpu_def cur_def)

lemma cpu_frame_pst [simp]:
  "cur (s\<lparr>procs := x_procs\<rparr>) = cur s"
  "curcpu (s\<lparr>procs := x_procs\<rparr>) = curcpu s"
  "curproc (s\<lparr>procs := x_procs\<rparr>) = curproc s"
  "quiet (s\<lparr>procs := x_procs\<rparr>) = quiet s"
  "lk_free l (s\<lparr>procs := x_procs\<rparr>) = lk_free l s"
  "lk_held l (s\<lparr>procs := x_procs\<rparr>) = lk_held l s"
  "cur (s\<lparr>initproc := x_initproc\<rparr>) = cur s"
  "curcpu (s\<lparr>initproc := x_initproc\<rparr>) = curcpu s"
  "curproc (s\<lparr>initproc := x_initproc\<rparr>) = curproc s"
  "quiet (s\<lparr>initproc := x_initproc\<rparr>) = quiet s"
  "lk_free l (s\<lparr>initproc := x_initproc\<rparr>) = lk_free l s"
  "lk_held l (s\<lparr>initproc := x_initproc\<rparr>) = lk_held l s"
  "cur (s\<lparr>nextpid := x_nextpid\<rparr>) = cur s"
  "curcpu (s\<lparr>nextpid := x_nextpid\<rparr>) = curcpu s"
  "curproc (s\<lparr>nextpid := x_nextpid\<rparr>) = curproc s"
  "quiet (s\<lparr>nextpid := x_nextpid\<rparr>) = quiet s"
  "lk_free l (s\<lparr>nextpid := x_nextpid\<rparr>) = lk_free l s"
  "lk_held l (s\<lparr>nextpid := x_nextpid\<rparr>) = lk_held l s"
  by (simp_all add: cur_def curcpu_def curproc_def quiet_def lk_free_def lk_held_def)

lemma inv_frame_pst [simp]:
  "km_ready (s\<lparr>procs := x_procs\<rparr>) = km_ready s"
  "km_ready (s\<lparr>initproc := x_initproc\<rparr>) = km_ready s"
  "km_ready (s\<lparr>nextpid := x_nextpid\<rparr>) = km_ready s"
  "free_inv (s\<lparr>procs := x_procs\<rparr>) xs = free_inv s xs"
  "free_inv (s\<lparr>initproc := x_initproc\<rparr>) xs = free_inv s xs"
  "free_inv (s\<lparr>nextpid := x_nextpid\<rparr>) xs = free_inv s xs"
  "cons_ok (s\<lparr>procs := x_procs\<rparr>) = cons_ok s"
  "cons_ok (s\<lparr>initproc := x_initproc\<rparr>) = cons_ok s"
  "cons_ok (s\<lparr>nextpid := x_nextpid\<rparr>) = cons_ok s"
  by (simp_all add: km_ready_def free_inv_def cons_ok_def)

lemma upd_proc_simps [simp]:
  "procs (upd_proc i f s) = (procs s)[i := f (procs s ! i)]"
  "length (procs (upd_proc i f s)) = length (procs s)"
  "mem (upd_proc i f s) = mem s" "kend (upd_proc i f s) = kend s"
  "freelist (upd_proc i f s) = freelist s" "use_lock (upd_proc i f s) = use_lock s"
  "ttyd (upd_proc i f s) = ttyd s" "panicked (upd_proc i f s) = panicked s"
  "cons_locking (upd_proc i f s) = cons_locking s"
  "initproc (upd_proc i f s) = initproc s" "nextpid (upd_proc i f s) = nextpid s"
  "cur (upd_proc i f s) = cur s" "curcpu (upd_proc i f s) = curcpu s"
  "curproc (upd_proc i f s) = curproc s" "quiet (upd_proc i f s) = quiet s"
  "lk_free l (upd_proc i f s) = lk_free l s" "lk_held l (upd_proc i f s) = lk_held l s"
  "hold l (upd_proc i f s) = upd_proc i f (hold l s)"
  "unhold l (upd_proc i f s) = upd_proc i f (unhold l s)"
  "km_ready (upd_proc i f s) = km_ready s" "free_inv (upd_proc i f s) xs = free_inv s xs"
  "cons_ok (upd_proc i f s) = cons_ok s"
  by (simp_all add: upd_proc_def)


section \<open>The zero table\<close>

text \<open>The process table is static storage: before the first process every byte of it is zero.\<close>

definition zero_tf :: trapframe where
  "zero_tf = \<lparr>tf_edi = 0, tf_esi = 0, tf_ebp = 0, tf_oesp = 0, tf_ebx = 0, tf_edx = 0, tf_ecx = 0,
     tf_eax = 0, tf_gs = 0, tf_fs = 0, tf_es = 0, tf_ds = 0, tf_trapno = 0, tf_err = 0, tf_eip = 0,
     tf_cs = 0, tf_eflags = 0, tf_esp = 0, tf_ss = 0\<rparr>"

definition zero_shared :: shared where
  "zero_shared = \<lparr>sh_name = replicate SHAREDNAME 0, sh_memstart = 0, sh_sz = 0\<rparr>"

definition zero_proc :: proc where
  "zero_proc = \<lparr>p_sz = 0, p_pgdir = 0, p_parentpgdir = 0, p_kstack = 0, p_state = UNUSED, p_pid = 0,
     p_parent = None, p_tf = zero_tf,
     p_context = \<lparr>cx_edi = 0, cx_esi = 0, cx_ebx = 0, cx_ebp = 0, cx_eip = Forkret\<rparr>, p_chan = Cnull,
     p_killed = False, p_ofile = replicate NOFILE None, p_cwd = None, p_name = replicate 16 0,
     p_shared = replicate MAXSHARED zero_shared\<rparr>"

definition ex_pst :: pst where
  "ex_pst = cst.extend ex_cst \<lparr>procs = (replicate NPROC zero_proc)[0 := zero_proc\<lparr>p_state := RUNNING, p_pid := 1\<rparr>],
     initproc = Some 0, nextpid = 2\<rparr>"

lemma ex_pst_cst: "cst.truncate ex_pst = ex_cst" "mst.truncate ex_pst = ex_mst" "lst.truncate ex_pst = ex_lst"
  by (simp_all add: ex_pst_def cst.defs ex_cst_def mst.defs ex_mst_def lst.defs)

lemma ex_pst_ready: "quiet ex_pst" "lk_free l ex_pst" "cons_ok ex_pst" "curproc ex_pst = Some 0"
  using lst_truncate(1) [of ex_pst] lst_truncate(2) [of l ex_pst] ex_lst_ready
  by (simp_all add: ex_pst_cst)
    (simp_all add: ex_pst_def cst.defs ex_cst_def mst.defs cons_ok_def ex_mst_def lst.defs ex_lst_def curproc_def curcpu_def
      cur_def ex_cpu_def)

end
