(* ===== verification/Vm.thy ===== *)
theory Vm
  imports Ptable
begin

unbundle bit_operations_syntax

text \<open>
  kernel/vm.c: page tables, user memory, and the mapping of a parent's shared regions into a
  child. Page directories and tables are pages of the byte memory, read and written word by
  word as the hardware reads them; the registers \<open>cr3\<close> and \<open>tr\<close> are state. \<open>loaduvm\<close>, which
  reads a file, is with \<open>exec\<close>.

  Loops over pages run on fuel for \<open>2 ^ 20\<close> pages, the whole address space; a loop that needs
  more revisits an address and never ends.
\<close>

section \<open>State\<close>

record vst = pst +
  kpgdir :: u32
  cr3 :: u32
  tr :: u16

lemma lock_fields_vst [simp]:
  "kpgdir (hold l s) = kpgdir s"
  "cr3 (hold l s) = cr3 s"
  "tr (hold l s) = tr s"
  "kpgdir (unhold l s) = kpgdir s"
  "cr3 (unhold l s) = cr3 s"
  "tr (unhold l s) = tr s"
  by (simp_all add: hold_def unhold_def push_def pop_def)

lemma lock_update_vst [simp]:
  "hold l (s\<lparr>kpgdir := x_kpgdir\<rparr>) = (hold l s)\<lparr>kpgdir := x_kpgdir\<rparr>"
  "hold l (s\<lparr>cr3 := x_cr3\<rparr>) = (hold l s)\<lparr>cr3 := x_cr3\<rparr>"
  "hold l (s\<lparr>tr := x_tr\<rparr>) = (hold l s)\<lparr>tr := x_tr\<rparr>"
  "unhold l (s\<lparr>kpgdir := x_kpgdir\<rparr>) = (unhold l s)\<lparr>kpgdir := x_kpgdir\<rparr>"
  "unhold l (s\<lparr>cr3 := x_cr3\<rparr>) = (unhold l s)\<lparr>cr3 := x_cr3\<rparr>"
  "unhold l (s\<lparr>tr := x_tr\<rparr>) = (unhold l s)\<lparr>tr := x_tr\<rparr>"
  by (simp_all add: unhold_def pop_def hold_def push_def curcpu_def cur_def)

lemma cpu_frame_vst [simp]:
  "cur (s\<lparr>kpgdir := x_kpgdir\<rparr>) = cur s"
  "curcpu (s\<lparr>kpgdir := x_kpgdir\<rparr>) = curcpu s"
  "curproc (s\<lparr>kpgdir := x_kpgdir\<rparr>) = curproc s"
  "quiet (s\<lparr>kpgdir := x_kpgdir\<rparr>) = quiet s"
  "lk_free l (s\<lparr>kpgdir := x_kpgdir\<rparr>) = lk_free l s"
  "lk_held l (s\<lparr>kpgdir := x_kpgdir\<rparr>) = lk_held l s"
  "cur (s\<lparr>cr3 := x_cr3\<rparr>) = cur s"
  "curcpu (s\<lparr>cr3 := x_cr3\<rparr>) = curcpu s"
  "curproc (s\<lparr>cr3 := x_cr3\<rparr>) = curproc s"
  "quiet (s\<lparr>cr3 := x_cr3\<rparr>) = quiet s"
  "lk_free l (s\<lparr>cr3 := x_cr3\<rparr>) = lk_free l s"
  "lk_held l (s\<lparr>cr3 := x_cr3\<rparr>) = lk_held l s"
  "cur (s\<lparr>tr := x_tr\<rparr>) = cur s"
  "curcpu (s\<lparr>tr := x_tr\<rparr>) = curcpu s"
  "curproc (s\<lparr>tr := x_tr\<rparr>) = curproc s"
  "quiet (s\<lparr>tr := x_tr\<rparr>) = quiet s"
  "lk_free l (s\<lparr>tr := x_tr\<rparr>) = lk_free l s"
  "lk_held l (s\<lparr>tr := x_tr\<rparr>) = lk_held l s"
  by (simp_all add: cur_def curcpu_def curproc_def quiet_def lk_free_def lk_held_def)

lemma inv_frame_vst [simp]:
  "km_ready (s\<lparr>kpgdir := x_kpgdir\<rparr>) = km_ready s"
  "km_ready (s\<lparr>cr3 := x_cr3\<rparr>) = km_ready s"
  "km_ready (s\<lparr>tr := x_tr\<rparr>) = km_ready s"
  "free_inv (s\<lparr>kpgdir := x_kpgdir\<rparr>) xs = free_inv s xs"
  "free_inv (s\<lparr>cr3 := x_cr3\<rparr>) xs = free_inv s xs"
  "free_inv (s\<lparr>tr := x_tr\<rparr>) xs = free_inv s xs"
  "cons_ok (s\<lparr>kpgdir := x_kpgdir\<rparr>) = cons_ok s"
  "cons_ok (s\<lparr>cr3 := x_cr3\<rparr>) = cons_ok s"
  "cons_ok (s\<lparr>tr := x_tr\<rparr>) = cons_ok s"
  by (simp_all add: km_ready_def free_inv_def cons_ok_def)

section \<open>Segments\<close>

definition SEG :: "u64 \<Rightarrow> u32 \<Rightarrow> u32 \<Rightarrow> u64 \<Rightarrow> u64" where
  "SEG type base lim dpl =
     (let b = ucast base :: u64; l = ucast lim :: u64 in
      (drop_bit 12 l AND 0xFFFF) OR push_bit 16 (b AND 0xFFFF)
      OR push_bit 32 (drop_bit 16 b AND 0xFF) OR push_bit 40 type OR push_bit 44 1
      OR push_bit 45 dpl OR push_bit 47 1 OR push_bit 48 (drop_bit 28 l)
      OR push_bit 54 1 OR push_bit 55 1 OR push_bit 56 (drop_bit 24 b))"

definition SEG16 :: "u64 \<Rightarrow> u32 \<Rightarrow> u32 \<Rightarrow> u64 \<Rightarrow> u64" where
  "SEG16 type base lim dpl =
     (let b = ucast base :: u64; l = ucast lim :: u64 in
      (l AND 0xFFFF) OR push_bit 16 (b AND 0xFFFF)
      OR push_bit 32 (drop_bit 16 b AND 0xFF) OR push_bit 40 type OR push_bit 44 1
      OR push_bit 45 dpl OR push_bit 47 1 OR push_bit 48 (drop_bit 16 l)
      OR push_bit 54 1 OR push_bit 56 (drop_bit 24 b))"

definition SEG_CLS :: "u64 \<Rightarrow> u64" where
  "SEG_CLS seg = seg AND NOT (push_bit 44 1)"

abbreviation (input) SEG_KCODE :: nat where "SEG_KCODE \<equiv> 1"
abbreviation (input) SEG_KDATA :: nat where "SEG_KDATA \<equiv> 2"
abbreviation (input) SEG_UCODE :: nat where "SEG_UCODE \<equiv> 3"
abbreviation (input) SEG_UDATA :: nat where "SEG_UDATA \<equiv> 4"
abbreviation (input) SEG_TSS :: nat where "SEG_TSS \<equiv> 5"
abbreviation (input) DPL_USER :: u64 where "DPL_USER \<equiv> 3"
abbreviation (input) STA_X :: u64 where "STA_X \<equiv> 8"
abbreviation (input) STA_W :: u64 where "STA_W \<equiv> 2"
abbreviation (input) STA_R :: u64 where "STA_R \<equiv> 2"
abbreviation (input) STS_T32A :: u64 where "STS_T32A \<equiv> 9"

text \<open>The call of \<open>lgdt\<close> only tells the CPU where the table is.\<close>

definition seginit :: "'a lst_scheme \<Rightarrow> ('a lst_scheme, unit) res" where
  "seginit s =
     bind (cpuid s) (\<lambda>c s.
     let g = gdt (cpus s ! c);
         g = g[SEG_KCODE := SEG (STA_X OR STA_R) 0 0xFFFFFFFF 0];
         g = g[SEG_KDATA := SEG STA_W 0 0xFFFFFFFF 0];
         g = g[SEG_UCODE := SEG (STA_X OR STA_R) 0 0xFFFFFFFF DPL_USER];
         g = g[SEG_UDATA := SEG STA_W 0 0xFFFFFFFF DPL_USER] in
     Ok () (upd_cpu c (\<lambda>c. c\<lparr>gdt := g\<rparr>) s))"

section \<open>Page tables\<close>

definition walkpgdir :: "u32 \<Rightarrow> u32 \<Rightarrow> bool \<Rightarrow> 'a mst_scheme \<Rightarrow> ('a mst_scheme, u32) res" where
  "walkpgdir pgdir va alloc s =
     (let pde = pgdir + 4 * PDX va in
      if load32 (mem s) pde AND PTE_P \<noteq> 0
      then let pgtab = P2V (PTE_ADDR (load32 (mem s) pde)) in Ok (pgtab + 4 * PTX va) s
      else if \<not> alloc then Ok 0 s
      else bind (kalloc s) (\<lambda>pgtab s.
        if pgtab = 0 then Ok 0 s
        else
          let s = s\<lparr>mem := memset (mem s) pgtab 0 PGSIZE\<rparr>;
              s = s\<lparr>mem := store32 (mem s) pde (V2P pgtab OR PTE_P OR PTE_W OR PTE_U)\<rparr> in
          Ok (pgtab + 4 * PTX va) s))"

fun mappages_loop ::
  "nat \<Rightarrow> u32 \<Rightarrow> u32 \<Rightarrow> u32 \<Rightarrow> u32 \<Rightarrow> u32 \<Rightarrow> 'a mst_scheme \<Rightarrow> ('a mst_scheme, int) res" where
  "mappages_loop 0 pgdir a lasta pa perm s = Hang"
| "mappages_loop (Suc fuel) pgdir a lasta pa perm s =
     bind (walkpgdir pgdir a True s) (\<lambda>pte s.
     if pte = 0 then Ok (- 1) s
     else if load32 (mem s) pte AND PTE_P \<noteq> 0 then Panic ''remap''
     else
       let s = s\<lparr>mem := store32 (mem s) pte (pa OR perm OR PTE_P)\<rparr> in
       if a = lasta then Ok 0 s
       else mappages_loop fuel pgdir (a + PGSIZE) lasta (pa + PGSIZE) perm s)"

definition mappages ::
  "u32 \<Rightarrow> u32 \<Rightarrow> u32 \<Rightarrow> u32 \<Rightarrow> u32 \<Rightarrow> 'a mst_scheme \<Rightarrow> ('a mst_scheme, int) res" where
  "mappages pgdir va sz pa perm s =
     mappages_loop 1048577 pgdir (PGROUNDDOWN va) (PGROUNDDOWN (va + sz - 1)) pa perm s"

fun deallocuvm_loop ::
  "nat \<Rightarrow> u32 \<Rightarrow> u32 \<Rightarrow> u32 \<Rightarrow> 'a mst_scheme \<Rightarrow> ('a mst_scheme, unit) res" where
  "deallocuvm_loop 0 pgdir a oldsz s = Hang"
| "deallocuvm_loop (Suc fuel) pgdir a oldsz s =
     (if a < oldsz then
        bind (walkpgdir pgdir a False s) (\<lambda>pte s.
        if pte = 0 then
          deallocuvm_loop fuel pgdir (PGADDR (PDX a + 1) 0 0 - PGSIZE + PGSIZE) oldsz s
        else if load32 (mem s) pte AND PTE_P \<noteq> 0 then
          let pa = PTE_ADDR (load32 (mem s) pte) in
          if pa = 0 then Panic ''kfree''
          else bind (kfree (P2V pa) s) (\<lambda>_ s.
            let s = s\<lparr>mem := store32 (mem s) pte 0\<rparr> in
            deallocuvm_loop fuel pgdir (a + PGSIZE) oldsz s)
        else deallocuvm_loop fuel pgdir (a + PGSIZE) oldsz s)
      else Ok () s)"

definition deallocuvm :: "u32 \<Rightarrow> u32 \<Rightarrow> u32 \<Rightarrow> 'a mst_scheme \<Rightarrow> ('a mst_scheme, u32) res" where
  "deallocuvm pgdir oldsz newsz s =
     (if newsz \<ge> oldsz then Ok oldsz s
      else bind (deallocuvm_loop 1048577 pgdir (PGROUNDUP newsz) oldsz s) (\<lambda>_ s. Ok newsz s))"

fun freetabs :: "nat \<Rightarrow> u32 \<Rightarrow> u32 \<Rightarrow> 'a mst_scheme \<Rightarrow> ('a mst_scheme, unit) res" where
  "freetabs 0 pgdir i s = Ok () s"
| "freetabs (Suc n) pgdir i s =
     bind (if load32 (mem s) (pgdir + 4 * i) AND PTE_P \<noteq> 0
           then kfree (P2V (PTE_ADDR (load32 (mem s) (pgdir + 4 * i)))) s else Ok () s)
       (\<lambda>_ s. freetabs n pgdir (i + 1) s)"

definition freevm :: "u32 \<Rightarrow> 'a mst_scheme \<Rightarrow> ('a mst_scheme, unit) res" where
  "freevm pgdir s =
     (if pgdir = 0 then Panic ''freevm: no pgdir''
      else bind (deallocuvm pgdir SHAREBASE 0 s) (\<lambda>_ s.
        bind (freetabs 1024 pgdir 0 s) (\<lambda>_ s. kfree pgdir s)))"

record kmap =
  virt :: u32
  phys_start :: u32
  phys_end :: u32
  kperm :: u32

definition kmaps :: "u32 \<Rightarrow> kmap list" where
  "kmaps data =
    [\<lparr>virt = KERNBASE, phys_start = 0, phys_end = EXTMEM, kperm = PTE_W\<rparr>,
     \<lparr>virt = KERNLINK, phys_start = V2P KERNLINK, phys_end = V2P data, kperm = 0\<rparr>,
     \<lparr>virt = data, phys_start = V2P data, phys_end = PHYSTOP, kperm = PTE_W\<rparr>,
     \<lparr>virt = DEVSPACE, phys_start = DEVSPACE, phys_end = 0, kperm = PTE_W\<rparr>]"

fun setupkvm_loop :: "kmap list \<Rightarrow> u32 \<Rightarrow> 'a mst_scheme \<Rightarrow> ('a mst_scheme, u32) res" where
  "setupkvm_loop [] pgdir s = Ok pgdir s"
| "setupkvm_loop (k # ks) pgdir s =
     bind (mappages pgdir (virt k) (phys_end k - phys_start k) (phys_start k) (kperm k) s) (\<lambda>r s.
     if r < 0 then bind (freevm pgdir s) (\<lambda>_ s. Ok 0 s)
     else setupkvm_loop ks pgdir s)"

definition setupkvm :: "'a mst_scheme \<Rightarrow> ('a mst_scheme, u32) res" where
  "setupkvm s =
     bind (kalloc s) (\<lambda>pgdir s.
     if pgdir = 0 then Ok 0 s
     else
       let s = s\<lparr>mem := memset (mem s) pgdir 0 PGSIZE\<rparr> in
       if P2V PHYSTOP > DEVSPACE then Panic ''PHYSTOP too high''
       else setupkvm_loop (kmaps (kdata s)) pgdir s)"

definition switchkvm :: "'a vst_scheme \<Rightarrow> 'a vst_scheme" where
  "switchkvm s = s\<lparr>cr3 := V2P (kpgdir s)\<rparr>"

definition kvmalloc :: "'a vst_scheme \<Rightarrow> ('a vst_scheme, unit) res" where
  "kvmalloc s = bind (setupkvm s) (\<lambda>d s. Ok () (switchkvm (s\<lparr>kpgdir := d\<rparr>)))"

text \<open>The size of the task state segment is 104 bytes.\<close>

definition switchuvm :: "nat option \<Rightarrow> 'a vst_scheme \<Rightarrow> ('a vst_scheme, unit) res" where
  "switchuvm p s =
     (case p of None \<Rightarrow> Panic ''switchuvm: no process''
      | Some p \<Rightarrow>
        if p_kstack (procs s ! p) = 0 then Panic ''switchuvm: no kstack''
        else if p_pgdir (procs s ! p) = 0 then Panic ''switchuvm: no pgdir''
        else
          bind (pushcli s) (\<lambda>_ s.
          bind (mycpu s) (\<lambda>c s.
          let cp = cpus s ! c;
              cp = cp\<lparr>gdt := (gdt cp)[SEG_TSS := SEG16 STS_T32A (ts_addr (ts cp)) (104 - 1) 0]\<rparr>;
              cp = cp\<lparr>gdt := (gdt cp)[SEG_TSS := SEG_CLS (gdt cp ! SEG_TSS)]\<rparr>;
              cp = cp\<lparr>ts := (ts cp)\<lparr>ss0 := of_nat (SEG_KDATA * 8)\<rparr>\<rparr>;
              cp = cp\<lparr>ts := (ts cp)\<lparr>esp0 := p_kstack (procs s ! p) + KSTACKSIZE\<rparr>\<rparr>;
              cp = cp\<lparr>ts := (ts cp)\<lparr>iomb := 0xFFFF\<rparr>\<rparr>;
              s = upd_cpu c (\<lambda>_. cp) s;
              s = s\<lparr>tr := of_nat (SEG_TSS * 8)\<rparr>;
              s = s\<lparr>cr3 := V2P (p_pgdir (procs s ! p))\<rparr> in
          popcli s)))"

section \<open>User memory\<close>

text \<open>A null page from \<open>kalloc\<close> is written to without a check.\<close>

fun store_bytes :: "mem \<Rightarrow> u32 \<Rightarrow> u8 list \<Rightarrow> mem" where
  "store_bytes m a [] = m"
| "store_bytes m a (b # bs) = store_bytes (m(a := b)) (a + 1) bs"

definition inituvm :: "u32 \<Rightarrow> u8 list \<Rightarrow> 'a mst_scheme \<Rightarrow> ('a mst_scheme, unit) res" where
  "inituvm pgdir init s =
     (if of_nat (length init) \<ge> PGSIZE then Panic ''inituvm: more than a page''
      else bind (kalloc s) (\<lambda>m s.
        if m = 0 then Fault
        else
          let s = s\<lparr>mem := memset (mem s) m 0 PGSIZE\<rparr> in
          bind (mappages pgdir 0 PGSIZE (V2P m) (PTE_W OR PTE_U) s) (\<lambda>_ s.
          Ok () (s\<lparr>mem := store_bytes (mem s) m init\<rparr>))))"

fun allocuvm_loop ::
  "nat \<Rightarrow> u32 \<Rightarrow> u32 \<Rightarrow> u32 \<Rightarrow> u32 \<Rightarrow> 'a cst_scheme \<Rightarrow> ('a cst_scheme, u32) res" where
  "allocuvm_loop 0 pgdir a oldsz newsz s = Hang"
| "allocuvm_loop (Suc fuel) pgdir a oldsz newsz s =
     (if a < newsz then
        bind (kalloc s) (\<lambda>m s.
        if m = 0 then
          bind (cprintf (''allocuvm out of memory'' @ [CHR 0x0A]) [] s) (\<lambda>_ s.
          bind (deallocuvm pgdir newsz oldsz s) (\<lambda>_ s. Ok 0 s))
        else
          let s = s\<lparr>mem := memset (mem s) m 0 PGSIZE\<rparr> in
          bind (mappages pgdir a PGSIZE (V2P m) (PTE_W OR PTE_U) s) (\<lambda>r s.
          if r < 0 then
            bind (cprintf (''allocuvm out of memory (2)'' @ [CHR 0x0A]) [] s) (\<lambda>_ s.
            bind (deallocuvm pgdir newsz oldsz s) (\<lambda>_ s.
            bind (kfree m s) (\<lambda>_ s. Ok 0 s)))
          else allocuvm_loop fuel pgdir (a + PGSIZE) oldsz newsz s))
      else Ok newsz s)"

definition allocuvm :: "u32 \<Rightarrow> u32 \<Rightarrow> u32 \<Rightarrow> 'a cst_scheme \<Rightarrow> ('a cst_scheme, u32) res" where
  "allocuvm pgdir oldsz newsz s =
     (if newsz \<ge> SHAREBASE then Ok 0 s
      else if newsz < oldsz then Ok oldsz s
      else allocuvm_loop 1048577 pgdir (PGROUNDUP oldsz) oldsz newsz s)"

definition clearpteu :: "u32 \<Rightarrow> u32 \<Rightarrow> 'a mst_scheme \<Rightarrow> ('a mst_scheme, unit) res" where
  "clearpteu pgdir uva s =
     bind (walkpgdir pgdir uva False s) (\<lambda>pte s.
     if pte = 0 then Panic ''clearpteu''
     else Ok () (s\<lparr>mem := store32 (mem s) pte (load32 (mem s) pte AND NOT PTE_U)\<rparr>))"

fun copyuvm_loop ::
  "nat \<Rightarrow> u32 \<Rightarrow> u32 \<Rightarrow> u32 \<Rightarrow> u32 \<Rightarrow> 'a mst_scheme \<Rightarrow> ('a mst_scheme, u32) res" where
  "copyuvm_loop 0 pgdir d i sz s = Hang"
| "copyuvm_loop (Suc fuel) pgdir d i sz s =
     (if i < sz then
        bind (walkpgdir pgdir i False s) (\<lambda>pte s.
        if pte = 0 then Panic ''copyuvm: pte should exist''
        else if load32 (mem s) pte AND PTE_P = 0 then Panic ''copyuvm: page not present''
        else
          let pa = PTE_ADDR (load32 (mem s) pte);
              flags = PTE_FLAGS (load32 (mem s) pte) in
          bind (kalloc s) (\<lambda>m s.
          if m = 0 then bind (freevm d s) (\<lambda>_ s. Ok 0 s)
          else
            let s = s\<lparr>mem := memmove (mem s) m (P2V pa) PGSIZE\<rparr> in
            bind (mappages d i PGSIZE (V2P m) flags s) (\<lambda>r s.
            if r < 0 then bind (kfree m s) (\<lambda>_ s. bind (freevm d s) (\<lambda>_ s. Ok 0 s))
            else copyuvm_loop fuel pgdir d (i + PGSIZE) sz s)))
      else Ok d s)"

definition copyuvm :: "u32 \<Rightarrow> u32 \<Rightarrow> 'a mst_scheme \<Rightarrow> ('a mst_scheme, u32) res" where
  "copyuvm pgdir sz s =
     bind (setupkvm s) (\<lambda>d s.
     if d = 0 then Ok 0 s else copyuvm_loop 1048577 pgdir d 0 sz s)"

text \<open>The null pointer that \<open>walkpgdir\<close> returns when there is no table is dereferenced.\<close>

definition uva2ka :: "u32 \<Rightarrow> u32 \<Rightarrow> 'a mst_scheme \<Rightarrow> ('a mst_scheme, u32) res" where
  "uva2ka pgdir uva s =
     bind (walkpgdir pgdir uva False s) (\<lambda>pte s.
     if pte = 0 then Fault
     else if load32 (mem s) pte AND PTE_P = 0 then Ok 0 s
     else if load32 (mem s) pte AND PTE_U = 0 then Ok 0 s
     else Ok (P2V (PTE_ADDR (load32 (mem s) pte))) s)"

text \<open>The source of a copy to user memory is the sequence of bytes at the source pointer.\<close>

fun copyout_loop ::
  "nat \<Rightarrow> u32 \<Rightarrow> u32 \<Rightarrow> u8 list \<Rightarrow> 'a mst_scheme \<Rightarrow> ('a mst_scheme, int) res" where
  "copyout_loop 0 pgdir va buf s = Hang"
| "copyout_loop (Suc fuel) pgdir va buf s =
     (if buf = [] then Ok 0 s
      else
        let va0 = PGROUNDDOWN va in
        bind (uva2ka pgdir va0 s) (\<lambda>pa0 s.
        if pa0 = 0 then Ok (- 1) s
        else
          let n = unat (PGSIZE - (va - va0));
              n = (if n > length buf then length buf else n);
              s = s\<lparr>mem := store_bytes (mem s) (pa0 + (va - va0)) (take n buf)\<rparr> in
          copyout_loop fuel pgdir (va0 + PGSIZE) (drop n buf) s))"

definition copyout :: "u32 \<Rightarrow> u32 \<Rightarrow> u8 list \<Rightarrow> 'a mst_scheme \<Rightarrow> ('a mst_scheme, int) res" where
  "copyout pgdir va buf s = copyout_loop 1048577 pgdir va buf s"

section \<open>Mapping shared regions\<close>

text \<open>
  \<open>va\<close> is a pointer to words in \<open>mappa2va\<close>, so that \<open>va + sz\<close> there adds four times \<open>sz\<close>. The
  result of \<open>mappa2va\<close> is assigned to an unsigned variable before it is compared with 0.
\<close>

fun mappa2va_loop ::
  "nat \<Rightarrow> u32 \<Rightarrow> u32 \<Rightarrow> u32 \<Rightarrow> u32 \<Rightarrow> u32 \<Rightarrow> u32 \<Rightarrow> u32 \<Rightarrow> u32 \<Rightarrow> 'a cst_scheme \<Rightarrow>
    ('a cst_scheme, u32) res" where
  "mappa2va_loop 0 pgdir parentpgdir X sz a memstart va perm s = Hang"
| "mappa2va_loop (Suc fuel) pgdir parentpgdir X sz a memstart va perm s =
     (if X < sz then
        bind (walkpgdir parentpgdir memstart False s) (\<lambda>pte s.
        if pte = 0 then Ok (- 1) s
        else if load32 (mem s) pte AND PTE_P = 0 then
          bind (cprintf (''linkphysaddr : !(*parentpte & PTE_P)'' @ [CHR 0x0A]) [] s)
            (\<lambda>_ s. Ok (- 1) s)
        else
          let pa = PTE_ADDR (load32 (mem s) pte) in
          bind (mappages pgdir a PGSIZE pa perm s) (\<lambda>r s.
          if r < 0 then
            bind (cprintf (''mappa2va'' @ [CHR 0x0A]) [] s) (\<lambda>_ s.
            bind (deallocuvm pgdir (va + 4 * sz) va s) (\<lambda>_ s. Ok (- 1) s))
          else mappa2va_loop fuel pgdir parentpgdir (X + PGSIZE) sz (a + PGSIZE)
            (memstart + PGSIZE) va perm s))
      else Ok sz s)"

definition mappa2va ::
  "u32 \<Rightarrow> u32 \<Rightarrow> u32 \<Rightarrow> u32 \<Rightarrow> u32 \<Rightarrow> u32 \<Rightarrow> 'a cst_scheme \<Rightarrow> ('a cst_scheme, u32) res" where
  "mappa2va pgdir parentpgdir sz memstart va perm s =
     bind (myproc s) (\<lambda>_ s.
     if va + 4 * sz \<ge> KERNBASE then Ok (- 1) s
     else mappa2va_loop 1048577 pgdir parentpgdir 0 (PGROUNDUP sz) (PGROUNDUP va) memstart va perm s)"

text \<open>The loop over the table of regions has no bound of its own: past the last entry it faults.\<close>

fun linkphysaddr_loop ::
  "nat \<Rightarrow> u32 \<Rightarrow> nat \<Rightarrow> nat \<Rightarrow> u32 \<Rightarrow> u32 \<Rightarrow> 'a pst_scheme \<Rightarrow> ('a pst_scheme, int) res" where
  "linkphysaddr_loop 0 pgdir p i va perm s = Fault"
| "linkphysaddr_loop (Suc room) pgdir p i va perm s =
     (let e = p_shared (procs s ! p) ! i in
      if sh_sz e = 0 then Ok 1 s
      else
        let L12bits = PTE_FLAGS (sh_memstart e) in
        bind (mappa2va pgdir (p_parentpgdir (procs s ! p)) (sh_sz e) (sh_memstart e) va perm s)
          (\<lambda>sz s.
          if sz < 0 then bind (freevm pgdir s) (\<lambda>_ s. Ok (- 1) s)
          else
            let s = upd_proc p (\<lambda>q. q\<lparr>p_shared := (p_shared q)[i :=
                      (p_shared q ! i)\<lparr>sh_memstart := va + L12bits\<rparr>]\<rparr>) s in
            linkphysaddr_loop room pgdir p (i + 1) (va + sz) perm s))"

definition linkphysaddr :: "u32 \<Rightarrow> bool \<Rightarrow> 'a pst_scheme \<Rightarrow> ('a pst_scheme, int) res" where
  "linkphysaddr pgdir Wbit s =
     bind (myproc s) (\<lambda>p s.
     case p of None \<Rightarrow> Fault
     | Some p \<Rightarrow> linkphysaddr_loop MAXSHARED pgdir p 0 SHAREBASE (if Wbit then 6 else 4) s)"

end
