(* ===== verification/Paging.thy ===== *)
theory Paging
  imports Vm
begin

unbundle bit_operations_syntax

text \<open>
  The page tables of kernel/vm.c as a map from virtual pages to entries. \<open>pte_at\<close> is the entry
  the hardware finds for an address; the lemmas say how each routine changes that map, which
  frames of memory it writes, and which free pages it takes or gives back.
\<close>

section \<open>Indices and slots\<close>

lemma and_3FF: "a AND 0x3FF = take_bit 10 a" for a :: u32
proof -
  have "(0x3FF :: u32) = mask 10" by (simp add: mask_eq_exp_minus_1)
  then show ?thesis by (simp only: take_bit_eq_mask)
qed

lemma unat_PDX: "unat (PDX va) = unat va div 4194304"
  using unat_u32_less [of va] unfolding PDX_def and_3FF
  by (simp add: unsigned_take_bit_eq unsigned_drop_bit_eq drop_bit_eq_div take_bit_eq_mod
      unat_div_distrib unat_mod_distrib)

lemma unat_PTX: "unat (PTX va) = unat va div 4096 mod 1024"
  unfolding PTX_def and_3FF
  by (simp add: unsigned_take_bit_eq unsigned_drop_bit_eq drop_bit_eq_div take_bit_eq_mod
      unat_div_distrib unat_mod_distrib)

lemma PDX_less [simp]: "PDX va < 1024"
  using unat_u32_less [of va] by (simp add: word_less_nat_alt unat_PDX)

lemma PTX_less [simp]: "PTX va < 1024"
  by (simp add: word_less_nat_alt unat_PTX)

lemma unat_slot: "i < 1024 \<Longrightarrow> unat (4 * i :: u32) = 4 * unat i"
  by (simp add: word_less_nat_alt unat_word_ariths)

lemma slot_small: "i < 1024 \<Longrightarrow> 4 * i < (PGSIZE :: u32)"
  by (simp add: word_less_nat_alt unat_slot)

lemma slot_frame [simp]: "aligned p \<Longrightarrow> i < 1024 \<Longrightarrow> PGROUNDDOWN (p + 4 * i) = p"
  by (simp add: PGROUNDDOWN_add slot_small)

lemma unat_slot_add: "aligned p \<Longrightarrow> i < 1024 \<Longrightarrow> unat (p + 4 * i) = unat p + 4 * unat i"
  using unat_aligned_add [of p "4 * i"] by (simp add: slot_small unat_slot)

lemma slot_aligned4 [simp]: "aligned p \<Longrightarrow> i < 1024 \<Longrightarrow> aligned4 (p + 4 * i)"
  by (auto simp: aligned4_iff unat_slot_add elim: alignedE)

lemma slot_inj: "aligned p \<Longrightarrow> i < 1024 \<Longrightarrow> j < 1024 \<Longrightarrow> p + 4 * i = p + 4 * j \<Longrightarrow> i = j"
  by (simp add: word_unat_eq_iff unat_slot_add)

lemma same_page_iff: "PDX a = PDX b \<and> PTX a = PTX b \<longleftrightarrow> PGROUNDDOWN a = PGROUNDDOWN b"
proof -
  have d: "unat a div 4194304 = unat a div 4096 div 1024" for a :: u32
    using div_mult2_eq [of "unat a" 4096 1024] by simp
  have "PGROUNDDOWN a = PGROUNDDOWN b \<longleftrightarrow> unat a div 4096 = unat b div 4096"
    unfolding word_unat_eq_iff unat_PGROUNDDOWN
    by (metis minus_mod_eq_mult_div mult_cancel1 zero_neq_numeral)
  moreover have "unat a div 4096 = unat b div 4096 \<longleftrightarrow>
      unat a div 4096 div 1024 = unat b div 4096 div 1024 \<and>
      unat a div 4096 mod 1024 = unat b div 4096 mod 1024"
    by (metis div_mult_mod_eq)
  ultimately show ?thesis by (simp add: word_unat_eq_iff unat_PDX unat_PTX d)
qed

section \<open>Entries\<close>

lemma P2V_V2P [simp]: "P2V (V2P a) = a" "V2P (P2V a) = a"
  by (simp_all add: P2V_def V2P_def)

lemma aligned_V2P [simp]: "aligned (V2P a) = aligned a"
proof -
  have "V2P a = a + 0x80000000" by (simp add: V2P_def)
  then have "unat (V2P a) mod 4096 = (unat a + 0x80000000) mod 4096"
    by (simp add: unat_word_ariths mod_mod_cancel)
  then show ?thesis using mod_mult_self1 [of "unat a" 524288 4096] by (simp add: aligned_iff)
qed

lemma aligned_P2V [simp]: "aligned (P2V a) = aligned a"
  by (metis P2V_V2P(2) aligned_V2P)

lemma PTE_ADDR_eq: "PTE_ADDR w = PGROUNDDOWN w"
  by (simp add: PTE_ADDR_def PGROUNDDOWN_def)

lemma PTE_ADDR_or: "aligned p \<Longrightarrow> f < PGSIZE \<Longrightarrow> PTE_ADDR (p OR f) = p"
proof -
  assume p: "aligned p" and f: "f < PGSIZE"
  have "unat (PGROUNDDOWN f) = 0" using f by (simp add: unat_PGROUNDDOWN word_less_nat_alt)
  then have "PGROUNDDOWN f = 0" by (simp add: unat_eq_zero)
  moreover have "PGROUNDDOWN (p OR f) = PGROUNDDOWN p OR PGROUNDDOWN f"
    by (simp add: PGROUNDDOWN_def bit.conj_disj_distrib2)
  ultimately show ?thesis using p by (simp add: PTE_ADDR_eq PGROUNDDOWN_id)
qed

lemma odd_or: "odd f \<Longrightarrow> (p OR f) AND 1 \<noteq> (0 :: u32)"
  by (metis bit_0 bit_0_eq bit_and_iff bit_or_iff bot_apply bot_bool_def odd_one)

lemma flags_or [simp]:
  "aligned p \<Longrightarrow> PTE_ADDR (p OR 7) = p" "(p OR 7) AND 1 \<noteq> (0 :: u32)"
  using PTE_ADDR_or [of p 7] odd_or [of 7 p] by simp_all

section \<open>The map a page directory represents\<close>

definition present :: "u32 \<Rightarrow> bool" where
  "present w \<longleftrightarrow> w AND PTE_P \<noteq> 0"

definition frame_of :: "u32 \<Rightarrow> u32" where
  "frame_of w = P2V (PTE_ADDR w)"

definition pde_at :: "mem \<Rightarrow> u32 \<Rightarrow> u32 \<Rightarrow> u32" where
  "pde_at m d i = load32 m (d + 4 * i)"

definition pte_addr :: "mem \<Rightarrow> u32 \<Rightarrow> u32 \<Rightarrow> u32" where
  "pte_addr m d va = frame_of (pde_at m d (PDX va)) + 4 * PTX va"

text \<open>The entry for an address, 0 when it has no page table.\<close>

definition pte_at :: "mem \<Rightarrow> u32 \<Rightarrow> u32 \<Rightarrow> u32" where
  "pte_at m d va = (if present (pde_at m d (PDX va)) then load32 m (pte_addr m d va) else 0)"

text \<open>The pages a directory consists of, and that they are pages, all different.\<close>

definition pd_pages :: "mem \<Rightarrow> u32 \<Rightarrow> u32 set" where
  "pd_pages m d = insert d {p. \<exists>i < 1024. present (pde_at m d i) \<and> p = frame_of (pde_at m d i)}"

definition pd_ok :: "u32 \<Rightarrow> mem \<Rightarrow> u32 \<Rightarrow> bool" where
  "pd_ok e m d \<longleftrightarrow> page_ok e d \<and>
     (\<forall>i < 1024. present (pde_at m d i) \<longrightarrow> page_ok e (frame_of (pde_at m d i)) \<and>
       frame_of (pde_at m d i) \<noteq> d \<and>
       (\<forall>j < 1024. present (pde_at m d j) \<longrightarrow> frame_of (pde_at m d i) = frame_of (pde_at m d j) \<longrightarrow> i = j))"

definition vm_inv :: "'a mst_scheme \<Rightarrow> u32 \<Rightarrow> u32 list \<Rightarrow> bool" where
  "vm_inv s d xs \<longleftrightarrow> free_inv s xs \<and> pd_ok (kend s) (mem s) d \<and> pd_pages (mem s) d \<inter> set xs = {}"

lemma present_0 [simp]: "\<not> present 0"
  by (simp add: present_def)

lemma frame_of_aligned [simp]: "aligned (frame_of w)"
  by (simp add: frame_of_def PTE_ADDR_eq)

lemma pd_ok_aligned: "pd_ok e m d \<Longrightarrow> aligned d"
  by (simp add: pd_ok_def page_ok_def)

lemma pd_pages_ok: "pd_ok e m d \<Longrightarrow> p \<in> pd_pages m d \<Longrightarrow> page_ok e p"
  by (auto simp: pd_ok_def pd_pages_def)

lemma pd_self [simp]: "d \<in> pd_pages m d"
  by (simp add: pd_pages_def)

lemma pd_tab:
  assumes "present (pde_at m d (PDX va))"
  shows "frame_of (pde_at m d (PDX va)) \<in> pd_pages m d"
    "pd_ok e m d \<Longrightarrow> page_ok e (frame_of (pde_at m d (PDX va)))"
    "pd_ok e m d \<Longrightarrow> frame_of (pde_at m d (PDX va)) \<noteq> d"
  using assms PDX_less [of va] unfolding pd_pages_def pd_ok_def by blast+

lemma pte_at_page: "PGROUNDDOWN va = PGROUNDDOWN vb \<Longrightarrow> pte_at m d va = pte_at m d vb"
  using same_page_iff [of va vb] by (simp add: pte_at_def pte_addr_def)

subsection \<open>Frame rule\<close>

lemma pde_at_frame:
  "aligned d \<Longrightarrow> same_outside P m m' \<Longrightarrow> d \<notin> P \<Longrightarrow> i < 1024 \<Longrightarrow> pde_at m' d i = pde_at m d i"
  unfolding pde_at_def by (rule same_outside_load32) auto

lemma pd_frame:
  assumes "pd_ok e m d" "same_outside P m m'" "P \<inter> pd_pages m d = {}"
  shows "pd_ok e m' d" "pd_pages m' d = pd_pages m d" "pte_at m' d va = pte_at m d va"
    "pte_addr m' d va = pte_addr m d va"
proof -
  have al: "aligned d" using assms(1) by (rule pd_ok_aligned)
  have "d \<notin> P" using assms(3) by (auto simp: pd_pages_def)
  then have pde: "pde_at m' d i = pde_at m d i" if "i < 1024" for i
    using pde_at_frame [OF al assms(2)] that by blast
  then show "pd_ok e m' d" "pd_pages m' d = pd_pages m d"
    using assms(1) by (simp_all add: pd_ok_def pd_pages_def cong: conj_cong)
  show ad: "pte_addr m' d va = pte_addr m d va"
    by (simp add: pte_addr_def pde)
  show "pte_at m' d va = pte_at m d va"
  proof (cases "present (pde_at m d (PDX va))")
    case True
    then have "frame_of (pde_at m d (PDX va)) \<notin> P"
      using assms(3) pd_tab(1) by blast
    then have "load32 m' (pte_addr m d va) = load32 m (pte_addr m d va)"
      by (intro same_outside_load32 [OF assms(2)]) (simp_all add: pte_addr_def)
    then show ?thesis by (simp add: pte_at_def pde ad)
  qed (simp add: pte_at_def pde)
qed

subsection \<open>Changing an entry\<close>

lemma pte_addr_frame:
  assumes "pd_ok e m d" "present (pde_at m d (PDX va))"
  shows "PGROUNDDOWN (pte_addr m d va) = frame_of (pde_at m d (PDX va))"
    "aligned4 (pte_addr m d va)" "frame_of (pde_at m d (PDX va)) \<in> pd_pages m d"
  using assms pd_tab(1) by (auto simp: pte_addr_def)

lemma pte_addr_inj:
  assumes "pd_ok e m d" "present (pde_at m d (PDX va))" "present (pde_at m d (PDX vb))"
    "pte_addr m d va = pte_addr m d vb"
  shows "PGROUNDDOWN va = PGROUNDDOWN vb"
proof -
  have f: "frame_of (pde_at m d (PDX va)) = frame_of (pde_at m d (PDX vb))"
    using pte_addr_frame(1) [OF assms(1,2)] pte_addr_frame(1) [OF assms(1,3)] assms(4) by simp
  then have "PDX va = PDX vb" using assms(1-3) PDX_less unfolding pd_ok_def by blast
  moreover have "PTX va = PTX vb"
    using assms(4) f slot_inj [of "frame_of (pde_at m d (PDX vb))" "PTX va" "PTX vb"]
    by (simp add: pte_addr_def)
  ultimately show ?thesis by (simp flip: same_page_iff)
qed

lemma store_pte_frame:
  assumes "pd_ok e m d" "present (pde_at m d (PDX va))"
  shows "same_outside {frame_of (pde_at m d (PDX va))} m (store32 m (pte_addr m d va) w)"
  using pte_addr_frame [OF assms] by (auto simp: same_outside_def store32_frame)

lemma store_pte:
  fixes w :: u32
  assumes ok: "pd_ok e m d" and pr: "present (pde_at m d (PDX va))"
  defines "m' \<equiv> store32 m (pte_addr m d va) w"
  shows "i < 1024 \<Longrightarrow> pde_at m' d i = pde_at m d i" "pd_ok e m' d" "pd_pages m' d = pd_pages m d"
    "pte_at m' d vb = (if PGROUNDDOWN vb = PGROUNDDOWN va then w else pte_at m d vb)"
proof -
  let ?t = "frame_of (pde_at m d (PDX va))"
  have so: "same_outside {?t} m m'" unfolding m'_def by (rule store_pte_frame [OF ok pr])
  have "d \<notin> {?t}" using pd_tab(3) [OF pr ok] by simp
  then show pde: "pde_at m' d i = pde_at m d i" if "i < 1024" for i
    using pde_at_frame [OF pd_ok_aligned [OF ok] so] that by blast
  then show "pd_ok e m' d" "pd_pages m' d = pd_pages m d"
    using ok by (simp_all add: pd_ok_def pd_pages_def cong: conj_cong)
  have ad: "pte_addr m' d vb = pte_addr m d vb" for vb by (simp add: pte_addr_def pde)
  show "pte_at m' d vb = (if PGROUNDDOWN vb = PGROUNDDOWN va then w else pte_at m d vb)"
  proof (cases "PGROUNDDOWN vb = PGROUNDDOWN va")
    case True
    then have "PDX vb = PDX va" "PTX vb = PTX va" by (simp_all flip: same_page_iff)
    then show ?thesis using True pr ad pde by (simp add: pte_at_def pte_addr_def m'_def)
  next
    case False
    show ?thesis
    proof (cases "present (pde_at m d (PDX vb))")
      case True
      then have "pte_addr m d vb \<noteq> pte_addr m d va" using False pte_addr_inj [OF ok _ pr] by blast
      then have "load32 m' (pte_addr m d vb) = load32 m (pte_addr m d vb)"
        unfolding m'_def using pte_addr_frame(2) [OF ok] True pr
        by (intro load32_store32_other) auto
      then show ?thesis using False by (simp add: pte_at_def pde ad)
    qed (simp add: pte_at_def pde False)
  qed
qed

subsection \<open>Walking the tables\<close>

lemma walk_lookup:
  "walkpgdir d va False s =
     Ok (if present (pde_at (mem s) d (PDX va)) then pte_addr (mem s) d va else 0) s"
  by (simp add: walkpgdir_def Let_def pde_at_def pte_addr_def present_def frame_of_def)

lemma walk_present:
  "present (pde_at (mem s) d (PDX va)) \<Longrightarrow> walkpgdir d va al s = Ok (pte_addr (mem s) d va) s"
  by (simp add: walkpgdir_def Let_def pde_at_def pte_addr_def present_def frame_of_def)

lemma pte_addr_nz:
  assumes "pd_ok e m d" "present (pde_at m d (PDX va))" "KERNBASE < e"
  shows "pte_addr m d va \<noteq> 0"
proof
  assume z: "pte_addr m d va = 0"
  have "PGROUNDDOWN (0 :: u32) = 0" by (simp add: PGROUNDDOWN_def)
  with z have "frame_of (pde_at m d (PDX va)) = 0"
    using pte_addr_frame(1) [OF assms(1,2)] by simp
  moreover have "page_ok e (frame_of (pde_at m d (PDX va)))"
    using assms(1,2) PDX_less by (auto simp: pd_ok_def)
  ultimately show False using assms(3) page_ok_nz by metis
qed

lemma walk_alloc_none:
  "vm_inv s d [] \<Longrightarrow> \<not> present (pde_at (mem s) d (PDX va)) \<Longrightarrow> walkpgdir d va True s = Ok 0 s"
  by (simp add: walkpgdir_def Let_def pde_at_def present_def vm_inv_def kp.alloc_none)

text \<open>Only memory and the free list differ.\<close>

definition only_mem :: "'a mst_scheme \<Rightarrow> 'a mst_scheme \<Rightarrow> bool" where
  "only_mem s s' \<longleftrightarrow> s' = s\<lparr>mem := mem s', freelist := freelist s'\<rparr>"

lemma only_mem_refl [simp]: "only_mem s s"
  by (simp add: only_mem_def)

lemma only_mem_trans:
  assumes "only_mem s s'" "only_mem s' s''"
  shows "only_mem s s''"
proof -
  have "s'' = s'\<lparr>mem := mem s'', freelist := freelist s''\<rparr>"
    using assms(2) unfolding only_mem_def .
  also have "\<dots> = (s\<lparr>mem := mem s', freelist := freelist s'\<rparr>)\<lparr>mem := mem s'', freelist := freelist s''\<rparr>"
    using assms(1) unfolding only_mem_def by (rule arg_cong)
  finally show ?thesis by (simp add: only_mem_def)
qed

lemma only_mem_upd [simp]: "only_mem s (s\<lparr>mem := m\<rparr>)" "only_mem s (s\<lparr>mem := m, freelist := f\<rparr>)"
  by (simp_all add: only_mem_def)

lemma only_mem_fields:
  assumes "only_mem s s'"
  shows "kend s' = kend s" "kdata s' = kdata s" "use_lock s' = use_lock s" "locks s' = locks s"
    "cur s' = cur s" "quiet s' = quiet s" "lk_free l s' = lk_free l s" "mst.more s' = mst.more s"
    "curproc s' = curproc s"
  by (rule trans [OF arg_cong [OF assms [unfolded only_mem_def]]], simp)+

lemma zero_page_load:
  assumes "aligned x" "i < 1024"
  shows "load32 (memset m x 0 PGSIZE) (x + 4 * i) = 0"
proof -
  have "memset m x 0 PGSIZE b = 0" if "b - (x + 4 * i) < 4" for b
    using frame_word [of "x + 4 * i" b] that assms by (simp add: memset_eq in_frame_iff)
  then have "load32 (memset m x 0 PGSIZE) (x + 4 * i) = load32 (\<lambda>_. 0) (x + 4 * i)"
    by (intro load32_cong) simp
  then show ?thesis by (simp add: load32_def)
qed

lemma walk_alloc_new:
  assumes inv: "vm_inv s d (x # xs)" and np: "\<not> present (pde_at (mem s) d (PDX va))"
  shows "\<exists>s'. walkpgdir d va True s = Ok (pte_addr (mem s') d va) s' \<and> vm_inv s' d xs \<and>
    present (pde_at (mem s') d (PDX va)) \<and> (\<forall>vb. pte_at (mem s') d vb = pte_at (mem s) d vb) \<and>
    pd_pages (mem s') d = insert x (pd_pages (mem s) d) \<and>
    same_outside {d, x} (mem s) (mem s') \<and> only_mem s s'"
proof -
  have fi: "free_inv s (x # xs)" and ok: "pd_ok (kend s) (mem s) d"
    and dj: "pd_pages (mem s) d \<inter> set (x # xs) = {}" using inv by (simp_all add: vm_inv_def)
  obtain s1 where s1: "kalloc s = Ok x s1" "free_inv s1 xs" "s1 = s\<lparr>freelist := freelist s1\<rparr>"
    using kalloc_pop [OF fi] by blast
  have x: "page_ok (kend s) x" "x \<noteq> 0" "x \<notin> set xs"
    using kp.inv_valid [OF fi] kp.inv_distinct [OF fi] by simp_all
  have al: "aligned d" "aligned x" using pd_ok_aligned [OF ok] x(1) by (simp_all add: page_ok_def)
  have dx: "d \<noteq> x" "d \<notin> set xs" using dj by (auto simp: pd_pages_def)
  have s1m: "mem s1 = mem s" "kend s1 = kend s" by (subst s1(3), simp)+
  define w where "w = V2P x OR 7"
  define m1 where "m1 = memset (mem s) x 0 PGSIZE"
  define m2 where "m2 = store32 m1 (d + 4 * PDX va) w"
  let ?s2 = "s1\<lparr>mem := m2\<rparr>"
  have w: "present w" "frame_of w = x"
    using al by (simp_all add: present_def frame_of_def w_def)
  have so1: "same_outside {x} (mem s) m1"
    using al by (auto simp: same_outside_def m1_def memset_eq in_frame_iff)
  have so2: "same_outside {d} m1 m2"
    using al by (auto simp: same_outside_def m2_def store32_frame)
  have so: "same_outside {d, x} (mem s) m2"
    by (rule same_outside_trans [OF so1 so2]) auto
  have pde: "pde_at m2 d i = (if i = PDX va then w else pde_at (mem s) d i)" if "i < 1024" for i
  proof (cases "i = PDX va")
    case False
    then have "d + 4 * i \<noteq> d + 4 * PDX va" using slot_inj [OF al(1) that PDX_less] by blast
    then have "load32 m2 (d + 4 * i) = load32 m1 (d + 4 * i)"
      unfolding m2_def using al(1) that by (intro load32_store32_other) auto
    also have "\<dots> = load32 (mem s) (d + 4 * i)"
      using al(1) that dx by (intro same_outside_load32 [OF so1]) auto
    finally show ?thesis using False by (simp add: pde_at_def)
  qed (simp add: pde_at_def m2_def)
  have fr: "frame_of (pde_at (mem s) d i) \<noteq> x" "frame_of (pde_at (mem s) d i) \<noteq> d"
    if "i < 1024" "present (pde_at (mem s) d i)" for i
    using that dj ok by (auto simp: pd_pages_def pd_ok_def)
  have ok2: "pd_ok (kend s) m2 d"
    unfolding pd_ok_def using ok x(1) dx w fr by (auto simp: pde pd_ok_def split: if_splits) blast+
  have "x \<in> pd_pages m2 d" using pd_tab(1) [of m2 d va] pde [OF PDX_less, of va] w by simp
  moreover have "p \<in> pd_pages (mem s) d \<Longrightarrow> p \<in> pd_pages m2 d" for p
    using pde np unfolding pd_pages_def by (auto 4 3)
  moreover have "p \<in> pd_pages m2 d \<Longrightarrow> p = x \<or> p \<in> pd_pages (mem s) d" for p
    using pde w(2) unfolding pd_pages_def by (auto 4 3)
  ultimately have pg: "pd_pages m2 d = insert x (pd_pages (mem s) d)" by blast
  have "free_inv ?s2 xs"
    using free_inv_mem [OF s1(2), of "{d, x}"] so dx x(3) s1m by simp
  moreover have "walkpgdir d va True s = Ok (pte_addr m2 d va) ?s2"
    using np s1(1) s1m x(2) w pde [OF PDX_less, of va]
    by (simp add: walkpgdir_def pde_at_def [symmetric] present_def Let_def pte_addr_def
        m1_def m2_def w_def)
  moreover have "pte_at m2 d vb = pte_at (mem s) d vb" for vb
  proof (cases "PDX vb = PDX va")
    case True
    then have "load32 m2 (x + 4 * PTX vb) = load32 m1 (x + 4 * PTX vb)"
      using al dx by (intro same_outside_load32 [OF so2]) auto
    also have "\<dots> = 0"
      using zero_page_load [OF al(2)] by (simp add: m1_def)
    finally show ?thesis
      using True np w pde [OF PDX_less] by (simp add: pte_at_def pte_addr_def)
  next
    case False
    then have p: "pde_at m2 d (PDX vb) = pde_at (mem s) d (PDX vb)" by (simp add: pde)
    have "load32 m2 (pte_addr (mem s) d vb) = load32 (mem s) (pte_addr (mem s) d vb)"
      if "present (pde_at (mem s) d (PDX vb))"
      using that fr [of "PDX vb"] by (intro same_outside_load32 [OF so]) (simp_all add: pte_addr_def)
    then show ?thesis by (simp add: pte_at_def pte_addr_def p)
  qed
  moreover have "only_mem s ?s2" unfolding only_mem_def by (subst s1(3)) simp
  ultimately show ?thesis
    using ok2 pg so dj x(3) w pde [OF PDX_less, of va] s1m
    by (intro exI [of _ ?s2]) (auto simp: vm_inv_def)
qed

section \<open>Mapping pages\<close>

text \<open>
  \<open>grows s s' d xs ys\<close>: from \<open>s\<close> to \<open>s'\<close> the directory \<open>d\<close> took the pages at the front of the free
  list \<open>xs\<close> as new tables, \<open>ys\<close> is left, and no frame outside the directory was written.
\<close>

definition grows :: "'a mst_scheme \<Rightarrow> 'a mst_scheme \<Rightarrow> u32 \<Rightarrow> u32 list \<Rightarrow> u32 list \<Rightarrow> bool" where
  "grows s s' d xs ys \<longleftrightarrow> vm_inv s' d ys \<and> only_mem s s' \<and>
     (\<exists>us. xs = us @ ys \<and> pd_pages (mem s') d = pd_pages (mem s) d \<union> set us) \<and>
     same_outside (pd_pages (mem s') d) (mem s) (mem s')"

lemma grows_refl: "vm_inv s d xs \<Longrightarrow> grows s s d xs xs"
  by (auto simp: grows_def)

lemma grows_trans:
  assumes "grows s s' d xs ys" "grows s' s'' d ys zs"
  shows "grows s s'' d xs zs"
proof -
  obtain us where us: "xs = us @ ys" "pd_pages (mem s') d = pd_pages (mem s) d \<union> set us"
    using assms(1) by (auto simp: grows_def)
  obtain vs where vs: "ys = vs @ zs" "pd_pages (mem s'') d = pd_pages (mem s') d \<union> set vs"
    using assms(2) by (auto simp: grows_def)
  note g = assms(1) [unfolded grows_def] assms(2) [unfolded grows_def]
  from g have so: "same_outside (pd_pages (mem s') d) (mem s) (mem s')"
    "same_outside (pd_pages (mem s'') d) (mem s') (mem s'')" by blast+
  have "same_outside (pd_pages (mem s'') d) (mem s) (mem s'')"
    by (rule same_outside_trans [OF so]) (use vs(2) in blast)
  moreover have "only_mem s s''" using g only_mem_trans by blast
  moreover have "xs = (us @ vs) @ zs" "pd_pages (mem s'') d = pd_pages (mem s) d \<union> set (us @ vs)"
    using us vs by auto
  ultimately show ?thesis using g unfolding grows_def by blast
qed

lemma vm_inv_free: "vm_inv s d xs \<Longrightarrow> free_inv s xs"
  by (simp add: vm_inv_def)

lemma vm_inv_pd: "vm_inv s d xs \<Longrightarrow> pd_ok (kend s) (mem s) d"
  by (simp add: vm_inv_def)

lemma vm_inv_kend: "vm_inv s d xs \<Longrightarrow> KERNBASE < kend s"
  by (simp add: vm_inv_def free_inv_def)

text \<open>Finding the entry of an address, with a table for it.\<close>

lemma walk_cases:
  assumes inv: "vm_inv s d xs"
  obtains (full) "xs = []" "\<not> present (pde_at (mem s) d (PDX va))" "walkpgdir d va True s = Ok 0 s"
  | (found) s' ys where "walkpgdir d va True s = Ok (pte_addr (mem s') d va) s'"
    "grows s s' d xs ys" "present (pde_at (mem s') d (PDX va))"
    "\<And>vb. pte_at (mem s') d vb = pte_at (mem s) d vb" "pte_addr (mem s') d va \<noteq> 0"
proof (cases "present (pde_at (mem s) d (PDX va))")
  case True
  then show ?thesis
    using that(2) [of s xs] inv walk_present grows_refl
      pte_addr_nz [OF vm_inv_pd [OF inv] True vm_inv_kend [OF inv]] by blast
next
  case False
  show ?thesis
  proof (cases xs)
    case Nil
    then show ?thesis using that(1) False inv walk_alloc_none by blast
  next
    case (Cons x ys)
    with walk_alloc_new [of s d x ys va] inv False obtain s' where s':
      "walkpgdir d va True s = Ok (pte_addr (mem s') d va) s'" "vm_inv s' d ys"
      "present (pde_at (mem s') d (PDX va))" "\<And>vb. pte_at (mem s') d vb = pte_at (mem s) d vb"
      "pd_pages (mem s') d = insert x (pd_pages (mem s) d)"
      "same_outside {d, x} (mem s) (mem s')" "only_mem s s'" by blast
    have "same_outside (pd_pages (mem s') d) (mem s) (mem s')"
      using s'(6) by (rule same_outside_mono) (simp add: s'(5))
    then have "grows s s' d xs ys" using s' Cons by (auto simp: grows_def)
    then show ?thesis
      using that(2) s' pte_addr_nz [OF vm_inv_pd [OF s'(2)] s'(3) vm_inv_kend [OF s'(2)]] by blast
  qed
qed

text \<open>Writing an entry whose table exists.\<close>

lemma set_pte:
  assumes inv: "vm_inv s d xs" and pr: "present (pde_at (mem s) d (PDX va))"
  shows "grows s (s\<lparr>mem := store32 (mem s) (pte_addr (mem s) d va) w\<rparr>) d xs xs"
    "pte_at (store32 (mem s) (pte_addr (mem s) d va) w) d vb =
      (if PGROUNDDOWN vb = PGROUNDDOWN va then w else pte_at (mem s) d vb)"
proof -
  let ?m = "store32 (mem s) (pte_addr (mem s) d va) w"
  note ok = vm_inv_pd [OF inv]
  note st = store_pte [OF ok pr, where w = w]
  show "pte_at ?m d vb = (if PGROUNDDOWN vb = PGROUNDDOWN va then w else pte_at (mem s) d vb)"
    by (rule st(4))
  have so: "same_outside (pd_pages (mem s) d) (mem s) ?m"
    using store_pte_frame [OF ok pr] by (rule same_outside_mono) (use pd_tab(1) [OF pr] in auto)
  moreover have "free_inv (s\<lparr>mem := ?m\<rparr>) xs"
    using inv by (intro free_inv_mem [OF _ so]) (auto simp: vm_inv_def)
  ultimately show "grows s (s\<lparr>mem := ?m\<rparr>) d xs xs"
    using inv st(2,3) by (auto simp: grows_def vm_inv_def)
qed

lemma PGROUNDDOWN_idem [simp]: "PGROUNDDOWN (PGROUNDDOWN a) = PGROUNDDOWN a"
  by (simp add: PGROUNDDOWN_id)

lemma map_step:
  assumes inv: "vm_inv s d xs" and free: "\<not> present (pte_at (mem s) d a)"
  obtains (full) "xs = []" "mappages_loop (Suc f) d a la pa perm s = Ok (- 1) s"
  | (mapped) s' ys where "grows s s' d xs ys"
    "\<And>vb. pte_at (mem s') d vb = (if PGROUNDDOWN vb = PGROUNDDOWN a then pa OR perm OR 1
       else pte_at (mem s) d vb)"
    "mappages_loop (Suc f) d a la pa perm s =
      (if a = la then Ok 0 s' else mappages_loop f d (a + PGSIZE) la (pa + PGSIZE) perm s')"
proof (cases rule: walk_cases [OF inv, of a])
  case 1
  then show ?thesis using that(1) by simp
next
  case (2 s' ys)
  have pte: "load32 (mem s') (pte_addr (mem s') d a) = pte_at (mem s) d a"
    using 2(3) 2(4) [of a] by (simp add: pte_at_def)
  have i': "vm_inv s' d ys" using 2(2) by (simp add: grows_def)
  let ?s = "s'\<lparr>mem := store32 (mem s') (pte_addr (mem s') d a) (pa OR perm OR 1)\<rparr>"
  have "mappages_loop (Suc f) d a la pa perm s =
      (if a = la then Ok 0 ?s else mappages_loop f d (a + PGSIZE) la (pa + PGSIZE) perm ?s)"
    using 2(1,5) free pte by (simp add: present_def Let_def)
  moreover have "grows s ?s d xs ys"
    using 2(2) set_pte(1) [OF i' 2(3)] by (rule grows_trans)
  ultimately show ?thesis
    using that(2) [of ?s ys] set_pte(2) [OF i' 2(3)] 2(4) by simp
qed

lemma aligned_diff:
  assumes "aligned a" "aligned b"
  shows "aligned (a - b)"
proof -
  obtain k l where "unat a = 4096 * k" "unat b = 4096 * l" using assms by (auto elim!: alignedE)
  then have "a = of_nat (4096 * k)" "b = of_nat (4096 * l)" by (simp_all flip: \<open>unat a = _\<close> \<open>unat b = _\<close>)
  then have "a - b = 4096 * (of_nat k - of_nat l)" by (simp add: algebra_simps)
  moreover have "aligned (4096 * w)" for w
    by (simp add: aligned_iff unat_word_ariths mod_mod_cancel)
  ultimately show ?thesis by (simp only:)
qed

lemma off_step:
  assumes "aligned off" "k < 1048576"
  shows "unat off < 4096 * Suc k \<longleftrightarrow> off = 0 \<or> unat (off - PGSIZE) < 4096 * k"
proof (cases "off = 0")
  case False
  then have "4096 \<le> unat off"
    using alignedE [OF assms(1)] by (metis One_nat_def Suc_leI gr_zeroI mult_0_right mult_le_mono2
      nat_mult_1_right unat_eq_zero)
  then have "unat (off - PGSIZE) = unat off - 4096" by (simp add: unat_sub word_le_nat_alt)
  with False \<open>4096 \<le> unat off\<close> show ?thesis by auto
qed simp

lemma off_zero:
  assumes "k < 1048576"
  shows "\<not> unat ((0 :: u32) - PGSIZE) < 4096 * k"
  using assms by simp

lemma mappages_loop_spec:
  assumes "vm_inv s d xs" "aligned a" "unat a + 4096 * n < 4294967296" "n < fuel"
    "\<And>vb. unat (PGROUNDDOWN vb - a) < 4096 * Suc n \<Longrightarrow> \<not> present (pte_at (mem s) d vb)"
  shows "\<exists>k ys s'. grows s s' d xs ys \<and>
    (\<forall>vb. pte_at (mem s') d vb = (if unat (PGROUNDDOWN vb - a) < 4096 * k
      then (pa + (PGROUNDDOWN vb - a)) OR perm OR 1 else pte_at (mem s) d vb)) \<and>
    (k = Suc n \<and> mappages_loop fuel d a (a + 4096 * of_nat n) pa perm s = Ok 0 s' \<or>
     k \<le> n \<and> ys = [] \<and> mappages_loop fuel d a (a + 4096 * of_nat n) pa perm s = Ok (- 1) s')"
  using assms
proof (induction n arbitrary: a s xs fuel pa)
  case 0
  obtain f where f: "fuel = Suc f" using "0.prems"(4) by (cases fuel) auto
  have na: "\<not> present (pte_at (mem s) d a)" using "0.prems"(2,5) by (simp add: PGROUNDDOWN_id)
  show ?case
  proof (cases rule: map_step [OF "0.prems"(1) na, where f = f and la = a and pa = pa and perm = perm])
    case 1
    with "0.prems"(1) f show ?thesis by (intro exI [of _ 0] exI [of _ "[]"] exI [of _ s]) (simp add: grows_refl)
  next
    case (2 s' ys)
    have "unat (PGROUNDDOWN vb - a) < 4096 \<longleftrightarrow> PGROUNDDOWN vb = a" for vb
      using off_step [of "PGROUNDDOWN vb - a" 0] "0.prems"(2) by (simp add: aligned_diff)
    with 2 f "0.prems"(2) show ?thesis
      by (intro exI [of _ "Suc 0"] exI [of _ ys] exI [of _ s']) (auto simp: PGROUNDDOWN_id)
  qed
next
  case (Suc n)
  obtain f where f: "fuel = Suc f" using Suc.prems(4) by (cases fuel) auto
  let ?la = "a + 4096 * of_nat (Suc n)" let ?b = "a + PGSIZE"
  have la: "?la = ?b + 4096 * of_nat n" by (simp add: algebra_simps)
  have "unat ?la = unat a + 4096 * Suc n" using Suc.prems(3) by (rule unat_page)
  then have ne: "a \<noteq> ?la" by auto
  have ub: "unat ?b = unat a + 4096" using Suc.prems(3) by (simp add: unat_word_ariths)
  have n: "n < 1048575" using Suc.prems(3) by simp
  have na: "\<not> present (pte_at (mem s) d a)" using Suc.prems(2,5) by (simp add: PGROUNDDOWN_id)
  have off: "PGROUNDDOWN vb - ?b = (PGROUNDDOWN vb - a) - PGSIZE" for vb by simp
  have st: "unat (PGROUNDDOWN vb - a) < 4096 * Suc k \<longleftrightarrow> PGROUNDDOWN vb = a \<or> unat (PGROUNDDOWN vb - ?b) < 4096 * k"
    if "k \<le> Suc n" for vb k
    using off_step [of "PGROUNDDOWN vb - a" k] Suc.prems(2) that n
    by (simp add: aligned_diff diff_diff_eq)
  have nz: "\<not> unat (a - ?b) < 4096 * k" if "k \<le> Suc n" for k
    using off_zero [of k] that n by simp
  show ?case
  proof (cases rule: map_step [OF Suc.prems(1) na, where f = f and la = ?la and pa = pa and perm = perm])
    case 1
    with Suc.prems(1) f show ?thesis
      by (intro exI [of _ 0] exI [of _ "[]"] exI [of _ s]) (simp add: grows_refl)
  next
    case (2 s1 ys)
    have fr: "\<not> present (pte_at (mem s1) d vb)" if "unat (PGROUNDDOWN vb - ?b) < 4096 * Suc n" for vb
      using that nz [of "Suc n"] Suc.prems(2) Suc.prems(5) [of vb] st [of "Suc n" vb] 2(2) [of vb]
      by (auto simp: PGROUNDDOWN_id)
    have i1: "vm_inv s1 d ys" using 2(1) by (simp add: grows_def)
    have u1: "unat ?b + 4096 * n < 4294967296" "n < f" using Suc.prems(3,4) f ub by simp_all
    from Suc.IH [OF i1 aligned_add [OF Suc.prems(2)] u1, where pa = "pa + PGSIZE"] fr
    obtain k zs s2 where k: "grows s1 s2 d ys zs"
      "\<And>vb. pte_at (mem s2) d vb = (if unat (PGROUNDDOWN vb - ?b) < 4096 * k
        then (pa + PGSIZE + (PGROUNDDOWN vb - ?b)) OR perm OR 1 else pte_at (mem s1) d vb)"
      "k = Suc n \<and> mappages_loop f d ?b (?b + 4096 * of_nat n) (pa + PGSIZE) perm s1 = Ok 0 s2 \<or>
       k \<le> n \<and> zs = [] \<and> mappages_loop f d ?b (?b + 4096 * of_nat n) (pa + PGSIZE) perm s1 = Ok (- 1) s2"
      by blast
    have "grows s s2 d xs zs" using 2(1) k(1) by (rule grows_trans)
    moreover have "pte_at (mem s2) d vb = (if unat (PGROUNDDOWN vb - a) < 4096 * Suc k
        then (pa + (PGROUNDDOWN vb - a)) OR perm OR 1 else pte_at (mem s) d vb)" for vb
    proof -
      have "k \<le> Suc n" using k(3) by auto
      then show ?thesis
        using st [of k vb] nz [of k] k(2) [of vb] 2(2) [of vb] Suc.prems(2)
        by (auto simp: PGROUNDDOWN_id algebra_simps)
    qed
    ultimately show ?thesis
      using k(3) 2(3) f ne unfolding la
      by (intro exI [of _ "Suc k"] exI [of _ zs] exI [of _ s2]) auto
  qed
qed

lemma mappages_spec:
  assumes inv: "vm_inv s d xs" and sz: "sz \<noteq> 0" "unat va + unat sz \<le> 4294967296"
    and free: "\<And>vb. PGROUNDDOWN va \<le> PGROUNDDOWN vb \<Longrightarrow> PGROUNDDOWN vb \<le> PGROUNDDOWN (va + sz - 1) \<Longrightarrow>
      \<not> present (pte_at (mem s) d vb)"
  shows "\<exists>ys s'. grows s s' d xs ys \<and>
    (mappages d va sz pa perm s = Ok 0 s' \<and>
      (\<forall>vb. pte_at (mem s') d vb =
        (if PGROUNDDOWN va \<le> PGROUNDDOWN vb \<and> PGROUNDDOWN vb \<le> PGROUNDDOWN (va + sz - 1)
         then (pa + (PGROUNDDOWN vb - PGROUNDDOWN va)) OR perm OR 1 else pte_at (mem s) d vb)) \<or>
     mappages d va sz pa perm s = Ok (- 1) s' \<and> ys = [] \<and>
      (\<forall>vb. pte_at (mem s') d vb = pte_at (mem s) d vb \<or>
        PGROUNDDOWN va \<le> PGROUNDDOWN vb \<and> PGROUNDDOWN vb \<le> PGROUNDDOWN (va + sz - 1)))"
proof -
  let ?a = "PGROUNDDOWN va" and ?l = "PGROUNDDOWN (va + sz - 1)"
  have s0: "0 < unat sz" using sz(1) by (simp add: unat_gt_0)
  have uv: "unat (va + sz - 1) = unat va + unat sz - 1"
  proof -
    have "va + sz - 1 = of_nat (unat va + unat sz - 1)" using s0 by (simp add: of_nat_diff)
    then show ?thesis using sz(2) s0 by (simp only: unat_of_nat32)
  qed
  obtain n where n: "unat ?l = unat ?a + 4096 * n"
  proof -
    obtain i j where "unat ?a = 4096 * i" "unat ?l = 4096 * j"
      using aligned_PGROUNDDOWN alignedE by metis
    moreover have "unat ?a \<le> unat ?l"
      using uv s0 by (simp add: unat_PGROUNDDOWN minus_mod_eq_mult_div div_le_mono)
    ultimately show ?thesis using that [of "j - i"] by auto
  qed
  have lt: "unat ?a + 4096 * n < 4294967296" using n unat_u32_less [of ?l] by simp
  have l: "?l = ?a + 4096 * of_nat n" using unat_page [OF lt] n by (simp only: word_unat_eq_iff)
  have rng: "unat (PGROUNDDOWN vb - ?a) < 4096 * Suc n \<longleftrightarrow> ?a \<le> PGROUNDDOWN vb \<and> PGROUNDDOWN vb \<le> ?l" for vb
  proof -
    obtain i j where "unat ?a = 4096 * i" "unat (PGROUNDDOWN vb) = 4096 * j" "i < 1048576" "j < 1048576"
      using aligned_PGROUNDDOWN alignedE by metis
    note ij = this
    have "unat (PGROUNDDOWN vb - ?a) = (if i \<le> j then 4096 * (j - i) else 4294967296 - 4096 * (i - j))"
      using ij by (auto simp: unat_sub_if' diff_mult_distrib2)
    moreover have "?a \<le> PGROUNDDOWN vb \<longleftrightarrow> i \<le> j" "PGROUNDDOWN vb \<le> ?l \<longleftrightarrow> j \<le> i + n"
      using ij n by (simp_all add: word_le_nat_alt) linarith
    moreover have "4096 * Suc n \<le> 4294967296 - 4096 * (i - j)" if "\<not> i \<le> j"
    proof -
      have "i + n < 1048576" using lt ij(1) by simp
      then have "Suc n + (i - j) \<le> 1048576" by simp
      then have "4096 * (Suc n + (i - j)) \<le> 4096 * 1048576" by (rule mult_le_mono2)
      then show ?thesis by simp
    qed
    ultimately show ?thesis by auto
  qed
  have "n < 1048577" using lt by simp
  from mappages_loop_spec [OF inv aligned_PGROUNDDOWN lt this, where pa = pa and perm = perm] free rng
  obtain k ys s' where k: "grows s s' d xs ys"
    "\<forall>vb. pte_at (mem s') d vb = (if unat (PGROUNDDOWN vb - ?a) < 4096 * k
      then (pa + (PGROUNDDOWN vb - ?a)) OR perm OR 1 else pte_at (mem s) d vb)"
    "k = Suc n \<and> mappages d va sz pa perm s = Ok 0 s' \<or>
     k \<le> n \<and> ys = [] \<and> mappages d va sz pa perm s = Ok (- 1) s'"
    unfolding mappages_def l by blast
  show ?thesis
  proof (cases "k = Suc n")
    case True
    then show ?thesis using k(1,3) k(2) [unfolded True rng] by auto
  next
    case False
    have "pte_at (mem s') d vb = pte_at (mem s) d vb \<or> ?a \<le> PGROUNDDOWN vb \<and> PGROUNDDOWN vb \<le> ?l" for vb
      using k(2) k(3) False rng [of vb] by auto
    with False k show ?thesis by blast
  qed
qed

lemma PGROUNDDOWN_last: "aligned a \<Longrightarrow> PGROUNDDOWN (4095 + a) = a"
  unfolding add.commute [of 4095] by (rule PGROUNDDOWN_add) simp_all

lemma unat_aligned_max: "aligned a \<Longrightarrow> unat a + 4096 \<le> 4294967296"
  by (auto elim!: alignedE)

text \<open>One page.\<close>

lemma map_page:
  assumes inv: "vm_inv s d xs" and al: "aligned a" and free: "\<not> present (pte_at (mem s) d a)"
  obtains (mapped) s' ys where "mappages d a PGSIZE pa perm s = Ok 0 s'" "grows s s' d xs ys"
    "\<And>vb. pte_at (mem s') d vb = (if PGROUNDDOWN vb = a then pa OR perm OR 1 else pte_at (mem s) d vb)"
  | (full) s' where "mappages d a PGSIZE pa perm s = Ok (- 1) s'" "grows s s' d xs []"
    "\<And>vb. pte_at (mem s') d vb = pte_at (mem s) d vb"
proof -
  have off: "unat (PGROUNDDOWN vb - a) < 4096 \<longleftrightarrow> PGROUNDDOWN vb = a" for vb
    using off_step [of "PGROUNDDOWN vb - a" 0] al by (simp add: aligned_diff)
  have m: "mappages d a PGSIZE pa perm s = mappages_loop 1048577 d a (a + 4096 * of_nat 0) pa perm s"
    using al by (simp add: mappages_def PGROUNDDOWN_id PGROUNDDOWN_last)
  have "\<not> present (pte_at (mem s) d vb)" if "unat (PGROUNDDOWN vb - a) < 4096 * Suc 0" for vb
    using that free off [of vb] al pte_at_page [of vb a "mem s" d] by (simp add: PGROUNDDOWN_id)
  moreover have "unat a + 4096 * 0 < 4294967296" "0 < (1048577 :: nat)"
    using unat_u32_less [of a] by simp_all
  note mappages_loop_spec [OF inv al this, where pa = pa and perm = perm]
  ultimately
  obtain k ys s' where k: "grows s s' d xs ys"
    "\<forall>vb. pte_at (mem s') d vb = (if unat (PGROUNDDOWN vb - a) < 4096 * k
      then (pa + (PGROUNDDOWN vb - a)) OR perm OR 1 else pte_at (mem s) d vb)"
    "k = Suc 0 \<and> mappages d a PGSIZE pa perm s = Ok 0 s' \<or>
     k \<le> 0 \<and> ys = [] \<and> mappages d a PGSIZE pa perm s = Ok (- 1) s'"
    unfolding m by blast
  show ?thesis
  proof (cases "k = Suc 0")
    case True
    then show ?thesis using that(1) [of s' ys] k by (simp add: off)
  next
    case False
    then show ?thesis using that(2) [of s'] k by auto
  qed
qed

end
