(* ===== verification/Uvm.thy ===== *)
theory Uvm
  imports Paging
begin

unbundle bit_operations_syntax

text \<open>
  User memory: a page directory whose pages below a limit are owned by the address space, and
  what allocating, freeing, copying and writing user memory do to it.
\<close>

section \<open>Owned user pages\<close>

abbreviation uframe :: "mem \<Rightarrow> u32 \<Rightarrow> u32 \<Rightarrow> u32" where
  "uframe m d a \<equiv> frame_of (pte_at m d a)"

text \<open>
  Every page mapped below \<open>lim\<close> is a page of its own: not free, no part of the directory and
  mapped once.
\<close>

definition um_ok :: "'a mst_scheme \<Rightarrow> u32 \<Rightarrow> u32 \<Rightarrow> u32 list \<Rightarrow> bool" where
  "um_ok s d lim xs \<longleftrightarrow> vm_inv s d xs \<and>
     (\<forall>a < lim. aligned a \<longrightarrow> present (pte_at (mem s) d a) \<longrightarrow>
        page_ok (kend s) (uframe (mem s) d a) \<and> uframe (mem s) d a \<notin> pd_pages (mem s) d \<union> set xs \<and>
        (\<forall>b < lim. aligned b \<longrightarrow> present (pte_at (mem s) d b) \<longrightarrow>
           uframe (mem s) d a = uframe (mem s) d b \<longrightarrow> a = b))"

definition upages :: "mem \<Rightarrow> u32 \<Rightarrow> u32 \<Rightarrow> u32 \<Rightarrow> u32 set" where
  "upages m d lo hi = {uframe m d a | a. aligned a \<and> lo \<le> a \<and> a < hi \<and> present (pte_at m d a)}"

lemma upages_cong:
  assumes "\<And>c. aligned c \<Longrightarrow> lo \<le> c \<Longrightarrow> c < hi \<Longrightarrow> pte_at m d c = pte_at m' d c"
  shows "upages m d lo hi = upages m' d lo hi"
  unfolding upages_def by (rule Collect_cong, rule ex_cong1) (use assms in auto)

lemma upagesI:
  "aligned a \<Longrightarrow> lo \<le> a \<Longrightarrow> a < hi \<Longrightarrow> present (pte_at m d a) \<Longrightarrow> uframe m d a \<in> upages m d lo hi"
  by (auto simp: upages_def)

lemma upages_mono:
  assumes "lo' \<le> lo" "hi \<le> hi'"
  shows "upages m d lo hi \<subseteq> upages m d lo' hi'"
proof -
  have "lo \<le> a \<Longrightarrow> lo' \<le> a" "a < hi \<Longrightarrow> a < hi'" for a using assms by simp_all
  then show ?thesis unfolding upages_def by blast
qed

lemma um_ok_vm: "um_ok s d lim xs \<Longrightarrow> vm_inv s d xs"
  by (simp add: um_ok_def)

lemma um_okD:
  assumes "um_ok s d lim xs" "a < lim" "aligned a" "present (pte_at (mem s) d a)"
  shows "page_ok (kend s) (uframe (mem s) d a)" "uframe (mem s) d a \<notin> pd_pages (mem s) d"
    "uframe (mem s) d a \<notin> set xs"
    "b < lim \<Longrightarrow> aligned b \<Longrightarrow> present (pte_at (mem s) d b) \<Longrightarrow>
      uframe (mem s) d a = uframe (mem s) d b \<Longrightarrow> a = b"
  using assms unfolding um_ok_def by blast+

lemma um_free_page:
  assumes um: "um_ok s d lim xs" and a: "a < lim" "aligned a" "present (pte_at (mem s) d a)"
  obtains s1 s2 where "kfree (uframe (mem s) d a) s = Ok () s1"
    "s2 = s1\<lparr>mem := store32 (mem s1) (pte_addr (mem s) d a) 0\<rparr>"
    "um_ok s2 d lim (uframe (mem s) d a # xs)" "only_mem s s2"
    "\<And>vb. pte_at (mem s2) d vb = (if PGROUNDDOWN vb = a then 0 else pte_at (mem s) d vb)"
    "pd_pages (mem s2) d = pd_pages (mem s) d"
    "same_outside (insert (uframe (mem s) d a) (pd_pages (mem s) d)) (mem s) (mem s2)"
proof -
  let ?f = "uframe (mem s) d a"
  note f = um_okD [OF um a]
  have inv: "vm_inv s d xs" using um by (rule um_ok_vm)
  obtain s1 where s1: "kfree ?f s = Ok () s1" "free_inv s1 (?f # xs)"
    "same_outside {?f} (mem s) (mem s1)" "s1 = s\<lparr>mem := mem s1, freelist := ?f\<rparr>"
    using kfree_push [OF vm_inv_free [OF inv] f(1,3)] by blast
  have k1: "kend s1 = kend s" by (subst s1(4)) simp
  have "freelist s1 = ?f" by (subst s1(4)) simp
  then have o1: "only_mem s s1" unfolding only_mem_def using s1(4) by metis
  have dj: "{?f} \<inter> pd_pages (mem s) d = {}" using f(2) by simp
  note fr = pd_frame [OF vm_inv_pd [OF inv] s1(3) dj]
  have inv1: "vm_inv s1 d (?f # xs)"
    using s1(2) fr(1,2) f(2) inv by (simp add: vm_inv_def k1)
  have pr: "present (pde_at (mem s1) d (PDX a))"
    using a(3) fr(3) [of a] by (auto simp: pte_at_def split: if_splits)
  let ?s2 = "s1\<lparr>mem := store32 (mem s1) (pte_addr (mem s) d a) 0\<rparr>"
  note st = set_pte [OF inv1 pr, of 0, unfolded fr(4)]
  have pte: "pte_at (mem ?s2) d vb = (if PGROUNDDOWN vb = a then 0 else pte_at (mem s) d vb)" for vb
    using st(2) [of vb] fr(3) [of vb] a(2) by (simp add: PGROUNDDOWN_id)
  have pg: "pd_pages (mem ?s2) d = pd_pages (mem s) d"
    using st(1) fr(2) by (auto simp: grows_def)
  have "um_ok ?s2 d lim (?f # xs)"
    using st(1) um_okD [OF um] a pte pg k1 unfolding um_ok_def
    by (auto simp: grows_def PGROUNDDOWN_id)
  moreover have "same_outside (insert ?f (pd_pages (mem s) d)) (mem s) (mem ?s2)"
    using s1(3) by (rule same_outside_trans) (use st(1) pg in \<open>auto simp: grows_def\<close>)
  moreover have "only_mem s ?s2" by (rule only_mem_trans [OF o1 only_mem_upd(1)])
  ultimately show ?thesis using that [OF s1(1) refl] pte pg by blast
qed

section \<open>Freeing user memory\<close>

lemma next_table:
  assumes "unat a < 2147483648"
  shows "unat (PGADDR (PDX a + 1) 0 0) = (unat a div 4194304 + 1) * 4194304"
proof -
  have "unat (PDX a + 1) = unat a div 4194304 + 1"
    using assms by (simp add: unat_word_ariths unat_PDX)
  moreover have "unat (4194304 * w) = 4194304 * unat w" if "unat w \<le> 512" for w :: u32
    using that by (simp add: unat_word_ariths)
  moreover have "unat a div 4194304 + 1 \<le> 512" using assms by simp
  moreover have "PGADDR (PDX a + 1) 0 0 = 4194304 * (PDX a + 1)"
    by (simp add: PGADDR_def push_bit_eq_mult algebra_simps)
  ultimately show ?thesis by (metis mult.commute)
qed

lemma next_table_props:
  assumes "unat a < 2147483648"
  shows "aligned (PGADDR (PDX a + 1) 0 0)" "unat a < unat (PGADDR (PDX a + 1) 0 0)"
    "a \<le> b \<Longrightarrow> b < PGADDR (PDX a + 1) 0 0 \<Longrightarrow> PDX b = PDX a"
proof -
  note n = next_table [OF assms]
  have "(unat a div 4194304 + 1) * 4194304 = (unat a div 4194304 + 1) * 1024 * 4096" by simp
  then show "aligned (PGADDR (PDX a + 1) 0 0)" by (simp only: aligned_iff n mod_mult_self2_is_0)
  show "unat a < unat (PGADDR (PDX a + 1) 0 0)" by (simp add: n)
  show "PDX b = PDX a" if "a \<le> b" "b < PGADDR (PDX a + 1) 0 0"
  proof -
    have "unat a \<le> unat b" "unat b < (unat a div 4194304 + 1) * 4194304"
      using that by (simp_all add: word_le_nat_alt word_less_nat_alt n)
    then have "unat a div 4194304 \<le> unat b div 4194304" "unat b div 4194304 < unat a div 4194304 + 1"
      by (simp add: div_le_mono, simp add: less_mult_imp_div_less)
    then have "unat b div 4194304 = unat a div 4194304" by simp
    then show ?thesis by (simp add: word_unat_eq_iff unat_PDX)
  qed
qed

lemma upages_step:
  assumes "aligned a" "a < hi" "a < b" "\<And>c. aligned c \<Longrightarrow> a < c \<Longrightarrow> c < b \<Longrightarrow> \<not> present (pte_at m d c)"
  shows "upages m d a hi = (if present (pte_at m d a) then insert (uframe m d a) (upages m d b hi)
    else upages m d b hi)"
proof -
  have "c = a \<or> b \<le> c" if "aligned c" "a \<le> c" "present (pte_at m d c)" for c
    using assms(4) [of c] that by (metis leI order_le_imp_less_or_eq)
  then show ?thesis using assms(1-3) unfolding upages_def by (auto intro: less_imp_le)
qed

lemma upages_empty: "hi \<le> lo \<Longrightarrow> upages m d lo hi = {}"
  by (auto simp: upages_def)

text \<open>The entries in a range of pages cleared, absent ones left as they are.\<close>

definition cleared :: "mem \<Rightarrow> mem \<Rightarrow> u32 \<Rightarrow> u32 \<Rightarrow> u32 \<Rightarrow> bool" where
  "cleared m m' d lo hi \<longleftrightarrow> (\<forall>a. aligned a \<longrightarrow>
     pte_at m' d a = (if lo \<le> a \<and> a < hi \<and> present (pte_at m d a) then 0 else pte_at m d a))"

lemma cleared_extend:
  assumes "cleared m m' d b hi" "lo \<le> b"
    "\<And>c. aligned c \<Longrightarrow> lo \<le> c \<Longrightarrow> c < b \<Longrightarrow> \<not> present (pte_at m d c)"
  shows "cleared m m' d lo hi"
  unfolding cleared_def
proof (intro allI impI)
  fix c :: u32
  assume c: "aligned c"
  with assms(1) have e: "pte_at m' d c = (if b \<le> c \<and> c < hi \<and> present (pte_at m d c) then 0 else pte_at m d c)"
    by (simp add: cleared_def)
  show "pte_at m' d c = (if lo \<le> c \<and> c < hi \<and> present (pte_at m d c) then 0 else pte_at m d c)"
  proof (cases "b \<le> c")
    case True
    then have "lo \<le> c" using assms(2) by simp
    with True e show ?thesis by simp
  next
    case False
    then have "\<not> (lo \<le> c \<and> present (pte_at m d c))" using assms(3) c by auto
    with False e show ?thesis by auto
  qed
qed

lemma dealloc_loop:
  assumes "um_ok s d lim xs" "aligned a" "oldsz \<le> lim" "unat oldsz \<le> 2147483648"
    "unat oldsz \<le> unat a + 4096 * n" "n < fuel"
  shows "\<exists>fs s'. deallocuvm_loop fuel d a oldsz s = Ok () s' \<and> um_ok s' d lim (fs @ xs) \<and>
    set fs = upages (mem s) d a oldsz \<and> cleared (mem s) (mem s') d a oldsz \<and>
    pd_pages (mem s') d = pd_pages (mem s) d \<and> only_mem s s' \<and>
    same_outside (set fs \<union> pd_pages (mem s) d) (mem s) (mem s')"
  using assms
proof (induction n arbitrary: a s xs fuel)
  case 0
  obtain f where f: "fuel = Suc f" using "0.prems"(6) by (cases fuel) auto
  have "\<not> a < oldsz" using "0.prems"(5) by (simp add: word_less_nat_alt)
  with "0.prems"(1) f show ?case
    by (intro exI [of _ "[]"] exI [of _ s]) (auto simp: upages_empty cleared_def)
next
  case (Suc n)
  obtain f where f: "fuel = Suc f" "n < f" using Suc.prems(6) by (cases fuel) auto
  show ?case
  proof (cases "a < oldsz")
    case False
    with Suc.prems(1) f show ?thesis
      by (intro exI [of _ "[]"] exI [of _ s]) (auto simp: upages_empty cleared_def)
  next
    case lt: True
    then have ua: "unat a < 2147483648" using Suc.prems(4) by (simp add: word_less_nat_alt)
    have up: "unat (a + PGSIZE) = unat a + 4096" using ua by (simp add: unat_word_ariths)
    have pg: "a < a + PGSIZE" by (simp add: word_less_nat_alt up)
    have gap: "\<not> (aligned c \<and> a < c \<and> c < a + PGSIZE)" for c
    proof
      assume c: "aligned c \<and> a < c \<and> c < a + PGSIZE"
      then obtain i j where "unat a = 4096 * i" "unat c = 4096 * j"
        using Suc.prems(2) by (metis alignedE)
      with c up show False by (auto simp: word_less_nat_alt)
    qed
    show ?thesis
    proof (cases "present (pde_at (mem s) d (PDX a))")
      case notab: False
      let ?b = "PGADDR (PDX a + 1) 0 0"
      note nt = next_table_props [OF ua]
      have absent: "\<not> present (pte_at (mem s) d c)" if "a \<le> c" "c < ?b" for c
        using nt(3) [OF that] notab by (simp add: pte_at_def)
      have "unat oldsz \<le> unat ?b + 4096 * n"
      proof -
        obtain i j where "unat a = 4096 * i" "unat ?b = 4096 * j"
          using Suc.prems(2) nt(1) by (metis alignedE)
        with nt(2) Suc.prems(5) show ?thesis by simp
      qed
      from Suc.IH [OF Suc.prems(1) nt(1) Suc.prems(3,4) this f(2)] obtain fs s' where IH:
        "deallocuvm_loop f d ?b oldsz s = Ok () s'" "um_ok s' d lim (fs @ xs)"
        "set fs = upages (mem s) d ?b oldsz" "cleared (mem s) (mem s') d ?b oldsz"
        "pd_pages (mem s') d = pd_pages (mem s) d" "only_mem s s'"
        "same_outside (set fs \<union> pd_pages (mem s) d) (mem s) (mem s')" by blast
      have ab: "a < ?b" using nt(2) by (simp add: word_less_nat_alt)
      have "upages (mem s) d a oldsz = upages (mem s) d ?b oldsz"
        using upages_step [OF Suc.prems(2) lt ab] absent ab by (simp add: less_imp_le)
      moreover have "cleared (mem s) (mem s') d a oldsz"
        by (rule cleared_extend [OF IH(4)]) (use ab absent in \<open>auto simp: less_imp_le\<close>)
      ultimately show ?thesis
        using IH f lt notab by (intro exI [of _ fs] exI [of _ s']) (simp add: walk_lookup)
    next
      case tab: True
      have nz: "pte_addr (mem s) d a \<noteq> 0"
        using pte_addr_nz [OF vm_inv_pd tab vm_inv_kend] um_ok_vm [OF Suc.prems(1)] by blast
      have pte: "load32 (mem s) (pte_addr (mem s) d a) = pte_at (mem s) d a"
        using tab by (simp add: pte_at_def)
      have le: "unat oldsz \<le> unat (a + PGSIZE) + 4096 * n" using Suc.prems(5) up by simp
      have st: "upages (mem s) d a oldsz = (if present (pte_at (mem s) d a)
          then insert (uframe (mem s) d a) (upages (mem s) d (a + PGSIZE) oldsz)
          else upages (mem s) d (a + PGSIZE) oldsz)"
        using upages_step [OF Suc.prems(2) lt pg] gap by blast
      have rng: "a \<le> c \<longleftrightarrow> c = a \<or> a + PGSIZE \<le> c" if "aligned c" for c
        using gap [of c] that pg by auto
      note IH = Suc.IH [OF _ aligned_add [OF Suc.prems(2)] Suc.prems(3,4) le f(2)]
      show ?thesis
      proof (cases "present (pte_at (mem s) d a)")
        case False
        from IH [OF Suc.prems(1)] obtain fs s' where s':
          "deallocuvm_loop f d (a + PGSIZE) oldsz s = Ok () s'" "um_ok s' d lim (fs @ xs)"
          "set fs = upages (mem s) d (a + PGSIZE) oldsz" "cleared (mem s) (mem s') d (a + PGSIZE) oldsz"
          "pd_pages (mem s') d = pd_pages (mem s) d" "only_mem s s'"
          "same_outside (set fs \<union> pd_pages (mem s) d) (mem s) (mem s')" by blast
        moreover have "cleared (mem s) (mem s') d a oldsz"
          by (rule cleared_extend [OF s'(4)]) (use pg rng False in \<open>auto simp: less_imp_le\<close>)
        moreover have "deallocuvm_loop fuel d a oldsz s = Ok () s'"
          using f(1) lt tab nz pte False s'(1) by (simp add: walk_lookup present_def)
        moreover have "set fs = upages (mem s) d a oldsz" using s'(3) st False by simp
        ultimately show ?thesis by blast
      next
        case pr: True
        have "a < lim" using lt Suc.prems(3) by simp
        from um_free_page [OF Suc.prems(1) \<open>a < lim\<close> Suc.prems(2) pr] obtain s1 s2 where s2:
          "kfree (uframe (mem s) d a) s = Ok () s1"
          "s2 = s1\<lparr>mem := store32 (mem s1) (pte_addr (mem s) d a) 0\<rparr>"
          "um_ok s2 d lim (uframe (mem s) d a # xs)" "only_mem s s2"
          "\<And>vb. pte_at (mem s2) d vb = (if PGROUNDDOWN vb = a then 0 else pte_at (mem s) d vb)"
          "pd_pages (mem s2) d = pd_pages (mem s) d"
          "same_outside (insert (uframe (mem s) d a) (pd_pages (mem s) d)) (mem s) (mem s2)" by blast
        from IH [OF s2(3)] obtain fs s' where s':
          "deallocuvm_loop f d (a + PGSIZE) oldsz s2 = Ok () s'"
          "um_ok s' d lim (fs @ uframe (mem s) d a # xs)"
          "set fs = upages (mem s2) d (a + PGSIZE) oldsz" "cleared (mem s2) (mem s') d (a + PGSIZE) oldsz"
          "pd_pages (mem s') d = pd_pages (mem s2) d" "only_mem s2 s'"
          "same_outside (set fs \<union> pd_pages (mem s2) d) (mem s2) (mem s')" by blast
        have same: "pte_at (mem s2) d c = pte_at (mem s) d c" if "aligned c" "c \<noteq> a" for c
          using s2(5) [of c] that by (simp add: PGROUNDDOWN_id)
        have "upages (mem s2) d (a + PGSIZE) oldsz = upages (mem s) d (a + PGSIZE) oldsz"
          using pg same unfolding upages_def by (metis (no_types, lifting) leD)
        then have fs: "set (fs @ [uframe (mem s) d a]) = upages (mem s) d a oldsz"
          using st pr s'(3) by simp
        have cl: "cleared (mem s) (mem s') d a oldsz"
          using s'(4) pr same rng lt pg s2(5) unfolding cleared_def
          by (auto simp: PGROUNDDOWN_id)
        have so: "same_outside (set (fs @ [uframe (mem s) d a]) \<union> pd_pages (mem s) d) (mem s) (mem s')"
          using s2(7) s'(7) by (rule same_outside_trans) (auto simp: s2(6))
        have "V2P (uframe (mem s) d a) \<noteq> 0"
          using page_ok_nz [OF um_okD(1) [OF Suc.prems(1) \<open>a < lim\<close> Suc.prems(2) pr]]
            vm_inv_kend [OF um_ok_vm [OF Suc.prems(1)]] by blast
        then have "PTE_ADDR (pte_at (mem s) d a) \<noteq> 0" by (simp add: frame_of_def)
        then have "deallocuvm_loop fuel d a oldsz s = Ok () s'"
          using f lt tab nz pte pr s2(1,2) s'(1)
          by (simp add: walk_lookup present_def frame_of_def Let_def)
        moreover have "um_ok s' d lim ((fs @ [uframe (mem s) d a]) @ xs)" using s'(2) by simp
        moreover have "pd_pages (mem s') d = pd_pages (mem s) d" using s'(5) s2(6) by simp
        ultimately show ?thesis
          using fs cl so only_mem_trans [OF s2(4) s'(6)] by blast
      qed
    qed
  qed
qed

lemma deallocuvm_spec:
  assumes um: "um_ok s d lim xs" and sz: "newsz < oldsz" "oldsz \<le> lim" "unat oldsz \<le> 2147483648"
  shows "\<exists>fs s'. deallocuvm d oldsz newsz s = Ok newsz s' \<and> um_ok s' d lim (fs @ xs) \<and>
    set fs = upages (mem s) d (PGROUNDUP newsz) oldsz \<and>
    cleared (mem s) (mem s') d (PGROUNDUP newsz) oldsz \<and>
    pd_pages (mem s') d = pd_pages (mem s) d \<and> only_mem s s' \<and>
    same_outside (set fs \<union> pd_pages (mem s) d) (mem s) (mem s')"
proof -
  have "unat newsz \<le> 4294963200" using sz(1,3) by (simp add: word_less_nat_alt)
  then have al: "aligned (PGROUNDUP newsz)" using PGROUNDUP_ge by blast
  have n: "unat oldsz \<le> unat (PGROUNDUP newsz) + 4096 * 524288" "524288 < (1048577 :: nat)"
    using sz(3) by simp_all
  have "deallocuvm d oldsz newsz s =
      bind (deallocuvm_loop 1048577 d (PGROUNDUP newsz) oldsz s) (\<lambda>_ s. Ok newsz s)"
    using sz(1) by (auto simp: deallocuvm_def dest: leD)
  then have "deallocuvm_loop 1048577 d (PGROUNDUP newsz) oldsz s = Ok () s' \<Longrightarrow>
      deallocuvm d oldsz newsz s = Ok newsz s'" for s' by simp
  then show ?thesis using dealloc_loop [OF um al sz(2,3) n] by blast
qed

definition tabs_from :: "mem \<Rightarrow> u32 \<Rightarrow> u32 \<Rightarrow> u32 set" where
  "tabs_from m d i = {p. \<exists>j < 1024. i \<le> j \<and> present (pde_at m d j) \<and> p = frame_of (pde_at m d j)}"

lemma tabs_from_step:
  assumes "i < 1024"
  shows "tabs_from m d i = (if present (pde_at m d i) then insert (frame_of (pde_at m d i)) (tabs_from m d (i + 1))
    else tabs_from m d (i + 1))"
proof -
  have "unat (i + 1) = unat i + 1" using assms by (simp add: word_less_nat_alt unat_word_ariths)
  then have "i \<le> j \<longleftrightarrow> j = i \<or> i + 1 \<le> j" for j
    by (auto simp: word_le_nat_alt word_unat_eq_iff)
  then show ?thesis using assms unfolding tabs_from_def by auto
qed

lemma pd_pages_tabs: "pd_pages m d = insert d (tabs_from m d 0)"
  by (simp add: pd_pages_def tabs_from_def)

lemma freetabs_spec:
  assumes "free_inv s xs" "pd_ok (kend s) (mem s) d" "unat i + n = 1024"
    "insert d (tabs_from (mem s) d i) \<inter> set xs = {}"
  shows "\<exists>fs s'. freetabs n d i s = Ok () s' \<and> free_inv s' (fs @ xs) \<and>
    set fs = tabs_from (mem s) d i \<and> only_mem s s' \<and> same_outside (set fs) (mem s) (mem s')"
  using assms
proof (induction n arbitrary: i s xs)
  case 0
  then have "tabs_from (mem s) d i = {}" by (auto simp: tabs_from_def word_le_nat_alt word_less_nat_alt)
  with 0 show ?case by (intro exI [of _ "[]"] exI [of _ s]) simp
next
  case (Suc n)
  have i: "i < 1024" "unat (i + 1) + n = 1024"
    using Suc.prems(3) by (simp_all add: word_less_nat_alt unat_word_ariths)
  show ?case
  proof (cases "present (pde_at (mem s) d i)")
    case False
    then have st: "tabs_from (mem s) d i = tabs_from (mem s) d (i + 1)" using tabs_from_step [OF i(1)] by simp
    from Suc.IH [OF Suc.prems(1,2) i(2)] Suc.prems(4) obtain fs s' where s':
      "freetabs n d (i + 1) s = Ok () s'" "free_inv s' (fs @ xs)"
      "set fs = tabs_from (mem s) d (i + 1)" "only_mem s s'" "same_outside (set fs) (mem s) (mem s')"
      unfolding st by blast
    moreover have "freetabs (Suc n) d i s = freetabs n d (i + 1) s"
      using False by (simp add: present_def pde_at_def)
    ultimately show ?thesis unfolding st by auto
  next
    case True
    let ?f = "frame_of (pde_at (mem s) d i)"
    have st: "tabs_from (mem s) d i = insert ?f (tabs_from (mem s) d (i + 1))"
      using tabs_from_step [OF i(1)] True by simp
    have f: "page_ok (kend s) ?f" "?f \<noteq> d" "?f \<notin> set xs"
      using Suc.prems(2,4) True i(1) unfolding st by (auto simp: pd_ok_def)
    from kfree_push [OF Suc.prems(1) f(1,3)] obtain s1 where s1: "kfree ?f s = Ok () s1"
      "free_inv s1 (?f # xs)" "same_outside {?f} (mem s) (mem s1)" "s1 = s\<lparr>mem := mem s1, freelist := ?f\<rparr>"
      by blast
    have k1: "kend s1 = kend s" "freelist s1 = ?f" by (subst s1(4), simp)+
    then have o1: "only_mem s s1" unfolding only_mem_def using s1(4) by metis
    have "d \<notin> {?f}" using f(2) by simp
    then have pde: "pde_at (mem s1) d j = pde_at (mem s) d j" if "j < 1024" for j
      using pde_at_frame [OF pd_ok_aligned [OF Suc.prems(2)] s1(3)] that by blast
    have ok1: "pd_ok (kend s1) (mem s1) d"
      using Suc.prems(2) by (simp add: pd_ok_def pde k1(1) cong: conj_cong)
    have t1: "tabs_from (mem s1) d (i + 1) = tabs_from (mem s) d (i + 1)"
      by (simp add: tabs_from_def pde cong: conj_cong)
    have "?f \<notin> tabs_from (mem s) d (i + 1)"
    proof
      assume "?f \<in> tabs_from (mem s) d (i + 1)"
      then obtain j where "j < 1024" "i + 1 \<le> j" "present (pde_at (mem s) d j)"
        "?f = frame_of (pde_at (mem s) d j)" unfolding tabs_from_def by blast
      with Suc.prems(2) True i(1) have "i + 1 \<le> i" unfolding pd_ok_def by metis
      then show False using i by (simp add: word_le_nat_alt word_less_nat_alt unat_word_ariths)
    qed
    then have dj: "insert d (tabs_from (mem s1) d (i + 1)) \<inter> set (?f # xs) = {}"
      using Suc.prems(4) f(2) unfolding st t1 by auto
    from Suc.IH [OF s1(2) ok1 i(2) dj] obtain fs s' where s':
      "freetabs n d (i + 1) s1 = Ok () s'" "free_inv s' (fs @ ?f # xs)"
      "set fs = tabs_from (mem s) d (i + 1)" "only_mem s1 s'" "same_outside (set fs) (mem s1) (mem s')"
      unfolding t1 by blast
    have "freetabs (Suc n) d i s = Ok () s'"
      using True s1(1) s'(1) by (simp add: present_def pde_at_def frame_of_def)
    moreover have "same_outside (set (fs @ [?f])) (mem s) (mem s')"
      using s1(3) s'(5) by (rule same_outside_trans) auto
    moreover have "free_inv s' ((fs @ [?f]) @ xs)" "set (fs @ [?f]) = tabs_from (mem s) d i"
      using s'(2,3) st by auto
    ultimately show ?thesis using only_mem_trans [OF o1 s'(4)] by blast
  qed
qed

lemma um_ok_pd_free: "um_ok s d lim xs \<Longrightarrow> pd_pages (mem s) d \<inter> set xs = {}"
  by (simp add: um_ok_def vm_inv_def)

lemma freevm_spec:
  assumes um: "um_ok s d SHAREBASE xs"
  shows "\<exists>fs s'. freevm d s = Ok () s' \<and> free_inv s' (fs @ xs) \<and>
    set fs = upages (mem s) d 0 SHAREBASE \<union> pd_pages (mem s) d \<and> only_mem s s' \<and>
    same_outside (set fs) (mem s) (mem s')"
proof -
  have "PGROUNDUP 0 = 0" by (simp add: PGROUNDUP_def)
  then obtain fs s1 where s1: "deallocuvm d SHAREBASE 0 s = Ok 0 s1" "um_ok s1 d SHAREBASE (fs @ xs)"
    "set fs = upages (mem s) d 0 SHAREBASE" "pd_pages (mem s1) d = pd_pages (mem s) d"
    "only_mem s s1" "same_outside (set fs \<union> pd_pages (mem s) d) (mem s) (mem s1)"
    using deallocuvm_spec [OF um, of 0 SHAREBASE] by auto
  have inv1: "vm_inv s1 d (fs @ xs)" using s1(2) by (rule um_ok_vm)
  have dj: "insert d (tabs_from (mem s1) d 0) \<inter> set (fs @ xs) = {}"
    using um_ok_pd_free [OF s1(2)] by (simp add: pd_pages_tabs)
  have "unat (0 :: u32) + 1024 = 1024" by simp
  from freetabs_spec [OF vm_inv_free [OF inv1] vm_inv_pd [OF inv1] this dj] obtain ts s2 where s2:
    "freetabs 1024 d 0 s1 = Ok () s2" "free_inv s2 (ts @ fs @ xs)" "set ts = tabs_from (mem s1) d 0"
    "only_mem s1 s2" "same_outside (set ts) (mem s1) (mem s2)" by blast
  have ok: "page_ok (kend s2) d"
    using vm_inv_pd [OF inv1] only_mem_fields(1) [OF s2(4)] by (simp add: pd_ok_def)
  have "d \<notin> tabs_from (mem s1) d 0"
    using vm_inv_pd [OF inv1] unfolding tabs_from_def pd_ok_def by auto
  then have "d \<notin> set (ts @ fs @ xs)" using dj s2(3) by auto
  from kfree_push [OF s2(2) ok this] obtain s3 where s3: "kfree d s2 = Ok () s3"
    "free_inv s3 (d # ts @ fs @ xs)" "same_outside {d} (mem s2) (mem s3)"
    "s3 = s2\<lparr>mem := mem s3, freelist := d\<rparr>" by blast
  have "freelist s3 = d" by (subst s3(4)) simp
  then have o3: "only_mem s2 s3" unfolding only_mem_def using s3(4) by metis
  have "d \<noteq> 0" using page_ok_nz [OF ok] s2(2) by (simp add: free_inv_def)
  then have "freevm d s = Ok () s3" using s1(1) s2(1) s3(1) by (simp add: freevm_def)
  moreover have pg: "set (d # ts @ fs) = upages (mem s) d 0 SHAREBASE \<union> pd_pages (mem s) d"
    using s1(3,4) s2(3) by (auto simp: pd_pages_tabs)
  moreover have "same_outside (set (d # ts @ fs)) (mem s) (mem s3)"
  proof (rule same_outside_trans [OF _ s3(3)])
    show "same_outside (set fs \<union> pd_pages (mem s) d) (mem s) (mem s2)"
      using s1(6) s2(5) by (rule same_outside_trans) (use s2(3) s1(4) pd_pages_tabs in auto)
  qed (use pg s1(3) in auto)
  moreover have "only_mem s s3" using s1(5) s2(4) o3 only_mem_trans by blast
  ultimately show ?thesis using s3(2) by (intro exI [of _ "d # ts @ fs"] exI [of _ s3]) simp
qed

section \<open>Allocating user memory\<close>

text \<open>Page \<open>p\<close> holds the bytes \<open>k\<close>.\<close>

definition page_has :: "mem \<Rightarrow> u32 \<Rightarrow> (u32 \<Rightarrow> u8) \<Rightarrow> bool" where
  "page_has m p k \<longleftrightarrow> (\<forall>a. PGROUNDDOWN a = p \<longrightarrow> m a = k (a - p))"

lemma page_has_frame: "page_has m p k \<Longrightarrow> same_outside P m m' \<Longrightarrow> p \<notin> P \<Longrightarrow> page_has m' p k"
  by (auto simp: page_has_def same_outside_def)

lemma page_has_memset: "aligned p \<Longrightarrow> page_has (memset m p 0 PGSIZE) p (\<lambda>_. 0)"
  by (simp add: page_has_def memset_eq in_frame_iff)

text \<open>The entry for a page \<open>f\<close> with flags \<open>e\<close>.\<close>

definition uentry :: "u32 \<Rightarrow> u32 \<Rightarrow> u32" where
  "uentry f e = V2P f OR e OR PTE_P"

lemma uentry_frame: "aligned f \<Longrightarrow> e < PGSIZE \<Longrightarrow> frame_of (uentry f e) = f"
proof -
  assume f: "aligned f" and e: "e < PGSIZE"
  have "unat (take_bit 12 e) = unat e"
    using e by (simp add: unsigned_take_bit_eq take_bit_eq_mod word_less_nat_alt unat_mod_distrib)
  then have "take_bit 12 e = e" by (simp only: word_unat_eq_iff)
  then have "take_bit 12 (e OR 1) = e OR 1" by (simp add: take_bit_or)
  then have "unat (e OR 1) = take_bit 12 (unat (e OR 1))" by (metis unsigned_take_bit_eq)
  then have "e OR 1 < 4096"
    using take_bit_nat_less_exp [of 12 "unat (e OR 1)"] by (simp add: word_less_nat_alt)
  then show ?thesis using PTE_ADDR_or [of "V2P f" "e OR 1"] f by (simp add: frame_of_def uentry_def)
qed

lemma uentry_present [simp]: "present (uentry f e)"
  using odd_or [of 1 "V2P f OR e"] by (simp add: present_def uentry_def or.assoc)

text \<open>
  \<open>grown E K s s' d lo hi xs ys\<close>: from \<open>s\<close> to \<open>s'\<close> the address space \<open>d\<close> got a new page at every
  page address \<open>c\<close> from \<open>lo\<close> to \<open>hi\<close>, with flags \<open>E c\<close> and contents \<open>K c\<close>, and is unchanged elsewhere; the pages for it, and for the
  new tables, are the front of the free list \<open>xs\<close>, and \<open>ys\<close> is left.
\<close>

definition grown :: "(u32 \<Rightarrow> u32) \<Rightarrow> (u32 \<Rightarrow> u32 \<Rightarrow> u8) \<Rightarrow> 'a mst_scheme \<Rightarrow> 'a mst_scheme \<Rightarrow> u32 \<Rightarrow> u32 \<Rightarrow> u32 \<Rightarrow> u32 list \<Rightarrow> u32 list \<Rightarrow> bool" where
  "grown E K s s' d lo hi xs ys \<longleftrightarrow> um_ok s' d SHAREBASE ys \<and> only_mem s s' \<and>
     (\<forall>c. aligned c \<longrightarrow> lo \<le> c \<longrightarrow> c < hi \<longrightarrow>
        (\<exists>f \<in> set xs. aligned f \<and> pte_at (mem s') d c = uentry f (E c) \<and> page_has (mem s') f (K c))) \<and>
     (\<forall>c. aligned c \<longrightarrow> \<not> (lo \<le> c \<and> c < hi) \<longrightarrow> pte_at (mem s') d c = pte_at (mem s) d c) \<and>
     (\<exists>us. xs = us @ ys \<and> pd_pages (mem s') d \<union> upages (mem s') d lo hi = pd_pages (mem s) d \<union> set us) \<and>
     pd_pages (mem s) d \<subseteq> pd_pages (mem s') d \<and>
     same_outside (pd_pages (mem s) d \<union> set xs) (mem s) (mem s')"

lemma growsD:
  assumes "grows s s' d xs ys"
  shows "vm_inv s' d ys" "only_mem s s'" "same_outside (pd_pages (mem s') d) (mem s) (mem s')"
    "\<exists>us. xs = us @ ys \<and> pd_pages (mem s') d = pd_pages (mem s) d \<union> set us"
  using assms by (simp_all add: grows_def)

lemma um_ok_add_page:
  assumes um: "um_ok s d lim (f # ys)" and s1: "free_inv s1 ys" "mem s1 = mem s" "only_mem s s1"
    and m2: "same_outside {f} (mem s) m2" and al: "aligned a"
    and g: "grows (s1\<lparr>mem := m2\<rparr>) s3 d ys zs"
    and pte: "\<And>vb. pte_at (mem s3) d vb = (if PGROUNDDOWN vb = a then w else pte_at m2 d vb)"
    and w: "frame_of w = f" "present w"
  shows "um_ok s3 d lim zs" "\<And>c. aligned c \<Longrightarrow> c \<noteq> a \<Longrightarrow> pte_at (mem s3) d c = pte_at (mem s) d c"
    "only_mem s s3" "pd_pages m2 d = pd_pages (mem s) d"
proof -
  have inv: "vm_inv s d (f # ys)" using um by (rule um_ok_vm)
  have f: "f \<notin> pd_pages (mem s) d" "page_ok (kend s) f" "f \<notin> set ys"
    using inv kp.inv_valid [OF vm_inv_free [OF inv]] kp.inv_distinct [OF vm_inv_free [OF inv]]
    by (simp_all add: vm_inv_def)
  have dj: "{f} \<inter> pd_pages (mem s) d = {}" using f(1) by simp
  note fr = pd_frame [OF vm_inv_pd [OF inv] m2 dj]
  show "pd_pages m2 d = pd_pages (mem s) d" by (rule fr(2))
  show same: "pte_at (mem s3) d c = pte_at (mem s) d c" if "aligned c" "c \<noteq> a" for c
    using that pte [of c] fr(3) [of c] by (simp add: PGROUNDDOWN_id)
  show om: "only_mem s s3"
    using only_mem_trans [OF only_mem_trans [OF s1(3) only_mem_upd(1)] growsD(2) [OF g]] .
  obtain us where us: "ys = us @ zs" "pd_pages (mem s3) d = pd_pages (mem s) d \<union> set us"
    using growsD(4) [OF g] fr(2) by auto
  have pa: "pte_at (mem s3) d a = w" using pte [of a] al by (simp add: PGROUNDDOWN_id)
  show "um_ok s3 d lim zs"
    unfolding um_ok_def
  proof (intro conjI allI impI)
    show "vm_inv s3 d zs" using g by (rule growsD(1))
  next
    fix c assume c: "c < lim" "aligned c" "present (pte_at (mem s3) d c)"
    have cc: "c \<noteq> a \<Longrightarrow> present (pte_at (mem s) d c)" using same [of c] c by simp
    note D = um_okD [OF um c(1,2) cc]
    show "page_ok (kend s3) (uframe (mem s3) d c)"
      using f(2) only_mem_fields(1) [OF om] w D(1) same [OF c(2)] pa by (cases "c = a") simp_all
    show "uframe (mem s3) d c \<notin> pd_pages (mem s3) d \<union> set zs"
      using f us w D(2,3) same [OF c(2)] pa by (cases "c = a") auto
    fix b assume b: "b < lim" "aligned b" "present (pte_at (mem s3) d b)"
      "uframe (mem s3) d c = uframe (mem s3) d b"
    have bb: "b \<noteq> a \<Longrightarrow> present (pte_at (mem s) d b)" using same [of b] b by simp
    note E = um_okD [OF um b(1,2) bb]
    show "c = b"
      using b D(3) D(4) [OF _ b(1,2) bb] E(3) same [OF c(2)] same [OF b(2)] pa w
      by (cases "c = a"; cases "b = a") auto
  qed
qed

lemma um_ok_keep:
  assumes um: "um_ok s d lim (f # ys)" and om: "only_mem s s3" and inv: "vm_inv s3 d zs"
    and pte: "\<And>c. aligned c \<Longrightarrow> pte_at (mem s3) d c = pte_at (mem s) d c"
    and us: "ys = us @ zs" "pd_pages (mem s3) d = pd_pages (mem s) d \<union> set us"
  shows "um_ok s3 d lim zs"
  unfolding um_ok_def
proof (intro conjI allI impI inv)
  fix c assume c: "c < lim" "aligned c" "present (pte_at (mem s3) d c)"
  note D = um_okD [OF um c(1,2) c(3) [unfolded pte [OF c(2)]]]
  show "page_ok (kend s3) (uframe (mem s3) d c)"
    using D(1) only_mem_fields(1) [OF om] c(2) pte by simp
  show "uframe (mem s3) d c \<notin> pd_pages (mem s3) d \<union> set zs"
    using D(2,3) us c(2) pte by simp
  show "c = b" if "b < lim" "aligned b" "present (pte_at (mem s3) d b)"
    "uframe (mem s3) d c = uframe (mem s3) d b" for b
    using D(4) [OF that(1,2)] that c(2) pte by simp
qed

lemma grown_refl: "um_ok s d SHAREBASE xs \<Longrightarrow> grown E K s s d lo lo xs xs"
  by (auto simp: grown_def upages_empty)

lemma between:
  assumes "aligned c" "aligned a" "unat a < 2147483648"
  shows "c < a + PGSIZE \<longleftrightarrow> c = a \<or> c < a"
proof -
  have up: "unat (a + PGSIZE) = unat a + 4096" using assms(3) by (simp add: unat_word_ariths)
  obtain i j where "unat a = 4096 * i" "unat c = 4096 * j" using assms by (metis alignedE)
  then show ?thesis by (auto simp: word_less_nat_alt up word_unat_eq_iff)
qed

lemma upages_extend:
  assumes "aligned a" "lo \<le> a" "unat a < 2147483648" "present (pte_at m' d a)"
    "\<And>c. aligned c \<Longrightarrow> c \<noteq> a \<Longrightarrow> pte_at m' d c = pte_at m d c"
  shows "upages m' d lo (a + PGSIZE) = insert (uframe m' d a) (upages m d lo a)"
proof -
  have "aligned c \<Longrightarrow> c < a + PGSIZE \<longleftrightarrow> c = a \<or> c < a" for c
    using between assms(1,3) by blast
  then show ?thesis using assms(1,2,4,5) unfolding upages_def by force
qed

lemma alloc_kalloc:
  assumes um: "um_ok s d SHAREBASE (f # ys)"
  obtains s1 where "kalloc s = Ok f s1" "free_inv s1 ys" "mem s1 = mem s" "only_mem s s1" "f \<noteq> 0"
    "page_ok (kend s) f" "f \<notin> pd_pages (mem s) d" "f \<notin> set ys" "f \<notin> upages (mem s) d 0 SHAREBASE"
proof -
  have inv: "vm_inv s d (f # ys)" using um by (rule um_ok_vm)
  obtain s1 where s1: "kalloc s = Ok f s1" "free_inv s1 ys" "s1 = s\<lparr>freelist := freelist s1\<rparr>"
    using kalloc_pop [OF vm_inv_free [OF inv]] by blast
  have ms: "mem s1 = mem s" by (subst s1(3)) simp
  have om: "only_mem s s1" unfolding only_mem_def ms using s1(3) by simp
  have f: "f \<notin> pd_pages (mem s) d" "page_ok (kend s) f" "f \<noteq> 0" "f \<notin> set ys"
    using inv kp.inv_valid [OF vm_inv_free [OF inv]] kp.inv_distinct [OF vm_inv_free [OF inv]]
    by (simp_all add: vm_inv_def)
  have "f \<notin> upages (mem s) d 0 SHAREBASE" using um_okD(3) [OF um] by (auto simp: upages_def)
  then show ?thesis using that s1(1,2) ms om f by blast
qed

text \<open>
  \<open>map_full s s' d f ys\<close>: no table could be allocated to map the page \<open>f\<close>, which is in no list
  and no table, and the free list is empty.
\<close>

definition map_full :: "'a mst_scheme \<Rightarrow> 'a mst_scheme \<Rightarrow> u32 \<Rightarrow> u32 \<Rightarrow> u32 list \<Rightarrow> bool" where
  "map_full s s' d f ys \<longleftrightarrow> um_ok s' d SHAREBASE [] \<and> only_mem s s' \<and> page_ok (kend s) f \<and>
     f \<notin> pd_pages (mem s') d \<union> upages (mem s') d 0 SHAREBASE \<and>
     (\<forall>c. aligned c \<longrightarrow> pte_at (mem s') d c = pte_at (mem s) d c) \<and>
     pd_pages (mem s') d = pd_pages (mem s) d \<union> set ys \<and>
     same_outside (insert f (pd_pages (mem s') d)) (mem s) (mem s')"

lemma alloc_map:
  assumes gr: "grown E K s0 s d lo a xs0 (f # ys)" and al: "aligned a" and lo: "lo \<le> a"
    and ua: "a < SHAREBASE" and np: "\<not> present (pte_at (mem s0) d a)" and E: "\<And>c. E c < PGSIZE"
    and k: "kalloc s = Ok f s1"
    and m2: "same_outside {f} (mem s) m2" and z2: "page_has m2 f (K a)"
  shows "(\<exists>s3 zs. mappages d a PGSIZE (V2P f) (E a) (s1\<lparr>mem := m2\<rparr>) = Ok 0 s3 \<and>
      grown E K s0 s3 d lo (a + PGSIZE) xs0 zs) \<or>
    (\<exists>s3. mappages d a PGSIZE (V2P f) (E a) (s1\<lparr>mem := m2\<rparr>) = Ok (- 1) s3 \<and> map_full s s3 d f ys)"
proof -
  have um: "um_ok s d SHAREBASE (f # ys)" using gr by (simp add: grown_def)
  have inv: "vm_inv s d (f # ys)" using um by (rule um_ok_vm)
  have s1: "f \<noteq> 0" "free_inv s1 ys" "mem s1 = mem s" "only_mem s s1"
    and f: "f \<notin> pd_pages (mem s) d" "page_ok (kend s) f" "f \<noteq> 0" "f \<notin> set ys"
    using alloc_kalloc [OF um] k by auto
  have af: "aligned f" using f(2) by (rule page_ok_aligned)
  have ke: "kend s1 = kend s" using only_mem_fields(1) [OF s1(4)] .
  have dj: "{f} \<inter> pd_pages (mem s) d = {}" using f(1) by simp
  note fr = pd_frame [OF vm_inv_pd [OF inv] m2 dj]
  have inv2: "vm_inv (s1\<lparr>mem := m2\<rparr>) d ys"
    using free_inv_mem [OF s1(2), of "{f}" m2] m2 s1(3) ke f(4) fr(1,2) inv by (simp add: vm_inv_def)
  note g0 = gr [unfolded grown_def]
  from g0 obtain us where us: "xs0 = us @ f # ys"
    "pd_pages (mem s) d \<union> upages (mem s) d lo a = pd_pages (mem s0) d \<union> set us" by blast
  have "unat a < 1073741824" using ua by (simp add: word_less_nat_alt)
  then have u31: "unat a < 2147483648" by simp
  have "pte_at (mem s) d a = pte_at (mem s0) d a" using g0 al by simp
  then have np2: "\<not> present (pte_at (mem (s1\<lparr>mem := m2\<rparr>)) d a)" using np fr(3) by simp
  show ?thesis
  proof (cases rule: map_page [OF inv2 al np2, where pa = "V2P f" and perm = "E a"])
    case (1 s3 zs)
    have pte: "\<And>vb. pte_at (mem s3) d vb = (if PGROUNDDOWN vb = a then uentry f (E a) else pte_at m2 d vb)"
      using 1(3) by (simp add: uentry_def)
    note A = um_ok_add_page [OF um s1(2,3,4) m2 al 1(2) pte uentry_frame [OF af E] uentry_present]
    obtain vs where vs: "ys = vs @ zs" "pd_pages (mem s3) d = pd_pages (mem s) d \<union> set vs"
      using growsD(4) [OF 1(2)] fr(2) by auto
    have pa: "pte_at (mem s3) d a = uentry f (E a)" using pte [of a] al by (simp add: PGROUNDDOWN_id)
    have so: "same_outside (insert f (pd_pages (mem s3) d)) (mem s) (mem s3)"
      by (rule same_outside_trans [OF m2]) (use growsD(3) [OF 1(2)] in auto)
    have up: "upages (mem s3) d lo (a + PGSIZE) = insert f (upages (mem s) d lo a)"
      using upages_extend [OF al lo u31, of "mem s3" d "mem s"] A(2) pa uentry_frame [OF af E] by simp
    have so2: "same_outside (pd_pages (mem s3) d) m2 (mem s3)" using growsD(3) [OF 1(2)] by simp
    have zf: "page_has (mem s3) f (K a)"
      by (rule page_has_frame [OF z2 so2]) (use f(1,4) vs in simp)
    have old: "\<exists>g\<in>set xs0. aligned g \<and> pte_at (mem s3) d c = uentry g (E c) \<and> page_has (mem s3) g (K c)"
      if c: "aligned c" "lo \<le> c" "c < a" for c
    proof -
      obtain g where g: "g \<in> set xs0" "aligned g" "pte_at (mem s) d c = uentry g (E c)" "page_has (mem s) g (K c)"
        using g0 c by blast
      have "c < SHAREBASE" using c(3) ua by simp
      then have "g \<notin> insert f (pd_pages (mem s3) d)"
        using um_okD(2,3) [OF um _ c(1)] g(2,3) vs uentry_frame [OF g(2) E] by auto
      then have "page_has (mem s3) g (K c)" using page_has_frame [OF g(4) so] by simp
      with g A(2) [of c] c show ?thesis by auto
    qed
    have "grown E K s0 s3 d lo (a + PGSIZE) xs0 zs"
      unfolding grown_def
    proof (intro conjI allI impI)
      show "um_ok s3 d SHAREBASE zs" by (rule A(1))
      show "only_mem s0 s3" using g0 A(3) only_mem_trans by blast
      show "\<exists>g\<in>set xs0. aligned g \<and> pte_at (mem s3) d c = uentry g (E c) \<and> page_has (mem s3) g (K c)"
        if "aligned c" "lo \<le> c" "c < a + PGSIZE" for c
        using that between [OF that(1) al u31] old pa zf af us(1) by auto
      show "pte_at (mem s3) d c = pte_at (mem s0) d c" if "aligned c" "\<not> (lo \<le> c \<and> c < a + PGSIZE)" for c
        using that between [OF that(1) al u31] A(2) [of c] g0 lo by auto
      show "\<exists>us. xs0 = us @ zs \<and> pd_pages (mem s3) d \<union> upages (mem s3) d lo (a + PGSIZE) = pd_pages (mem s0) d \<union> set us"
        by (rule exI [of _ "us @ f # vs"]) (use us vs up in auto)
      show "pd_pages (mem s0) d \<subseteq> pd_pages (mem s3) d" using g0 vs by auto
      show "same_outside (pd_pages (mem s0) d \<union> set xs0) (mem s0) (mem s3)"
        by (rule same_outside_trans [of "pd_pages (mem s0) d \<union> set xs0" _ "mem s", OF _ so])
          (use g0 us vs in auto)
    qed
    then show ?thesis using 1(1) by blast
  next
    case (2 s3)
    have pg: "pd_pages (mem s3) d = pd_pages (mem s) d \<union> set ys"
      using growsD(4) [OF 2(2)] fr(2) by auto
    have pte: "pte_at (mem s3) d c = pte_at (mem s) d c" for c using 2(3) [of c] fr(3) by simp
    have om3: "only_mem s s3"
      using only_mem_trans [OF only_mem_trans [OF s1(4) only_mem_upd(1)] growsD(2) [OF 2(2)]] .
    have um3: "um_ok s3 d SHAREBASE []"
      by (rule um_ok_keep [OF um om3 growsD(1) [OF 2(2)] pte _ pg]) simp
    have so: "same_outside (insert f (pd_pages (mem s3) d)) (mem s) (mem s3)"
      by (rule same_outside_trans [OF m2]) (use growsD(3) [OF 2(2)] in auto)
    have "f \<notin> pd_pages (mem s3) d \<union> upages (mem s3) d 0 SHAREBASE"
      using f(1,4) pg um_okD(3) [OF um] pte by (auto simp: upages_def)
    then show ?thesis using 2(1) um3 om3 f(2) pte pg so unfolding map_full_def by blast
  qed
qed

text \<open>Freeing a page that the address space does not use.\<close>

lemma um_free_other:
  assumes um: "um_ok s d lim xs" and f: "page_ok (kend s) f" "f \<notin> pd_pages (mem s) d"
    "f \<notin> upages (mem s) d 0 lim" "f \<notin> set xs"
  obtains s' where "kfree f s = Ok () s'" "um_ok s' d lim (f # xs)" "only_mem s s'"
    "same_outside {f} (mem s) (mem s')" "pd_pages (mem s') d = pd_pages (mem s) d"
    "\<And>c. pte_at (mem s') d c = pte_at (mem s) d c"
proof -
  have inv: "vm_inv s d xs" using um by (rule um_ok_vm)
  obtain s1 where s1: "kfree f s = Ok () s1" "free_inv s1 (f # xs)"
    "same_outside {f} (mem s) (mem s1)" "s1 = s\<lparr>mem := mem s1, freelist := f\<rparr>"
    using kfree_push [OF vm_inv_free [OF inv] f(1,4)] by blast
  have k1: "kend s1 = kend s" "freelist s1 = f" by (subst s1(4), simp)+
  then have o1: "only_mem s s1" unfolding only_mem_def using s1(4) by metis
  have dj: "{f} \<inter> pd_pages (mem s) d = {}" using f(2) by simp
  note fr = pd_frame [OF vm_inv_pd [OF inv] s1(3) dj]
  have inv1: "vm_inv s1 d (f # xs)" using s1(2) fr(1,2) f(2) inv by (simp add: vm_inv_def k1)
  have "uframe (mem s) d c \<noteq> f" if "c < lim" "aligned c" "present (pte_at (mem s) d c)" for c
    using f(3) that by (auto simp: upages_def)
  then have "um_ok s1 d lim (f # xs)"
    using um inv1 unfolding um_ok_def fr(2,3) k1(1) by simp
  then show ?thesis using that s1(1,3) o1 fr(2,3) by blast
qed

text \<open>Only memory, the free list and the terminal differ.\<close>

definition only_mem_tty :: "'a cst_scheme \<Rightarrow> 'a cst_scheme \<Rightarrow> bool" where
  "only_mem_tty s s' \<longleftrightarrow> s' = s\<lparr>mem := mem s', freelist := freelist s', ttyd := ttyd s'\<rparr>"

lemma only_mem_tty_of: "only_mem s s' \<Longrightarrow> only_mem_tty s s'"
proof -
  assume om: "only_mem s s'"
  have "ttyd s' = ttyd s" by (rule trans [OF arg_cong [OF om [unfolded only_mem_def]]]) simp
  moreover have "s' = (s\<lparr>ttyd := ttyd s\<rparr>)\<lparr>mem := mem s', freelist := freelist s'\<rparr>"
    using om by (simp add: only_mem_def)
  ultimately show ?thesis by (simp add: only_mem_tty_def)
qed

lemma only_mem_tty_trans:
  assumes "only_mem_tty s s'" "only_mem_tty s' s''"
  shows "only_mem_tty s s''"
proof -
  have "s'' = s'\<lparr>mem := mem s'', freelist := freelist s'', ttyd := ttyd s''\<rparr>"
    using assms(2) unfolding only_mem_tty_def .
  also have "\<dots> = (s\<lparr>mem := mem s', freelist := freelist s', ttyd := ttyd s'\<rparr>)
      \<lparr>mem := mem s'', freelist := freelist s'', ttyd := ttyd s''\<rparr>"
    using assms(1) unfolding only_mem_tty_def by (rule arg_cong)
  finally show ?thesis by (simp add: only_mem_tty_def)
qed

lemma only_mem_tty_upd [simp]: "only_mem_tty s (s\<lparr>ttyd := t\<rparr>)"
  by (simp add: only_mem_tty_def)

lemma um_ok_tty [simp]: "um_ok (s\<lparr>ttyd := t\<rparr>) d lim xs = um_ok s d lim xs"
  by (simp add: um_ok_def vm_inv_def)

text \<open>The console can print.\<close>

definition print_ok :: "'a cst_scheme \<Rightarrow> bool" where
  "print_ok s \<longleftrightarrow> quiet s \<and> lk_free Lcons s \<and> cons_ok s"

lemma print_ok_only_mem:
  assumes "only_mem s s'"
  shows "print_ok s' = print_ok s"
proof -
  have "print_ok s' = print_ok (s\<lparr>mem := mem s', freelist := freelist s'\<rparr>)"
    using assms unfolding only_mem_def by (rule arg_cong)
  then show ?thesis by (simp add: print_ok_def cons_ok_def)
qed

lemma print_msg:
  assumes "print_ok s" "fmt_out fmt args = Some cs"
  obtains t where "cprintf fmt args s = Ok () (s\<lparr>ttyd := t\<rparr>)" "print_ok (s\<lparr>ttyd := t\<rparr>)"
  using cprintf_out [of s fmt args cs] assms unfolding print_ok_def by auto

definition vacant :: "mem \<Rightarrow> u32 \<Rightarrow> u32 \<Rightarrow> u32 \<Rightarrow> bool" where
  "vacant m d lo hi \<longleftrightarrow> (\<forall>c. aligned c \<longrightarrow> lo \<le> c \<longrightarrow> c < hi \<longrightarrow> pte_at m d c = 0)"

text \<open>
  What a failed allocation leaves: the map as it was, every page taken back or now a table of
  the directory, and a message on the terminal.
\<close>

definition restored :: "'a cst_scheme \<Rightarrow> 'a cst_scheme \<Rightarrow> u32 \<Rightarrow> u32 list \<Rightarrow> u32 list \<Rightarrow> bool" where
  "restored s s' d xs zs \<longleftrightarrow> um_ok s' d SHAREBASE zs \<and> only_mem_tty s s' \<and> print_ok s' \<and>
     (\<forall>c. aligned c \<longrightarrow> pte_at (mem s') d c = pte_at (mem s) d c) \<and>
     pd_pages (mem s') d \<union> set zs = pd_pages (mem s) d \<union> set xs \<and>
     same_outside (pd_pages (mem s) d \<union> set xs) (mem s) (mem s')"

lemma upages_hi:
  assumes "a \<le> hi" "\<And>c. aligned c \<Longrightarrow> a \<le> c \<Longrightarrow> c < hi \<Longrightarrow> \<not> present (pte_at m d c)"
  shows "upages m d lo hi = upages m d lo a"
proof -
  have "c < a" if "aligned c" "c < hi" "present (pte_at m d c)" for c
    using assms(2) [of c] that by (metis leI)
  then show ?thesis using assms(1) unfolding upages_def by (auto intro: less_le_trans)
qed

text \<open>The clean-up after a failure, with \<open>s\<close> the state it starts from.\<close>

lemma alloc_undo:
  assumes um: "um_ok s1 d SHAREBASE []" and om: "only_mem_tty s0 s1" and po: "print_ok s1"
    and inr: "\<And>c. aligned c \<Longrightarrow> lo \<le> c \<Longrightarrow> c < a \<Longrightarrow> present (pte_at (mem s1) d c)"
    and out: "\<And>c. aligned c \<Longrightarrow> \<not> (lo \<le> c \<and> c < a) \<Longrightarrow> pte_at (mem s1) d c = pte_at (mem s0) d c"
    and C: "pd_pages (mem s1) d \<union> upages (mem s1) d lo a = C" "C \<subseteq> W" "same_outside W (mem s0) (mem s1)"
    and lo: "lo = PGROUNDUP oldsz" "oldsz < newsz" "newsz \<le> SHAREBASE" "a \<le> newsz" "lo \<le> a"
    and vac: "vacant (mem s0) d lo newsz"
  shows "\<exists>zs s2. deallocuvm d newsz oldsz s1 = Ok oldsz s2 \<and> um_ok s2 d SHAREBASE zs \<and>
    only_mem_tty s0 s2 \<and> only_mem s1 s2 \<and> print_ok s2 \<and>
    (\<forall>c. aligned c \<longrightarrow> pte_at (mem s2) d c = pte_at (mem s0) d c) \<and>
    pd_pages (mem s2) d \<union> set zs = C \<and> same_outside W (mem s0) (mem s2)"
proof -
  have "unat newsz \<le> 2147483648" using lo(3) by (simp add: word_le_nat_alt)
  from deallocuvm_spec [OF um lo(2,3) this] obtain fs s2 where s2:
    "deallocuvm d newsz oldsz s1 = Ok oldsz s2" "um_ok s2 d SHAREBASE fs"
    "set fs = upages (mem s1) d lo newsz" "cleared (mem s1) (mem s2) d lo newsz"
    "pd_pages (mem s2) d = pd_pages (mem s1) d" "only_mem s1 s2"
    "same_outside (set fs \<union> pd_pages (mem s1) d) (mem s1) (mem s2)"
    unfolding lo(1) by auto
  have fs: "set fs = upages (mem s1) d lo a"
    unfolding s2(3)
  proof (rule upages_hi [OF lo(4)])
    fix c assume c: "aligned c" "a \<le> c" "c < newsz"
    then have "pte_at (mem s1) d c = pte_at (mem s0) d c" by (intro out) auto
    moreover have "lo \<le> c" using lo(5) c(2) by simp
    then have "\<not> present (pte_at (mem s0) d c)" using vac c by (simp add: vacant_def)
    ultimately show "\<not> present (pte_at (mem s1) d c)" by simp
  qed
  have pte: "pte_at (mem s2) d c = pte_at (mem s0) d c" if c: "aligned c" for c
  proof (cases "lo \<le> c \<and> c < newsz")
    case True
    then have z: "pte_at (mem s0) d c = 0" using vac c by (simp add: vacant_def)
    have "present (pte_at (mem s1) d c)" if "c < a" using inr c True that by blast
    then have "pte_at (mem s2) d c = 0"
      using s2(4) [unfolded cleared_def, rule_format, OF c] True z out [OF c] by auto
    with z show ?thesis by simp
  next
    case False
    then have "pte_at (mem s2) d c = pte_at (mem s1) d c" using s2(4) c unfolding cleared_def by metis
    moreover have "\<not> (lo \<le> c \<and> c < a)" using False lo(4) by auto
    ultimately show ?thesis using out [OF c] by simp
  qed
  have "only_mem_tty s0 s2" using om only_mem_tty_of [OF s2(6)] by (rule only_mem_tty_trans)
  moreover have "print_ok s2" using po print_ok_only_mem [OF s2(6)] by simp
  moreover have "pd_pages (mem s2) d \<union> set fs = C" using s2(5) fs C(1) by simp
  moreover have "same_outside W (mem s0) (mem s2)"
    by (rule same_outside_trans [OF C(3) s2(7)]) (use C fs in auto)
  ultimately show ?thesis using s2(1,2,6) pte by blast
qed

lemma alloc_fail1:
  assumes gr: "grown E K s0 s d lo a xs0 []" and po: "print_ok s0"
    and lo: "lo = PGROUNDUP oldsz" "oldsz < newsz" "newsz \<le> SHAREBASE" "a \<le> newsz" "lo \<le> a"
    and vac: "vacant (mem s0) d lo newsz"
  shows "\<exists>zs s'. bind (cprintf (''allocuvm out of memory'' @ [CHR 0x0A]) [] s) (\<lambda>_ s.
      bind (deallocuvm d newsz oldsz s) (\<lambda>_ s. Ok 0 s)) = Ok 0 s' \<and> restored s0 s' d xs0 zs"
proof -
  note g0 = gr [unfolded grown_def]
  have om: "only_mem s0 s" using g0 by blast
  then have "print_ok s" using po print_ok_only_mem by blast
  moreover have "fmt_out (''allocuvm out of memory'' @ [CHR 0x0A]) [] =
      Some (map of_char (''allocuvm out of memory'' @ [CHR 0x0A]))" by (rule fmt_plain) simp
  ultimately obtain t where t: "cprintf (''allocuvm out of memory'' @ [CHR 0x0A]) [] s = Ok () (s\<lparr>ttyd := t\<rparr>)"
    "print_ok (s\<lparr>ttyd := t\<rparr>)" by (rule print_msg)
  let ?s1 = "s\<lparr>ttyd := t\<rparr>"
  have "\<exists>zs s2. deallocuvm d newsz oldsz ?s1 = Ok oldsz s2 \<and> um_ok s2 d SHAREBASE zs \<and>
    only_mem_tty s0 s2 \<and> only_mem ?s1 s2 \<and> print_ok s2 \<and>
    (\<forall>c. aligned c \<longrightarrow> pte_at (mem s2) d c = pte_at (mem s0) d c) \<and>
    pd_pages (mem s2) d \<union> set zs = pd_pages (mem s0) d \<union> set xs0 \<and>
    same_outside (pd_pages (mem s0) d \<union> set xs0) (mem s0) (mem s2)"
  proof (rule alloc_undo [OF _ _ t(2) _ _ _ subset_refl _ lo vac])
    show "um_ok ?s1 d SHAREBASE []" using g0 by simp
    show "only_mem_tty s0 ?s1" by (rule only_mem_tty_trans [OF only_mem_tty_of [OF om] only_mem_tty_upd])
    show "present (pte_at (mem ?s1) d c)" if "aligned c" "lo \<le> c" "c < a" for c
    proof -
      from g0 that obtain f where "pte_at (mem s) d c = uentry f (E c)" by blast
      then show ?thesis by simp
    qed
    show "pte_at (mem ?s1) d c = pte_at (mem s0) d c" if "aligned c" "\<not> (lo \<le> c \<and> c < a)" for c
      using g0 that by simp
    show "pd_pages (mem ?s1) d \<union> upages (mem ?s1) d lo a = pd_pages (mem s0) d \<union> set xs0" using g0 by auto
    show "same_outside (pd_pages (mem s0) d \<union> set xs0) (mem s0) (mem ?s1)" using g0 by simp
  qed
  then obtain zs s2 where "deallocuvm d newsz oldsz ?s1 = Ok oldsz s2" "restored s0 s2 d xs0 zs"
    unfolding restored_def by blast
  then show ?thesis using t(1) by auto
qed

lemma alloc_fail2:
  assumes gr: "grown E K s0 s d lo a xs0 (f # ys)" and po: "print_ok s0"
    and lo: "lo = PGROUNDUP oldsz" "oldsz < newsz" "newsz \<le> SHAREBASE" "a \<le> newsz" "lo \<le> a"
    and vac: "vacant (mem s0) d lo newsz"
    and full: "map_full s s3 d f ys"
  shows "\<exists>zs s'. bind (cprintf (''allocuvm out of memory (2)'' @ [CHR 0x0A]) [] s3) (\<lambda>_ s.
      bind (deallocuvm d newsz oldsz s) (\<lambda>_ s. bind (kfree f s) (\<lambda>_ s. Ok 0 s))) = Ok 0 s' \<and>
      restored s0 s' d xs0 zs"
proof -
  have s3: "um_ok s3 d SHAREBASE []" "only_mem s s3" "page_ok (kend s) f"
      "f \<notin> pd_pages (mem s3) d \<union> upages (mem s3) d 0 SHAREBASE"
      "\<And>c. aligned c \<Longrightarrow> pte_at (mem s3) d c = pte_at (mem s) d c"
      "pd_pages (mem s3) d = pd_pages (mem s) d \<union> set ys"
      "same_outside (insert f (pd_pages (mem s3) d)) (mem s) (mem s3)"
    using full unfolding map_full_def by blast+
  note g0 = gr [unfolded grown_def]
  from g0 obtain us where us: "xs0 = us @ f # ys"
    "pd_pages (mem s) d \<union> upages (mem s) d lo a = pd_pages (mem s0) d \<union> set us" by blast
  have om: "only_mem s0 s3" using g0 s3(2) only_mem_trans by blast
  then have "print_ok s3" using po print_ok_only_mem by blast
  moreover have "fmt_out (''allocuvm out of memory (2)'' @ [CHR 0x0A]) [] =
      Some (map of_char (''allocuvm out of memory (2)'' @ [CHR 0x0A]))" by (rule fmt_plain) simp
  ultimately obtain t where t: "cprintf (''allocuvm out of memory (2)'' @ [CHR 0x0A]) [] s3 = Ok () (s3\<lparr>ttyd := t\<rparr>)"
    "print_ok (s3\<lparr>ttyd := t\<rparr>)" by (rule print_msg)
  let ?s1 = "s3\<lparr>ttyd := t\<rparr>" let ?C = "pd_pages (mem s0) d \<union> set us \<union> set ys"
  let ?W = "pd_pages (mem s0) d \<union> set xs0"
  have up: "upages (mem s3) d lo a = upages (mem s) d lo a" by (rule upages_cong) (rule s3(5))
  have so: "same_outside ?W (mem s0) (mem s3)"
    by (rule same_outside_trans [OF _ s3(7)]) (use g0 us s3(6) in auto)
  have out: "pte_at (mem s3) d c = pte_at (mem s0) d c" if "aligned c" "\<not> (lo \<le> c \<and> c < a)" for c
    using g0 that s3(5) by simp
  have "\<exists>zs s2. deallocuvm d newsz oldsz ?s1 = Ok oldsz s2 \<and> um_ok s2 d SHAREBASE zs \<and>
    only_mem_tty s0 s2 \<and> only_mem ?s1 s2 \<and> print_ok s2 \<and>
    (\<forall>c. aligned c \<longrightarrow> pte_at (mem s2) d c = pte_at (mem s0) d c) \<and>
    pd_pages (mem s2) d \<union> set zs = ?C \<and> same_outside ?W (mem s0) (mem s2)"
  proof (rule alloc_undo [OF _ _ t(2) _ _ _ _ _ lo vac])
    show "um_ok ?s1 d SHAREBASE []" using s3(1) by simp
    show "only_mem_tty s0 ?s1" by (rule only_mem_tty_trans [OF only_mem_tty_of [OF om] only_mem_tty_upd])
    show "present (pte_at (mem ?s1) d c)" if "aligned c" "lo \<le> c" "c < a" for c
    proof -
      from g0 that obtain g where "pte_at (mem s) d c = uentry g (E c)" by blast
      then show ?thesis using s3(5) [OF that(1)] by simp
    qed
    show "pte_at (mem ?s1) d c = pte_at (mem s0) d c" if "aligned c" "\<not> (lo \<le> c \<and> c < a)" for c
      using out that by simp
    show "pd_pages (mem ?s1) d \<union> upages (mem ?s1) d lo a = ?C" using us(2) s3(6) up by auto
    show "?C \<subseteq> ?W" using us(1) by auto
    show "same_outside ?W (mem s0) (mem ?s1)" using so by simp
  qed
  then obtain zs s2 where s2: "deallocuvm d newsz oldsz ?s1 = Ok oldsz s2" "um_ok s2 d SHAREBASE zs"
    "only_mem_tty s0 s2" "only_mem ?s1 s2" "print_ok s2"
    "\<And>c. aligned c \<Longrightarrow> pte_at (mem s2) d c = pte_at (mem s0) d c"
    "pd_pages (mem s2) d \<union> set zs = ?C" "same_outside ?W (mem s0) (mem s2)" by blast
  have fC: "f \<notin> ?C"
  proof -
    have "upages (mem s3) d lo a \<subseteq> upages (mem s3) d 0 SHAREBASE"
      using lo(3,4) by (intro upages_mono) auto
    then show ?thesis using s3(4) us(2) s3(6) up by auto
  qed
  have "f \<notin> upages (mem s2) d 0 SHAREBASE"
  proof
    assume "f \<in> upages (mem s2) d 0 SHAREBASE"
    then obtain c where c: "aligned c" "c < SHAREBASE" "present (pte_at (mem s2) d c)" "f = uframe (mem s2) d c"
      unfolding upages_def by blast
    then have "\<not> (lo \<le> c \<and> c < a)" using s2(6) vac lo(4) by (auto simp: vacant_def dest: less_le_trans)
    then have "pte_at (mem s3) d c = pte_at (mem s2) d c" using out s2(6) c(1) by simp
    then have "f = uframe (mem s3) d c" "present (pte_at (mem s3) d c)" using c by simp_all
    with c(1,2) have "f \<in> upages (mem s3) d 0 SHAREBASE"
      using upagesI [of c 0 SHAREBASE "mem s3" d] by simp
    with s3(4) show False by blast
  qed
  moreover have "kend s2 = kend s" using only_mem_fields(1) [OF s2(4)] only_mem_fields(1) [OF s3(2)] by simp
  ultimately obtain s' where s': "kfree f s2 = Ok () s'" "um_ok s' d SHAREBASE (f # zs)" "only_mem s2 s'"
    "same_outside {f} (mem s2) (mem s')" "pd_pages (mem s') d = pd_pages (mem s2) d"
    "\<And>c. pte_at (mem s') d c = pte_at (mem s2) d c"
    using um_free_other [OF s2(2), of f] s3(3) fC s2(7) by (metis UnCI)
  have "restored s0 s' d xs0 (f # zs)"
    unfolding restored_def
  proof (intro conjI allI impI)
    show "only_mem_tty s0 s'" by (rule only_mem_tty_trans [OF s2(3) only_mem_tty_of [OF s'(3)]])
    show "print_ok s'" using s2(5) print_ok_only_mem [OF s'(3)] by simp
    show "pd_pages (mem s') d \<union> set (f # zs) = ?W" using s2(7) s'(5) us(1) by auto
    show "same_outside ?W (mem s0) (mem s')"
      by (rule same_outside_trans [OF s2(8) s'(4)]) (use us(1) in auto)
  qed (use s'(2,6) s2(6) in simp_all)
  then show ?thesis using t(1) s2(1) s'(1) by auto
qed

lemma grown_hi:
  assumes "grown E K s s' d lo b xs ys" "\<And>c. aligned c \<Longrightarrow> c < b \<longleftrightarrow> c < hi"
  shows "grown E K s s' d lo hi xs ys"
proof -
  have "upages (mem s') d lo b = upages (mem s') d lo hi"
    using assms(2) unfolding upages_def by (intro Collect_cong ex_cong1) auto
  then show ?thesis using assms unfolding grown_def by simp
qed

abbreviation zgrown :: "'a mst_scheme \<Rightarrow> 'a mst_scheme \<Rightarrow> u32 \<Rightarrow> u32 \<Rightarrow> u32 \<Rightarrow> u32 list \<Rightarrow> u32 list \<Rightarrow> bool" where
  "zgrown \<equiv> grown (\<lambda>_. PTE_W OR PTE_U) (\<lambda>_ _. 0)"

lemma alloc_loop:
  assumes "zgrown s0 s d lo a xs0 xs" "print_ok s0" "lo = PGROUNDUP oldsz" "oldsz \<le> lo" "newsz < SHAREBASE"
    "lo \<le> a" "aligned a" "unat a < unat newsz + 4096" "vacant (mem s0) d lo newsz"
    "unat newsz \<le> unat a + 4096 * n" "n < fuel"
  shows "(\<exists>ys s'. allocuvm_loop fuel d a oldsz newsz s = Ok newsz s' \<and> zgrown s0 s' d lo newsz xs0 ys) \<or>
    (\<exists>zs s'. allocuvm_loop fuel d a oldsz newsz s = Ok 0 s' \<and> restored s0 s' d xs0 zs)"
  using assms
proof (induction n arbitrary: a s xs fuel)
  case 0
  obtain f where f: "fuel = Suc f" using "0.prems"(11) by (cases fuel) auto
  have le: "\<not> a < newsz" using "0.prems"(10) by (simp add: word_less_nat_alt)
  have "zgrown s0 s d lo newsz xs0 xs"
    using "0.prems"(1)
  proof (rule grown_hi)
    fix c assume c: "aligned c"
    obtain i j where "unat a = 4096 * i" "unat c = 4096 * j" using c "0.prems"(7) by (metis alignedE)
    then show "c < a \<longleftrightarrow> c < newsz" using "0.prems"(8) le by (auto simp: word_less_nat_alt)
  qed
  then show ?case using f le by auto
next
  case (Suc n)
  obtain f where f: "fuel = Suc f" "n < f" using Suc.prems(11) by (cases fuel) auto
  show ?case
  proof (cases "a < newsz")
    case False
    have "zgrown s0 s d lo newsz xs0 xs"
      using Suc.prems(1)
    proof (rule grown_hi)
      fix c assume c: "aligned c"
      obtain i j where "unat a = 4096 * i" "unat c = 4096 * j" using c Suc.prems(7) by (metis alignedE)
      then show "c < a \<longleftrightarrow> c < newsz" using Suc.prems(8) False by (auto simp: word_less_nat_alt)
    qed
    then show ?thesis using f False by auto
  next
    case lt: True
    have sb: "a < SHAREBASE" "newsz \<le> SHAREBASE" "a \<le> newsz" "oldsz < newsz"
      using lt Suc.prems(4-6) by auto
    show ?thesis
    proof (cases xs)
      case Nil
      have "free_inv s []" using Suc.prems(1) Nil unfolding grown_def um_ok_def vm_inv_def by simp
      then have "kalloc s = Ok 0 s" by (rule kalloc_empty)
      then have "allocuvm_loop fuel d a oldsz newsz s =
          bind (cprintf (''allocuvm out of memory'' @ [CHR 0x0A]) [] s) (\<lambda>_ s.
            bind (deallocuvm d newsz oldsz s) (\<lambda>_ s. Ok 0 s))"
        using f(1) lt by simp
      then show ?thesis
        using alloc_fail1 [OF Suc.prems(1) [unfolded Nil] Suc.prems(2,3) sb(4,2,3) Suc.prems(6,9)] by metis
    next
      case (Cons g ys)
      have np: "\<not> present (pte_at (mem s0) d a)"
        using Suc.prems(6,7,9) lt by (simp add: vacant_def)
      have um: "um_ok s d SHAREBASE (g # ys)" using Suc.prems(1) Cons by (simp add: grown_def)
      obtain s1 where s1: "kalloc s = Ok g s1" "mem s1 = mem s" "g \<noteq> 0" "page_ok (kend s) g"
        using alloc_kalloc [OF um] by blast
      have ag: "aligned g" using s1(4) by (rule page_ok_aligned)
      let ?m2 = "memset (mem s) g 0 PGSIZE"
      have "same_outside {g} (mem s) ?m2"
        using ag by (auto simp: same_outside_def memset_eq in_frame_iff)
      from alloc_map [OF Suc.prems(1) [unfolded Cons] Suc.prems(7,6) sb(1) np _ s1(1) this page_has_memset [OF ag]]
      consider (ok) s3 zs where "mappages d a PGSIZE (V2P g) 6 (s1\<lparr>mem := ?m2\<rparr>) = Ok 0 s3"
          "zgrown s0 s3 d lo (a + PGSIZE) xs0 zs"
        | (full) s3 where "mappages d a PGSIZE (V2P g) 6 (s1\<lparr>mem := ?m2\<rparr>) = Ok (- 1) s3" "map_full s s3 d g ys"
        by auto
      then show ?thesis
      proof cases
        case ok
        have "unat a < 1073741824" using sb(1) by (simp add: word_less_nat_alt)
        then have up: "unat (a + PGSIZE) = unat a + 4096" by (simp add: unat_word_ariths)
        have "lo \<le> a + PGSIZE" "unat (a + PGSIZE) < unat newsz + 4096" "unat newsz \<le> unat (a + PGSIZE) + 4096 * n"
          using Suc.prems(6,10) lt up by (simp_all add: word_le_nat_alt word_less_nat_alt)
        note IH = Suc.IH [OF ok(2) Suc.prems(2-5) this(1) aligned_add [OF Suc.prems(7)] this(2) Suc.prems(9) this(3) f(2)]
        moreover have "allocuvm_loop fuel d a oldsz newsz s = allocuvm_loop f d (a + PGSIZE) oldsz newsz s3"
          using f(1) lt s1(1-3) ok(1) by (simp add: Let_def)
        ultimately show ?thesis by simp
      next
        case full
        have "allocuvm_loop fuel d a oldsz newsz s =
            bind (cprintf (''allocuvm out of memory (2)'' @ [CHR 0x0A]) [] s3) (\<lambda>_ s.
              bind (deallocuvm d newsz oldsz s) (\<lambda>_ s. bind (kfree g s) (\<lambda>_ s. Ok 0 s)))"
          using f(1) lt s1(1-3) full(1) by (simp add: Let_def)
        then show ?thesis
          using alloc_fail2 [OF Suc.prems(1) [unfolded Cons] Suc.prems(2,3) sb(4,2,3) Suc.prems(6,9) full(2)] by metis
      qed
    qed
  qed
qed

lemma PGROUNDUP_less:
  assumes "unat a \<le> 4294963200"
  shows "unat (PGROUNDUP a) < unat a + 4096"
proof -
  have "PGROUNDUP a = PGROUNDDOWN (a + 0xFFF)" by (simp add: PGROUNDUP_def PGROUNDDOWN_def add.commute)
  moreover have "unat (a + 0xFFF) = unat a + 4095" using assms by (simp add: unat_word_ariths)
  ultimately show ?thesis by (simp add: unat_PGROUNDDOWN less_imp_diff_less)
qed

lemma allocuvm_spec:
  assumes um: "um_ok s d SHAREBASE xs" and po: "print_ok s" and sz: "oldsz \<le> newsz" "newsz < SHAREBASE"
    and vac: "vacant (mem s) d (PGROUNDUP oldsz) newsz"
  shows "(\<exists>ys s'. allocuvm d oldsz newsz s = Ok newsz s' \<and> zgrown s s' d (PGROUNDUP oldsz) newsz xs ys) \<or>
    (\<exists>zs s'. allocuvm d oldsz newsz s = Ok 0 s' \<and> restored s s' d xs zs)"
proof -
  have u: "unat newsz < 1073741824" "unat oldsz \<le> unat newsz"
    using sz by (simp_all add: word_less_nat_alt word_le_nat_alt)
  then have up: "oldsz \<le> PGROUNDUP oldsz" "aligned (PGROUNDUP oldsz)" using PGROUNDUP_ge [of oldsz] by simp_all
  have lt: "unat (PGROUNDUP oldsz) < unat newsz + 4096" using u PGROUNDUP_less [of oldsz] by simp
  have n: "unat newsz \<le> unat (PGROUNDUP oldsz) + 4096 * 524288" "524288 < (1048577 :: nat)"
    using u by simp_all
  have "allocuvm d oldsz newsz s = allocuvm_loop 1048577 d (PGROUNDUP oldsz) oldsz newsz s"
    using sz by (auto simp: allocuvm_def dest: leD)
  then show ?thesis
    using alloc_loop [OF grown_refl [OF um] po refl up(1) sz(2) order_refl up(2) lt vac n] by simp
qed

end
