(* ===== verification/Kvm.thy ===== *)
theory Kvm
  imports Uvm
begin

unbundle bit_operations_syntax

text \<open>
  Whole address spaces: the kernel part that \<open>setupkvm\<close> builds, and the copy of the user part
  that \<open>copyuvm\<close> makes for a child process.
\<close>

section \<open>The kernel part\<close>

definition kin :: "kmap \<Rightarrow> u32 \<Rightarrow> bool" where
  "kin k vb \<longleftrightarrow> virt k \<le> PGROUNDDOWN vb \<and>
     PGROUNDDOWN vb \<le> PGROUNDDOWN (virt k + (phys_end k - phys_start k) - 1)"

definition kok :: "kmap \<Rightarrow> bool" where
  "kok k \<longleftrightarrow> aligned (virt k) \<and> phys_end k - phys_start k \<noteq> 0 \<and> SHAREBASE \<le> virt k \<and>
     unat (virt k) + unat (phys_end k - phys_start k) \<le> 4294967296"

definition kent :: "kmap \<Rightarrow> u32 \<Rightarrow> u32" where
  "kent k vb = (phys_start k + (PGROUNDDOWN vb - virt k)) OR kperm k OR PTE_P"

lemma um_ok_vacant: "vm_inv s d xs \<Longrightarrow> vacant (mem s) d 0 lim \<Longrightarrow> um_ok s d lim xs"
  by (simp add: um_ok_def vacant_def)

lemma upages_vacant: "vacant m d lo hi \<Longrightarrow> upages m d lo hi = {}"
  by (auto simp: upages_def vacant_def)

text \<open>A result that gives back every page: \<open>zs\<close> is the free list, with the pages \<open>C\<close>.\<close>

definition all_back :: "'a mst_scheme \<Rightarrow> 'a mst_scheme \<Rightarrow> u32 set \<Rightarrow> u32 list \<Rightarrow> bool" where
  "all_back s s' C zs \<longleftrightarrow> free_inv s' zs \<and> set zs = C \<and> only_mem s s' \<and> same_outside C (mem s) (mem s')"

lemma setup_loop:
  assumes "vm_inv s d xs" "vacant (mem s) d 0 SHAREBASE" "\<forall>k\<in>set ks. kok k"
    "sorted_wrt (\<lambda>k k'. \<forall>vb. \<not> (kin k vb \<and> kin k' vb)) ks"
    "\<forall>k\<in>set ks. \<forall>vb. kin k vb \<longrightarrow> \<not> present (pte_at (mem s) d vb)"
  shows "(\<exists>ys s'. setupkvm_loop ks d s = Ok d s' \<and> grows s s' d xs ys \<and>
      (\<forall>vb. pte_at (mem s') d vb = (case find (\<lambda>k. kin k vb) ks of None \<Rightarrow> pte_at (mem s) d vb
         | Some k \<Rightarrow> kent k vb))) \<or>
    (\<exists>zs s'. setupkvm_loop ks d s = Ok 0 s' \<and> all_back s s' (pd_pages (mem s) d \<union> set xs) zs)"
  using assms
proof (induction ks arbitrary: s xs)
  case Nil
  then show ?case using grows_refl by fastforce
next
  case (Cons k ks)
  have k: "aligned (virt k)" "phys_end k - phys_start k \<noteq> 0" "SHAREBASE \<le> virt k"
    "unat (virt k) + unat (phys_end k - phys_start k) \<le> 4294967296"
    using Cons.prems(3) by (simp_all add: kok_def)
  let ?sz = "phys_end k - phys_start k"
  have kin: "kin k vb \<longleftrightarrow> PGROUNDDOWN (virt k) \<le> PGROUNDDOWN vb \<and> PGROUNDDOWN vb \<le> PGROUNDDOWN (virt k + ?sz - 1)" for vb
    using k(1) by (simp add: kin_def PGROUNDDOWN_id)
  have low: "\<not> kin k c" if "aligned c" "c < SHAREBASE" for c
    using that k(3) by (auto simp: kin_def PGROUNDDOWN_id)
  have free: "\<not> present (pte_at (mem s) d vb)" if "PGROUNDDOWN (virt k) \<le> PGROUNDDOWN vb"
    "PGROUNDDOWN vb \<le> PGROUNDDOWN (virt k + ?sz - 1)" for vb
    using Cons.prems(5) that kin by simp
  have "\<exists>ys s1. grows s s1 d xs ys \<and>
    (mappages d (virt k) ?sz (phys_start k) (kperm k) s = Ok 0 s1 \<and>
      (\<forall>vb. pte_at (mem s1) d vb = (if kin k vb then kent k vb else pte_at (mem s) d vb)) \<or>
     mappages d (virt k) ?sz (phys_start k) (kperm k) s = Ok (- 1) s1 \<and> ys = [] \<and>
      (\<forall>vb. pte_at (mem s1) d vb = pte_at (mem s) d vb \<or> kin k vb))"
    using mappages_spec [OF Cons.prems(1) k(2,4) free, where pa = "phys_start k" and perm = "kperm k",
      unfolded PGROUNDDOWN_id [OF k(1)]] unfolding kin_def kent_def by blast
  then obtain ys s1 where s1: "grows s s1 d xs ys"
    "mappages d (virt k) ?sz (phys_start k) (kperm k) s = Ok 0 s1 \<and>
      (\<forall>vb. pte_at (mem s1) d vb = (if kin k vb then kent k vb else pte_at (mem s) d vb)) \<or>
     mappages d (virt k) ?sz (phys_start k) (kperm k) s = Ok (- 1) s1 \<and> ys = [] \<and>
      (\<forall>vb. pte_at (mem s1) d vb = pte_at (mem s) d vb \<or> kin k vb)" by blast
  have vac: "vacant (mem s1) d 0 SHAREBASE"
    using s1(2) Cons.prems(2) low unfolding vacant_def by metis
  obtain us where us: "xs = us @ ys" "pd_pages (mem s1) d = pd_pages (mem s) d \<union> set us"
    using growsD(4) [OF s1(1)] by blast
  from s1(2) show ?case
  proof
    assume A: "mappages d (virt k) ?sz (phys_start k) (kperm k) s = Ok 0 s1 \<and>
      (\<forall>vb. pte_at (mem s1) d vb = (if kin k vb then kent k vb else pte_at (mem s) d vb))"
    have p: "\<forall>k\<in>set ks. kok k" "sorted_wrt (\<lambda>k k'. \<forall>vb. \<not> (kin k vb \<and> kin k' vb)) ks"
      using Cons.prems(3,4) by simp_all
    have "\<forall>k\<in>set ks. \<forall>vb. kin k vb \<longrightarrow> \<not> present (pte_at (mem s1) d vb)"
      using A Cons.prems(4,5) by auto
    from Cons.IH [OF growsD(1) [OF s1(1)] vac p this]
    consider (ok) zs s2 where "setupkvm_loop ks d s1 = Ok d s2" "grows s1 s2 d ys zs"
        "\<And>vb. pte_at (mem s2) d vb = (case find (\<lambda>k. kin k vb) ks of None \<Rightarrow> pte_at (mem s1) d vb
           | Some k \<Rightarrow> kent k vb)"
      | (bad) zs s2 where "setupkvm_loop ks d s1 = Ok 0 s2" "all_back s1 s2 (pd_pages (mem s1) d \<union> set ys) zs"
      by blast
    then show ?thesis
    proof cases
      case ok
      have "setupkvm_loop (k # ks) d s = Ok d s2" using A ok(1) by simp
      moreover have "pte_at (mem s2) d vb = (case find (\<lambda>k. kin k vb) (k # ks) of None \<Rightarrow> pte_at (mem s) d vb
           | Some k \<Rightarrow> kent k vb)" for vb
      proof (cases "kin k vb")
        case True
        then have "find (\<lambda>k. kin k vb) ks = None"
          using Cons.prems(4) by (auto simp: find_None_iff)
        then show ?thesis using True ok(3) [of vb] A by simp
      next
        case False
        then show ?thesis using ok(3) [of vb] A by (simp split: option.splits)
      qed
      ultimately show ?thesis using grows_trans [OF s1(1) ok(2)] by blast
    next
      case bad
      have "setupkvm_loop (k # ks) d s = Ok 0 s2" using A bad(1) by simp
      moreover have "all_back s s2 (pd_pages (mem s) d \<union> set xs) zs"
      proof -
        have "same_outside (pd_pages (mem s) d \<union> set xs) (mem s) (mem s2)"
          by (rule same_outside_trans [OF growsD(3) [OF s1(1)]]) (use bad(2) us in \<open>auto simp: all_back_def\<close>)
        then show ?thesis
          using bad(2) us only_mem_trans [OF growsD(2) [OF s1(1)]] by (auto simp: all_back_def)
      qed
      ultimately show ?thesis by blast
    qed
  next
    assume A: "mappages d (virt k) ?sz (phys_start k) (kperm k) s = Ok (- 1) s1 \<and> ys = [] \<and>
      (\<forall>vb. pte_at (mem s1) d vb = pte_at (mem s) d vb \<or> kin k vb)"
    have "um_ok s1 d SHAREBASE []" using um_ok_vacant growsD(1) [OF s1(1)] vac A by blast
    from freevm_spec [OF this] obtain fs s2 where s2: "freevm d s1 = Ok () s2" "free_inv s2 fs"
      "set fs = pd_pages (mem s1) d" "only_mem s1 s2" "same_outside (set fs) (mem s1) (mem s2)"
      using upages_vacant [OF vac] by auto
    have "setupkvm_loop (k # ks) d s = Ok 0 s2" using A s2(1) by simp
    moreover have "same_outside (pd_pages (mem s) d \<union> set xs) (mem s) (mem s2)"
      by (rule same_outside_trans [OF growsD(3) [OF s1(1)] s2(5)]) (use s2 us A in auto)
    then have "all_back s s2 (pd_pages (mem s) d \<union> set xs) fs"
      using s2 us A only_mem_trans [OF growsD(2) [OF s1(1)]] by (auto simp: all_back_def)
    ultimately show ?thesis by blast
  qed
qed

text \<open>The entry of a kernel address, for a kernel whose data starts at \<open>data\<close>.\<close>

definition kpte :: "u32 \<Rightarrow> u32 \<Rightarrow> u32" where
  "kpte data a =
     (if KERNBASE \<le> a \<and> a < P2V PHYSTOP
      then V2P a OR (if KERNLINK \<le> a \<and> a < data then 0 else PTE_W) OR PTE_P
      else if DEVSPACE \<le> a then a OR PTE_W OR PTE_P
      else 0)"

definition data_ok :: "u32 \<Rightarrow> bool" where
  "data_ok data \<longleftrightarrow> aligned data \<and> KERNLINK < data \<and> data < P2V PHYSTOP"

lemma below_end:
  assumes "aligned a" "aligned e" "e \<noteq> 0"
  shows "a \<le> PGROUNDDOWN (e - 1) \<longleftrightarrow> a < e"
proof -
  obtain i j where ij: "unat a = 4096 * i" "unat e = 4096 * j" using assms by (metis alignedE)
  have "unat (e - 1) = 4096 * j - 1" using assms(3) ij by (simp add: unat_minus_one)
  moreover have j: "0 < j" using assms(3) ij by (metis gr0I mult_0_right unat_eq_zero)
  ultimately have "unat (e - 1) = 4096 * (j - 1) + 4095" by (cases j) simp_all
  then have "unat (PGROUNDDOWN (e - 1)) = 4096 * (j - 1)" by (simp add: unat_PGROUNDDOWN)
  with ij j show ?thesis by (auto simp: word_le_nat_alt word_less_nat_alt)
qed

lemma kin_kmaps:
  assumes "data_ok data" "aligned a"
  shows "kin (kmaps data ! 0) a \<longleftrightarrow> KERNBASE \<le> a \<and> a < KERNLINK"
    "kin (kmaps data ! 1) a \<longleftrightarrow> KERNLINK \<le> a \<and> a < data"
    "kin (kmaps data ! 2) a \<longleftrightarrow> data \<le> a \<and> a < P2V PHYSTOP"
    "kin (kmaps data ! 3) a \<longleftrightarrow> DEVSPACE \<le> a"
proof -
  have d: "aligned data" "KERNLINK < data" "data < P2V PHYSTOP" using assms(1) by (simp_all add: data_ok_def)
  have p: "PGROUNDDOWN a = a" using assms(2) by (rule PGROUNDDOWN_id)
  have al: "aligned (0x80100000 :: u32)" "aligned (0x8E000000 :: u32)" by (simp_all add: aligned_def)
  show "kin (kmaps data ! 0) a \<longleftrightarrow> KERNBASE \<le> a \<and> a < KERNLINK"
    using below_end [OF assms(2) al(1)] by (simp add: kin_def kmaps_def p)
  have "(0x80100000 :: u32) + (V2P data - V2P 0x80100000) - 1 = data - 1" by (simp add: V2P_def)
  then show "kin (kmaps data ! 1) a \<longleftrightarrow> KERNLINK \<le> a \<and> a < data"
    using below_end [OF assms(2) d(1)] word_gt_0 [of data] d(2) by (auto simp: kin_def kmaps_def p)
  have "data + (0xE000000 - V2P data) - 1 = 0x8E000000 - 1" by (simp add: V2P_def)
  then show "kin (kmaps data ! 2) a \<longleftrightarrow> data \<le> a \<and> a < P2V PHYSTOP"
    using below_end [OF assms(2) al(2)] by (simp add: kin_def kmaps_def p P2V_def)
  have "(PGROUNDDOWN (- 1) :: u32) = 0xFFFFF000" by (simp add: PGROUNDDOWN_def)
  then have "a \<le> PGROUNDDOWN (- 1)"
    using assms(2) by (auto simp: word_le_nat_alt elim!: alignedE)
  then show "kin (kmaps data ! 3) a \<longleftrightarrow> DEVSPACE \<le> a"
    by (simp add: kin_def kmaps_def p)
qed

lemma kmaps_list: "kmaps data = [kmaps data ! 0, kmaps data ! 1, kmaps data ! 2, kmaps data ! 3]"
  by (simp add: kmaps_def)

lemma kin_page: "kin k (PGROUNDDOWN vb) = kin k vb" "kent k (PGROUNDDOWN vb) = kent k vb"
  by (simp_all add: kin_def kent_def)

lemma regions:
  fixes A :: "'a::linorder"
  assumes "A \<le> B" "B < D" "D < P" "P \<le> V"
  shows "(if A \<le> a \<and> a < B then f W else if B \<le> a \<and> a < D then f R
      else if D \<le> a \<and> a < P then f W else if V \<le> a then z else w)
    = (if A \<le> a \<and> a < P then f (if B \<le> a \<and> a < D then R else W) else if V \<le> a then z else w)"
  using assms by auto

lemma case_if:
  "(case (if b then Some k else r) of None \<Rightarrow> z | Some k \<Rightarrow> g k)
    = (if b then g k else (case r of None \<Rightarrow> z | Some k \<Rightarrow> g k))"
  by simp

lemma kmaps_pte:
  assumes "data_ok data" "aligned a"
  shows "(case find (\<lambda>k. kin k a) (kmaps data) of None \<Rightarrow> 0 | Some k \<Rightarrow> kent k a) = kpte data a"
proof -
  have d: "KERNLINK < data" "data < P2V PHYSTOP" using assms(1) by (simp_all add: data_ok_def)
  note k = kin_kmaps [OF assms]
  have p: "PGROUNDDOWN a = a" using assms(2) by (rule PGROUNDDOWN_id)
  have e: "kent (kmaps data ! 0) a = V2P a OR PTE_W OR PTE_P" "kent (kmaps data ! 1) a = V2P a OR 0 OR PTE_P"
    "kent (kmaps data ! 2) a = V2P a OR PTE_W OR PTE_P" "kent (kmaps data ! 3) a = a OR PTE_W OR PTE_P"
    by (simp_all add: kent_def kmaps_def p V2P_def)
  have o: "KERNBASE \<le> KERNLINK" "P2V PHYSTOP \<le> DEVSPACE" by (simp_all add: P2V_def)
  have "(case find (\<lambda>k. kin k a) (kmaps data) of None \<Rightarrow> 0 | Some k \<Rightarrow> kent k a) =
    (if KERNBASE \<le> a \<and> a < KERNLINK then V2P a OR PTE_W OR PTE_P
     else if KERNLINK \<le> a \<and> a < data then V2P a OR 0 OR PTE_P
     else if data \<le> a \<and> a < P2V PHYSTOP then V2P a OR PTE_W OR PTE_P
     else if DEVSPACE \<le> a then a OR PTE_W OR PTE_P else 0)"
    by (subst kmaps_list) (simp only: find.simps k e case_if option.case)
  then show ?thesis
    unfolding kpte_def regions [OF o(1) d o(2), where f = "\<lambda>x. V2P a OR x OR PTE_P"] .
qed

lemma kmaps_wf:
  assumes "data_ok data"
  shows "\<forall>k\<in>set (kmaps data). kok k"
    "sorted_wrt (\<lambda>k k'. \<forall>vb. \<not> (kin k vb \<and> kin k' vb)) (kmaps data)"
proof -
  have d: "aligned data" "KERNLINK < data" "data < P2V PHYSTOP" using assms by (simp_all add: data_ok_def)
  have u: "2148532224 < unat data" "unat data < 2382364672"
    using d(2,3) by (simp_all add: word_less_nat_alt P2V_def)
  have v: "unat (V2P data - V2P 0x80100000) = unat data - 2148532224"
    using u by (simp add: V2P_def unat_sub word_le_nat_alt)
  have w: "unat (0xE000000 - V2P data) = 2382364672 - unat data"
  proof -
    have e: "0xE000000 - V2P data = 0x8E000000 - data" by (simp add: V2P_def)
    show ?thesis unfolding e using u by (simp add: unat_sub word_le_nat_alt)
  qed
  have nz: "V2P data - V2P 0x80100000 \<noteq> 0" "0xE000000 - V2P data \<noteq> 0"
    using u v w by (metis diff_is_0_eq leD unat_0)+
  show "\<forall>k\<in>set (kmaps data). kok k"
    unfolding kmaps_def using d(1) nz u v w
    by (simp add: kok_def aligned_def [of "0x80000000"] aligned_def [of "0x80100000"]
        aligned_def [of "0xFE000000"] word_le_nat_alt)
  have o: "P2V PHYSTOP \<le> DEVSPACE" by (simp add: P2V_def)
  have dj: "\<not> (kin (kmaps data ! 0) vb \<and> kin (kmaps data ! 1) vb)"
    "\<not> (kin (kmaps data ! 0) vb \<and> kin (kmaps data ! 2) vb)"
    "\<not> (kin (kmaps data ! 0) vb \<and> kin (kmaps data ! 3) vb)"
    "\<not> (kin (kmaps data ! 1) vb \<and> kin (kmaps data ! 2) vb)"
    "\<not> (kin (kmaps data ! 1) vb \<and> kin (kmaps data ! 3) vb)"
    "\<not> (kin (kmaps data ! 2) vb \<and> kin (kmaps data ! 3) vb)" for vb
    using d o unfolding kin_page(1) [of _ vb, symmetric]
    by (auto simp: kin_kmaps [OF assms aligned_PGROUNDDOWN, unfolded One_nat_def])
  show "sorted_wrt (\<lambda>k k'. \<forall>vb. \<not> (kin k vb \<and> kin k' vb)) (kmaps data)"
    by (subst kmaps_list) (use dj in \<open>simp del: One_nat_def\<close>)
qed

lemma zero_page_empty:
  assumes "aligned d"
  shows "pte_at (memset m d 0 PGSIZE) d va = 0" "pd_pages (memset m d 0 PGSIZE) d = {d}"
    "page_ok e d \<Longrightarrow> pd_ok e (memset m d 0 PGSIZE) d"
proof -
  have z: "pde_at (memset m d 0 PGSIZE) d i = 0" if "i < 1024" for i
    using zero_page_load [OF assms that] by (simp add: pde_at_def)
  then show "pte_at (memset m d 0 PGSIZE) d va = 0" by (simp add: pte_at_def)
  show "pd_pages (memset m d 0 PGSIZE) d = {d}" "page_ok e d \<Longrightarrow> pd_ok e (memset m d 0 PGSIZE) d"
    using z by (auto simp: pd_pages_def pd_ok_def)
qed

text \<open>A new address space has the kernel part of every other one and nothing below it.\<close>

definition fresh_space :: "'a mst_scheme \<Rightarrow> 'a mst_scheme \<Rightarrow> u32 \<Rightarrow> u32 list \<Rightarrow> u32 list \<Rightarrow> bool" where
  "fresh_space s s' d xs ys \<longleftrightarrow> vm_inv s' d ys \<and> only_mem s s' \<and>
     (\<forall>a. aligned a \<longrightarrow> pte_at (mem s') d a = kpte (kdata s) a) \<and>
     xs \<noteq> [] \<and> d = hd xs \<and> (\<exists>us. xs = us @ ys \<and> pd_pages (mem s') d = set us) \<and>
     same_outside (pd_pages (mem s') d) (mem s) (mem s')"

lemma setupkvm_spec:
  assumes "free_inv s xs" "data_ok (kdata s)"
  shows "(\<exists>d ys s'. setupkvm s = Ok d s' \<and> d \<noteq> 0 \<and> fresh_space s s' d xs ys) \<or>
    (\<exists>zs s'. setupkvm s = Ok 0 s' \<and> all_back s s' (set xs) zs)"
proof (cases xs)
  case Nil
  then show ?thesis using assms(1) by (auto simp: setupkvm_def kalloc_empty all_back_def)
next
  case (Cons d ys)
  obtain s1 where s1: "kalloc s = Ok d s1" "free_inv s1 ys" "s1 = s\<lparr>freelist := freelist s1\<rparr>"
    using kalloc_pop assms(1) Cons by blast
  have d: "page_ok (kend s) d" "d \<noteq> 0" "d \<notin> set ys"
    using kp.inv_valid [OF assms(1)] kp.inv_distinct [OF assms(1)] Cons by simp_all
  have al: "aligned d" using d(1) by (rule page_ok_aligned)
  define s2 where "s2 = s1\<lparr>mem := memset (mem s1) d 0 PGSIZE\<rparr>"
  have ms: "mem s1 = mem s" by (subst s1(3)) simp
  have m2: "mem s2 = memset (mem s) d 0 PGSIZE" by (simp add: s2_def ms)
  have so: "same_outside {d} (mem s) (mem s2)" using al by (auto simp: m2 same_outside_def memset_eq in_frame_iff)
  have om: "only_mem s s2" unfolding only_mem_def s2_def by (subst s1(3)) simp
  have k1: "kdata s1 = kdata s" by (subst s1(3)) simp
  have k: "kend s2 = kend s" "kdata s2 = kdata s" using only_mem_fields [OF om] by simp_all
  have fi: "free_inv s2 ys" unfolding s2_def
    by (rule free_inv_mem [OF s1(2)]) (use so d in \<open>auto simp: s2_def ms\<close>)
  have inv: "vm_inv s2 d ys" using fi d zero_page_empty [OF al] by (simp add: vm_inv_def m2 k)
  have vac: "vacant (mem s2) d 0 SHAREBASE" by (simp add: vacant_def m2 zero_page_empty [OF al])
  have np: "\<forall>k\<in>set (kmaps (kdata s)). \<forall>vb. kin k vb \<longrightarrow> \<not> present (pte_at (mem s2) d vb)"
    by (simp add: m2 zero_page_empty [OF al])
  have e: "setupkvm s = setupkvm_loop (kmaps (kdata s)) d s2"
    by (simp add: setupkvm_def s1(1) Let_def d s2_def [symmetric] k1 P2V_def)
  from setup_loop [OF inv vac kmaps_wf(1) [OF assms(2)] kmaps_wf(2) [OF assms(2)] np]
  show ?thesis
  proof (elim disjE exE conjE)
    fix zs s3 assume s3: "setupkvm_loop (kmaps (kdata s)) d s2 = Ok d s3" "grows s2 s3 d ys zs"
      and p: "\<forall>vb. pte_at (mem s3) d vb = (case find (\<lambda>k. kin k vb) (kmaps (kdata s)) of
        None \<Rightarrow> pte_at (mem s2) d vb | Some k \<Rightarrow> kent k vb)"
    have pt: "\<forall>a. aligned a \<longrightarrow> pte_at (mem s3) d a = kpte (kdata s) a"
      using p unfolding m2 zero_page_empty(1) [OF al] by (simp add: kmaps_pte [OF assms(2)])
    obtain us where us: "ys = us @ zs" "pd_pages (mem s3) d = pd_pages (mem s2) d \<union> set us"
      using growsD(4) [OF s3(2)] by blast
    have pg: "pd_pages (mem s3) d = set (d # us)" using us(2) zero_page_empty(2) [OF al] by (simp add: m2)
    have "same_outside (pd_pages (mem s3) d) (mem s) (mem s3)"
      by (rule same_outside_trans [OF so growsD(3) [OF s3(2)]]) (simp_all add: pg)
    then have "fresh_space s s3 d xs zs"
      unfolding fresh_space_def using growsD(1) [OF s3(2)] only_mem_trans [OF om growsD(2) [OF s3(2)]] pt pg us(1) Cons
      by (auto intro: exI [of _ "d # us"])
    then show ?thesis using e s3(1) d by auto
  next
    fix zs s3 assume s3: "setupkvm_loop (kmaps (kdata s)) d s2 = Ok 0 s3"
      "all_back s2 s3 (pd_pages (mem s2) d \<union> set ys) zs"
    have pg: "pd_pages (mem s2) d \<union> set ys = set xs" using zero_page_empty(2) [OF al] by (simp add: m2 Cons)
    have b: "free_inv s3 zs" "set zs = set xs" "only_mem s2 s3" "same_outside (set xs) (mem s2) (mem s3)"
      using s3(2) unfolding all_back_def pg by simp_all
    have "same_outside (set xs) (mem s) (mem s3)"
      by (rule same_outside_trans [OF so b(4)]) (simp_all add: Cons)
    then have "all_back s s3 (set xs) zs"
      using b only_mem_trans [OF om b(3)] by (simp add: all_back_def)
    then show ?thesis using e s3(1) by auto
  qed
qed

section \<open>Copying the user part\<close>

text \<open>
  A failed copy frees everything the new space holds, and the pages are back in the free list.
\<close>

lemma free_space:
  assumes um: "um_ok s d SHAREBASE zs" and om: "only_mem s0 s"
    and C: "upages (mem s) d 0 SHAREBASE \<union> pd_pages (mem s) d \<union> set zs = C" "same_outside C (mem s0) (mem s)"
  shows "\<exists>ys s'. bind (freevm d s) (\<lambda>_ s. Ok (0 :: u32) s) = Ok 0 s' \<and> all_back s0 s' C ys"
proof -
  from freevm_spec [OF um] obtain fs s' where s': "freevm d s = Ok () s'" "free_inv s' (fs @ zs)"
    "set fs = upages (mem s) d 0 SHAREBASE \<union> pd_pages (mem s) d" "only_mem s s'" "same_outside (set fs) (mem s) (mem s')"
    by blast
  have "same_outside C (mem s0) (mem s')" by (rule same_outside_trans [OF C(2) s'(5)]) (use s'(3) C(1) in auto)
  then have "all_back s0 s' C (fs @ zs)"
    unfolding all_back_def using s'(2,3) C(1) only_mem_trans [OF om s'(4)] by auto
  then show ?thesis using s'(1) by auto
qed

lemma upages_to:
  assumes "\<And>c. aligned c \<Longrightarrow> \<not> c < a \<Longrightarrow> c < SHAREBASE \<Longrightarrow> pte_at m d c = 0" "a \<le> SHAREBASE"
  shows "upages m d 0 SHAREBASE = upages m d 0 a"
proof -
  have "c < a" if "aligned c" "c < SHAREBASE" "present (pte_at m d c)" for c
    using assms(1) [OF that(1) _ that(2)] that(3) by fastforce
  then show ?thesis unfolding upages_def using assms(2) by (intro Collect_cong ex_cong1) (auto dest: less_le_trans)
qed

text \<open>
  \<open>apart m p sz W\<close>: the tables of the space \<open>p\<close> and its pages below \<open>sz\<close>, which are all there, are
  not in the set \<open>W\<close>, and \<open>W\<close> is all the copy writes.
\<close>

definition apart :: "u32 \<Rightarrow> mem \<Rightarrow> u32 \<Rightarrow> u32 \<Rightarrow> u32 set \<Rightarrow> bool" where
  "apart e m p sz W \<longleftrightarrow> pd_ok e m p \<and> pd_pages m p \<inter> W = {} \<and>
     (\<forall>c < sz. aligned c \<longrightarrow> present (pte_at m p c) \<and> page_ok e (uframe m p c) \<and> uframe m p c \<notin> W)"

lemma apart_keep:
  assumes "apart e m p sz W" "same_outside W m m'"
  shows "pte_at m' p c = pte_at m p c" "pte_addr m' p c = pte_addr m p c" "pd_pages m' p = pd_pages m p" "pd_ok e m' p"
    "aligned c \<Longrightarrow> c < sz \<Longrightarrow> PGROUNDDOWN a = uframe m p c \<Longrightarrow> m' a = m a"
proof -
  have "pd_ok e m p" "W \<inter> pd_pages m p = {}" using assms(1) by (auto simp: apart_def)
  from pd_frame [OF this(1) assms(2) this(2)]
  show "pte_at m' p c = pte_at m p c" "pte_addr m' p c = pte_addr m p c" "pd_pages m' p = pd_pages m p" "pd_ok e m' p"
    by simp_all
  show "aligned c \<Longrightarrow> c < sz \<Longrightarrow> PGROUNDDOWN a = uframe m p c \<Longrightarrow> m' a = m a"
    using assms by (simp add: apart_def same_outside_def)
qed

definition pflags :: "mem \<Rightarrow> u32 \<Rightarrow> u32 \<Rightarrow> u32" where
  "pflags m p c = PTE_FLAGS (pte_at m p c)"

definition pbytes :: "mem \<Rightarrow> u32 \<Rightarrow> u32 \<Rightarrow> u32 \<Rightarrow> u8" where
  "pbytes m p c o' = m (uframe m p c + o')"

lemma pflags_less: "pflags m p c < PGSIZE"
proof -
  have "pte_at m p c AND 0xFFF \<le> 0xFFF" by (rule word_and_le1)
  then have "pflags m p c \<le> 0xFFF" by (simp add: pflags_def PTE_FLAGS_def)
  then show ?thesis by (rule le_less_trans) simp
qed

lemma page_top: "page_ok e p \<Longrightarrow> KERNBASE < e \<Longrightarrow> unat p + 4096 < 4294967296"
proof -
  assume p: "page_ok e p" "KERNBASE < e"
  then have k: "KERNBASE \<le> p" by (auto simp: page_ok_def)
  have "unat (p - KERNBASE) < 234881024" using p(1) by (simp add: page_ok_def V2P_def word_less_nat_alt)
  moreover have "unat (p - KERNBASE) = unat p - 2147483648" using k by (simp add: unat_sub)
  ultimately show ?thesis by simp
qed

lemma copy_page:
  assumes "page_ok e g" "page_ok e f" "KERNBASE < e" "g \<noteq> f"
  shows "same_outside {g} m (memmove m g f PGSIZE)" "page_has (memmove m g f PGSIZE) g (\<lambda>o'. m (f + o'))"
proof -
  have al: "aligned g" using assms(1) by (rule page_ok_aligned)
  have "memmove m g f PGSIZE = (\<lambda>a. if a - g < PGSIZE then m (f + (a - g)) else m a)"
    by (rule memmove_eq) (use page_top [OF assms(1,3)] page_top [OF assms(2,3)] in simp_all)
  then show "same_outside {g} m (memmove m g f PGSIZE)" "page_has (memmove m g f PGSIZE) g (\<lambda>o'. m (f + o'))"
    using al by (auto simp: same_outside_def page_has_def in_frame_iff)
qed

lemma copy_fail1:
  assumes gr: "grown E K s0 s d 0 a xs0 []" and a: "a \<le> SHAREBASE" and vac: "vacant (mem s0) d 0 SHAREBASE"
  shows "\<exists>zs s'. bind (freevm d s) (\<lambda>_ s. Ok (0 :: u32) s) = Ok 0 s' \<and> all_back s0 s' (pd_pages (mem s0) d \<union> set xs0) zs"
proof -
  note g0 = gr [unfolded grown_def]
  have up: "upages (mem s) d 0 SHAREBASE = upages (mem s) d 0 a"
    by (rule upages_to [OF _ a]) (use g0 vac in \<open>auto simp: vacant_def\<close>)
  show ?thesis
    by (rule free_space) (use g0 up in auto)
qed

lemma copy_fail2:
  assumes gr: "grown E K s0 s d 0 a xs0 (f # ys)" and a: "a \<le> SHAREBASE" and vac: "vacant (mem s0) d 0 SHAREBASE"
    and full: "map_full s s3 d f ys"
  shows "\<exists>zs s'. bind (kfree f s3) (\<lambda>_ s. bind (freevm d s) (\<lambda>_ s. Ok (0 :: u32) s)) = Ok 0 s' \<and>
    all_back s0 s' (pd_pages (mem s0) d \<union> set xs0) zs"
proof -
  note g0 = gr [unfolded grown_def]
  have s3: "um_ok s3 d SHAREBASE []" "only_mem s s3" "page_ok (kend s) f"
      "f \<notin> pd_pages (mem s3) d \<union> upages (mem s3) d 0 SHAREBASE"
      "\<And>c. aligned c \<Longrightarrow> pte_at (mem s3) d c = pte_at (mem s) d c"
      "pd_pages (mem s3) d = pd_pages (mem s) d \<union> set ys"
      "same_outside (insert f (pd_pages (mem s3) d)) (mem s) (mem s3)"
    using full unfolding map_full_def by blast+
  have ke: "kend s3 = kend s" using only_mem_fields(1) [OF s3(2)] .
  from g0 obtain us where us: "xs0 = us @ f # ys"
    "pd_pages (mem s) d \<union> upages (mem s) d 0 a = pd_pages (mem s0) d \<union> set us" by blast
  obtain s4 where s4: "kfree f s3 = Ok () s4" "um_ok s4 d SHAREBASE [f]" "only_mem s3 s4"
    "same_outside {f} (mem s3) (mem s4)" "pd_pages (mem s4) d = pd_pages (mem s3) d"
    "\<And>c. pte_at (mem s4) d c = pte_at (mem s3) d c"
    using um_free_other [OF s3(1), of f] s3(3,4) ke by (metis Un_iff empty_iff empty_set)
  have up: "upages (mem s4) d 0 SHAREBASE = upages (mem s) d 0 a"
  proof -
    have "upages (mem s4) d 0 SHAREBASE = upages (mem s4) d 0 a"
      by (rule upages_to [OF _ a]) (use g0 vac s4(6) s3(5) in \<open>auto simp: vacant_def\<close>)
    also have "\<dots> = upages (mem s) d 0 a" by (rule upages_cong) (use s4(6) s3(5) in simp)
    finally show ?thesis .
  qed
  let ?C = "pd_pages (mem s0) d \<union> set xs0"
  have C: "upages (mem s4) d 0 SHAREBASE \<union> pd_pages (mem s4) d \<union> set [f] = ?C"
    using up us s4(5) s3(6) by auto
  have so: "same_outside ?C (mem s0) (mem s)" using g0 by blast
  have "same_outside ?C (mem s0) (mem s3)"
    by (rule same_outside_trans [OF so s3(7)]) (use C s4(5) in auto)
  from same_outside_trans [OF this s4(4)] have "same_outside ?C (mem s0) (mem s4)" using C by auto
  moreover have "only_mem s0 s4" using g0 s3(2) s4(3) only_mem_trans by blast
  ultimately show ?thesis using free_space [OF s4(2) _ C] s4(1) by auto
qed

lemma aligned_past:
  assumes "aligned a" "aligned c" "unat a < unat sz + 4096" "\<not> a < sz"
  shows "c < a \<longleftrightarrow> c < sz"
proof -
  obtain i j where "unat a = 4096 * i" "unat c = 4096 * j" using assms by (metis alignedE)
  then show ?thesis using assms(3,4) by (auto simp: word_less_nat_alt)
qed

lemma copy_loop:
  assumes "grown (pflags (mem s0) p) (pbytes (mem s0) p) s0 s d 0 a xs0 xs"
    "apart (kend s0) (mem s0) p sz (pd_pages (mem s0) d \<union> set xs0)" "KERNBASE < kend s0"
    "sz \<le> SHAREBASE" "aligned a" "unat a < unat sz + 4096" "vacant (mem s0) d 0 SHAREBASE"
    "unat sz \<le> unat a + 4096 * n" "n < fuel"
  shows "(\<exists>ys s'. copyuvm_loop fuel p d a sz s = Ok d s' \<and>
      grown (pflags (mem s0) p) (pbytes (mem s0) p) s0 s' d 0 sz xs0 ys) \<or>
    (\<exists>zs s'. copyuvm_loop fuel p d a sz s = Ok 0 s' \<and> all_back s0 s' (pd_pages (mem s0) d \<union> set xs0) zs)"
  using assms
proof (induction n arbitrary: a s xs fuel)
  case 0
  obtain f where f: "fuel = Suc f" using "0.prems"(9) by (cases fuel) auto
  have le: "\<not> a < sz" using "0.prems"(8) by (simp add: word_less_nat_alt)
  have "c < a \<longleftrightarrow> c < sz" if "aligned c" for c
    by (rule aligned_past) (use le that "0.prems"(5,6) in simp_all)
  then show ?case using f le grown_hi [OF "0.prems"(1)] by auto
next
  case (Suc n)
  obtain f where f: "fuel = Suc f" "n < f" using Suc.prems(9) by (cases fuel) auto
  show ?case
  proof (cases "a < sz")
    case False
    have "c < a \<longleftrightarrow> c < sz" if "aligned c" for c
      by (rule aligned_past) (use False that Suc.prems(5,6) in simp_all)
    then show ?thesis using f False grown_hi [OF Suc.prems(1)] by auto
  next
    case lt: True
    have sb: "a < SHAREBASE" "a \<le> SHAREBASE" using lt Suc.prems(4) by auto
    note g0 = Suc.prems(1) [unfolded grown_def]
    have om: "only_mem s0 s" using g0 by blast
    have so: "same_outside (pd_pages (mem s0) d \<union> set xs0) (mem s0) (mem s)" using g0 by blast
    note kp = apart_keep [OF Suc.prems(2) so]
    let ?W = "pd_pages (mem s0) d \<union> set xs0" let ?F = "uframe (mem s0) p a"
    have F: "present (pte_at (mem s0) p a)" "page_ok (kend s0) ?F" "?F \<notin> ?W"
      using Suc.prems(2,5) lt unfolding apart_def by blast+
    then have "present (pte_at (mem s) p a)" by (simp only: kp)
    then have pd: "present (pde_at (mem s) p (PDX a))" by (auto simp: pte_at_def split: if_splits)
    have pv: "load32 (mem s) (pte_addr (mem s) p a) = pte_at (mem s0) p a"
      unfolding kp(1) [symmetric] using pd by (simp add: pte_at_def)
    have nz: "pte_addr (mem s) p a \<noteq> 0" using pte_addr_nz [OF kp(4) pd Suc.prems(3)] .
    have un: "copyuvm_loop fuel p d a sz s =
        bind (kalloc s) (\<lambda>m s.
          if m = 0 then bind (freevm d s) (\<lambda>_ s. Ok 0 s)
          else bind (mappages d a PGSIZE (V2P m) (pflags (mem s0) p a) (s\<lparr>mem := memmove (mem s) m ?F PGSIZE\<rparr>)) (\<lambda>r s.
            if r < 0 then bind (kfree m s) (\<lambda>_ s. bind (freevm d s) (\<lambda>_ s. Ok 0 s))
            else copyuvm_loop f p d (a + PGSIZE) sz s))"
      using F(1) lt unfolding f(1)
      by (simp add: walk_present [OF pd] nz pv present_def pflags_def frame_of_def Let_def cong: if_cong)
    show ?thesis
    proof (cases xs)
      case Nil
      have "free_inv s []" using Suc.prems(1) Nil unfolding grown_def um_ok_def vm_inv_def by simp
      then have "kalloc s = Ok 0 s" by (rule kalloc_empty)
      then show ?thesis using un copy_fail1 [OF Suc.prems(1) [unfolded Nil] sb(2) Suc.prems(7)] by simp
    next
      case (Cons g ys)
      have um: "um_ok s d SHAREBASE (g # ys)" using g0 Cons by simp
      obtain s1 where s1: "kalloc s = Ok g s1" "mem s1 = mem s" "g \<noteq> 0" "page_ok (kend s) g"
        using alloc_kalloc [OF um] by blast
      have g: "page_ok (kend s0) g" "g \<in> ?W" using s1(4) only_mem_fields(1) [OF om] g0 Cons by auto
      then have gF: "g \<noteq> ?F" using F(3) by blast
      have np: "\<not> present (pte_at (mem s0) d a)"
        using Suc.prems(5,7) sb(1) by (simp add: vacant_def)
      let ?m2 = "memmove (mem s) g ?F PGSIZE"
      note m2 = copy_page [OF g(1) F(2) Suc.prems(3) gF, of "mem s"]
      have "page_has ?m2 g (pbytes (mem s0) p a)"
      proof -
        have "mem s (?F + o') = pbytes (mem s0) p a o'" if "o' < PGSIZE" for o'
          unfolding pbytes_def using that page_ok_aligned [OF F(2)]
          by (intro kp(5) [OF Suc.prems(5) lt]) (simp add: PGROUNDDOWN_add)
        then show ?thesis
          using m2(2) page_ok_aligned [OF g(1)] unfolding page_has_def by (simp add: in_frame_iff)
      qed
      from alloc_map [OF Suc.prems(1) [unfolded Cons] Suc.prems(5) _ sb(1) np pflags_less s1(1) m2(1) this]
      consider (ok) s3 zs where "mappages d a PGSIZE (V2P g) (pflags (mem s0) p a) (s1\<lparr>mem := ?m2\<rparr>) = Ok 0 s3"
          "grown (pflags (mem s0) p) (pbytes (mem s0) p) s0 s3 d 0 (a + PGSIZE) xs0 zs"
        | (full) s3 where "mappages d a PGSIZE (V2P g) (pflags (mem s0) p a) (s1\<lparr>mem := ?m2\<rparr>) = Ok (- 1) s3"
          "map_full s s3 d g ys"
        by auto
      then show ?thesis
      proof cases
        case ok
        have "unat a < 1073741824" using sb(1) by (simp add: word_less_nat_alt)
        then have up: "unat (a + PGSIZE) = unat a + 4096" by (simp add: unat_word_ariths)
        have "unat (a + PGSIZE) < unat sz + 4096" "unat sz \<le> unat (a + PGSIZE) + 4096 * n"
          using Suc.prems(8) lt up by (simp_all add: word_le_nat_alt word_less_nat_alt)
        note IH = Suc.IH [OF ok(2) Suc.prems(2-4) aligned_add [OF Suc.prems(5)] this(1) Suc.prems(7) this(2) f(2)]
        moreover have "copyuvm_loop fuel p d a sz s = copyuvm_loop f p d (a + PGSIZE) sz s3"
          unfolding un using s1(1-3) ok(1) by simp
        ultimately show ?thesis by simp
      next
        case full
        have "copyuvm_loop fuel p d a sz s = bind (kfree g s3) (\<lambda>_ s. bind (freevm d s) (\<lambda>_ s. Ok 0 s))"
          unfolding un using s1(1-3) full(1) by simp
        then show ?thesis
          using copy_fail2 [OF Suc.prems(1) [unfolded Cons] sb(2) Suc.prems(7) full(2)] by metis
      qed
    qed
  qed
qed

text \<open>The kernel address of the byte that the user address \<open>va\<close> names, and the byte.\<close>

definition uaddr :: "mem \<Rightarrow> u32 \<Rightarrow> u32 \<Rightarrow> u32" where
  "uaddr m d va = uframe m d va + (va - PGROUNDDOWN va)"

definition ubyte :: "mem \<Rightarrow> u32 \<Rightarrow> u32 \<Rightarrow> u8 option" where
  "ubyte m d va = (if present (pte_at m d va) then Some (m (uaddr m d va)) else None)"

lemma pte_at_down: "pte_at m d (PGROUNDDOWN va) = pte_at m d va"
  by (rule pte_at_page) simp

lemma off_less: "va - PGROUNDDOWN va < PGSIZE"
  by (simp add: in_frame_iff)

lemma uaddr_frame: "PGROUNDDOWN (uaddr m d va) = uframe m d va"
  unfolding uaddr_def by (rule PGROUNDDOWN_add [OF frame_of_aligned off_less])

lemma um_ok_frame:
  assumes um: "um_ok s p lim xs" and om: "only_mem s s'" and fi: "free_inv s' ys" and ys: "set ys \<subseteq> set xs"
    and so: "same_outside (set xs) (mem s) (mem s')"
  shows "um_ok s' p lim ys" "\<And>c. pte_at (mem s') p c = pte_at (mem s) p c" "pd_pages (mem s') p = pd_pages (mem s) p"
proof -
  have ok: "pd_ok (kend s) (mem s) p" "set xs \<inter> pd_pages (mem s) p = {}"
    using um by (auto simp: um_ok_def vm_inv_def)
  note fr = pd_frame [OF ok(1) so ok(2)]
  show e: "\<And>c. pte_at (mem s') p c = pte_at (mem s) p c" "pd_pages (mem s') p = pd_pages (mem s) p"
    by (rule fr(3), rule fr(2))
  have ke: "kend s' = kend s" using only_mem_fields(1) [OF om] .
  have "vm_inv s' p ys" using fi fr(1) ok(2) ys unfolding vm_inv_def e ke by auto
  then show "um_ok s' p lim ys"
    using um ys unfolding um_ok_def e ke by blast
qed

lemma copied_byte:
  assumes "pte_at m' d (PGROUNDDOWN va) = uentry f (pflags m p (PGROUNDDOWN va))" "aligned f"
    "page_has m' f (pbytes m p (PGROUNDDOWN va))" "present (pte_at m p va)"
  shows "ubyte m' d va = ubyte m p va" "uframe m' d va = f"
proof -
  have "pte_at m' d va = uentry f (pflags m p va)"
    using assms(1) by (simp add: pte_at_down pflags_def)
  then show f: "uframe m' d va = f" using uentry_frame [OF assms(2) pflags_less] by simp
  have "PGROUNDDOWN (uaddr m' d va) = f" using uaddr_frame f by metis
  then have "m' (uaddr m' d va) = pbytes m p (PGROUNDDOWN va) (uaddr m' d va - f)"
    using assms(3) by (simp add: page_has_def)
  also have "\<dots> = m (uaddr m p va)" using f by (simp add: pbytes_def uaddr_def pte_at_down)
  finally show "ubyte m' d va = ubyte m p va"
    using assms(4) \<open>pte_at m' d va = _\<close> by (simp add: ubyte_def)
qed

text \<open>
  What \<open>copyuvm\<close> makes of the space \<open>p\<close>: a space \<open>d\<close> whose user addresses below \<open>sz\<close> hold the same
  bytes, in pages of its own, and whose other addresses are those of the kernel; nothing that
  was not free changes.
\<close>

definition copy_of :: "'a mst_scheme \<Rightarrow> 'a mst_scheme \<Rightarrow> u32 \<Rightarrow> u32 \<Rightarrow> u32 \<Rightarrow> u32 list \<Rightarrow> u32 list \<Rightarrow> bool" where
  "copy_of s s' p d sz xs ys \<longleftrightarrow>
     um_ok s' d SHAREBASE ys \<and> um_ok s' p SHAREBASE ys \<and> only_mem s s' \<and> same_outside (set xs) (mem s) (mem s') \<and>
     (\<forall>va. PGROUNDDOWN va < sz \<longrightarrow> ubyte (mem s') d va = ubyte (mem s) p va \<and>
        PTE_FLAGS (pte_at (mem s') d va) = PTE_FLAGS (pte_at (mem s) p va) \<and> uframe (mem s') d va \<in> set xs) \<and>
     (\<forall>va. sz \<le> PGROUNDDOWN va \<longrightarrow> pte_at (mem s') d va = kpte (kdata s) (PGROUNDDOWN va))"

lemma uentry_flags:
  assumes "aligned f" "present w"
  shows "PTE_FLAGS (uentry f (PTE_FLAGS w)) = PTE_FLAGS w"
proof -
  have b: "bit w 0" using assms(2) by (auto simp: present_def and_one_eq bit_0 mod2_eq_if)
  have "V2P f AND 0xFFF = 0" using assms(1) aligned_V2P by (simp add: aligned_def)
  moreover have "(w AND 0xFFF) OR 1 = w AND 0xFFF"
    using b by (intro bit_word_eqI) (auto simp: bit_or_iff bit_1_iff bit_and_iff bit_numeral_rec)
  ultimately show ?thesis by (simp add: uentry_def PTE_FLAGS_def word_ao_dist and.assoc or.assoc)
qed

lemma kpte_low: "c < SHAREBASE \<Longrightarrow> kpte data c = 0"
  by (simp add: kpte_def word_le_nat_alt word_less_nat_alt)

lemma copyuvm_spec:
  assumes um: "um_ok s p SHAREBASE xs" and da: "data_ok (kdata s)" and sz: "sz \<le> SHAREBASE"
    and pr: "\<forall>c < sz. aligned c \<longrightarrow> present (pte_at (mem s) p c)"
  shows "(\<exists>d ys s'. copyuvm p sz s = Ok d s' \<and> d \<noteq> 0 \<and> copy_of s s' p d sz xs ys) \<or>
    (\<exists>zs s'. copyuvm p sz s = Ok 0 s' \<and> all_back s s' (set xs) zs)"
proof -
  have inv: "vm_inv s p xs" using um by (rule um_ok_vm)
  have fi: "free_inv s xs" and ke: "KERNBASE < kend s" using vm_inv_free [OF inv] vm_inv_kend [OF inv] by simp_all
  from setupkvm_spec [OF fi da] show ?thesis
  proof (elim disjE exE conjE)
    fix zs s' assume "setupkvm s = Ok 0 s'" "all_back s s' (set xs) zs"
    then show ?thesis by (auto simp: copyuvm_def)
  next
    fix d ys s1 assume s1: "setupkvm s = Ok d s1" "d \<noteq> 0" "fresh_space s s1 d xs ys"
    note f1 = s1(3) [unfolded fresh_space_def]
    have om1: "only_mem s s1" and pt1: "\<And>a. aligned a \<Longrightarrow> pte_at (mem s1) d a = kpte (kdata s) a"
      and inv1: "vm_inv s1 d ys" using f1 by blast+
    from f1 obtain us where us: "xs = us @ ys" "pd_pages (mem s1) d = set us" by blast
    have W: "pd_pages (mem s1) d \<union> set ys = set xs" using us by auto
    have so1: "same_outside (set xs) (mem s) (mem s1)" using f1 us by (auto intro: same_outside_mono)
    have vac: "vacant (mem s1) d 0 SHAREBASE"
      unfolding vacant_def by (simp add: pt1 kpte_low)
    have "free_inv s1 ys" using inv1 by (rule vm_inv_free)
    note p1 = um_ok_frame [OF um om1 this _ so1]
    have pe: "pte_at (mem s1) p c = pte_at (mem s) p c" for c using p1(2) us by simp
    have ke1: "kend s1 = kend s" using only_mem_fields(1) [OF om1] .
    have um1: "um_ok s1 p SHAREBASE ys" using p1(1) us by simp
    have fr: "page_ok (kend s) (uframe (mem s) p c)" "uframe (mem s) p c \<notin> set xs" if "c < sz" "aligned c" for c
      using um pr that sz unfolding um_ok_def by (auto dest: less_le_trans)
    have ap: "apart (kend s1) (mem s1) p sz (pd_pages (mem s1) d \<union> set ys)"
      using um_ok_vm [OF um1] um_ok_vm [OF um] pr fr us
      unfolding apart_def vm_inv_def W ke1 by (auto simp: p1)
    have n: "unat sz \<le> unat (0 :: u32) + 4096 * 262144" using sz by (simp add: word_le_nat_alt)
    have "(\<exists>zs s'. copyuvm_loop 1048577 p d 0 sz s1 = Ok d s' \<and>
        grown (pflags (mem s1) p) (pbytes (mem s1) p) s1 s' d 0 sz ys zs) \<or>
      (\<exists>zs s'. copyuvm_loop 1048577 p d 0 sz s1 = Ok 0 s' \<and> all_back s1 s' (pd_pages (mem s1) d \<union> set ys) zs)"
      by (rule copy_loop [OF grown_refl [OF um_ok_vacant [OF inv1 vac]] ap _ sz _ _ vac n])
        (use ke ke1 in \<open>simp_all add: aligned_def\<close>)
    then show ?thesis
    proof (elim disjE exE conjE)
      fix zs s' assume s': "copyuvm_loop 1048577 p d 0 sz s1 = Ok 0 s'" "all_back s1 s' (pd_pages (mem s1) d \<union> set ys) zs"
      have b: "free_inv s' zs" "set zs = set xs" "only_mem s1 s'" "same_outside (set xs) (mem s1) (mem s')"
        using s'(2) unfolding all_back_def W by simp_all
      have "all_back s s' (set xs) zs"
        using b same_outside_trans [OF so1 b(4) order_refl [of "set xs \<union> set xs"]] only_mem_trans [OF om1 b(3)]
        by (simp add: all_back_def)
      then show ?thesis using s1(1,2) s'(1) by (auto simp: copyuvm_def)
    next
      fix zs s' assume s': "copyuvm_loop 1048577 p d 0 sz s1 = Ok d s'"
        "grown (pflags (mem s1) p) (pbytes (mem s1) p) s1 s' d 0 sz ys zs"
      note g = s'(2) [unfolded grown_def]
      have om: "only_mem s s'" using only_mem_trans [OF om1] g by blast
      have so': "same_outside (set xs) (mem s1) (mem s')" using g unfolding W by blast
      have so: "same_outside (set xs) (mem s) (mem s')" by (rule same_outside_trans [OF so1 so']) simp
      have umd: "um_ok s' d SHAREBASE zs" using g by blast
      then have fz: "free_inv s' zs" using um_ok_vm vm_inv_free by blast
      have zs: "set zs \<subseteq> set xs" using g us by auto
      have "ubyte (mem s') d va = ubyte (mem s) p va \<and>
        PTE_FLAGS (pte_at (mem s') d va) = PTE_FLAGS (pte_at (mem s) p va) \<and> uframe (mem s') d va \<in> set xs"
        if va: "PGROUNDDOWN va < sz" for va
      proof -
        have "\<exists>f\<in>set ys. aligned f \<and> pte_at (mem s') d (PGROUNDDOWN va) = uentry f (pflags (mem s1) p (PGROUNDDOWN va)) \<and>
            page_has (mem s') f (pbytes (mem s1) p (PGROUNDDOWN va))"
          using g [THEN conjunct2, THEN conjunct2, THEN conjunct1] va by simp
        then obtain f where f: "f \<in> set ys" "aligned f"
          "pte_at (mem s') d (PGROUNDDOWN va) = uentry f (pflags (mem s1) p (PGROUNDDOWN va))"
          "page_has (mem s') f (pbytes (mem s1) p (PGROUNDDOWN va))"
          by blast
        have pa: "present (pte_at (mem s1) p va)" 
          using pr [rule_format, OF va aligned_PGROUNDDOWN] by (simp add: pe pte_at_down)
        note c = copied_byte [OF f(3,2,4) pa]
        have "mem s1 (uaddr (mem s1) p va) = mem s (uaddr (mem s) p va)"
        proof -
          have e: "uaddr (mem s1) p va = uaddr (mem s) p va" by (simp add: uaddr_def pe)
          have "uframe (mem s) p va \<notin> set xs" using fr(2) [OF va aligned_PGROUNDDOWN] by (simp add: pte_at_down)
          then show ?thesis using so1 unfolding e by (simp add: same_outside_def uaddr_frame)
        qed
        then have "ubyte (mem s1) p va = ubyte (mem s) p va" by (simp add: ubyte_def pe)
        moreover have "PTE_FLAGS (pte_at (mem s') d va) = PTE_FLAGS (pte_at (mem s) p va)"
          using f(3) uentry_flags [OF f(2) pa] by (simp add: pflags_def pte_at_down pe)
        ultimately show ?thesis using c f(1) us by simp
      qed
      moreover have "pte_at (mem s') d va = kpte (kdata s) (PGROUNDDOWN va)" if "sz \<le> PGROUNDDOWN va" for va
      proof -
        have "pte_at (mem s') d (PGROUNDDOWN va) = pte_at (mem s1) d (PGROUNDDOWN va)"
          using g [THEN conjunct2, THEN conjunct2, THEN conjunct2, THEN conjunct1] that by (simp add: leD)
        then show ?thesis using pt1 [OF aligned_PGROUNDDOWN, of va] by (simp add: pte_at_down)
      qed
      ultimately have "copy_of s s' p d sz xs zs"
        unfolding copy_of_def using umd um_ok_frame(1) [OF um om fz zs so] om so by blast
      then show ?thesis using s1(1,2) s'(1) by (auto simp: copyuvm_def)
    qed
  qed
qed

section \<open>Properties\<close>

text \<open>
  C4: \<open>copyuvm\<close>, which \<open>fork\<close> uses, gives the child the same bytes with the same permissions at
  every user address below \<open>sz\<close>, in pages that were free before, so that none is a page of the
  parent; the rest of the child's space is the kernel's, and both spaces and the free list are
  well formed afterwards. When memory runs out on the way it returns 0 and every page is back
  in the free list. It never panics and always returns.
\<close>

theorem copyuvm_copies:
  assumes "um_ok s p SHAREBASE xs" and "data_ok (kdata s)" and "sz \<le> SHAREBASE"
    and "\<forall>c < sz. aligned c \<longrightarrow> present (pte_at (mem s) p c)"
  shows "(\<exists>d ys s'. copyuvm p sz s = Ok d s' \<and> d \<noteq> 0 \<and>
      um_ok s' d SHAREBASE ys \<and> um_ok s' p SHAREBASE ys \<and> same_outside (set xs) (mem s) (mem s') \<and>
      (\<forall>va. PGROUNDDOWN va < sz \<longrightarrow> ubyte (mem s') d va = ubyte (mem s) p va \<and>
         PTE_FLAGS (pte_at (mem s') d va) = PTE_FLAGS (pte_at (mem s) p va) \<and> uframe (mem s') d va \<in> set xs) \<and>
      (\<forall>va. sz \<le> PGROUNDDOWN va \<longrightarrow> pte_at (mem s') d va = kpte (kdata s) (PGROUNDDOWN va))) \<or>
    (\<exists>zs s'. copyuvm p sz s = Ok 0 s' \<and> free_inv s' zs \<and> set zs = set xs \<and> same_outside (set xs) (mem s) (mem s'))"
  using copyuvm_spec [OF assms] unfolding copy_of_def all_back_def by blast

text \<open>An address space with an empty directory at 5 MB, in a state with two free pages.\<close>

lemma ex_space:
  "um_ok ex_cst 0x80500000 SHAREBASE [0x80400000, 0x80401000]" "data_ok (kdata ex_cst)" "print_ok ex_cst"
  "vacant (mem ex_cst) 0x80500000 0 SHAREBASE"
proof -
  have z: "load32 (mem ex_cst) (0x80500000 + 4 * i) = 0" if "i < 1024" for i
  proof -
    have "unat (0x80500000 + 4 * i) = unat (0x80500000 :: u32) + 4 * unat i"
      using that by (intro unat_slot_add) (simp_all add: aligned_def)
    then have "(0x80500000 + 4 * i :: u32) \<noteq> 0x80400000" by fastforce
    then show ?thesis using slot_aligned4 [of "0x80500000" i] that
      by (simp add: ex_cst_def mst.defs ex_mst_def lst.defs load32_store32_other aligned4_def aligned_def)
        (simp add: load32_def)
  qed
  have fi: "free_inv ex_cst [0x80400000, 0x80401000]"
    using mst_truncate [of ex_cst] ex_mst_inv by (simp add: ex_cst_mst)
  have k: "kend ex_cst = 0x80110000" "kdata ex_cst = 0x80108000"
    by (simp_all add: ex_cst_def mst.defs ex_mst_def lst.defs)
  show "print_ok ex_cst" using ex_cst_ready by (simp add: print_ok_def)
  show "data_ok (kdata ex_cst)" by (simp add: k data_ok_def aligned_def P2V_def)
  show v: "vacant (mem ex_cst) 0x80500000 0 SHAREBASE"
    using z by (simp add: vacant_def pte_at_def pde_at_def)
  have "vm_inv ex_cst 0x80500000 [0x80400000, 0x80401000]"
    using fi z by (auto simp: vm_inv_def pd_ok_def pd_pages_def pde_at_def k page_ok_def aligned_def V2P_def)
  then show "um_ok ex_cst 0x80500000 SHAREBASE [0x80400000, 0x80401000]" using v by (rule um_ok_vacant)
qed

theorem copyuvm_copies_witness:
  "(\<exists>d ys s'. copyuvm 0x80500000 0 ex_cst = Ok d s' \<and> d \<noteq> 0 \<and>
      um_ok s' d SHAREBASE ys \<and> um_ok s' 0x80500000 SHAREBASE ys) \<or>
    (\<exists>zs s'. copyuvm 0x80500000 0 ex_cst = Ok 0 s' \<and> free_inv s' zs \<and> set zs = {0x80400000, 0x80401000})"
  using copyuvm_copies [OF ex_space(1,2), of 0] by auto

text \<open>
  C15: growing a process from \<open>oldsz\<close> to \<open>newsz\<close> bytes with \<open>allocuvm\<close> either succeeds, and then
  every new page is writable by the user, zero, and was free before while all other entries are
  as they were; or memory ran out, and then every entry is as before and every page is free or
  a page table again. The space stays well formed in both cases. It never panics and always
  returns.
\<close>

theorem allocuvm_all_or_nothing:
  assumes "um_ok s d SHAREBASE xs" and "print_ok s" and "oldsz \<le> newsz" and "newsz < SHAREBASE"
    and "vacant (mem s) d (PGROUNDUP oldsz) newsz"
  shows "(\<exists>ys s'. allocuvm d oldsz newsz s = Ok newsz s' \<and> um_ok s' d SHAREBASE ys \<and>
      (\<forall>c. aligned c \<longrightarrow> PGROUNDUP oldsz \<le> c \<longrightarrow> c < newsz \<longrightarrow>
        (\<exists>f\<in>set xs. pte_at (mem s') d c = V2P f OR 7 \<and> (\<forall>a. PGROUNDDOWN a = f \<longrightarrow> mem s' a = 0))) \<and>
      (\<forall>c. aligned c \<longrightarrow> \<not> (PGROUNDUP oldsz \<le> c \<and> c < newsz) \<longrightarrow> pte_at (mem s') d c = pte_at (mem s) d c) \<and>
      same_outside (pd_pages (mem s) d \<union> set xs) (mem s) (mem s')) \<or>
    (\<exists>zs s'. allocuvm d oldsz newsz s = Ok 0 s' \<and> um_ok s' d SHAREBASE zs \<and>
      (\<forall>c. aligned c \<longrightarrow> pte_at (mem s') d c = pte_at (mem s) d c) \<and>
      pd_pages (mem s') d \<union> set zs = pd_pages (mem s) d \<union> set xs)"
  using allocuvm_spec [OF assms] unfolding restored_def grown_def uentry_def page_has_def
  by (auto simp: or.assoc) blast+

theorem allocuvm_all_or_nothing_witness:
  "(\<exists>ys s'. allocuvm 0x80500000 0 4096 ex_cst = Ok 4096 s' \<and> um_ok s' 0x80500000 SHAREBASE ys) \<or>
    (\<exists>zs s'. allocuvm 0x80500000 0 4096 ex_cst = Ok 0 s' \<and> um_ok s' 0x80500000 SHAREBASE zs)"
proof -
  have "vacant (mem ex_cst) 0x80500000 (PGROUNDUP 0) 4096"
    using ex_space(4) by (auto simp: vacant_def word_less_nat_alt word_le_nat_alt)
  from allocuvm_all_or_nothing [OF ex_space(1,3) _ _ this] show ?thesis by auto
qed

text \<open>
  C9: an address space costs nothing in the end: whatever \<open>setupkvm\<close> and \<open>allocuvm\<close> took, \<open>freevm\<close>
  gives back, so that building a space of \<open>sz\<close> bytes and freeing it leaves the same set of free
  pages, also when memory runs out on the way.
\<close>

theorem space_roundtrip:
  assumes "free_inv s xs" and "data_ok (kdata s)" and "print_ok s" and "sz < SHAREBASE"
  shows "\<exists>zs s'. bind (setupkvm s) (\<lambda>d s. if d = 0 then Ok () s
      else bind (allocuvm d 0 sz s) (\<lambda>_ s. freevm d s)) = Ok () s' \<and>
    free_inv s' zs \<and> set zs = set xs \<and> same_outside (set xs) (mem s) (mem s')"
  using setupkvm_spec [OF assms(1,2)]
proof (elim disjE exE conjE)
  fix zs s' assume "setupkvm s = Ok 0 s'" "all_back s s' (set xs) zs"
  then show ?thesis by (auto simp: all_back_def)
next
  fix d ys s1 assume s1: "setupkvm s = Ok d s1" "d \<noteq> 0" "fresh_space s s1 d xs ys"
  note f1 = s1(3) [unfolded fresh_space_def]
  obtain us where us: "xs = us @ ys" "pd_pages (mem s1) d = set us" using f1 by blast
  have so1: "same_outside (set xs) (mem s) (mem s1)" using f1 us by (auto intro: same_outside_mono)
  have vac: "vacant (mem s1) d 0 SHAREBASE"
    using f1 [THEN conjunct2, THEN conjunct2, THEN conjunct1] by (simp add: vacant_def kpte_low )
  have um: "um_ok s1 d SHAREBASE ys" using f1 vac um_ok_vacant by blast
  have po: "print_ok s1" using f1 assms(3) print_ok_only_mem by blast
  have z: "PGROUNDUP 0 = 0" by (simp add: PGROUNDUP_def)
  have v: "vacant (mem s1) d (PGROUNDUP 0) sz" using vac assms(4) unfolding z vacant_def by auto
  have "\<exists>r zs s2. allocuvm d 0 sz s1 = Ok r s2 \<and> um_ok s2 d SHAREBASE zs \<and>
      upages (mem s2) d 0 SHAREBASE \<union> pd_pages (mem s2) d \<union> set zs = set xs \<and> same_outside (set xs) (mem s) (mem s2)"
    using allocuvm_spec [OF um po word_zero_le assms(4) v]
  proof (elim disjE exE conjE)
    fix zs s2 assume s2: "allocuvm d 0 sz s1 = Ok sz s2" "zgrown s1 s2 d (PGROUNDUP 0) sz ys zs"
    note g = s2(2) [unfolded grown_def z]
    have "pte_at (mem s2) d c = 0" if "aligned c" "\<not> c < sz" "c < SHAREBASE" for c
      using g [THEN conjunct2, THEN conjunct2, THEN conjunct2, THEN conjunct1] vac that by (simp add: vacant_def)
    then have "upages (mem s2) d 0 SHAREBASE = upages (mem s2) d 0 sz"
      using assms(4) by (intro upages_to) auto
    moreover have "same_outside (pd_pages (mem s1) d \<union> set ys) (mem s1) (mem s2)" using g by blast
    then have "same_outside (set xs) (mem s) (mem s2)" by (rule same_outside_trans [OF so1]) (use us in auto)
    moreover have "upages (mem s2) d 0 sz \<union> pd_pages (mem s2) d \<union> set zs = set xs" using g us by auto
    moreover have "um_ok s2 d SHAREBASE zs" using g by blast
    ultimately show ?thesis using s2(1) by metis
  next
    fix zs s2 assume s2: "allocuvm d 0 sz s1 = Ok 0 s2" "restored s1 s2 d ys zs"
    note g = s2(2) [unfolded restored_def]
    have "vacant (mem s2) d 0 SHAREBASE" using g vac by (simp add: vacant_def)
    moreover have "same_outside (pd_pages (mem s1) d \<union> set ys) (mem s1) (mem s2)" using g by blast
    then have "same_outside (set xs) (mem s) (mem s2)" by (rule same_outside_trans [OF so1]) (use us in auto)
    moreover have "{} \<union> pd_pages (mem s2) d \<union> set zs = set xs" "um_ok s2 d SHAREBASE zs" using g us by auto
    ultimately show ?thesis using s2(1) upages_vacant by metis
  qed
  then obtain r zs s2 where s2: "allocuvm d 0 sz s1 = Ok r s2" "um_ok s2 d SHAREBASE zs"
    "upages (mem s2) d 0 SHAREBASE \<union> pd_pages (mem s2) d \<union> set zs = set xs" "same_outside (set xs) (mem s) (mem s2)"
    by blast
  from freevm_spec [OF s2(2)] obtain fs s3 where s3: "freevm d s2 = Ok () s3" "free_inv s3 (fs @ zs)"
    "set fs = upages (mem s2) d 0 SHAREBASE \<union> pd_pages (mem s2) d" "same_outside (set fs) (mem s2) (mem s3)"
    by blast
  have "same_outside (set xs) (mem s) (mem s3)"
    by (rule same_outside_trans [OF s2(4) s3(4)]) (use s3(3) s2(3) in auto)
  then show ?thesis using s1(1,2) s2(1,3) s3(1,2,3) by auto
qed

theorem space_roundtrip_witness:
  "\<exists>zs s'. bind (setupkvm ex_cst) (\<lambda>d s. if d = 0 then Ok () s
      else bind (allocuvm d 0 5000 s) (\<lambda>_ s. freevm d s)) = Ok () s' \<and>
    free_inv s' zs \<and> set zs = {0x80400000, 0x80401000}"
  using space_roundtrip [OF vm_inv_free [OF um_ok_vm [OF ex_space(1)]] ex_space(2,3), of 5000] by auto

end
