(* ===== verification/Share.thy ===== *)
theory Share
  imports Kvm
begin

unbundle bit_operations_syntax

text \<open>
  What \<open>linkphysaddr\<close> of kernel/vm.c gives a child: the pages of its parent's shared regions,
  mapped from \<open>SHAREBASE\<close> on.
\<close>

section \<open>Mapping one page when there is memory for a table\<close>

lemma map_page_tab:
  assumes inv: "vm_inv s d xs" and al: "aligned a" and free: "\<not> present (pte_at (mem s) d a)"
    and mem: "\<not> present (pde_at (mem s) d (PDX a)) \<Longrightarrow> xs \<noteq> []"
  obtains s' ys where "mappages d a PGSIZE pa perm s = Ok 0 s'" "grows s s' d xs ys"
    "\<And>vb. pte_at (mem s') d vb = (if PGROUNDDOWN vb = a then pa OR perm OR 1 else pte_at (mem s) d vb)"
    "present (pde_at (mem s') d (PDX a))"
    "length xs = length ys + (if present (pde_at (mem s) d (PDX a)) then 0 else 1)"
proof -
  obtain s1 ys where w: "walkpgdir d a True s = Ok (pte_addr (mem s1) d a) s1" "grows s s1 d xs ys"
    "present (pde_at (mem s1) d (PDX a))" "\<And>vb. pte_at (mem s1) d vb = pte_at (mem s) d vb"
    "length xs = length ys + (if present (pde_at (mem s) d (PDX a)) then 0 else 1)"
  proof (cases "present (pde_at (mem s) d (PDX a))")
    case True
    then show ?thesis using that [of s xs] inv walk_present grows_refl by force
  next
    case False
    then obtain x ys where xs: "xs = x # ys" using mem by (cases xs) auto
    with walk_alloc_new [of s d x ys a] inv False obtain s1 where s1:
      "walkpgdir d a True s = Ok (pte_addr (mem s1) d a) s1" "vm_inv s1 d ys"
      "present (pde_at (mem s1) d (PDX a))" "\<And>vb. pte_at (mem s1) d vb = pte_at (mem s) d vb"
      "pd_pages (mem s1) d = insert x (pd_pages (mem s) d)"
      "same_outside {d, x} (mem s) (mem s1)" "only_mem s s1" by blast
    have "same_outside (pd_pages (mem s1) d) (mem s) (mem s1)"
      using s1(6) by (rule same_outside_mono) (simp add: s1(5))
    then have "grows s s1 d xs ys" using s1 xs by (auto simp: grows_def)
    then show ?thesis using that s1 xs False by simp
  qed
  have i1: "vm_inv s1 d ys" using w(2) by (simp add: grows_def)
  have nz: "pte_addr (mem s1) d a \<noteq> 0"
    using pte_addr_nz [OF vm_inv_pd [OF i1] w(3) vm_inv_kend [OF i1]] .
  have pte: "load32 (mem s1) (pte_addr (mem s1) d a) = pte_at (mem s) d a"
    using w(3) w(4) [of a] by (simp add: pte_at_def)
  let ?m = "store32 (mem s1) (pte_addr (mem s1) d a) (pa OR perm OR 1)"
  let ?s = "s1\<lparr>mem := ?m\<rparr>"
  have m: "mappages d a PGSIZE pa perm s = mappages_loop (Suc 1048576) d a a pa perm s"
    using al by (simp add: mappages_def PGROUNDDOWN_id PGROUNDDOWN_last)
  have "mappages d a PGSIZE pa perm s = Ok 0 ?s"
    unfolding m mappages_loop.simps using w(1) nz free pte by (simp add: present_def Let_def)
  moreover have "grows s ?s d xs ys" using w(2) set_pte(1) [OF i1 w(3)] by (rule grows_trans)
  moreover have "pte_at ?m d vb = (if PGROUNDDOWN vb = a then pa OR perm OR 1 else pte_at (mem s) d vb)" for vb
    using set_pte(2) [OF i1 w(3)] w(4) al by (simp add: PGROUNDDOWN_id)
  moreover have "present (pde_at ?m d (PDX a))"
    using store_pte [OF vm_inv_pd [OF i1] w(3)] w(3) by simp
  ultimately show ?thesis using that [of ?s ys] w(5) by simp
qed

section \<open>Mapping the pages of a region\<close>

text \<open>
  \<open>beside s p d xs\<close>: the tables of the parent \<open>p\<close> are neither tables of \<open>d\<close> nor free pages, so that
  building \<open>d\<close> does not change what \<open>p\<close> maps.
\<close>

definition beside :: "'a mst_scheme \<Rightarrow> u32 \<Rightarrow> u32 \<Rightarrow> u32 list \<Rightarrow> bool" where
  "beside s p d xs \<longleftrightarrow> pd_ok (kend s) (mem s) p \<and> pd_pages (mem s) p \<inter> (pd_pages (mem s) d \<union> set xs) = {}"

lemma beside_grows:
  assumes "beside s p d xs" "grows s s' d xs ys"
  shows "beside s' p d ys" "pte_at (mem s') p c = pte_at (mem s) p c"
proof -
  obtain us where us: "xs = us @ ys" "pd_pages (mem s') d = pd_pages (mem s) d \<union> set us"
    using growsD(4) [OF assms(2)] by blast
  have p: "pd_ok (kend s) (mem s) p" "pd_pages (mem s') d \<inter> pd_pages (mem s) p = {}"
    using assms(1) us by (auto simp: beside_def)
  note fr = pd_frame [OF p(1) growsD(3) [OF assms(2)] p(2)]
  show "pte_at (mem s') p c = pte_at (mem s) p c" by (rule fr(3))
  have "kend s' = kend s" using only_mem_fields(1) [OF growsD(2) [OF assms(2)]] .
  then show "beside s' p d ys" using assms(1) fr(1,2) us by (auto simp: beside_def)
qed

text \<open>The number of page tables missing for the addresses from \<open>a\<close> to \<open>e\<close>, at most.\<close>

definition need :: "mem \<Rightarrow> u32 \<Rightarrow> u32 \<Rightarrow> u32 \<Rightarrow> nat" where
  "need m d a e = unat (PDX e) - unat (PDX a) + (if present (pde_at m d (PDX a)) then 0 else 1)"

lemma need_step:
  assumes "unat a + 4096 \<le> unat e" "aligned a" "need m d a e \<le> length xs" "present (pde_at m' d (PDX a))"
    "length xs = length ys + (if present (pde_at m d (PDX a)) then 0 else 1)"
  shows "need m' d (a + PGSIZE) e \<le> length ys"
proof -
  have u: "unat (a + PGSIZE) = unat a + 4096"
    using assms(1) unat_u32_less [of e] by (simp add: unat_word_ariths)
  obtain k where k: "unat a = 4096 * k" using assms(2) by (rule alignedE)
  have le: "unat (PDX a) \<le> unat (PDX (a + PGSIZE))" "unat (PDX (a + PGSIZE)) \<le> unat (PDX e)"
    using assms(1) u by (simp_all add: unat_PDX div_le_mono)
  have n: "unat (PDX e) - unat (PDX a) \<le> length ys"
    using assms(3,5) by (auto simp: need_def split: if_splits)
  show ?thesis
  proof (cases "PDX (a + PGSIZE) = PDX a")
    case True
    then show ?thesis using assms(4) n by (simp add: need_def)
  next
    case False
    then have "unat (PDX a) < unat (PDX (a + PGSIZE))" using le(1) by (metis le_neq_implies_less word_unat_eq_iff)
    then have "unat (PDX e) - unat (PDX (a + PGSIZE)) + 1 \<le> length ys" using le(2) n by linarith
    then show ?thesis unfolding need_def by auto
  qed
qed

text \<open>The address that the \<open>k\<close>-th page of the region starting at \<open>start\<close> has, and its entry in \<open>p\<close>.\<close>

lemma share_loop:
  assumes "vm_inv s d xs" "beside s p d xs" "aligned a" "unat a + 4096 * n \<le> unat e"
    "need (mem s) d a e \<le> length xs"
    "\<And>vb. unat (PGROUNDDOWN vb - a) < 4096 * n \<Longrightarrow> \<not> present (pte_at (mem s) d vb)"
    "\<And>k. k < n \<Longrightarrow> present (pte_at (mem s) p (start + 4096 * of_nat k))"
    "unat sz = unat X + 4096 * n" "n < fuel"
  shows "\<exists>ys s'. mappa2va_loop fuel d p X sz a start va perm s = Ok sz s' \<and> grows s s' d xs ys \<and>
    need (mem s') d (a + 4096 * of_nat n) e \<le> length ys \<and>
    (\<forall>vb. pte_at (mem s') d vb = (if unat (PGROUNDDOWN vb - a) < 4096 * n
      then PTE_ADDR (pte_at (mem s) p (start + (PGROUNDDOWN vb - a))) OR perm OR 1 else pte_at (mem s) d vb))"
  using assms
proof (induction n arbitrary: a s xs fuel X start)
  case 0
  obtain f where f: "fuel = Suc f" using "0.prems"(9) by (cases fuel) auto
  have "\<not> X < sz" using "0.prems"(8) by (simp add: word_less_nat_alt)
  then show ?case using f "0.prems"(1,5) grows_refl by (intro exI [of _ xs] exI [of _ s]) simp
next
  case (Suc n)
  obtain f where f: "fuel = Suc f" "n < f" using Suc.prems(9) by (cases fuel) auto
  let ?b = "a + PGSIZE"
  have lt: "X < sz" using Suc.prems(8) by (simp add: word_less_nat_alt)
  have uX: "unat (X + PGSIZE) = unat X + 4096"
    using Suc.prems(8) unat_u32_less [of sz] by (simp add: unat_word_ariths)
  have ub: "unat ?b = unat a + 4096"
    using Suc.prems(4) unat_u32_less [of e] by (simp add: unat_word_ariths)
  have n: "n < 1048575" using Suc.prems(4) unat_u32_less [of e] by simp
  have na: "\<not> present (pte_at (mem s) d a)" using Suc.prems(3) Suc.prems(6) [of a] by (simp add: PGROUNDDOWN_id)
  have off: "PGROUNDDOWN vb - ?b = (PGROUNDDOWN vb - a) - PGSIZE" for vb by simp
  have st: "unat (PGROUNDDOWN vb - a) < 4096 * Suc n \<longleftrightarrow> PGROUNDDOWN vb = a \<or> unat (PGROUNDDOWN vb - ?b) < 4096 * n" for vb
    using off_step [of "PGROUNDDOWN vb - a" n] Suc.prems(3) n by (simp add: aligned_diff diff_diff_eq)
  have nz: "\<not> unat (a - ?b) < 4096 * n" using off_zero [of n] n by simp
  have tab: "xs \<noteq> []" if "\<not> present (pde_at (mem s) d (PDX a))"
    using Suc.prems(5) that by (auto simp: need_def)
  have pp: "present (pte_at (mem s) p start)" using Suc.prems(7) [of 0] by simp
  then have pd: "present (pde_at (mem s) p (PDX start))" by (auto simp: pte_at_def split: if_splits)
  have okp: "pd_ok (kend s) (mem s) p" using Suc.prems(2) by (simp add: beside_def)
  have w: "walkpgdir p start False s = Ok (pte_addr (mem s) p start) s" using pd by (rule walk_present)
  have nzp: "pte_addr (mem s) p start \<noteq> 0" using pte_addr_nz [OF okp pd vm_inv_kend [OF Suc.prems(1)]] .
  have ld: "load32 (mem s) (pte_addr (mem s) p start) = pte_at (mem s) p start" using pd by (simp add: pte_at_def)
  define pa where "pa = PTE_ADDR (pte_at (mem s) p start)"
  obtain s1 ys where s1: "mappages d a PGSIZE pa perm s = Ok 0 s1" "grows s s1 d xs ys"
    "\<And>vb. pte_at (mem s1) d vb = (if PGROUNDDOWN vb = a then pa OR perm OR 1 else pte_at (mem s) d vb)"
    "present (pde_at (mem s1) d (PDX a))"
    "length xs = length ys + (if present (pde_at (mem s) d (PDX a)) then 0 else 1)"
    by (rule map_page_tab [OF Suc.prems(1,3) na tab, where pa = pa and perm = perm]) blast+
  have step: "mappa2va_loop fuel d p X sz a start va perm s =
      mappa2va_loop f d p (X + PGSIZE) sz ?b (start + PGSIZE) va perm s1"
    using s1(1) pp by (simp add: f(1) lt w nzp ld present_def Let_def pa_def)
  have i1: "vm_inv s1 d ys" using growsD(1) [OF s1(2)] .
  note b1 = beside_grows [OF Suc.prems(2) s1(2)]
  have le: "unat a + 4096 \<le> unat e" "unat ?b + 4096 * n \<le> unat e" using Suc.prems(4) ub by simp_all
  have nd: "need (mem s1) d ?b e \<le> length ys"
    by (rule need_step [OF le(1) Suc.prems(3,5) s1(4,5)])
  have fr: "\<not> present (pte_at (mem s1) d vb)" if "unat (PGROUNDDOWN vb - ?b) < 4096 * n" for vb
    using that nz Suc.prems(6) [of vb] st [of vb] s1(3) [of vb] by auto
  have pr: "present (pte_at (mem s1) p (start + PGSIZE + 4096 * of_nat k))" if "k < n" for k
    using Suc.prems(7) [of "Suc k"] that by (simp add: b1(2) algebra_simps)
  have sz: "unat sz = unat (X + PGSIZE) + 4096 * n" using Suc.prems(8) uX by simp
  from Suc.IH [OF i1 b1(1) aligned_add [OF Suc.prems(3)] le(2) nd fr pr sz f(2)]
  obtain zs s2 where s2: "mappa2va_loop f d p (X + PGSIZE) sz ?b (start + PGSIZE) va perm s1 = Ok sz s2"
    "grows s1 s2 d ys zs" "need (mem s2) d (?b + 4096 * of_nat n) e \<le> length zs"
    "\<And>vb. pte_at (mem s2) d vb = (if unat (PGROUNDDOWN vb - ?b) < 4096 * n
      then PTE_ADDR (pte_at (mem s1) p (start + PGSIZE + (PGROUNDDOWN vb - ?b))) OR perm OR 1 else pte_at (mem s1) d vb)"
    by blast
  have e: "?b + 4096 * of_nat n = a + 4096 * of_nat (Suc n)" by (simp add: algebra_simps)
  have "pte_at (mem s2) d vb = (if unat (PGROUNDDOWN vb - a) < 4096 * Suc n
      then PTE_ADDR (pte_at (mem s) p (start + (PGROUNDDOWN vb - a))) OR perm OR 1 else pte_at (mem s) d vb)" for vb
  proof -
    have "start + PGSIZE + (PGROUNDDOWN vb - ?b) = start + (PGROUNDDOWN vb - a)" by (simp add: algebra_simps)
    then show ?thesis
      using s2(4) [of vb] s1(3) [of vb] st [of vb] nz by (auto simp: b1(2) pa_def)
  qed
  then show ?case
    using step s2(1,3) grows_trans [OF s1(2) s2(2)] unfolding e by (intro exI [of _ zs] exI [of _ s2]) simp
qed

definition npages :: "u32 \<Rightarrow> nat" where
  "npages sz = unat (PGROUNDUP sz) div 4096"

lemma region_pages:
  assumes "unat va + 4 * unat sz < 2147483648" "aligned va" "0 < unat sz"
  shows "unat (PGROUNDUP sz) = 4096 * npages sz" "unat va + 4096 * npages sz \<le> 2147483648"
    "aligned (PGROUNDUP sz)" "va + PGROUNDUP sz = va + 4096 * of_nat (npages sz)" "npages sz < 1048576"
    "\<not> va + 4 * sz \<ge> KERNBASE"
proof -
  have g: "unat sz + 4095 < 4294967296" using assms(1) by simp
  show al: "aligned (PGROUNDUP sz)" using PGROUNDUP_ge [of sz] g by simp
  then show n: "unat (PGROUNDUP sz) = 4096 * npages sz" unfolding npages_def by (auto elim!: alignedE)
  have l: "unat (PGROUNDUP sz) < unat sz + 4096" using PGROUNDUP_less [of sz] g by simp
  obtain k where k: "unat va = 4096 * k" using assms(2) by (rule alignedE)
  have "4096 * k + 4096 * npages sz < 2147483648 + 4096" using assms(1) l n k by simp
  then have "k + npages sz \<le> 524288" by simp
  then show "unat va + 4096 * npages sz \<le> 2147483648" using k by simp
  then show "npages sz < 1048576" by simp
  have "PGROUNDUP sz = of_nat (4096 * npages sz)" using n by (metis of_nat_unat ucast_id)
  then show "va + PGROUNDUP sz = va + 4096 * of_nat (npages sz)" by simp
  have "unat (va + 4 * sz) = unat va + 4 * unat sz"
    using assms(1) by (simp add: unat_word_ariths)
  then show "\<not> va + 4 * sz \<ge> KERNBASE" using assms(1) by (simp add: word_le_nat_alt)
qed

lemma mappa2va_spec:
  assumes inv: "vm_inv s d xs" and b: "beside s p d xs" and al: "aligned va"
    and sz: "unat va + 4 * unat sz < 2147483648" "0 < unat sz" and e: "unat va + 4096 * npages sz \<le> unat e"
    and nd: "need (mem s) d va e \<le> length xs" and q: "quiet s"
    and vac: "\<And>vb. unat (PGROUNDDOWN vb - va) < 4096 * npages sz \<Longrightarrow> \<not> present (pte_at (mem s) d vb)"
    and pr: "\<And>k. k < npages sz \<Longrightarrow> present (pte_at (mem s) p (start + 4096 * of_nat k))"
  shows "\<exists>ys s'. mappa2va d p sz start va perm s = Ok (PGROUNDUP sz) s' \<and> grows s s' d xs ys \<and>
    need (mem s') d (va + PGROUNDUP sz) e \<le> length ys \<and>
    (\<forall>vb. pte_at (mem s') d vb = (if unat (PGROUNDDOWN vb - va) < 4096 * npages sz
      then PTE_ADDR (pte_at (mem s) p (start + (PGROUNDDOWN vb - va))) OR perm OR 1 else pte_at (mem s) d vb))"
proof -
  note rp = region_pages [OF sz(1) al sz(2)]
  have "PGROUNDUP va = PGROUNDDOWN (4095 + va)" by (simp add: PGROUNDUP_def PGROUNDDOWN_def add.commute)
  then have up: "PGROUNDUP va = va" using PGROUNDDOWN_last [OF al] by simp
  have "unat (PGROUNDUP sz) = unat (0 :: u32) + 4096 * npages sz" using rp(1) by simp
  moreover have "npages sz < (1048577 :: nat)" using rp(5) by simp
  ultimately show ?thesis
    using share_loop [OF inv b al e nd vac pr, where X = 0 and sz = "PGROUNDUP sz" and fuel = 1048577 and perm = perm and va = va]
      rp(6) up unfolding rp(4) by (simp add: mappa2va_def myproc_eq [OF q])
qed

section \<open>All regions\<close>

text \<open>
  \<open>fits m p va e rs\<close>: the regions \<open>rs\<close> of the parent are mapped there, and laid out one after the
  other from \<open>va\<close> on they end before \<open>e\<close> and stay below the kernel.
\<close>

fun fits :: "mem \<Rightarrow> u32 \<Rightarrow> u32 \<Rightarrow> u32 \<Rightarrow> shared list \<Rightarrow> bool" where
  "fits m p va e [] \<longleftrightarrow> va \<le> e"
| "fits m p va e (r # rs) \<longleftrightarrow> unat va + 4 * unat (sh_sz r) < 2147483648 \<and>
     (\<forall>k < npages (sh_sz r). present (pte_at m p (sh_memstart r + 4096 * of_nat k))) \<and>
     fits m p (va + PGROUNDUP (sh_sz r)) e rs"

text \<open>The pages of the regions at their new addresses are those of the parent.\<close>

fun linked :: "mem \<Rightarrow> u32 \<Rightarrow> mem \<Rightarrow> u32 \<Rightarrow> u32 \<Rightarrow> u32 \<Rightarrow> shared list \<Rightarrow> bool" where
  "linked m p m' d perm va [] \<longleftrightarrow> True"
| "linked m p m' d perm va (r # rs) \<longleftrightarrow>
     (\<forall>k < npages (sh_sz r). pte_at m' d (va + 4096 * of_nat k) =
        PTE_ADDR (pte_at m p (sh_memstart r + 4096 * of_nat k)) OR perm OR 1) \<and>
     linked m p m' d perm (va + PGROUNDUP (sh_sz r)) rs"

fun relocate :: "u32 \<Rightarrow> shared list \<Rightarrow> shared list" where
  "relocate va [] = []"
| "relocate va (r # rs) = r\<lparr>sh_memstart := va + PTE_FLAGS (sh_memstart r)\<rparr> # relocate (va + PGROUNDUP (sh_sz r)) rs"

lemma length_relocate [simp]: "length (relocate va rs) = length rs"
  by (induction rs arbitrary: va) auto

lemma aligned_sum: "aligned a \<Longrightarrow> aligned b \<Longrightarrow> aligned (a + b)"
  using aligned_diff [of 0 b] aligned_diff [of a "0 - b"] by (simp add: aligned_def)

lemma fits_le: "fits m p va e rs \<Longrightarrow> aligned va \<Longrightarrow> \<forall>r\<in>set rs. sh_sz r \<noteq> 0 \<Longrightarrow> va \<le> e"
proof (induction rs arbitrary: va)
  case (Cons r rs)
  have p: "0 < unat (sh_sz r)" using Cons.prems(3) by (simp add: unat_gt_0)
  note rp = region_pages [OF _ Cons.prems(2) p]
  have "va + PGROUNDUP (sh_sz r) \<le> e"
    using Cons rp(3) by (simp add: aligned_sum)
  moreover have "va \<le> va + PGROUNDUP (sh_sz r)"
  proof -
    have "unat (va + PGROUNDUP (sh_sz r)) = unat va + 4096 * npages (sh_sz r)"
      using rp(2) rp(1) Cons.prems(1) by (simp add: unat_word_ariths)
    then show ?thesis by (simp add: word_le_nat_alt)
  qed
  ultimately show ?case by simp
qed simp

lemma region_facts:
  assumes "fits m p va e (r # rs)" "aligned va" "sh_sz r \<noteq> 0"
  shows "aligned (va + PGROUNDUP (sh_sz r))" "\<And>k. k \<le> npages (sh_sz r) \<Longrightarrow> va \<le> va + 4096 * of_nat k"
    "\<And>c. va + PGROUNDUP (sh_sz r) \<le> c \<Longrightarrow> va \<le> c"
proof -
  have p: "0 < unat (sh_sz r)" using assms(3) by (simp add: unat_gt_0)
  have b: "unat va + 4 * unat (sh_sz r) < 2147483648" using assms(1) by simp
  note rp = region_pages [OF b assms(2) p]
  show "aligned (va + PGROUNDUP (sh_sz r))" using assms(2) rp(3) by (rule aligned_sum)
  have u: "unat (va + 4096 * of_nat k) = unat va + 4096 * k" if "k \<le> npages (sh_sz r)" for k
    using that rp(2) by (intro unat_page) simp
  show le: "va \<le> va + 4096 * of_nat k" if "k \<le> npages (sh_sz r)" for k
    using u [OF that] by (simp add: word_le_nat_alt)
  show "va \<le> c" if "va + PGROUNDUP (sh_sz r) \<le> c" for c
    using le [of "npages (sh_sz r)"] that unfolding rp(4) by simp
qed

lemma linked_cong:
  assumes "fits m p va e rs" "aligned va" "\<forall>r\<in>set rs. sh_sz r \<noteq> 0"
    "\<And>c. va \<le> c \<Longrightarrow> pte_at m'' d c = pte_at m' d c" "\<And>c. pte_at m2 p c = pte_at m p c"
  shows "linked m2 p m'' d perm va rs = linked m p m' d perm va rs"
  using assms
proof (induction rs arbitrary: va)
  case (Cons r rs)
  have "sh_sz r \<noteq> 0" using Cons.prems(3) by simp
  note rf = region_facts [OF Cons.prems(1,2) this]
  have "linked m2 p m'' d perm (va + PGROUNDUP (sh_sz r)) rs = linked m p m' d perm (va + PGROUNDUP (sh_sz r)) rs"
    by (rule Cons.IH [OF _ rf(1)]) (use Cons.prems rf(3) in auto)
  then show ?case using rf(2) by (simp add: Cons.prems(4,5))
qed simp

lemma fits_cong: "(\<And>c. pte_at m2 p c = pte_at m p c) \<Longrightarrow> fits m2 p va e rs = fits m p va e rs"
  by (induction rs arbitrary: va) auto

lemma off_range:
  fixes x :: u32
  assumes "unat va + N \<le> 4294967296"
  shows "unat (x - va) < N \<longleftrightarrow> va \<le> x \<and> unat x < unat va + N"
proof
  assume l: "unat (x - va) < N"
  have "x = va + (x - va)" by simp
  then have "unat x = unat (va + (x - va))" by simp
  also have "\<dots> = (unat va + unat (x - va)) mod 4294967296" by (simp only: unat_word_ariths) simp
  finally have "unat x = (unat va + unat (x - va)) mod 4294967296" .
  then show "va \<le> x \<and> unat x < unat va + N" using l assms by (simp add: word_le_nat_alt)
next
  assume "va \<le> x \<and> unat x < unat va + N"
  then show "unat (x - va) < N" by (auto simp: unat_sub word_le_nat_alt)
qed

lemma vm_inv_upd_proc [simp]:
  "vm_inv (upd_proc p f s) d xs = vm_inv s d xs" "beside (upd_proc p f s) q d xs = beside s q d xs"
  by (simp_all add: vm_inv_def beside_def)

lemma only_mem_procs:
  assumes "only_mem s s'"
  shows "procs s' = procs s"
  by (rule trans [OF arg_cong [OF assms [unfolded only_mem_def]]]) simp


lemma vacant_step:
  assumes "fits m p va e (r # rs)" "aligned va" "sh_sz r \<noteq> 0"
    and vac: "\<And>c. va \<le> PGROUNDDOWN c \<Longrightarrow> PGROUNDDOWN c < e \<Longrightarrow> \<not> present (pte_at m1 d c)"
    and pte: "\<And>vb. pte_at m2 d vb = (if unat (PGROUNDDOWN vb - va) < 4096 * npages (sh_sz r) then g vb else pte_at m1 d vb)"
    and e: "\<forall>r\<in>set rs. sh_sz r \<noteq> 0"
  shows "unat va + 4096 * npages (sh_sz r) \<le> unat e"
    "\<And>vb. unat (PGROUNDDOWN vb - va) < 4096 * npages (sh_sz r) \<Longrightarrow> \<not> present (pte_at m1 d vb)"
    "\<And>c. va + PGROUNDUP (sh_sz r) \<le> PGROUNDDOWN c \<Longrightarrow> PGROUNDDOWN c < e \<Longrightarrow> \<not> present (pte_at m2 d c)"
    "\<And>c. PGROUNDDOWN c < va \<Longrightarrow> pte_at m2 d c = pte_at m1 d c"
    "\<And>c. va \<le> PGROUNDDOWN c \<Longrightarrow> PGROUNDDOWN c < va + PGROUNDUP (sh_sz r) \<Longrightarrow> pte_at m2 d c = g c"
proof -
  have p: "0 < unat (sh_sz r)" using assms(3) by (simp add: unat_gt_0)
  have b: "unat va + 4 * unat (sh_sz r) < 2147483648" using assms(1) by simp
  note rp = region_pages [OF b assms(2) p]
  note rf = region_facts [OF assms(1,2,3)]
  have u: "unat (va + PGROUNDUP (sh_sz r)) = unat va + 4096 * npages (sh_sz r)"
    using rp(2) rp(1) by (simp add: unat_word_ariths)
  have "va + PGROUNDUP (sh_sz r) \<le> e" using fits_le [OF _ rf(1) e, of m p e] assms(1) by simp
  then show le: "unat va + 4096 * npages (sh_sz r) \<le> unat e" using u by (simp add: word_le_nat_alt)
  have o: "unat (PGROUNDDOWN c - va) < 4096 * npages (sh_sz r) \<longleftrightarrow>
      va \<le> PGROUNDDOWN c \<and> unat (PGROUNDDOWN c) < unat va + 4096 * npages (sh_sz r)" for c
    using rp(2) by (intro off_range) simp
  show "\<not> present (pte_at m1 d vb)" if "unat (PGROUNDDOWN vb - va) < 4096 * npages (sh_sz r)" for vb
    using that le vac [of vb] unfolding o by (simp add: word_less_nat_alt)
  show "\<not> present (pte_at m2 d c)" if "va + PGROUNDUP (sh_sz r) \<le> PGROUNDDOWN c" "PGROUNDDOWN c < e" for c
    using that rf(3) vac [of c] u unfolding pte o by (simp add: word_le_nat_alt)
  show "pte_at m2 d c = pte_at m1 d c" if "PGROUNDDOWN c < va" for c
    using that unfolding pte o by (simp add: word_le_nat_alt word_less_nat_alt)
  show "pte_at m2 d c = g c" if "va \<le> PGROUNDDOWN c" "PGROUNDDOWN c < va + PGROUNDUP (sh_sz r)" for c
    using that u unfolding pte o by (simp add: word_le_nat_alt word_less_nat_alt)
qed


lemma link_step:
  fixes s :: "'a pst_scheme"
  assumes fit: "fits (mem s) q va e (r # rs)" and al: "aligned va" and nz: "\<forall>r\<in>set (r # rs). sh_sz r \<noteq> 0"
    and inv: "vm_inv s d xs" and b: "beside s q d xs" and nd: "need (mem s) d va e \<le> length xs" and qt: "quiet s"
    and vac: "\<And>c. va \<le> PGROUNDDOWN c \<Longrightarrow> PGROUNDDOWN c < e \<Longrightarrow> \<not> present (pte_at (mem s) d c)"
  obtains ys s1 where "mappa2va d q (sh_sz r) (sh_memstart r) va perm s = Ok (PGROUNDUP (sh_sz r)) s1" "grows s s1 d xs ys"
    "need (mem s1) d (va + PGROUNDUP (sh_sz r)) e \<le> length ys"
    "\<And>c. va + PGROUNDUP (sh_sz r) \<le> PGROUNDDOWN c \<Longrightarrow> PGROUNDDOWN c < e \<Longrightarrow> \<not> present (pte_at (mem s1) d c)"
    "\<And>c. PGROUNDDOWN c < va \<Longrightarrow> pte_at (mem s1) d c = pte_at (mem s) d c"
    "\<And>k. k < npages (sh_sz r) \<Longrightarrow> PGROUNDDOWN (va + 4096 * of_nat k) < va + PGROUNDUP (sh_sz r) \<and>
       pte_at (mem s1) d (va + 4096 * of_nat k) = PTE_ADDR (pte_at (mem s) q (sh_memstart r + 4096 * of_nat k)) OR perm OR 1"
proof -
  have z: "sh_sz r \<noteq> 0" "0 < unat (sh_sz r)" "\<forall>r\<in>set rs. sh_sz r \<noteq> 0" using nz by (simp_all add: unat_gt_0)
  have bd: "unat va + 4 * unat (sh_sz r) < 2147483648" using fit by simp
  note rp = region_pages [OF bd al z(2)]
  note v0 = vacant_step [OF fit al z(1) vac, where ?m2.0 = "mem s" and g = "\<lambda>c. pte_at (mem s) d c", OF _ _ if_cancel [symmetric] z(3)]
  from mappa2va_spec [OF inv b al bd z(2) v0(1) nd qt v0(2), of "sh_memstart r" perm]
  obtain ys s1 where s1: "mappa2va d q (sh_sz r) (sh_memstart r) va perm s = Ok (PGROUNDUP (sh_sz r)) s1" "grows s s1 d xs ys"
    "need (mem s1) d (va + PGROUNDUP (sh_sz r)) e \<le> length ys"
    "\<And>vb. pte_at (mem s1) d vb = (if unat (PGROUNDDOWN vb - va) < 4096 * npages (sh_sz r)
      then PTE_ADDR (pte_at (mem s) q (sh_memstart r + (PGROUNDDOWN vb - va))) OR perm OR 1 else pte_at (mem s) d vb)"
    using fit by auto
  note v1 = vacant_step [OF fit al z(1) vac s1(4) z(3)]
  have "PGROUNDDOWN (va + 4096 * of_nat k) < va + PGROUNDUP (sh_sz r) \<and>
       pte_at (mem s1) d (va + 4096 * of_nat k) = PTE_ADDR (pte_at (mem s) q (sh_memstart r + 4096 * of_nat k)) OR perm OR 1"
    if k: "k < npages (sh_sz r)" for k
  proof -
    have u: "unat (va + 4096 * of_nat k) = unat va + 4096 * k" "unat (va + PGROUNDUP (sh_sz r)) = unat va + 4096 * npages (sh_sz r)"
      using k rp(1,2) unat_page [of va k] by (simp_all add: unat_word_ariths)
    have a: "aligned (va + 4096 * of_nat k)" using al u(1) by (auto simp: aligned_iff)
    have "va \<le> va + 4096 * of_nat k" "va + 4096 * of_nat k < va + PGROUNDUP (sh_sz r)"
      using u k by (simp_all add: word_le_nat_alt word_less_nat_alt)
    then show ?thesis using v1(5) [of "va + 4096 * of_nat k"] by (simp add: PGROUNDDOWN_id [OF a])
  qed
  then show ?thesis using that [OF s1(1-3) v1(3,4)] by blast
qed


lemma grows_procs:
  fixes s :: "'a pst_scheme"
  assumes "grows (s\<lparr>procs := P\<rparr>) t d xs ys"
  shows "grows s (t\<lparr>procs := procs s\<rparr>) d xs ys"
proof -
  have "t = s\<lparr>procs := P, mem := mem t, freelist := freelist t\<rparr>"
    using growsD(2) [OF assms] unfolding only_mem_def .
  then have "t\<lparr>procs := procs s\<rparr> = s\<lparr>procs := P, mem := mem t, freelist := freelist t\<rparr>\<lparr>procs := procs s\<rparr>"
    by (rule arg_cong)
  then have "only_mem s (t\<lparr>procs := procs s\<rparr>)" by (simp add: only_mem_def)
  then show ?thesis using assms by (simp add: grows_def vm_inv_def)
qed

lemma link_loop:
  fixes s :: "'a pst_scheme"
  assumes "fits (mem s) q va e rs" "aligned va" "\<forall>r\<in>set rs. sh_sz r \<noteq> 0"
    "vm_inv s d xs" "beside s q d xs" "need (mem s) d va e \<le> length xs" "quiet s"
    "\<And>c. va \<le> PGROUNDDOWN c \<Longrightarrow> PGROUNDDOWN c < e \<Longrightarrow> \<not> present (pte_at (mem s) d c)"
    "p < length (procs s)" "p_parentpgdir (procs s ! p) = q" "i \<le> length (p_shared (procs s ! p))"
    "drop i (p_shared (procs s ! p)) = rs @ z # zs" "sh_sz z = 0" "length rs < room"
  shows "\<exists>ys s'. linkphysaddr_loop room d p i va perm s = Ok 1 (s'\<lparr>procs :=
      (procs s)[p := (procs s ! p)\<lparr>p_shared := take i (p_shared (procs s ! p)) @ relocate va rs @ z # zs\<rparr>]\<rparr>) \<and>
    grows s s' d xs ys \<and> linked (mem s) q (mem s') d perm va rs \<and>
    (\<forall>c. PGROUNDDOWN c < va \<longrightarrow> pte_at (mem s') d c = pte_at (mem s) d c)"
  using assms
proof (induction rs arbitrary: va s xs i room)
  case Nil
  then obtain r where r: "room = Suc r" by (cases room) auto
  have "p_shared (procs s ! p) ! i = z"
    using Nil.prems(11,12) by (metis append_Nil drop_eq_Nil hd_drop_conv_nth leI list.distinct(1) list.sel(1))
  moreover have "take i (p_shared (procs s ! p)) @ z # zs = p_shared (procs s ! p)"
    using Nil.prems(12) by (metis append_Nil append_take_drop_id)
  ultimately show ?case
    using Nil.prems(4,13) r grows_refl by (intro exI [of _ xs] exI [of _ s]) simp
next
  case (Cons r rs)
  let ?sh = "p_shared (procs s ! p)"
  define r' where "r' = r\<lparr>sh_memstart := va + PTE_FLAGS (sh_memstart r)\<rparr>"
  define va' where "va' = va + PGROUNDUP (sh_sz r)"
  obtain ro where ro: "room = Suc ro" "length rs < ro" using Cons.prems(14) by (cases room) auto
  have nz: "sh_sz r \<noteq> 0" "\<forall>r\<in>set rs. sh_sz r \<noteq> 0" using Cons.prems(3) by simp_all
  have il: "i < length ?sh" using Cons.prems(12) by (metis append_Cons drop_eq_Nil leI list.distinct(1))
  then have "?sh ! i # drop (Suc i) ?sh = r # rs @ z # zs" using Cons.prems(12) by (simp add: Cons_nth_drop_Suc)
  then have i: "i < length ?sh" "?sh ! i = r" "drop (Suc i) ?sh = rs @ z # zs" using il by simp_all
  obtain ys s1 where s1: "mappa2va d q (sh_sz r) (sh_memstart r) va perm s = Ok (PGROUNDUP (sh_sz r)) s1" "grows s s1 d xs ys"
    "need (mem s1) d va' e \<le> length ys"
    "\<And>c. va' \<le> PGROUNDDOWN c \<Longrightarrow> PGROUNDDOWN c < e \<Longrightarrow> \<not> present (pte_at (mem s1) d c)"
    "\<And>c. PGROUNDDOWN c < va \<Longrightarrow> pte_at (mem s1) d c = pte_at (mem s) d c"
    "\<And>k. k < npages (sh_sz r) \<Longrightarrow> PGROUNDDOWN (va + 4096 * of_nat k) < va' \<and>
       pte_at (mem s1) d (va + 4096 * of_nat k) = PTE_ADDR (pte_at (mem s) q (sh_memstart r + 4096 * of_nat k)) OR perm OR 1"
    unfolding va'_def by (rule link_step [OF Cons.prems(1-8), where perm = perm]) blast+
  have ps: "procs s1 = procs s" using only_mem_procs [OF growsD(2) [OF s1(2)]] .
  note b1 = beside_grows [OF Cons.prems(5) s1(2)]
  define P where "P = (procs s)[p := (procs s ! p)\<lparr>p_shared := ?sh[i := r']\<rparr>]"
  let ?s2 = "s1\<lparr>procs := P\<rparr>"
  have pp: "P ! p = (procs s ! p)\<lparr>p_shared := ?sh[i := r']\<rparr>" "length P = length (procs s)"
    using Cons.prems(9) by (simp_all add: P_def)
  have step: "linkphysaddr_loop room d p i va perm s = linkphysaddr_loop ro d p (Suc i) va' perm ?s2"
    using s1(1) i(2) nz(1) Cons.prems(10) by (simp add: ro(1) Let_def upd_proc_def ps P_def r'_def va'_def)
  have "quiet ?s2" using Cons.prems(7) only_mem_fields(6) [OF growsD(2) [OF s1(2)]] by simp
  moreover have "fits (mem ?s2) q va' e rs" using Cons.prems(1) fits_cong [of "mem s1" q "mem s"] b1(2) by (simp add: va'_def)
  moreover have al: "aligned va'" unfolding va'_def using region_facts(1) [OF Cons.prems(1,2) nz(1)] .
  moreover have "vm_inv ?s2 d ys" "beside ?s2 q d ys" using growsD(1) [OF s1(2)] b1(1) by (simp_all add: vm_inv_def beside_def)
  ultimately obtain zs' s3 where s3: "linkphysaddr_loop ro d p (Suc i) va' perm ?s2 = Ok 1 (s3\<lparr>procs :=
      P[p := (P ! p)\<lparr>p_shared := take (Suc i) (p_shared (P ! p)) @ relocate va' rs @ z # zs\<rparr>]\<rparr>)"
    "grows ?s2 s3 d ys zs'" "linked (mem s1) q (mem s3) d perm va' rs"
    "\<And>c. PGROUNDDOWN c < va' \<Longrightarrow> pte_at (mem s3) d c = pte_at (mem s1) d c"
    using Cons.IH [of ?s2 va' ys "Suc i" ro] nz(2) s1(3,4) i Cons.prems(9,10,13) ro(2) by (auto simp: pp)
  let ?s' = "s3\<lparr>procs := procs s\<rparr>"
  have "grows s ?s' d xs zs'" using grows_trans [OF s1(2) grows_procs [OF s3(2)]] ps by simp
  moreover have "linked (mem s) q (mem s3) d perm va' rs"
    using s3(3) linked_cong [OF _ al nz(2), of "mem s" q e "mem s3" d "mem s3" "mem s1" perm] b1(2) Cons.prems(1)
    by (simp add: va'_def)
  then have "linked (mem s) q (mem ?s') d perm va (r # rs)" using s1(6) s3(4) by (simp add: va'_def)
  moreover have "pte_at (mem ?s') d c = pte_at (mem s) d c" if "PGROUNDDOWN c < va" for c
  proof -
    have "va \<le> va'" using region_facts(3) [OF Cons.prems(1,2) nz(1), of va'] by (simp add: va'_def)
    then show ?thesis using that s3(4) [of c] s1(5) [of c] by simp
  qed
  moreover have "take (Suc i) (?sh[i := r']) = take i ?sh @ [r']" using i(1) by (simp add: take_Suc_conv_app_nth)
  then have "P[p := (P ! p)\<lparr>p_shared := take (Suc i) (p_shared (P ! p)) @ relocate va' rs @ z # zs\<rparr>] =
      (procs s)[p := (procs s ! p)\<lparr>p_shared := take i ?sh @ relocate va (r # rs) @ z # zs\<rparr>]"
    using Cons.prems(9) by (simp add: P_def r'_def va'_def)
  ultimately show ?case using s3(1) unfolding step by (intro exI [of _ zs'] exI [of _ ?s']) simp
qed


section \<open>Bytes of a region\<close>

text \<open>Adding a whole number of pages moves the page and keeps the offset in it.\<close>

lemma PGROUNDDOWN_shift: "aligned a \<Longrightarrow> PGROUNDDOWN (a + y) = a + PGROUNDDOWN y"
proof -
  assume "aligned a"
  then have "aligned (a + PGROUNDDOWN y)" by (simp add: aligned_sum)
  from PGROUNDDOWN_add [OF this off_less [of y]] show ?thesis by (simp add: algebra_simps)
qed

lemma uaddr_shift:
  assumes "aligned a" "aligned b" "pte_at m d (a + PGROUNDDOWN y) = w" "pte_at m' d' (b + PGROUNDDOWN y) = w'" "frame_of w = frame_of w'"
  shows "uaddr m d (a + y) = uaddr m' d' (b + y)" "pte_at m d (a + y) = w"
proof -
  have "pte_at m d (a + y) = w" "pte_at m' d' (b + y) = w'"
    using assms pte_at_down [of m d "a + y"] pte_at_down [of m' d' "b + y"] by (simp_all add: PGROUNDDOWN_shift)
  then show "uaddr m d (a + y) = uaddr m' d' (b + y)" "pte_at m d (a + y) = w"
    using assms by (simp_all add: uaddr_def PGROUNDDOWN_shift)
qed

lemma link_entry:
  assumes "w' = PTE_ADDR w OR (if W then 6 else 4) OR 1"
  shows "frame_of w' = frame_of w" "present w'" "PTE_FLAGS w' = (if W then 7 else 5)"
proof -
  have a: "aligned (PTE_ADDR w)" by (simp add: PTE_ADDR_eq)
  have e: "w' = PTE_ADDR w OR (if W then 7 else 5)" using assms by simp
  have l: "(if W then 7 else 5 :: u32) < PGSIZE" by simp
  show "frame_of w' = frame_of w" unfolding e frame_of_def PTE_ADDR_or [OF a l] ..
  show f: "PTE_FLAGS w' = (if W then 7 else 5)"
    using a unfolding e PTE_FLAGS_def aligned_def by (simp add: word_ao_dist)
  have "w' AND 1 = (w' AND 0xFFF) AND 1" by (simp add: and.assoc)
  then show "present w'" using f by (simp add: present_def PTE_FLAGS_def)
qed


text \<open>
  \<open>aliases m q m' d W r r'\<close>: the region \<open>r'\<close> of the address space \<open>d\<close> is the region \<open>r\<close> of \<open>q\<close>
  under another address: up to the end of the pages its size takes, every byte of the one is the
  same byte of memory as in the other, and the user may read it and, for \<open>W\<close>, write it.
\<close>

definition aliases :: "mem \<Rightarrow> u32 \<Rightarrow> mem \<Rightarrow> u32 \<Rightarrow> bool \<Rightarrow> shared \<Rightarrow> shared \<Rightarrow> bool" where
  "aliases m q m' d W r r' \<longleftrightarrow> sh_name r' = sh_name r \<and> sh_sz r' = sh_sz r \<and>
     (\<forall>x. unat (PTE_FLAGS (sh_memstart r)) + unat x < unat (PGROUNDUP (sh_sz r)) \<longrightarrow>
        uaddr m' d (sh_memstart r' + x) = uaddr m q (sh_memstart r + x) \<and>
        pflags m' d (sh_memstart r' + x) = (if W then PTE_P OR PTE_W OR PTE_U else PTE_P OR PTE_U))"

lemma aliases_head:
  assumes l: "\<And>k. k < npages (sh_sz r) \<Longrightarrow> pte_at m' d (va + 4096 * of_nat k) =
      PTE_ADDR (pte_at m q (sh_memstart r + 4096 * of_nat k)) OR (if W then 6 else 4) OR 1" and al: "aligned va"
  shows "aliases m q m' d W r (r\<lparr>sh_memstart := va + PTE_FLAGS (sh_memstart r)\<rparr>)"
  unfolding aliases_def
proof (intro conjI allI impI)
  fix x :: u32 assume x: "unat (PTE_FLAGS (sh_memstart r)) + unat x < unat (PGROUNDUP (sh_sz r))"
  define y where "y = PTE_FLAGS (sh_memstart r) + x"
  define b where "b = PGROUNDDOWN (sh_memstart r)"
  define k where "k = unat y div 4096"
  have uy: "unat y = unat (PTE_FLAGS (sh_memstart r)) + unat x"
    using x unat_u32_less [of "PGROUNDUP (sh_sz r)"] unfolding y_def by (simp add: unat_word_ariths)
  have "aligned (PGROUNDUP (sh_sz r))" by (simp add: PGROUNDUP_def aligned_def and.assoc)
  then obtain n where n: "unat (PGROUNDUP (sh_sz r)) = 4096 * n" by (rule alignedE)
  have k: "k < npages (sh_sz r)" using x uy n unfolding k_def npages_def by simp
  have "unat (PGROUNDDOWN y) = 4096 * k" by (simp add: unat_PGROUNDDOWN k_def minus_mod_eq_mult_div)
  then have yk: "PGROUNDDOWN y = 4096 * of_nat k" by (metis of_nat_mult of_nat_numeral of_nat_unat ucast_id)
  have bm: "sh_memstart r = b + PTE_FLAGS (sh_memstart r)"
    using PGROUNDDOWN_split [of "sh_memstart r"] by (simp add: b_def PTE_FLAGS_def)
  let ?w = "pte_at m q (b + PGROUNDDOWN y)"
  have "PGROUNDDOWN (sh_memstart r + 4096 * of_nat k) = b + PGROUNDDOWN y"
    using PGROUNDDOWN_shift [OF aligned_PGROUNDDOWN, of y "sh_memstart r"] yk
    by (simp add: b_def add.commute)
  then have "pte_at m q (sh_memstart r + 4096 * of_nat k) = ?w" using pte_at_down by metis
  then have e: "pte_at m' d (va + PGROUNDDOWN y) = PTE_ADDR ?w OR (if W then 6 else 4) OR 1"
    using l [OF k] yk by simp
  note le = link_entry [OF e]
  note u = uaddr_shift [OF al _ refl refl le(1)]
  have s: "va + PTE_FLAGS (sh_memstart r) + x = va + y" "sh_memstart r + x = b + y"
    using bm by (simp_all add: y_def algebra_simps)
  have "uaddr m' d (va + PTE_FLAGS (sh_memstart r) + x) = uaddr m q (sh_memstart r + x)"
    unfolding s by (rule u(1)) (simp add: b_def)
  then show "uaddr m' d (sh_memstart (r\<lparr>sh_memstart := va + PTE_FLAGS (sh_memstart r)\<rparr>) + x) = uaddr m q (sh_memstart r + x)"
    by simp
  show "pflags m' d (sh_memstart (r\<lparr>sh_memstart := va + PTE_FLAGS (sh_memstart r)\<rparr>) + x) =
      (if W then PTE_P OR PTE_W OR PTE_U else PTE_P OR PTE_U)"
    using u(2) le(3) by (simp add: b_def y_def add.assoc pflags_def)
qed simp_all

lemma linked_aliases:
  assumes "linked m q m' d (if W then 6 else 4) va rs" "fits m q va e rs" "aligned va" "\<forall>r\<in>set rs. sh_sz r \<noteq> 0"
  shows "list_all2 (aliases m q m' d W) rs (relocate va rs)"
  using assms
proof (induction rs arbitrary: va)
  case (Cons r rs)
  have "aliases m q m' d W r (r\<lparr>sh_memstart := va + PTE_FLAGS (sh_memstart r)\<rparr>)"
    using Cons.prems(1,3) by (intro aliases_head) auto
  moreover have "aligned (va + PGROUNDUP (sh_sz r))"
    using region_facts(1) [OF Cons.prems(2,3)] Cons.prems(4) by simp
  ultimately show ?case using Cons by simp
qed simp


section \<open>Sharing with a child\<close>



text \<open>
  A parent with its directory at 6 MB, one page table behind it and one page, at address 0, of
  which it shares 100 bytes from 16 on.
\<close>

definition ex_region :: shared where
  "ex_region = zero_shared\<lparr>sh_name := of_char CHR ''a'' # replicate 19 0, sh_memstart := 16, sh_sz := 100\<rparr>"

definition ex_smem :: mem where
  "ex_smem = store32 (store32 (mem ex_cst) 0x80600000 0x601007) 0x80601000 0x602007"

definition ex_share :: pst where
  "ex_share = ex_pst\<lparr>mem := ex_smem,
     procs := [zero_proc\<lparr>p_state := RUNNING, p_parentpgdir := 0x80600000,
       p_shared := ex_region # replicate 9 zero_shared\<rparr>]\<rparr>"

lemma ex_smem_frame: "same_outside {0x80600000, 0x80601000} (mem ex_cst) ex_smem"
  by (auto simp: same_outside_def ex_smem_def store32_frame aligned4_def PGROUNDDOWN_def)

lemma ex_cst_zero: "load32 (mem ex_cst) a = 0" if "aligned4 a" "a \<noteq> 0x80400000"
  using that by (simp add: ex_cst_def mst.defs ex_mst_def lst.defs load32_store32_other aligned4_def) (simp add: load32_def)

lemma ex_smem_pde:
  assumes "i < 1024"
  shows "pde_at ex_smem 0x80600000 i = (if i = 0 then 0x601007 else 0)"
proof -
  have a: "aligned4 (0x80600000 + 4 * i)" using assms by (simp add: aligned_def)
  have u: "unat (0x80600000 + 4 * i) = unat (0x80600000 :: u32) + 4 * unat i" "unat i < 1024"
    using assms by (simp_all add: unat_slot_add aligned_def word_less_nat_alt)
  have n: "0x80600000 + 4 * i \<noteq> 0x80601000" "0x80600000 + 4 * i \<noteq> 0x80400000" "0x80600000 + 4 * i = 0x80600000 \<longleftrightarrow> i = 0"
    using u by (auto simp: word_unat_eq_iff)
  have "pde_at ex_smem 0x80600000 i = load32 (store32 (mem ex_cst) 0x80600000 0x601007) (0x80600000 + 4 * i)"
    using a n(1) unfolding pde_at_def ex_smem_def by (intro load32_store32_other) (auto simp: aligned4_def)
  also have "\<dots> = (if i = 0 then 0x601007 else 0)"
    using a n ex_cst_zero [of "0x80600000 + 4 * i"]
    by (cases "i = 0") (auto simp: load32_store32 load32_store32_other aligned4_def)
  finally show ?thesis .
qed

lemma ex_share_vm:
  "vm_inv ex_share 0x80500000 [0x80400000, 0x80401000]" "beside ex_share 0x80600000 0x80500000 [0x80400000, 0x80401000]"
  "vacant (mem ex_share) 0x80500000 SHAREBASE 0x40001000" "need (mem ex_share) 0x80500000 SHAREBASE 0x40001000 = 1"
  "fits (mem ex_share) 0x80600000 SHAREBASE 0x40001000 [ex_region]"
proof -
  have fi: "free_inv ex_pst [0x80400000, 0x80401000]"
    using mst_truncate [of ex_pst] ex_mst_inv by (simp add: ex_pst_cst)
  have me: "mem ex_pst = mem ex_cst" "mem ex_share = ex_smem" by (simp_all add: ex_pst_def cst.defs ex_share_def)
  have k: "kend ex_share = 0x80110000" by (simp add: ex_share_def ex_pst_def cst.defs ex_cst_def mst.defs ex_mst_def lst.defs)
  have d: "pde_at ex_smem 0x80500000 i = 0" if "i < 1024" for i
  proof -
    have "unat (0x80500000 + 4 * i) = unat (0x80500000 :: u32) + 4 * unat i"
      using that by (intro unat_slot_add) (simp_all add: aligned_def)
    then have "(0x80500000 + 4 * i :: u32) \<noteq> 0x80400000" by fastforce
    then have "pde_at (mem ex_cst) 0x80500000 i = 0"
      using that unfolding pde_at_def by (intro ex_cst_zero) (auto simp: aligned_def)
    then show ?thesis using pde_at_frame [OF _ ex_smem_frame _ that, of "0x80500000"] by (simp add: aligned_def)
  qed
  have pd: "pd_pages ex_smem 0x80500000 = {0x80500000}" using d by (auto simp: pd_pages_def)
  have pp: "pd_pages ex_smem 0x80600000 = {0x80600000, 0x80601000}"
    using ex_smem_pde by (auto simp: pd_pages_def present_def frame_of_def PTE_ADDR_def P2V_def split: if_splits intro!: exI [of _ 0])
  have "free_inv (ex_pst\<lparr>mem := ex_smem\<rparr>) [0x80400000, 0x80401000]"
    by (rule free_inv_mem [OF fi]) (use ex_smem_frame me in auto)
  then show "vm_inv ex_share 0x80500000 [0x80400000, 0x80401000]"
    using d pd by (simp add: vm_inv_def me k pd_ok_def page_ok_def aligned_def V2P_def) (simp add: ex_share_def)
  show "beside ex_share 0x80600000 0x80500000 [0x80400000, 0x80401000]"
    unfolding beside_def me k pd pp pd_ok_def
    using ex_smem_pde by (auto simp: page_ok_def aligned_def V2P_def frame_of_def PTE_ADDR_def P2V_def split: if_splits)
  show "vacant (mem ex_share) 0x80500000 SHAREBASE 0x40001000"
    using d by (simp add: vacant_def me pte_at_def PDX_less)
  show "need (mem ex_share) 0x80500000 SHAREBASE 0x40001000 = 1"
    using d by (simp add: need_def me PDX_def)
  have "pte_at ex_smem 0x80600000 16 = 0x602007"
    using ex_smem_pde [of 0] by (simp add: pte_at_def PDX_def present_def pte_addr_def PTX_def frame_of_def PTE_ADDR_def P2V_def
      ex_smem_def load32_store32 aligned4_def)
  then show "fits (mem ex_share) 0x80600000 SHAREBASE 0x40001000 [ex_region]"
    by (simp add: ex_region_def me npages_def PGROUNDUP_def present_def)
qed


end
