(* ===== verification/Proc.thy ===== *)
theory Proc
  imports Vm
begin

text \<open>
  kernel/proc.c without the parts that need files: the process table, the scheduler, sleeping
  and waking. A switch to another context ends a definition: \<open>sched\<close> gives \<open>Sleeps\<close> with the
  state the CPU's scheduler resumes in, and the code after the switch is the definition with
  the suffix \<open>_return\<close>. The scheduler gives the process it switches to.
\<close>

section \<open>The table\<close>

definition pinit :: "'a pst_scheme \<Rightarrow> 'a pst_scheme" where
  "pinit s = initlock Lptable ''ptable'' s"

text \<open>
  The trap frame of a new process is whatever its new stack page holds; both callers overwrite
  all of it.
\<close>

definition allocproc :: "'a pst_scheme \<Rightarrow> ('a pst_scheme, nat option) res" where
  "allocproc s =
     bind (acquire Lptable s) (\<lambda>_ s.
     case find_idx (\<lambda>p. p_state p = UNUSED) (procs s) of
       None \<Rightarrow> bind (release Lptable s) (\<lambda>_ s. Ok None s)
     | Some p \<Rightarrow>
         let s = upd_proc p (\<lambda>q. q\<lparr>p_state := EMBRYO\<rparr>) s;
             s = upd_proc p (\<lambda>q. q\<lparr>p_pid := nextpid s\<rparr>) s;
             s = s\<lparr>nextpid := nextpid s + 1\<rparr> in
         bind (release Lptable s) (\<lambda>_ s.
         bind (kalloc s) (\<lambda>k s.
         let s = upd_proc p (\<lambda>q. q\<lparr>p_kstack := k\<rparr>) s in
         if k = 0 then Ok None (upd_proc p (\<lambda>q. q\<lparr>p_state := UNUSED\<rparr>) s)
         else
           let s = upd_proc p (\<lambda>q. q\<lparr>p_shared := map (\<lambda>e. e\<lparr>sh_sz := 0\<rparr>) (p_shared q)\<rparr>) s;
               s = upd_proc p (\<lambda>q. q\<lparr>p_context :=
                     \<lparr>cx_edi = 0, cx_esi = 0, cx_ebx = 0, cx_ebp = 0, cx_eip = Forkret\<rparr>\<rparr>) s in
           Ok (Some p) s)))"

definition growproc :: "int \<Rightarrow> 'a vst_scheme \<Rightarrow> ('a vst_scheme, int) res" where
  "growproc n s =
     bind (myproc s) (\<lambda>p s.
     case p of None \<Rightarrow> Fault
     | Some p \<Rightarrow>
         let sz = p_sz (procs s ! p); d = p_pgdir (procs s ! p) in
         bind (if n > 0 then allocuvm d sz (sz + of_int n) s
               else if n < 0 then deallocuvm d sz (sz + of_int n) s
               else Ok sz s) (\<lambda>sz s.
         if n \<noteq> 0 \<and> sz = 0 then Ok (- 1) s
         else
           let s = upd_proc p (\<lambda>q. q\<lparr>p_sz := sz\<rparr>) s in
           bind (switchuvm (Some p) s) (\<lambda>_ s. Ok 0 s)))"

section \<open>Switching\<close>

definition sched :: "'a pst_scheme \<Rightarrow> ('a pst_scheme, 'b) res" where
  "sched s =
     bind (myproc s) (\<lambda>p s.
     bind (holding Lptable s) (\<lambda>h s.
     if \<not> h then Panic ''sched ptable.lock''
     else bind (mycpu s) (\<lambda>c s.
       if ncli (cpus s ! c) \<noteq> 1 then Panic ''sched locks''
       else case p of None \<Rightarrow> Fault
       | Some p \<Rightarrow>
           if p_state (procs s ! p) = RUNNING then Panic ''sched running''
           else if fl_if s then Panic ''sched interruptible''
           else bind (mycpu s) (\<lambda>c s.
             Sleeps (upd_proc p (\<lambda>q. q\<lparr>p_context := (p_context q)\<lparr>cx_eip :=
               Insched (intena (cpus s ! c))\<rparr>\<rparr>) s)))))"

definition sched_return :: "'a pst_scheme \<Rightarrow> ('a pst_scheme, unit) res" where
  "sched_return s =
     bind (mycpu s) (\<lambda>c s.
     case cproc (cpus s ! c) of None \<Rightarrow> Fault
     | Some p \<Rightarrow>
         case cx_eip (p_context (procs s ! p)) of Forkret \<Rightarrow> Fault
         | Insched b \<Rightarrow> Ok () (upd_cpu c (\<lambda>c. c\<lparr>intena := b\<rparr>) s))"

definition yield :: "'a pst_scheme \<Rightarrow> ('a pst_scheme, unit) res" where
  "yield s =
     bind (acquire Lptable s) (\<lambda>_ s.
     bind (myproc s) (\<lambda>p s.
     case p of None \<Rightarrow> Fault
     | Some p \<Rightarrow> sched (upd_proc p (\<lambda>q. q\<lparr>p_state := RUNNABLE\<rparr>) s)))"

definition yield_return :: "'a pst_scheme \<Rightarrow> ('a pst_scheme, unit) res" where
  "yield_return s = bind (sched_return s) (\<lambda>_ s. release Lptable s)"

definition sleep :: "chan \<Rightarrow> lockid option \<Rightarrow> 'a pst_scheme \<Rightarrow> ('a pst_scheme, 'b) res" where
  "sleep ch lk s =
     bind (myproc s) (\<lambda>p s.
     case p of None \<Rightarrow> Panic ''sleep''
     | Some p \<Rightarrow>
       (case lk of None \<Rightarrow> Panic ''sleep without lk''
        | Some l \<Rightarrow>
          bind (if l \<noteq> Lptable
                then bind (acquire Lptable s) (\<lambda>_ s. release l s)
                else Ok () s) (\<lambda>_ s.
          let s = upd_proc p (\<lambda>q. q\<lparr>p_chan := ch\<rparr>) s;
              s = upd_proc p (\<lambda>q. q\<lparr>p_state := SLEEPING\<rparr>) s in
          sched s)))"

definition sleep_return :: "lockid \<Rightarrow> 'a pst_scheme \<Rightarrow> ('a pst_scheme, unit) res" where
  "sleep_return l s =
     bind (sched_return s) (\<lambda>_ s.
     bind (mycpu s) (\<lambda>c s.
     case cproc (cpus s ! c) of None \<Rightarrow> Fault
     | Some p \<Rightarrow>
         let s = upd_proc p (\<lambda>q. q\<lparr>p_chan := Cnull\<rparr>) s in
         if l \<noteq> Lptable then bind (release Lptable s) (\<lambda>_ s. acquire l s) else Ok () s))"

definition wakeup1 :: "chan \<Rightarrow> 'a pst_scheme \<Rightarrow> 'a pst_scheme" where
  "wakeup1 ch s = s\<lparr>procs := map (\<lambda>p.
     if p_state p = SLEEPING \<and> p_chan p = ch then p\<lparr>p_state := RUNNABLE\<rparr> else p) (procs s)\<rparr>"

definition wakeup :: "chan \<Rightarrow> 'a pst_scheme \<Rightarrow> ('a pst_scheme, unit) res" where
  "wakeup ch s = bind (acquire Lptable s) (\<lambda>_ s. release Lptable (wakeup1 ch s))"

definition kill :: "int \<Rightarrow> 'a pst_scheme \<Rightarrow> ('a pst_scheme, int) res" where
  "kill pid s =
     bind (acquire Lptable s) (\<lambda>_ s.
     case find_idx (\<lambda>p. p_pid p = pid) (procs s) of
       Some p \<Rightarrow>
         let s = upd_proc p (\<lambda>q. q\<lparr>p_killed := True\<rparr>) s;
             s = (if p_state (procs s ! p) = SLEEPING
                  then upd_proc p (\<lambda>q. q\<lparr>p_state := RUNNABLE\<rparr>) s else s) in
         bind (release Lptable s) (\<lambda>_ s. Ok 0 s)
     | None \<Rightarrow> bind (release Lptable s) (\<lambda>_ s. Ok (- 1) s))"

section \<open>The scheduler\<close>

text \<open>
  \<open>scheduler_scan n i\<close> is the inner loop from entry \<open>i\<close> on, with \<open>n\<close> entries left. It gives the
  process it switches to, or nothing after the last entry, when the lock is free again and the
  outer loop starts the next round.
\<close>

fun scheduler_scan :: "nat \<Rightarrow> nat \<Rightarrow> 'a vst_scheme \<Rightarrow> ('a vst_scheme, nat option) res" where
  "scheduler_scan 0 i s = bind (release Lptable s) (\<lambda>_ s. Ok None s)"
| "scheduler_scan (Suc n) i s =
     (if p_state (procs s ! i) \<noteq> RUNNABLE then scheduler_scan n (i + 1) s
      else
        bind (mycpu s) (\<lambda>c s.
        let s = upd_cpu c (\<lambda>c. c\<lparr>cproc := Some i\<rparr>) s in
        bind (switchuvm (Some i) s) (\<lambda>_ s.
        Ok (Some i) (upd_proc i (\<lambda>q. q\<lparr>p_state := RUNNING\<rparr>) s))))"

definition scheduler_round :: "'a vst_scheme \<Rightarrow> ('a vst_scheme, nat option) res" where
  "scheduler_round s =
     bind (acquire Lptable (s\<lparr>fl_if := True\<rparr>)) (\<lambda>_ s. scheduler_scan NPROC 0 s)"

definition scheduler :: "'a vst_scheme \<Rightarrow> ('a vst_scheme, nat option) res" where
  "scheduler s =
     bind (mycpu s) (\<lambda>c s. scheduler_round (upd_cpu c (\<lambda>c. c\<lparr>cproc := None\<rparr>) s))"

text \<open>What the scheduler does when the process \<open>i\<close> it ran switches back to it.\<close>

definition scheduler_return :: "nat \<Rightarrow> 'a vst_scheme \<Rightarrow> ('a vst_scheme, nat option) res" where
  "scheduler_return i s =
     (let s = switchkvm s in
      bind (mycpu s) (\<lambda>c s.
      let s = upd_cpu c (\<lambda>c. c\<lparr>cproc := None\<rparr>) s in
      scheduler_scan (NPROC - (i + 1)) (i + 1) s))"

section \<open>The process listing\<close>

fun getcallerpcs_from :: "nat \<Rightarrow> mem \<Rightarrow> u32 \<Rightarrow> u32 list" where
  "getcallerpcs_from 0 m ebp = []"
| "getcallerpcs_from (Suc n) m ebp =
     (if ebp = 0 \<or> ebp < KERNBASE \<or> ebp = 0xffffffff then replicate (Suc n) 0
      else load32 m (ebp + 4) # getcallerpcs_from n m (load32 m ebp))"

definition getcallerpcs :: "mem \<Rightarrow> u32 \<Rightarrow> u32 list" where
  "getcallerpcs m v = getcallerpcs_from 10 m (v - 8)"

fun state_name :: "procstate \<Rightarrow> string" where
  "state_name UNUSED = ''unused''"
| "state_name EMBRYO = ''embryo''"
| "state_name SLEEPING = ''sleep ''"
| "state_name RUNNABLE = ''runble''"
| "state_name RUNNING = ''run   ''"
| "state_name ZOMBIE = ''zombie''"

fun print_pcs :: "u32 list \<Rightarrow> 'a cst_scheme \<Rightarrow> ('a cst_scheme, unit) res" where
  "print_pcs [] s = Ok () s"
| "print_pcs (pc # pcs) s =
     (if pc = 0 then Ok () s
      else bind (cprintf '' %p'' [Aint pc] s) (\<lambda>_ s. print_pcs pcs s))"

fun procdump_loop :: "proc list \<Rightarrow> 'a cst_scheme \<Rightarrow> ('a cst_scheme, unit) res" where
  "procdump_loop [] s = Ok () s"
| "procdump_loop (p # ps) s =
     (if p_state p = UNUSED then procdump_loop ps s
      else
        bind (cprintf ''%d %s %s'' [Aint (of_int (p_pid p)),
            Astr (Some (map of_char (state_name (p_state p)) @ [0])), Astr (Some (p_name p))] s) (\<lambda>_ s.
        bind (if p_state p = SLEEPING
              then print_pcs (getcallerpcs (mem s) (cx_ebp (p_context p) + 8)) s
              else Ok () s) (\<lambda>_ s.
        bind (cprintf [CHR 0x0A] [] s) (\<lambda>_ s. procdump_loop ps s))))"

definition procdump :: "'a pst_scheme \<Rightarrow> ('a pst_scheme, unit) res" where
  "procdump s = procdump_loop (procs s) s"

end
