(* ===== verification/Sleeplock.thy ===== *)
theory Sleeplock
  imports Proc
begin

text \<open>
  kernel/sleeplock.c: locks that a process can hold while it sleeps. A sleep lock is found under
  the name of the spin lock inside it, and a process that waits for it sleeps on the lock
  (\<open>Csleep\<close>).
\<close>

section \<open>State\<close>

record sleeplock =
  sl_locked :: u32
  sl_name :: string
  sl_pid :: int

record sst = vst +
  sls :: "lockid \<Rightarrow> sleeplock"

lemma lock_fields_sst [simp]:
  "sls (hold l s) = sls s"
  "sls (unhold l s) = sls s"
  by (simp_all add: hold_def unhold_def push_def pop_def)

lemma lock_update_sst [simp]:
  "hold l (s\<lparr>sls := x_sls\<rparr>) = (hold l s)\<lparr>sls := x_sls\<rparr>"
  "unhold l (s\<lparr>sls := x_sls\<rparr>) = (unhold l s)\<lparr>sls := x_sls\<rparr>"
  by (simp_all add: unhold_def pop_def hold_def push_def curcpu_def cur_def)

lemma cpu_frame_sst [simp]:
  "cur (s\<lparr>sls := x_sls\<rparr>) = cur s"
  "curcpu (s\<lparr>sls := x_sls\<rparr>) = curcpu s"
  "curproc (s\<lparr>sls := x_sls\<rparr>) = curproc s"
  "quiet (s\<lparr>sls := x_sls\<rparr>) = quiet s"
  "lk_free l (s\<lparr>sls := x_sls\<rparr>) = lk_free l s"
  "lk_held l (s\<lparr>sls := x_sls\<rparr>) = lk_held l s"
  by (simp_all add: cur_def curcpu_def curproc_def quiet_def lk_free_def lk_held_def)

lemma inv_frame_sst [simp]:
  "km_ready (s\<lparr>sls := x_sls\<rparr>) = km_ready s"
  "free_inv (s\<lparr>sls := x_sls\<rparr>) xs = free_inv s xs"
  "cons_ok (s\<lparr>sls := x_sls\<rparr>) = cons_ok s"
  by (simp_all add: km_ready_def free_inv_def cons_ok_def)

section \<open>Operations\<close>

definition upd_sl :: "lockid \<Rightarrow> (sleeplock \<Rightarrow> sleeplock) \<Rightarrow> 'a sst_scheme \<Rightarrow> 'a sst_scheme" where
  "upd_sl l f s = s\<lparr>sls := (sls s)(l := f (sls s l))\<rparr>"

definition initsleeplock :: "lockid \<Rightarrow> string \<Rightarrow> 'a sst_scheme \<Rightarrow> 'a sst_scheme" where
  "initsleeplock l nm s =
     (let s = initlock l ''sleep lock'' s;
          s = upd_sl l (\<lambda>k. k\<lparr>sl_name := nm\<rparr>) s;
          s = upd_sl l (\<lambda>k. k\<lparr>sl_locked := 0\<rparr>) s in
      upd_sl l (\<lambda>k. k\<lparr>sl_pid := 0\<rparr>) s)"

text \<open>The loop of \<open>acquiresleep\<close>; after a wakeup it runs again.\<close>

definition acquiresleep_loop :: "lockid \<Rightarrow> 'a sst_scheme \<Rightarrow> ('a sst_scheme, unit) res" where
  "acquiresleep_loop l s =
     (if sl_locked (sls s l) \<noteq> 0 then sleep (Csleep l) (Some l) s
      else
        let s = upd_sl l (\<lambda>k. k\<lparr>sl_locked := 1\<rparr>) s in
        bind (myproc s) (\<lambda>p s.
        case p of None \<Rightarrow> Fault
        | Some p \<Rightarrow> release l (upd_sl l (\<lambda>k. k\<lparr>sl_pid := p_pid (procs s ! p)\<rparr>) s)))"

definition acquiresleep :: "lockid \<Rightarrow> 'a sst_scheme \<Rightarrow> ('a sst_scheme, unit) res" where
  "acquiresleep l s = bind (acquire l s) (\<lambda>_ s. acquiresleep_loop l s)"

definition acquiresleep_return :: "lockid \<Rightarrow> 'a sst_scheme \<Rightarrow> ('a sst_scheme, unit) res" where
  "acquiresleep_return l s = bind (sleep_return l s) (\<lambda>_ s. acquiresleep_loop l s)"

definition releasesleep :: "lockid \<Rightarrow> 'a sst_scheme \<Rightarrow> ('a sst_scheme, unit) res" where
  "releasesleep l s =
     bind (acquire l s) (\<lambda>_ s.
     let s = upd_sl l (\<lambda>k. k\<lparr>sl_locked := 0\<rparr>) s;
         s = upd_sl l (\<lambda>k. k\<lparr>sl_pid := 0\<rparr>) s in
     bind (wakeup (Csleep l) s) (\<lambda>_ s. release l s))"

definition holdingsleep :: "lockid \<Rightarrow> 'a sst_scheme \<Rightarrow> ('a sst_scheme, bool) res" where
  "holdingsleep l s =
     bind (acquire l s) (\<lambda>_ s.
     bind (if sl_locked (sls s l) = 0 then Ok False s
           else bind (myproc s) (\<lambda>p s.
             case p of None \<Rightarrow> Fault
             | Some p \<Rightarrow> Ok (sl_pid (sls s l) = p_pid (procs s ! p)) s)) (\<lambda>r s.
     bind (release l s) (\<lambda>_ s. Ok r s)))"

end
