(* ===== verification/Blocking.thy ===== *)
theory Blocking
  imports Sleeplock
begin

text \<open>
  Lemmas on sleeping and waking (kernel/proc.c) and on sleep locks (kernel/sleeplock.c): what the
  operations do when the spin locks they take are free.
\<close>

section \<open>Waking\<close>

lemma wakeup1_fields [simp]:
  "length (procs (wakeup1 ch s)) = length (procs s)" "mem (wakeup1 ch s) = mem s" "cur (wakeup1 ch s) = cur s"
  "curcpu (wakeup1 ch s) = curcpu s" "curproc (wakeup1 ch s) = curproc s" "quiet (wakeup1 ch s) = quiet s"
  "lk_free l (wakeup1 ch s) = lk_free l s" "lk_held l (wakeup1 ch s) = lk_held l s"
  "hold l (wakeup1 ch s) = wakeup1 ch (hold l s)" "unhold l (wakeup1 ch s) = wakeup1 ch (unhold l s)"
  by (simp_all add: wakeup1_def)

lemma wakeup1_pids [simp]: "map p_pid (procs (wakeup1 ch s)) = map p_pid (procs s)"
  by (simp add: wakeup1_def)

lemma wakeup1_nth:
  "i < length (procs s) \<Longrightarrow> procs (wakeup1 ch s) ! i =
     (if p_state (procs s ! i) = SLEEPING \<and> p_chan (procs s ! i) = ch
      then (procs s ! i)\<lparr>p_state := RUNNABLE\<rparr> else procs s ! i)"
  by (simp add: wakeup1_def)

lemma wakeup_eq: "quiet s \<Longrightarrow> lk_free Lptable s \<Longrightarrow> wakeup ch s = Ok () (wakeup1 ch s)"
  by (simp add: wakeup_def lock_eqs)

section \<open>Sleep locks\<close>

definition pid_of :: "'a pst_scheme \<Rightarrow> int" where
  "pid_of s = (case curproc s of None \<Rightarrow> 0 | Some p \<Rightarrow> p_pid (procs s ! p))"

lemma upd_sl_fields [simp]:
  "procs (upd_sl l f s) = procs s" "cur (upd_sl l f s) = cur s" "curproc (upd_sl l f s) = curproc s"
  "quiet (upd_sl l f s) = quiet s" "lk_free k (upd_sl l f s) = lk_free k s" "lk_held k (upd_sl l f s) = lk_held k s"
  "hold k (upd_sl l f s) = upd_sl l f (hold k s)" "unhold k (upd_sl l f s) = upd_sl l f (unhold k s)"
  "sls (upd_sl l f s) = (sls s)(l := f (sls s l))" "pid_of (upd_sl l f s) = pid_of s"
  by (simp_all add: upd_sl_def pid_of_def split: option.split)

lemma upd_sl_twice [simp]: "upd_sl l f (upd_sl l g s) = upd_sl l (\<lambda>k. f (g k)) s"
  by (simp add: upd_sl_def)

lemma acquiresleep_eq:
  assumes "quiet s" "lk_free l s" "curproc s = Some p" "sl_locked (sls s l) = 0"
  shows "acquiresleep l s = Ok () (upd_sl l (\<lambda>k. k\<lparr>sl_locked := 1, sl_pid := pid_of s\<rparr>) s)"
  using assms by (simp add: acquiresleep_def acquiresleep_loop_def lock_eqs Let_def pid_of_def)

lemma holdingsleep_eq:
  assumes "quiet s" "lk_free l s" "curproc s = Some p"
  shows "holdingsleep l s = Ok (sl_locked (sls s l) \<noteq> 0 \<and> sl_pid (sls s l) = pid_of s) s"
  using assms by (simp add: holdingsleep_def lock_eqs pid_of_def)

lemma releasesleep_eq:
  assumes "quiet s" "lk_free l s" "lk_free Lptable s" "l \<noteq> Lptable"
  shows "releasesleep l s = Ok () (wakeup1 (Csleep l) (upd_sl l (\<lambda>k. k\<lparr>sl_locked := 0, sl_pid := 0\<rparr>) s))"
  using assms by (simp add: releasesleep_def lock_eqs Let_def wakeup_eq)


section \<open>Going to sleep\<close>

lemma upd_proc_cpu [simp]:
  "locks (upd_proc p f s) = locks s" "cpus (upd_proc p f s) = cpus s" "fl_if (upd_proc p f s) = fl_if s"
  by (simp_all add: upd_proc_def)

lemma upd_proc_twice [simp]: "upd_proc p f (upd_proc p g s) = upd_proc p (\<lambda>q. f (g q)) s"
  by (cases "p < length (procs s)") (simp_all add: upd_proc_def list_update_beyond)

lemma curcpu_pop: "quiet s \<Longrightarrow> curcpu (pop s) = (curcpu s)\<lparr>ncli := ncli (curcpu s) - 1\<rparr>"
  by (auto simp: curcpu_def pop_def cur_pop [unfolded pop_def curcpu_def] dest: quiet_cur)

lemma quiet_pop: "quiet s \<Longrightarrow> 0 < ncli (curcpu s) \<Longrightarrow> quiet (pop s)"
  using quiet_cur [of s]
  by (auto simp: quiet_def curcpu_pop) (simp_all add: pop_def curcpu_def find_cpu_set)

lemma unhold_lemmas:
  assumes "quiet s" "lk_held l s"
  shows "quiet (unhold l s)" "cur (unhold l s) = cur s" "curproc (unhold l s) = curproc s"
    "ncli (curcpu (unhold l s)) = ncli (curcpu s) - 1" "lk_free l (unhold l s)"
    "k \<noteq> l \<Longrightarrow> locks (unhold l s) k = locks s k" "fl_if (unhold l s) = (ncli (curcpu s) = 1 \<and> intena (curcpu s))"
    "intena (curcpu (unhold l s)) = intena (curcpu s)"
  using assms
  by (simp_all add: unhold_def quiet_pop curproc_def curcpu_pop lk_held_def lk_free_def)
    (simp_all add: pop_def)

lemma hold_lemmas:
  assumes "quiet s"
  shows "ncli (curcpu (hold l s)) = ncli (curcpu s) + 1" "\<not> fl_if (hold l s)"
    "locks (hold l s) = (locks s)(l := (locks s l)\<lparr>locked := 1, lkcpu := Some (cur s)\<rparr>)"
    "intena (curcpu (hold l s)) = intena (curcpu s)"
  using assms by (simp_all add: hold_def curcpu_push)

lemma sleep_eq:
  fixes s :: "'a pst_scheme"
  assumes q: "quiet s" and h: "lk_held l s" and n: "ncli (curcpu s) = 1" and f: "lk_free Lptable s"
    and l: "l \<noteq> Lptable" and c: "curproc s = Some p" and p: "p < length (procs s)"
  shows "(sleep ch (Some l) s :: ('a pst_scheme, 'b) res) = Sleeps (upd_proc p (\<lambda>q. q\<lparr>p_chan := ch, p_state := SLEEPING,
    p_context := (p_context q)\<lparr>cx_eip := Insched (intena (curcpu s))\<rparr>\<rparr>) (unhold l (hold Lptable s)))"
proof -
  let ?t = "unhold l (hold Lptable s)"
  have h': "lk_held l (hold Lptable s)" using q h l by simp
  note u = unhold_lemmas [OF quiet_hold [OF q] h']
  have nf: "\<not> fl_if ?t" using u(7) n q by (simp add: hold_lemmas)
  have lk: "locks ?t Lptable = (locks s Lptable)\<lparr>locked := 1, lkcpu := Some (cur s)\<rparr>"
    using u(6) [of Lptable] l q by (simp add: hold_lemmas)
  have nc: "ncli (curcpu ?t) = 1" using u(4) n q by (simp add: hold_lemmas)
  have i: "intena (cpus ?t ! cur s) = intena (curcpu s)"
    using u(2,8) q by (simp add: curcpu_def [of ?t] hold_lemmas)
  have pr: "procs ?t = procs s" by simp
  have r: "release l (hold Lptable s) = Ok () ?t" using q h' by (simp add: release_eq)
  show ?thesis using q f l c p u(1-3) nf lk nc i r
    by (simp add: sleep_def lock_eqs sched_def Let_def mycpu_eq curcpu_def [of ?t])
qed



definition ex_held :: pst where
  "ex_held = hold Llog ex_pst"



lemma acquiresleep_blocks:
  fixes s :: "'a sst_scheme"
  assumes "quiet s" "lk_free l s" "lk_free Lptable s" "l \<noteq> Lptable" "curproc s = Some p" "p < length (procs s)"
    "ncli (curcpu s) = 0" "sl_locked (sls s l) \<noteq> 0"
  shows "\<exists>t. acquiresleep l s = Sleeps t \<and> p_state (procs t ! p) = SLEEPING \<and> p_chan (procs t ! p) = Csleep l \<and>
    sls t = sls s"
proof -
  have a: "ncli (curcpu (hold l s)) = 1" using assms by (simp add: hold_lemmas)
  have "(sleep (Csleep l) (Some l) (hold l s) :: ('a sst_scheme, unit) res) =
      Sleeps (upd_proc p (\<lambda>q. q\<lparr>p_chan := Csleep l, p_state := SLEEPING,
        p_context := (p_context q)\<lparr>cx_eip := Insched (intena (curcpu (hold l s)))\<rparr>\<rparr>) (unhold l (hold Lptable (hold l s))))"
    using assms a by (intro sleep_eq) auto
  then show ?thesis
    using assms by (simp add: acquiresleep_def acquiresleep_loop_def lock_eqs) (simp add: upd_proc_def)
qed

text \<open>
  C19: a sleep lock belongs to one process. The process that takes a free sleep lock holds it; to
  every other process it is not theirs, and trying to take it puts them to sleep on the lock;
  giving it back frees it and makes every process that sleeps on it runnable.
\<close>

theorem sleeplock_excludes:
  fixes s :: "'a sst_scheme"
  assumes "quiet s" "lk_free l s" "curproc s = Some p" "sl_locked (sls s l) = 0" "l \<noteq> Lptable"
  shows "\<exists>t. acquiresleep l s = Ok () t \<and> holdingsleep l t = Ok True t \<and>
    (\<forall>(u :: 'a sst_scheme) q. quiet u \<and> lk_free l u \<and> lk_free Lptable u \<and> sls u = sls t \<and> curproc u = Some q \<and>
        q < length (procs u) \<and> ncli (curcpu u) = 0 \<and> p_pid (procs u ! q) \<noteq> p_pid (procs s ! p) \<longrightarrow>
      holdingsleep l u = Ok False u \<and>
      (\<exists>v. acquiresleep l u = Sleeps v \<and> p_state (procs v ! q) = SLEEPING \<and> p_chan (procs v ! q) = Csleep l)) \<and>
    (\<forall>u :: 'a sst_scheme. quiet u \<and> lk_free l u \<and> lk_free Lptable u \<and> sls u = sls t \<longrightarrow>
      (\<exists>v. releasesleep l u = Ok () v \<and> sl_locked (sls v l) = 0 \<and>
        (\<forall>q < length (procs u). p_state (procs u ! q) = SLEEPING \<and> p_chan (procs u ! q) = Csleep l \<longrightarrow>
          p_state (procs v ! q) = RUNNABLE)))"
proof -
  let ?t = "upd_sl l (\<lambda>k. k\<lparr>sl_locked := 1, sl_pid := pid_of s\<rparr>) s"
  have "holdingsleep l ?t = Ok True ?t" using assms by (simp add: holdingsleep_eq)
  moreover have "holdingsleep l u = Ok False u \<and>
      (\<exists>v. acquiresleep l u = Sleeps v \<and> p_state (procs v ! q) = SLEEPING \<and> p_chan (procs v ! q) = Csleep l)"
    if "quiet u" "lk_free l u" "lk_free Lptable u" "sls u = sls ?t" "curproc u = Some q" "q < length (procs u)"
      "ncli (curcpu u) = 0" "p_pid (procs u ! q) \<noteq> p_pid (procs s ! p)" for u :: "'a sst_scheme" and q
    using that assms acquiresleep_blocks [of u l q] by (auto simp: holdingsleep_eq pid_of_def)
  moreover have "\<exists>v. releasesleep l u = Ok () v \<and> sl_locked (sls v l) = 0 \<and>
        (\<forall>q < length (procs u). p_state (procs u ! q) = SLEEPING \<and> p_chan (procs u ! q) = Csleep l \<longrightarrow>
          p_state (procs v ! q) = RUNNABLE)"
    if "quiet u" "lk_free l u" "lk_free Lptable u" for u :: "'a sst_scheme"
    using that assms(5) by (auto simp: releasesleep_eq wakeup1_nth) (simp add: wakeup1_def)
  ultimately show ?thesis using acquiresleep_eq [OF assms(1-4)] by blast
qed

definition ex_sst :: sst where
  "ex_sst = vst.extend (pst.extend ex_pst \<lparr>kpgdir = 0, cr3 = 0, tr = 0\<rparr>)
     \<lparr>sls = (\<lambda>_. \<lparr>sl_locked = 0, sl_name = ''buffer'', sl_pid = 0\<rparr>)\<rparr>"

lemma ex_sst_lst: "lst.truncate ex_sst = ex_lst" "mst.truncate ex_sst = ex_mst"
  by (simp_all add: ex_sst_def vst.defs pst.defs ex_pst_def cst.defs ex_cst_def mst.defs ex_mst_def lst.defs)

lemma ex_lst_cpu: "curproc ex_lst = Some 0" "ncli (curcpu ex_lst) = 0"
  by (simp_all add: ex_lst_def curproc_def curcpu_def cur_def ex_cpu_def)

lemma lst_truncate_cpu: "curproc (lst.truncate s) = curproc s" "curcpu (lst.truncate s) = curcpu s"
  by (simp_all add: lst.truncate_def curproc_def curcpu_def cur_def)

lemma ex_sst_ready: "quiet ex_sst" "lk_free l ex_sst" "curproc ex_sst = Some 0" "sl_locked (sls ex_sst l) = 0"
  using lst_truncate(1) [of ex_sst] lst_truncate(2) [of l ex_sst] lst_truncate_cpu [of ex_sst] ex_lst_ready ex_lst_cpu
  by (simp_all add: ex_sst_lst) (simp add: ex_sst_def vst.defs)

theorem sleeplock_excludes_witness:
  "\<exists>t. acquiresleep (Lbufsleep 3) ex_sst = Ok () t \<and> holdingsleep (Lbufsleep 3) t = Ok True t \<and>
    (\<forall>(u :: sst) q. quiet u \<and> lk_free (Lbufsleep 3) u \<and> lk_free Lptable u \<and> sls u = sls t \<and> curproc u = Some q \<and>
        q < length (procs u) \<and> ncli (curcpu u) = 0 \<and> p_pid (procs u ! q) \<noteq> p_pid (procs ex_sst ! 0) \<longrightarrow>
      holdingsleep (Lbufsleep 3) u = Ok False u \<and>
      (\<exists>v. acquiresleep (Lbufsleep 3) u = Sleeps v \<and> p_state (procs v ! q) = SLEEPING \<and>
        p_chan (procs v ! q) = Csleep (Lbufsleep 3))) \<and>
    (\<forall>u :: sst. quiet u \<and> lk_free (Lbufsleep 3) u \<and> lk_free Lptable u \<and> sls u = sls t \<longrightarrow>
      (\<exists>v. releasesleep (Lbufsleep 3) u = Ok () v \<and> sl_locked (sls v (Lbufsleep 3)) = 0 \<and>
        (\<forall>q < length (procs u). p_state (procs u ! q) = SLEEPING \<and> p_chan (procs u ! q) = Csleep (Lbufsleep 3) \<longrightarrow>
          p_state (procs v ! q) = RUNNABLE)))"
  by (rule sleeplock_excludes [OF ex_sst_ready(1,2,3,4)]) simp

end
