(* ===== verification/Schedule.thy ===== *)
theory Schedule
  imports Blocking
begin

text \<open>
  The scheduler of kernel/proc.c: which process a round through the table picks, and that every
  process that is ready gets its turn within one round.
\<close>

section \<open>Picking a process\<close>

lemma upd_cur_cpu:
  assumes "quiet s" "\<And>c. apicid (f c) = apicid c" "\<And>c. ncli (f c) = ncli c" "\<And>c. intena (f c) = intena c"
  shows "cur (upd_cpu (cur s) f s) = cur s" "curcpu (upd_cpu (cur s) f s) = f (curcpu s)" "quiet (upd_cpu (cur s) f s)"
    "lk_held l (upd_cpu (cur s) f s) = lk_held l s" "lk_free l (upd_cpu (cur s) f s) = lk_free l s"
proof -
  have c: "cur (s\<lparr>cpus := (cpus s)[cur s := f (cpus s ! cur s)]\<rparr>) = cur s"
    using find_cpu_upd [of f "lapicid s" "ncpu s" "cpus s" "cur s"] assms(2) by (simp add: cur_def)
  then show cu: "cur (upd_cpu (cur s) f s) = cur s" by (simp add: upd_cpu_def)
  show cc: "curcpu (upd_cpu (cur s) f s) = f (curcpu s)"
    using quiet_cur [OF assms(1)] c by (simp add: upd_cpu_def curcpu_def)
  show "quiet (upd_cpu (cur s) f s)"
    using assms cc cu find_cpu_upd [of f "lapicid s" "ncpu s" "cpus s" "cur s"] by (simp add: quiet_def) (simp add: upd_cpu_def)
  show "lk_held l (upd_cpu (cur s) f s) = lk_held l s" "lk_free l (upd_cpu (cur s) f s) = lk_free l s"
    using assms cu cc by (simp_all add: lk_held_def lk_free_def) (simp_all add: upd_cpu_def)
qed


definition load_task :: "u32 \<Rightarrow> cpu \<Rightarrow> cpu" where
  "load_task k c = c\<lparr>gdt := (gdt c)[SEG_TSS := SEG_CLS ((gdt c)[SEG_TSS := SEG16 STS_T32A (ts_addr (ts c)) 103 0] ! SEG_TSS)],
     ts := (ts c)\<lparr>ss0 := of_nat (SEG_KDATA * 8), esp0 := k + KSTACKSIZE, iomb := 0xFFFF\<rparr>\<rparr>"

lemma load_task_fields [simp]:
  "apicid (load_task k c) = apicid c" "ncli (load_task k c) = ncli c" "intena (load_task k c) = intena c"
  "cproc (load_task k c) = cproc c"
  by (simp_all add: load_task_def)

lemma switchuvm_ok:
  assumes q: "quiet s" and k: "p_kstack (procs s ! p) \<noteq> 0" "p_pgdir (procs s ! p) \<noteq> 0"
  obtains s' where "switchuvm (Some p) s = Ok () s'" "procs s' = procs s" "cr3 s' = V2P (p_pgdir (procs s ! p))"
    "locks s' = locks s" "quiet s'" "cur s' = cur s" "curproc s' = curproc s" "ncli (curcpu s') = ncli (curcpu s)"
    "fl_if s' = fl_if s"
proof -
  let ?f = "load_task (p_kstack (procs s ! p))"
  let ?u = "upd_cpu (cur s) ?f (push s)"
  let ?v = "?u\<lparr>tr := of_nat (SEG_TSS * 8), cr3 := V2P (p_pgdir (procs s ! p))\<rparr>"
  have pr: "procs (push s) = procs s" by (simp add: push_def)
  note u = upd_cur_cpu [of "push s" ?f, simplified cur_push, OF quiet_push [OF q] load_task_fields(1-3)]
  have n: "0 \<le> ncli (curcpu s)" using q by (simp add: quiet_def)
  have v: "quiet ?v" "cur ?v = cur s" "curcpu ?v = ?f (curcpu (push s))" "\<not> fl_if ?v"
    using u by simp_all (simp add: upd_cpu_def)
  have pc: "0 < ncli (curcpu ?v)" using n v(3) by (simp add: curcpu_push [OF q])
  have "switchuvm (Some p) s = popcli ?v"
    using k q quiet_push [OF q]
    by (simp add: switchuvm_def pushcli_eq mycpu_eq Let_def upd_cpu_def load_task_def pr)
  then have "switchuvm (Some p) s = Ok () (pop ?v)" using popcli_eq [OF v(1,4) pc] by simp
  moreover have "quiet (pop ?v)" "cur (pop ?v) = cur s" using quiet_pop [OF v(1) pc] v(2) by simp_all
  moreover have "curproc (pop ?v) = curproc s" "ncli (curcpu (pop ?v)) = ncli (curcpu s)"
    by (simp_all only: curproc_def curcpu_pop [OF v(1)] v(3) curcpu_push [OF q]) simp_all
  moreover have "fl_if (pop ?v) = fl_if s"
    unfolding pop_def using v(3) q n by (auto simp: curcpu_push [OF q] quiet_def)
  moreover have "procs (pop ?v) = procs s" "cr3 (pop ?v) = V2P (p_pgdir (procs s ! p))" "locks (pop ?v) = locks s"
    by (simp_all add: pop_def upd_cpu_def push_def)
  ultimately show ?thesis using that by blast
qed

lemma scan_none:
  assumes "quiet s" "lk_held Lptable s" "\<forall>k. i \<le> k \<and> k < i + n \<longrightarrow> p_state (procs s ! k) \<noteq> RUNNABLE"
  shows "scheduler_scan n i s = Ok None (unhold Lptable s)"
  using assms by (induction n arbitrary: i) (auto simp: release_eq)

lemma scan_pick:
  assumes q: "quiet s" and h: "lk_held Lptable s" and j: "i \<le> j" "j < i + n" "p_state (procs s ! j) = RUNNABLE"
    and f: "\<forall>k. i \<le> k \<and> k < j \<longrightarrow> p_state (procs s ! k) \<noteq> RUNNABLE"
    and k: "p_kstack (procs s ! j) \<noteq> 0" "p_pgdir (procs s ! j) \<noteq> 0"
  obtains s' where "scheduler_scan n i s = Ok (Some j) s'" "procs s' = (procs s)[j := (procs s ! j)\<lparr>p_state := RUNNING\<rparr>]"
    "cr3 s' = V2P (p_pgdir (procs s ! j))" "quiet s'" "lk_held Lptable s'" "curproc s' = Some j" "cur s' = cur s"
    "ncli (curcpu s') = ncli (curcpu s)"
proof -
  let ?t = "upd_cpu (cur s) (\<lambda>c. c\<lparr>cproc := Some j\<rparr>) s"
  note u = upd_cur_cpu [OF q, of "\<lambda>c. c\<lparr>cproc := Some j\<rparr>", simplified]
  have t: "procs ?t = procs s" "fl_if ?t = fl_if s" "locks ?t = locks s" by (simp_all add: upd_cpu_def)
  obtain s1 where s1: "switchuvm (Some j) ?t = Ok () s1" "procs s1 = procs s" "cr3 s1 = V2P (p_pgdir (procs s ! j))"
    "locks s1 = locks s" "quiet s1" "cur s1 = cur s" "curproc s1 = Some j" "ncli (curcpu s1) = ncli (curcpu s)" "fl_if s1 = fl_if s"
    by (rule switchuvm_ok [of ?t j]) (use u t k in \<open>auto simp: curproc_def\<close>)
  have nf: "\<not> fl_if s" using h by (simp add: lk_held_def)
  let ?s' = "upd_proc j (\<lambda>q. q\<lparr>p_state := RUNNING\<rparr>) s1"
  have "scheduler_scan n i s = Ok (Some j) ?s'"
    using j f
  proof (induction n arbitrary: i)
    case (Suc n)
    show ?case
    proof (cases "i = j")
      case True
      then show ?thesis using Suc.prems(3) s1(1) by (simp add: mycpu_eq [OF q nf])
    next
      case False
      then show ?thesis using Suc by auto
    qed
  qed simp
  moreover have "lk_held Lptable s1" using h s1 by (simp add: lk_held_def)
  moreover have "cr3 ?s' = cr3 s1" by (simp add: upd_proc_def)
  ultimately show ?thesis using that [of ?s'] s1 by simp
qed


section \<open>A round\<close>

text \<open>
  \<open>sched_ok s\<close>: what holds when the scheduler looks through the table: the table lock is the only
  lock the CPU has, and a process that is ready or running has a stack and an address space.
\<close>

definition sched_ok :: "'a vst_scheme \<Rightarrow> bool" where
  "sched_ok s \<longleftrightarrow> quiet s \<and> lk_held Lptable s \<and> ncli (curcpu s) = 1 \<and> length (procs s) = NPROC \<and>
     (\<forall>p\<in>set (procs s). p_state p = RUNNABLE \<or> p_state p = RUNNING \<longrightarrow> p_kstack p \<noteq> 0 \<and> p_pgdir p \<noteq> 0)"

definition runnable :: "'a pst_scheme \<Rightarrow> nat \<Rightarrow> bool" where
  "runnable s k \<longleftrightarrow> k < length (procs s) \<and> p_state (procs s ! k) = RUNNABLE"

lemma scan_cases:
  assumes "sched_ok s" "i \<le> NPROC"
  shows "(scheduler_scan (NPROC - i) i s = Ok None (unhold Lptable s) \<and> (\<forall>k \<ge> i. \<not> runnable s k)) \<or>
    (\<exists>j s'. scheduler_scan (NPROC - i) i s = Ok (Some j) s' \<and> i \<le> j \<and> runnable s j \<and>
      (\<forall>k. i \<le> k \<and> k < j \<longrightarrow> \<not> runnable s k) \<and> sched_ok s' \<and> curproc s' = Some j \<and>
      procs s' = (procs s)[j := (procs s ! j)\<lparr>p_state := RUNNING\<rparr>] \<and> cr3 s' = V2P (p_pgdir (procs s ! j)))"
proof (cases "\<exists>k \<ge> i. runnable s k")
  case True
  define j where "j = (LEAST k. i \<le> k \<and> runnable s k)"
  have j: "i \<le> j \<and> runnable s j" using True unfolding j_def by (metis (mono_tags, lifting) LeastI)
  have f: "\<forall>k. i \<le> k \<and> k < j \<longrightarrow> \<not> runnable s k" unfolding j_def using not_less_Least by blast
  have s: "quiet s" "lk_held Lptable s" "length (procs s) = NPROC" using assms(1) by (simp_all add: sched_ok_def)
  have pj: "p_state (procs s ! j) = RUNNABLE" "j < NPROC" using j s(3) by (simp_all add: runnable_def)
  have kj: "p_kstack (procs s ! j) \<noteq> 0" "p_pgdir (procs s ! j) \<noteq> 0"
    using assms(1) pj s(3) by (simp_all add: sched_ok_def)
  have f': "\<forall>k. i \<le> k \<and> k < j \<longrightarrow> p_state (procs s ! k) \<noteq> RUNNABLE"
    using f pj(2) s(3) by (auto simp: runnable_def)
  have jn: "j < i + (NPROC - i)" using pj(2) assms(2) by simp
  obtain s' where s': "scheduler_scan (NPROC - i) i s = Ok (Some j) s'" "procs s' = (procs s)[j := (procs s ! j)\<lparr>p_state := RUNNING\<rparr>]"
    "cr3 s' = V2P (p_pgdir (procs s ! j))" "quiet s'" "lk_held Lptable s'" "curproc s' = Some j" "ncli (curcpu s') = ncli (curcpu s)"
    by (rule scan_pick [OF s(1,2) _ jn pj(1) f' kj]) (use j in auto)
  have "\<forall>p\<in>set (procs s'). p_state p = RUNNABLE \<or> p_state p = RUNNING \<longrightarrow> p_kstack p \<noteq> 0 \<and> p_pgdir p \<noteq> 0"
    using assms(1) kj unfolding s'(2) sched_ok_def by (auto dest!: subsetD [OF set_update_subset_insert])
  then show ?thesis using s' j f s(3) assms(1) by (auto simp: sched_ok_def)
next
  case False
  have "scheduler_scan (NPROC - i) i s = Ok None (unhold Lptable s)"
    using assms False by (intro scan_none) (auto simp: sched_ok_def runnable_def)
  then show ?thesis using False by blast
qed

lemma scheduler_return_scan:
  assumes "sched_ok s"
  obtains t where "scheduler_return i s = scheduler_scan (NPROC - Suc i) (Suc i) t" "sched_ok t" "procs t = procs s"
proof -
  have s: "quiet (switchkvm s)" "lk_held Lptable (switchkvm s)" "\<not> fl_if (switchkvm s)" "curcpu (switchkvm s) = curcpu s"
    "procs (switchkvm s) = procs s"
    using assms by (simp_all add: sched_ok_def switchkvm_def lk_held_def)
  let ?t = "upd_cpu (cur (switchkvm s)) (\<lambda>c. c\<lparr>cproc := None\<rparr>) (switchkvm s)"
  note u = upd_cur_cpu [OF s(1), of "\<lambda>c. c\<lparr>cproc := None\<rparr>", simplified]
  have "scheduler_return i s = scheduler_scan (NPROC - Suc i) (Suc i) ?t"
    by (simp add: scheduler_return_def mycpu_eq [OF s(1,3)] Let_def)
  moreover have "procs ?t = procs s" using s(5) by (simp add: upd_cpu_def)
  ultimately show ?thesis using that [of ?t] u s assms by (simp add: sched_ok_def)
qed


text \<open>
  \<open>sround run r js s\<close>: from the outcome \<open>r\<close> of the scheduler on, the processes \<open>js\<close> run in this
  order, each as \<open>run\<close> says, until the loop over the table is done, in \<open>s\<close>.
\<close>

inductive sround ::
  "(nat \<Rightarrow> 'a vst_scheme \<Rightarrow> 'a vst_scheme \<Rightarrow> bool) \<Rightarrow> ('a vst_scheme, nat option) res \<Rightarrow> nat list \<Rightarrow> 'a vst_scheme \<Rightarrow> bool"
  for run where
    sround_end: "sround run (Ok None s) [] s"
  | sround_run: "run j s s1 \<Longrightarrow> sround run (scheduler_return j s1) js s2 \<Longrightarrow> sround run (Ok (Some j) s) (j # js) s2"

inductive_cases sround_noneE: "sround run (Ok None s) js t"
inductive_cases sround_someE: "sround run (Ok (Some j) s) js t"

text \<open>
  What the scheduler relies on of the code a process runs until it switches back: it comes back
  with the table lock only, and does not take another ready process off the run queue.
\<close>

definition dispatched :: "'a vst_scheme \<Rightarrow> nat \<Rightarrow> bool" where
  "dispatched s j \<longleftrightarrow> sched_ok s \<and> curproc s = Some j \<and> j < NPROC \<and> p_state (procs s ! j) = RUNNING"

locale running =
  fixes run :: "nat \<Rightarrow> 'a vst_scheme \<Rightarrow> 'a vst_scheme \<Rightarrow> bool"
  assumes run_ok: "run j s s' \<Longrightarrow> dispatched s j \<Longrightarrow> sched_ok s'"
    and run_others: "run j s s' \<Longrightarrow> dispatched s j \<Longrightarrow> k \<noteq> j \<Longrightarrow> runnable s k \<Longrightarrow> runnable s' k"
begin

lemma round_fair:
  assumes "sround run r js s'" "r = scheduler_scan (NPROC - i) i t" "sched_ok t" "i \<le> NPROC"
  shows "sorted_wrt (<) js \<and> (\<forall>j\<in>set js. i \<le> j \<and> j < NPROC) \<and> (\<forall>k \<ge> i. runnable t k \<longrightarrow> k \<in> set js)"
  using assms
proof (induction arbitrary: i t rule: sround.induct)
  case (sround_end s)
  then show ?case using scan_cases [OF sround_end(2,3)] by auto
next
  case (sround_run j s s1 js s2)
  from scan_cases [OF sround_run(5,6)] sround_run(4)
  have s: "i \<le> j" "runnable t j" "\<And>k. i \<le> k \<Longrightarrow> k < j \<Longrightarrow> \<not> runnable t k" "sched_ok s" "curproc s = Some j"
    "procs s = (procs t)[j := (procs t ! j)\<lparr>p_state := RUNNING\<rparr>]" by auto
  have j: "j < NPROC" using s(2) sround_run(5) by (simp add: runnable_def sched_ok_def)
  have st: "dispatched s j" using s j sround_run(5) by (simp add: dispatched_def sched_ok_def)
  have s1: "sched_ok s1" using run_ok [OF sround_run(1) st] .
  obtain u where u: "scheduler_return j s1 = scheduler_scan (NPROC - Suc j) (Suc j) u" "sched_ok u" "procs u = procs s1"
    by (rule scheduler_return_scan [OF s1])
  have ih: "sorted_wrt (<) js" "\<forall>k\<in>set js. Suc j \<le> k \<and> k < NPROC" "\<And>k. Suc j \<le> k \<Longrightarrow> runnable u k \<Longrightarrow> k \<in> set js"
    using sround_run(3) [OF u(1,2)] j by auto
  have "k \<in> set (j # js)" if k: "i \<le> k" "runnable t k" for k
  proof (cases "k = j")
    case False
    then have "j < k" using s(3) k by (metis linorder_neqE_nat)
    moreover have "runnable s k" using k(2) s(6) False by (simp add: runnable_def)
    then have "runnable u k" using run_others [OF sround_run(1) st False] u(3) by (simp add: runnable_def)
    ultimately show ?thesis using ih(3) by simp
  qed simp
  then show ?case using ih(1,2) s(1) j by fastforce
qed

end

text \<open>A process that always gives the CPU back, in one way or another.\<close>

locale live_run = running run
  for run :: "nat \<Rightarrow> 'a vst_scheme \<Rightarrow> 'a vst_scheme \<Rightarrow> bool" +
  assumes run_total: "dispatched s j \<Longrightarrow> \<exists>s'. run j s s'"
begin

lemma round_ends:
  assumes "sched_ok t" "i \<le> NPROC"
  shows "\<exists>js s'. sround run (scheduler_scan (NPROC - i) i t) js s'"
  using assms
proof (induction "NPROC - i" arbitrary: i t rule: less_induct)
  case less
  from scan_cases [OF less.prems]
  show ?case
  proof (elim disjE exE conjE)
    assume "scheduler_scan (NPROC - i) i t = Ok None (unhold Lptable t)"
    then show ?thesis using sround_end by metis
  next
    fix j s assume s: "scheduler_scan (NPROC - i) i t = Ok (Some j) s" "i \<le> j" "runnable t j" "sched_ok s" "curproc s = Some j"
      "procs s = (procs t)[j := (procs t ! j)\<lparr>p_state := RUNNING\<rparr>]"
    have j: "j < NPROC" "j < length (procs t)" using s(3) less.prems(1) by (simp_all add: runnable_def sched_ok_def)
    have st: "dispatched s j" using s j by (simp add: dispatched_def)
    then obtain s1 where s1: "run j s s1" using run_total by blast
    obtain u where u: "scheduler_return j s1 = scheduler_scan (NPROC - Suc j) (Suc j) u" "sched_ok u"
      by (rule scheduler_return_scan [OF run_ok [OF s1 st]])
    have "NPROC - Suc j < NPROC - i" "Suc j \<le> NPROC" using s(2) j by auto
    from less.hyps [OF this(1) u(2) this(2)] show ?thesis unfolding s(1) u(1) [symmetric] using sround_run [of run j s s1] s1 by blast
  qed
qed

end


section \<open>Processes that yield\<close>

text \<open>
  The least a process does between two switches: it gives up the table lock it was dispatched
  with, as \<open>forkret\<close> and \<open>yield\<close> do, and at the next clock tick calls \<open>yield\<close>.
\<close>

definition yields :: "nat \<Rightarrow> 'a vst_scheme \<Rightarrow> 'a vst_scheme \<Rightarrow> bool" where
  "yields j s s' \<longleftrightarrow> (\<exists>u. release Lptable s = Ok () u \<and> yield u = Sleeps s')"

lemma yield_eq:
  fixes s :: "'a vst_scheme"
  assumes "dispatched s j"
  shows "yield (unhold Lptable s) = Sleeps (upd_proc j (\<lambda>q. q\<lparr>p_state := RUNNABLE,
    p_context := (p_context q)\<lparr>cx_eip := Insched (intena (curcpu s))\<rparr>\<rparr>) (hold Lptable (unhold Lptable s)))"
proof -
  have s: "quiet s" "lk_held Lptable s" "ncli (curcpu s) = 1" and c: "curproc s = Some j" and j: "j < length (procs s)"
    using assms by (simp_all add: dispatched_def sched_ok_def)
  let ?u = "unhold Lptable s" let ?t = "hold Lptable ?u"
  note u = unhold_lemmas [OF s(1,2)]
  have n: "ncli (cpus ?t ! cur s) = 1" "intena (cpus ?t ! cur s) = intena (curcpu s)"
    using hold_lemmas(1,4) [OF u(1), of Lptable] u(2,4,8) s(3) unfolding curcpu_def by simp_all
  show ?thesis
    using u c j n hold_lemmas [OF u(1), of Lptable]
    by (simp add: yield_def lock_eqs sched_def Let_def mycpu_eq)
qed

lemma yields_iff:
  assumes "dispatched s j"
  shows "yields j s s' \<longleftrightarrow> s' = upd_proc j (\<lambda>q. q\<lparr>p_state := RUNNABLE,
    p_context := (p_context q)\<lparr>cx_eip := Insched (intena (curcpu s))\<rparr>\<rparr>) (hold Lptable (unhold Lptable s))"
  using assms yield_eq [OF assms] by (auto simp: yields_def dispatched_def sched_ok_def release_eq)

interpretation yielding: live_run yields
proof
  fix j and s s' :: "'a vst_scheme" and k
  assume st: "dispatched s j" and "yields j s s'"
  then have s': "s' = upd_proc j (\<lambda>q. q\<lparr>p_state := RUNNABLE,
      p_context := (p_context q)\<lparr>cx_eip := Insched (intena (curcpu s))\<rparr>\<rparr>) (hold Lptable (unhold Lptable s))"
    by (simp add: yields_iff)
  have s: "quiet s" "lk_held Lptable s" "ncli (curcpu s) = 1" "length (procs s) = NPROC" "j < NPROC" "p_state (procs s ! j) = RUNNING"
    "\<forall>p\<in>set (procs s). p_state p = RUNNABLE \<or> p_state p = RUNNING \<longrightarrow> p_kstack p \<noteq> 0 \<and> p_pgdir p \<noteq> 0"
    using st by (simp_all add: dispatched_def sched_ok_def)
  note u = unhold_lemmas [OF s(1,2)]
  have "p_kstack (procs s ! j) \<noteq> 0 \<and> p_pgdir (procs s ! j) \<noteq> 0" using s(4-7) by simp
  then show "sched_ok s'"
    using s u hold_lemmas [OF u(1)] unfolding s' sched_ok_def
    by (auto dest!: subsetD [OF set_update_subset_insert])
  show "k \<noteq> j \<Longrightarrow> runnable s k \<Longrightarrow> runnable s' k" unfolding s' by (simp add: runnable_def)
next
  fix j and s :: "'a vst_scheme" assume "dispatched s j"
  then show "\<exists>s'. yields j s s'" by (simp add: yields_iff)
qed


section \<open>Properties\<close>

text \<open>A CPU at the head of the scheduler's outer loop, after its first time through it.\<close>

definition round_ready :: "'a vst_scheme \<Rightarrow> bool" where
  "round_ready s \<longleftrightarrow> quiet (s\<lparr>fl_if := True\<rparr>) \<and> lk_free Lptable s \<and> length (procs s) = NPROC \<and>
     (\<forall>p\<in>set (procs s). p_state p = RUNNABLE \<or> p_state p = RUNNING \<longrightarrow> p_kstack p \<noteq> 0 \<and> p_pgdir p \<noteq> 0)"

lemma round_scan:
  assumes "round_ready s"
  obtains t where "scheduler_round s = scheduler_scan (NPROC - 0) 0 t" "sched_ok t" "procs t = procs s"
proof -
  let ?s = "s\<lparr>fl_if := True\<rparr>"
  have q: "quiet ?s" "lk_free Lptable ?s" using assms by (simp_all add: round_ready_def lk_free_def)
  then have "ncli (curcpu ?s) = 0" by (simp add: quiet_def)
  then have "sched_ok (hold Lptable ?s)"
    using q assms by (simp add: sched_ok_def round_ready_def hold_lemmas)
  then show ?thesis using that [of "hold Lptable ?s"] q by (simp add: scheduler_round_def acquire_eq)
qed

text \<open>
  C14: a round of the scheduler never fails. When no process is ready it ends with the table lock
  free; otherwise it picks the first ready process of the table, makes it the CPU's process, loads
  its page table and marks it running, with the table lock taken.
\<close>

theorem scheduler_picks_first:
  assumes "round_ready s"
  shows "(\<forall>k. \<not> runnable s k) \<and> (\<exists>t. scheduler_round s = Ok None t \<and> lk_free Lptable t \<and> procs t = procs s) \<or>
    (\<exists>j t. scheduler_round s = Ok (Some j) t \<and> runnable s j \<and> (\<forall>k < j. \<not> runnable s k) \<and> lk_held Lptable t \<and>
      curproc t = Some j \<and> cr3 t = V2P (p_pgdir (procs s ! j)) \<and>
      procs t = (procs s)[j := (procs s ! j)\<lparr>p_state := RUNNING\<rparr>])"
proof -
  obtain t where t: "scheduler_round s = scheduler_scan (NPROC - 0) 0 t" "sched_ok t" "procs t = procs s"
    by (rule round_scan [OF assms])
  have r: "runnable t k = runnable s k" for k using t(3) by (simp add: runnable_def)
  have h: "quiet t" "lk_held Lptable t" using t(2) by (simp_all add: sched_ok_def)
  have f: "lk_free Lptable (unhold Lptable t)" by (rule unhold_lemmas(5) [OF h])
  show ?thesis using scan_cases [OF t(2) le0] f
    unfolding t(1) r t(3) by (auto simp: t(3) sched_ok_def)
qed



definition ex_ready :: proc where
  "ex_ready = zero_proc\<lparr>p_state := RUNNABLE, p_kstack := 0x80500000, p_pgdir := 0x80501000\<rparr>"

definition ex_vst :: vst where
  "ex_vst = pst.extend (ex_pst\<lparr>procs := (replicate NPROC zero_proc)[3 := ex_ready, 5 := ex_ready]\<rparr>) \<lparr>kpgdir = 0x80500000, cr3 = 0, tr = 0\<rparr>"

lemma ex_vst_ready: "round_ready ex_vst"
proof -
  have "lst.truncate (ex_vst\<lparr>fl_if := True\<rparr>) = ex_lst"
    by (simp add: ex_vst_def pst.defs ex_pst_def cst.defs ex_cst_def mst.defs ex_mst_def lst.defs ex_lst_def)
  then have "quiet (ex_vst\<lparr>fl_if := True\<rparr>)" "lk_free Lptable (ex_vst\<lparr>fl_if := True\<rparr>)"
    using lst_truncate(1) [of "ex_vst\<lparr>fl_if := True\<rparr>"] lst_truncate(2) [of Lptable "ex_vst\<lparr>fl_if := True\<rparr>"] ex_lst_ready by simp_all
  moreover have "set (procs ex_vst) \<subseteq> {zero_proc, ex_ready}"
    by (auto simp: ex_vst_def pst.defs dest!: subsetD [OF set_update_subset_insert] split: if_splits)
  moreover have "length (procs ex_vst) = NPROC" by (simp add: ex_vst_def pst.defs)
  ultimately show ?thesis by (auto simp: round_ready_def lk_free_def ex_ready_def zero_proc_def)
qed

theorem scheduler_picks_first_witness:
  "(\<forall>k. \<not> runnable ex_vst k) \<and> (\<exists>t. scheduler_round ex_vst = Ok None t \<and> lk_free Lptable t \<and> procs t = procs ex_vst) \<or>
    (\<exists>j t. scheduler_round ex_vst = Ok (Some j) t \<and> runnable ex_vst j \<and> (\<forall>k < j. \<not> runnable ex_vst k) \<and> lk_held Lptable t \<and>
      curproc t = Some j \<and> cr3 t = V2P (p_pgdir (procs ex_vst ! j)) \<and>
      procs t = (procs ex_vst)[j := (procs ex_vst ! j)\<lparr>p_state := RUNNING\<rparr>])"
  by (rule scheduler_picks_first [OF ex_vst_ready])


end
