(* ===== verification/Fsformat.thy ===== *)
theory Fsformat
  imports Prelude
begin

text \<open>
  kernel/fs.h: the on-disk format. A disk block is a list of \<open>BSIZE\<close> bytes; the structures the
  kernel casts a block to are read and written at their byte offsets, least significant byte
  first.
\<close>

section \<open>Integers in a block\<close>

definition get16 :: "u8 list \<Rightarrow> nat \<Rightarrow> u16" where
  "get16 bs i = ucast (bs ! i) + ucast (bs ! (i + 1)) * 0x100"

definition get32 :: "u8 list \<Rightarrow> nat \<Rightarrow> u32" where
  "get32 bs i = ucast (bs ! i) + ucast (bs ! (i + 1)) * 0x100
     + ucast (bs ! (i + 2)) * 0x10000 + ucast (bs ! (i + 3)) * 0x1000000"

definition bytes16 :: "u16 \<Rightarrow> u8 list" where
  "bytes16 w = [ucast w, ucast (drop_bit 8 w)]"

definition bytes32 :: "u32 \<Rightarrow> u8 list" where
  "bytes32 w = [ucast w, ucast (drop_bit 8 w), ucast (drop_bit 16 w), ucast (drop_bit 24 w)]"

text \<open>Overwrite the bytes of \<open>bs\<close> from offset \<open>i\<close> on.\<close>

definition put :: "u8 list \<Rightarrow> nat \<Rightarrow> u8 list \<Rightarrow> u8 list" where
  "put bs i new = take i bs @ new @ drop (i + length new) bs"

section \<open>The structures of fs.h\<close>

abbreviation (input) ROOTINO :: u32 where "ROOTINO \<equiv> 1"
abbreviation (input) BSIZE :: nat where "BSIZE \<equiv> 512"

record superblock =
  sb_size :: u32
  sb_nblocks :: u32
  sb_ninodes :: u32
  sb_nlog :: u32
  sb_logstart :: u32
  sb_inodestart :: u32
  sb_bmapstart :: u32

definition get_superblock :: "u8 list \<Rightarrow> superblock" where
  "get_superblock bs = \<lparr>sb_size = get32 bs 0, sb_nblocks = get32 bs 4, sb_ninodes = get32 bs 8,
     sb_nlog = get32 bs 12, sb_logstart = get32 bs 16, sb_inodestart = get32 bs 20,
     sb_bmapstart = get32 bs 24\<rparr>"

abbreviation (input) NDIRECT :: nat where "NDIRECT \<equiv> 12"
abbreviation (input) NINDIRECT :: nat where "NINDIRECT \<equiv> 128"
abbreviation (input) MAXFILE :: nat where "MAXFILE \<equiv> NDIRECT + NINDIRECT"

record dinode =
  di_type :: u16
  di_major :: u16
  di_minor :: u16
  di_nlink :: u16
  di_size :: u32
  di_addrs :: "u32 list"

text \<open>A \<open>dinode\<close> takes 64 bytes.\<close>

definition get_dinode :: "u8 list \<Rightarrow> nat \<Rightarrow> dinode" where
  "get_dinode bs i = \<lparr>di_type = get16 bs i, di_major = get16 bs (i + 2),
     di_minor = get16 bs (i + 4), di_nlink = get16 bs (i + 6), di_size = get32 bs (i + 8),
     di_addrs = map (\<lambda>k. get32 bs (i + 12 + 4 * k)) [0..<NDIRECT + 1]\<rparr>"

definition bytes_dinode :: "dinode \<Rightarrow> u8 list" where
  "bytes_dinode d = bytes16 (di_type d) @ bytes16 (di_major d) @ bytes16 (di_minor d)
     @ bytes16 (di_nlink d) @ bytes32 (di_size d) @ concat (map bytes32 (di_addrs d))"

abbreviation (input) IPB :: nat where "IPB \<equiv> 8"

definition IBLOCK :: "u32 \<Rightarrow> superblock \<Rightarrow> u32" where
  "IBLOCK i sb = i div of_nat IPB + sb_inodestart sb"

abbreviation (input) BPB :: nat where "BPB \<equiv> 4096"

definition BBLOCK :: "u32 \<Rightarrow> superblock \<Rightarrow> u32" where
  "BBLOCK b sb = b div of_nat BPB + sb_bmapstart sb"

abbreviation (input) DIRSIZ :: nat where "DIRSIZ \<equiv> 14"

record dirent =
  de_inum :: u16
  de_name :: "u8 list"

definition get_dirent :: "u8 list \<Rightarrow> dirent" where
  "get_dirent bs = \<lparr>de_inum = get16 bs 0, de_name = take DIRSIZ (drop 2 bs)\<rparr>"

definition bytes_dirent :: "dirent \<Rightarrow> u8 list" where
  "bytes_dirent d = bytes16 (de_inum d) @ de_name d"

section \<open>Lemmas\<close>

lemma length_bytes [simp]: "length (bytes16 w) = 2" "length (bytes32 v) = 4"
  by (simp_all add: bytes16_def bytes32_def)

lemma length_put [simp]: "i + length new \<le> length bs \<Longrightarrow> length (put bs i new) = length bs"
  by (simp add: put_def)

lemma nth_put:
  assumes "i + length new \<le> length bs" "j < length bs"
  shows "put bs i new ! j = (if i \<le> j \<and> j < i + length new then new ! (j - i) else bs ! j)"
  using assms by (auto simp: put_def nth_append)

lemma put_outside:
  "i + length new \<le> length bs \<Longrightarrow> j < length bs \<Longrightarrow> j < i \<or> i + length new \<le> j \<Longrightarrow> put bs i new ! j = bs ! j"
  by (auto simp: nth_put)

end
