(* ===== verification/Bio.thy ===== *)
theory Bio
  imports Sleeplock Fsformat
begin

unbundle bit_operations_syntax

text \<open>
  kernel/bio.c, kernel/buf.h and kernel/memide.c: the buffer cache over the memory disk. A
  pointer to a buffer is its index; in the list through \<open>prev\<close> and \<open>next\<close>, \<open>None\<close> is the pointer to
  \<open>bcache.head\<close>. A byte array \<open>data\<close> is a list of \<open>BSIZE\<close> bytes.

  The disk is a function from block numbers to blocks. Its model also keeps the sequence of
  the blocks written (\<open>dk_hist\<close>), from which the states a power failure can leave are read off.
\<close>

section \<open>State\<close>

abbreviation (input) NBUF :: nat where "NBUF \<equiv> 30"
abbreviation (input) B_VALID :: u32 where "B_VALID \<equiv> 2"
abbreviation (input) B_DIRTY :: u32 where "B_DIRTY \<equiv> 4"

type_synonym block = "u8 list"

record buf =
  b_flags :: u32
  b_dev :: u32
  b_blockno :: u32
  b_refcnt :: u32
  b_prev :: "nat option"
  b_next :: "nat option"
  b_data :: block

record bcache =
  bufs :: "buf list"
  head_prev :: "nat option"
  head_next :: "nat option"
  disk :: "u32 \<Rightarrow> block"
  disksize :: u32
  dk_hist :: "(u32 \<times> block) list"

record bst = sst +
  bc :: bcache

lemma lock_fields_bst [simp]:
  "bc (hold l s) = bc s"
  "bc (unhold l s) = bc s"
  by (simp_all add: hold_def unhold_def push_def pop_def)

lemma lock_update_bst [simp]:
  "hold l (s\<lparr>bc := x_bc\<rparr>) = (hold l s)\<lparr>bc := x_bc\<rparr>"
  "unhold l (s\<lparr>bc := x_bc\<rparr>) = (unhold l s)\<lparr>bc := x_bc\<rparr>"
  by (simp_all add: unhold_def pop_def hold_def push_def curcpu_def cur_def)

lemma cpu_frame_bst [simp]:
  "cur (s\<lparr>bc := x_bc\<rparr>) = cur s"
  "curcpu (s\<lparr>bc := x_bc\<rparr>) = curcpu s"
  "curproc (s\<lparr>bc := x_bc\<rparr>) = curproc s"
  "quiet (s\<lparr>bc := x_bc\<rparr>) = quiet s"
  "lk_free l (s\<lparr>bc := x_bc\<rparr>) = lk_free l s"
  "lk_held l (s\<lparr>bc := x_bc\<rparr>) = lk_held l s"
  by (simp_all add: cur_def curcpu_def curproc_def quiet_def lk_free_def lk_held_def)

lemma inv_frame_bst [simp]:
  "km_ready (s\<lparr>bc := x_bc\<rparr>) = km_ready s"
  "free_inv (s\<lparr>bc := x_bc\<rparr>) xs = free_inv s xs"
  "cons_ok (s\<lparr>bc := x_bc\<rparr>) = cons_ok s"
  by (simp_all add: km_ready_def free_inv_def cons_ok_def)

definition upd_bc :: "(bcache \<Rightarrow> bcache) \<Rightarrow> 'a bst_scheme \<Rightarrow> 'a bst_scheme" where
  "upd_bc f s = s\<lparr>bc := f (bc s)\<rparr>"

definition upd_buf :: "nat \<Rightarrow> (buf \<Rightarrow> buf) \<Rightarrow> 'a bst_scheme \<Rightarrow> 'a bst_scheme" where
  "upd_buf i f s = upd_bc (\<lambda>c. c\<lparr>bufs := (bufs c)[i := f (bufs c ! i)]\<rparr>) s"

abbreviation buf_at :: "'a bst_scheme \<Rightarrow> nat \<Rightarrow> buf" where
  "buf_at s i \<equiv> bufs (bc s) ! i"

section \<open>The linked list\<close>

definition set_next :: "nat option \<Rightarrow> nat option \<Rightarrow> 'a bst_scheme \<Rightarrow> 'a bst_scheme" where
  "set_next p q s = (case p of None \<Rightarrow> upd_bc (\<lambda>c. c\<lparr>head_next := q\<rparr>) s
     | Some i \<Rightarrow> upd_buf i (\<lambda>b. b\<lparr>b_next := q\<rparr>) s)"

definition set_prev :: "nat option \<Rightarrow> nat option \<Rightarrow> 'a bst_scheme \<Rightarrow> 'a bst_scheme" where
  "set_prev p q s = (case p of None \<Rightarrow> upd_bc (\<lambda>c. c\<lparr>head_prev := q\<rparr>) s
     | Some i \<Rightarrow> upd_buf i (\<lambda>b. b\<lparr>b_prev := q\<rparr>) s)"

text \<open>Putting buffer \<open>i\<close> right after the head, as \<open>binit\<close> and \<open>brelse\<close> do.\<close>

definition link_front :: "nat \<Rightarrow> 'a bst_scheme \<Rightarrow> 'a bst_scheme" where
  "link_front i s =
     (let s = upd_buf i (\<lambda>b. b\<lparr>b_next := head_next (bc s)\<rparr>) s;
          s = upd_buf i (\<lambda>b. b\<lparr>b_prev := None\<rparr>) s;
          s = set_prev (head_next (bc s)) (Some i) s in
      upd_bc (\<lambda>c. c\<lparr>head_next := Some i\<rparr>) s)"

fun binit_loop :: "nat list \<Rightarrow> 'a bst_scheme \<Rightarrow> 'a bst_scheme" where
  "binit_loop [] s = s"
| "binit_loop (i # is) s = binit_loop is (link_front i (initsleeplock (Lbufsleep i) ''buffer'' s))"

definition binit :: "'a bst_scheme \<Rightarrow> 'a bst_scheme" where
  "binit s =
     (let s = initlock Lbcache ''bcache'' s;
          s = upd_bc (\<lambda>c. c\<lparr>head_prev := None, head_next := None\<rparr>) s in
      binit_loop [0..<NBUF] s)"

section \<open>The memory disk\<close>

definition ideinit :: "(u32 \<Rightarrow> block) \<Rightarrow> u32 \<Rightarrow> 'a bst_scheme \<Rightarrow> 'a bst_scheme" where
  "ideinit img sz s = upd_bc (\<lambda>c. c\<lparr>disk := img, disksize := sz div of_nat BSIZE\<rparr>) s"

definition iderw :: "nat \<Rightarrow> 'a bst_scheme \<Rightarrow> ('a bst_scheme, unit) res" where
  "iderw i s =
     bind (holdingsleep (Lbufsleep i) s) (\<lambda>h s.
     let b = buf_at s i in
     if \<not> h then Panic ''iderw: buf not locked''
     else if b_flags b AND (B_VALID OR B_DIRTY) = B_VALID then Panic ''iderw: nothing to do''
     else if b_dev b \<noteq> 1 then Panic ''iderw: request not for disk 1''
     else if b_blockno b \<ge> disksize (bc s) then Panic ''iderw: block out of range''
     else
       let s = (if b_flags b AND B_DIRTY \<noteq> 0 then
                  let s = upd_buf i (\<lambda>b. b\<lparr>b_flags := b_flags b AND NOT B_DIRTY\<rparr>) s in
                  upd_bc (\<lambda>c. c\<lparr>disk := (disk c)(b_blockno b := b_data b),
                    dk_hist := dk_hist c @ [(b_blockno b, b_data b)]\<rparr>) s
                else upd_buf i (\<lambda>b. b\<lparr>b_data := disk (bc s) (b_blockno b)\<rparr>) s) in
       Ok () (upd_buf i (\<lambda>b. b\<lparr>b_flags := b_flags b OR B_VALID\<rparr>) s))"

section \<open>The cache\<close>

text \<open>
  The two searches of \<open>bget\<close>, along \<open>next\<close> and along \<open>prev\<close>; on a list that never comes back to
  the head they do not end.
\<close>

fun scan_next :: "nat \<Rightarrow> (buf \<Rightarrow> bool) \<Rightarrow> nat option \<Rightarrow> 'a bst_scheme \<Rightarrow> ('a bst_scheme, nat option) res" where
  "scan_next 0 P p s = Hang"
| "scan_next (Suc n) P p s = (case p of None \<Rightarrow> Ok None s
     | Some i \<Rightarrow> if P (buf_at s i) then Ok (Some i) s else scan_next n P (b_next (buf_at s i)) s)"

fun scan_prev :: "nat \<Rightarrow> (buf \<Rightarrow> bool) \<Rightarrow> nat option \<Rightarrow> 'a bst_scheme \<Rightarrow> ('a bst_scheme, nat option) res" where
  "scan_prev 0 P p s = Hang"
| "scan_prev (Suc n) P p s = (case p of None \<Rightarrow> Ok None s
     | Some i \<Rightarrow> if P (buf_at s i) then Ok (Some i) s else scan_prev n P (b_prev (buf_at s i)) s)"

definition bget :: "u32 \<Rightarrow> u32 \<Rightarrow> 'a bst_scheme \<Rightarrow> ('a bst_scheme, nat) res" where
  "bget dev blockno s =
     bind (acquire Lbcache s) (\<lambda>_ s.
     bind (scan_next (NBUF + 1) (\<lambda>b. b_dev b = dev \<and> b_blockno b = blockno) (head_next (bc s)) s) (\<lambda>r s.
     case r of
       Some i \<Rightarrow>
         let s = upd_buf i (\<lambda>b. b\<lparr>b_refcnt := b_refcnt b + 1\<rparr>) s in
         bind (release Lbcache s) (\<lambda>_ s.
         bind (acquiresleep (Lbufsleep i) s) (\<lambda>_ s. Ok i s))
     | None \<Rightarrow>
         bind (scan_prev (NBUF + 1) (\<lambda>b. b_refcnt b = 0 \<and> b_flags b AND B_DIRTY = 0) (head_prev (bc s)) s) (\<lambda>r s.
         case r of
           Some i \<Rightarrow>
             let s = upd_buf i (\<lambda>b. b\<lparr>b_dev := dev, b_blockno := blockno, b_flags := 0, b_refcnt := 1\<rparr>) s in
             bind (release Lbcache s) (\<lambda>_ s.
             bind (acquiresleep (Lbufsleep i) s) (\<lambda>_ s. Ok i s))
         | None \<Rightarrow> Panic ''bget: no buffers'')))"

definition bread :: "u32 \<Rightarrow> u32 \<Rightarrow> 'a bst_scheme \<Rightarrow> ('a bst_scheme, nat) res" where
  "bread dev blockno s =
     bind (bget dev blockno s) (\<lambda>i s.
     bind (if b_flags (buf_at s i) AND B_VALID = 0 then iderw i s else Ok () s) (\<lambda>_ s. Ok i s))"

definition bwrite :: "nat \<Rightarrow> 'a bst_scheme \<Rightarrow> ('a bst_scheme, unit) res" where
  "bwrite i s =
     bind (holdingsleep (Lbufsleep i) s) (\<lambda>h s.
     if \<not> h then Panic ''bwrite''
     else iderw i (upd_buf i (\<lambda>b. b\<lparr>b_flags := b_flags b OR B_DIRTY\<rparr>) s))"

definition brelse :: "nat \<Rightarrow> 'a bst_scheme \<Rightarrow> ('a bst_scheme, unit) res" where
  "brelse i s =
     bind (holdingsleep (Lbufsleep i) s) (\<lambda>h s.
     if \<not> h then Panic ''brelse''
     else
       bind (releasesleep (Lbufsleep i) s) (\<lambda>_ s.
       bind (acquire Lbcache s) (\<lambda>_ s.
       let s = upd_buf i (\<lambda>b. b\<lparr>b_refcnt := b_refcnt b - 1\<rparr>) s;
           s = (if b_refcnt (buf_at s i) = 0 then
                  let s = set_prev (b_next (buf_at s i)) (b_prev (buf_at s i)) s;
                      s = set_next (b_prev (buf_at s i)) (b_next (buf_at s i)) s in
                  link_front i s
                else s) in
       release Lbcache s)))"

end
