(* ===== verification/Log.thy ===== *)
theory Log
  imports Bio
begin

unbundle bit_operations_syntax

text \<open>
  kernel/log.c: the redo log that makes the block writes of a file system call atomic. The
  global \<open>log\<close> is one record of the state; the integers it holds are C \<open>int\<close>s.
\<close>

section \<open>State\<close>

abbreviation (input) MAXOPBLOCKS :: int where "MAXOPBLOCKS \<equiv> 10"
abbreviation (input) LOGSIZE :: int where "LOGSIZE \<equiv> 30"
abbreviation (input) ROOTDEV :: u32 where "ROOTDEV \<equiv> 1"

record log =
  lg_start :: int
  lg_size :: int
  lg_outstanding :: int
  lg_committing :: bool
  lg_dev :: int
  lh_n :: int
  lh_block :: "int list"

record gst = bst +
  lg :: log

lemma lock_fields_gst [simp]:
  "lg (hold l s) = lg s"
  "lg (unhold l s) = lg s"
  by (simp_all add: hold_def unhold_def push_def pop_def)

lemma lock_update_gst [simp]:
  "hold l (s\<lparr>lg := x_lg\<rparr>) = (hold l s)\<lparr>lg := x_lg\<rparr>"
  "unhold l (s\<lparr>lg := x_lg\<rparr>) = (unhold l s)\<lparr>lg := x_lg\<rparr>"
  by (simp_all add: unhold_def pop_def hold_def push_def curcpu_def cur_def)

lemma cpu_frame_gst [simp]:
  "cur (s\<lparr>lg := x_lg\<rparr>) = cur s"
  "curcpu (s\<lparr>lg := x_lg\<rparr>) = curcpu s"
  "curproc (s\<lparr>lg := x_lg\<rparr>) = curproc s"
  "quiet (s\<lparr>lg := x_lg\<rparr>) = quiet s"
  "lk_free l (s\<lparr>lg := x_lg\<rparr>) = lk_free l s"
  "lk_held l (s\<lparr>lg := x_lg\<rparr>) = lk_held l s"
  by (simp_all add: cur_def curcpu_def curproc_def quiet_def lk_free_def lk_held_def)

lemma inv_frame_gst [simp]:
  "km_ready (s\<lparr>lg := x_lg\<rparr>) = km_ready s"
  "free_inv (s\<lparr>lg := x_lg\<rparr>) xs = free_inv s xs"
  "cons_ok (s\<lparr>lg := x_lg\<rparr>) = cons_ok s"
  by (simp_all add: km_ready_def free_inv_def cons_ok_def)

definition upd_lg :: "(log \<Rightarrow> log) \<Rightarrow> 'a gst_scheme \<Rightarrow> 'a gst_scheme" where
  "upd_lg f s = s\<lparr>lg := f (lg s)\<rparr>"

section \<open>Reading and writing the log\<close>

text \<open>The header block holds \<open>n\<close> and then the block numbers, four bytes each.\<close>

definition hd_n :: "block \<Rightarrow> int" where
  "hd_n bs = sint (get32 bs 0)"

definition hd_block :: "block \<Rightarrow> nat \<Rightarrow> int" where
  "hd_block bs i = sint (get32 bs (4 + 4 * i))"

definition readsb :: "u32 \<Rightarrow> 'a bst_scheme \<Rightarrow> ('a bst_scheme, superblock) res" where
  "readsb dev s =
     bind (bread dev 1 s) (\<lambda>b s.
     let sb = get_superblock (b_data (buf_at s b)) in
     bind (brelse b s) (\<lambda>_ s. Ok sb s))"

text \<open>
  The loops over the header run \<open>n\<close> times, for the \<open>n\<close> of the header; an index past the array is
  outside it.
\<close>

fun install_trans_loop :: "nat list \<Rightarrow> 'a gst_scheme \<Rightarrow> ('a gst_scheme, unit) res" where
  "install_trans_loop [] s = Ok () s"
| "install_trans_loop (tail # tails) s =
     (if tail \<ge> length (lh_block (lg s)) then Fault
      else
        bind (bread (of_int (lg_dev (lg s))) (of_int (lg_start (lg s) + int tail + 1)) s) (\<lambda>lbuf s.
        bind (bread (of_int (lg_dev (lg s))) (of_int (lh_block (lg s) ! tail)) s) (\<lambda>dbuf s.
        let s = upd_buf dbuf (\<lambda>b. b\<lparr>b_data := b_data (buf_at s lbuf)\<rparr>) s in
        bind (bwrite dbuf s) (\<lambda>_ s.
        bind (brelse lbuf s) (\<lambda>_ s.
        bind (brelse dbuf s) (\<lambda>_ s. install_trans_loop tails s))))))"

definition install_trans :: "'a gst_scheme \<Rightarrow> ('a gst_scheme, unit) res" where
  "install_trans s = install_trans_loop [0..<nat (lh_n (lg s))] s"

fun read_head_loop :: "nat list \<Rightarrow> block \<Rightarrow> 'a gst_scheme \<Rightarrow> ('a gst_scheme, unit) res" where
  "read_head_loop [] bs s = Ok () s"
| "read_head_loop (i # is) bs s =
     (if i \<ge> length (lh_block (lg s)) then Fault
      else read_head_loop is bs (upd_lg (\<lambda>l. l\<lparr>lh_block := (lh_block l)[i := hd_block bs i]\<rparr>) s))"

definition read_head :: "'a gst_scheme \<Rightarrow> ('a gst_scheme, unit) res" where
  "read_head s =
     bind (bread (of_int (lg_dev (lg s))) (of_int (lg_start (lg s))) s) (\<lambda>b s.
     let s = upd_lg (\<lambda>l. l\<lparr>lh_n := hd_n (b_data (buf_at s b))\<rparr>) s in
     bind (read_head_loop [0..<nat (lh_n (lg s))] (b_data (buf_at s b)) s) (\<lambda>_ s. brelse b s))"

fun write_head_loop :: "nat list \<Rightarrow> nat \<Rightarrow> 'a gst_scheme \<Rightarrow> ('a gst_scheme, unit) res" where
  "write_head_loop [] b s = Ok () s"
| "write_head_loop (i # is) b s =
     (if i \<ge> length (lh_block (lg s)) then Fault
      else write_head_loop is b (upd_buf b (\<lambda>c. c\<lparr>b_data :=
             put (b_data c) (4 + 4 * i) (bytes32 (of_int (lh_block (lg s) ! i)))\<rparr>) s))"

definition write_head :: "'a gst_scheme \<Rightarrow> ('a gst_scheme, unit) res" where
  "write_head s =
     bind (bread (of_int (lg_dev (lg s))) (of_int (lg_start (lg s))) s) (\<lambda>b s.
     let s = upd_buf b (\<lambda>c. c\<lparr>b_data := put (b_data c) 0 (bytes32 (of_int (lh_n (lg s))))\<rparr>) s in
     bind (write_head_loop [0..<nat (lh_n (lg s))] b s) (\<lambda>_ s.
     bind (bwrite b s) (\<lambda>_ s. brelse b s)))"

definition recover_from_log :: "'a gst_scheme \<Rightarrow> ('a gst_scheme, unit) res" where
  "recover_from_log s =
     bind (read_head s) (\<lambda>_ s.
     bind (install_trans s) (\<lambda>_ s.
     write_head (upd_lg (\<lambda>l. l\<lparr>lh_n := 0\<rparr>) s)))"

definition initlog :: "u32 \<Rightarrow> 'a gst_scheme \<Rightarrow> ('a gst_scheme, unit) res" where
  "initlog dev s =
     (if 4 + 4 * LOGSIZE \<ge> int BSIZE then Panic ''initlog: too big logheader''
      else
        let s = initlock Llog ''log'' s in
        bind (readsb dev s) (\<lambda>sb s.
        let s = upd_lg (\<lambda>l. l\<lparr>lg_start := sint (sb_logstart sb), lg_size := sint (sb_nlog sb),
                  lg_dev := sint dev\<rparr>) s in
        recover_from_log s))"

section \<open>Transactions\<close>

text \<open>The loop of \<open>begin_op\<close>; after a wakeup it runs again.\<close>

definition begin_op_loop :: "'a gst_scheme \<Rightarrow> ('a gst_scheme, unit) res" where
  "begin_op_loop s =
     (if lg_committing (lg s) then sleep Clog (Some Llog) s
      else if lh_n (lg s) + (lg_outstanding (lg s) + 1) * MAXOPBLOCKS > LOGSIZE
      then sleep Clog (Some Llog) s
      else release Llog (upd_lg (\<lambda>l. l\<lparr>lg_outstanding := lg_outstanding l + 1\<rparr>) s))"

definition begin_op :: "'a gst_scheme \<Rightarrow> ('a gst_scheme, unit) res" where
  "begin_op s = bind (acquire Llog s) (\<lambda>_ s. begin_op_loop s)"

definition begin_op_return :: "'a gst_scheme \<Rightarrow> ('a gst_scheme, unit) res" where
  "begin_op_return s = bind (sleep_return Llog s) (\<lambda>_ s. begin_op_loop s)"

fun write_log_loop :: "nat list \<Rightarrow> 'a gst_scheme \<Rightarrow> ('a gst_scheme, unit) res" where
  "write_log_loop [] s = Ok () s"
| "write_log_loop (tail # tails) s =
     (if tail \<ge> length (lh_block (lg s)) then Fault
      else
        bind (bread (of_int (lg_dev (lg s))) (of_int (lg_start (lg s) + int tail + 1)) s) (\<lambda>to s.
        bind (bread (of_int (lg_dev (lg s))) (of_int (lh_block (lg s) ! tail)) s) (\<lambda>from s.
        let s = upd_buf to (\<lambda>b. b\<lparr>b_data := b_data (buf_at s from)\<rparr>) s in
        bind (bwrite to s) (\<lambda>_ s.
        bind (brelse from s) (\<lambda>_ s.
        bind (brelse to s) (\<lambda>_ s. write_log_loop tails s))))))"

definition write_log :: "'a gst_scheme \<Rightarrow> ('a gst_scheme, unit) res" where
  "write_log s = write_log_loop [0..<nat (lh_n (lg s))] s"

definition commit :: "'a gst_scheme \<Rightarrow> ('a gst_scheme, unit) res" where
  "commit s =
     (if lh_n (lg s) > 0 then
        bind (write_log s) (\<lambda>_ s.
        bind (write_head s) (\<lambda>_ s.
        bind (install_trans s) (\<lambda>_ s.
        write_head (upd_lg (\<lambda>l. l\<lparr>lh_n := 0\<rparr>) s))))
      else Ok () s)"

definition end_op :: "'a gst_scheme \<Rightarrow> ('a gst_scheme, unit) res" where
  "end_op s =
     bind (acquire Llog s) (\<lambda>_ s.
     let s = upd_lg (\<lambda>l. l\<lparr>lg_outstanding := lg_outstanding l - 1\<rparr>) s in
     if lg_committing (lg s) then Panic ''log.committing''
     else
       let do_commit = (lg_outstanding (lg s) = 0) in
       bind (if do_commit then Ok () (upd_lg (\<lambda>l. l\<lparr>lg_committing := True\<rparr>) s)
             else wakeup Clog s) (\<lambda>_ s.
       bind (release Llog s) (\<lambda>_ s.
       if do_commit then
         bind (commit s) (\<lambda>_ s.
         bind (acquire Llog s) (\<lambda>_ s.
         let s = upd_lg (\<lambda>l. l\<lparr>lg_committing := False\<rparr>) s in
         bind (wakeup Clog s) (\<lambda>_ s. release Llog s)))
       else Ok () s)))"

text \<open>The block numbers are compared as unsigned integers.\<close>

definition log_slot :: "u32 \<Rightarrow> log \<Rightarrow> nat" where
  "log_slot b l = (case find_idx (\<lambda>x. of_int x = b) (take (nat (lh_n l)) (lh_block l)) of
     Some i \<Rightarrow> i | None \<Rightarrow> nat (lh_n l))"

definition log_write :: "nat \<Rightarrow> 'a gst_scheme \<Rightarrow> ('a gst_scheme, unit) res" where
  "log_write b s =
     (if lh_n (lg s) \<ge> LOGSIZE \<or> lh_n (lg s) \<ge> lg_size (lg s) - 1 then Panic ''too big a transaction''
      else if lg_outstanding (lg s) < 1 then Panic ''log_write outside of trans''
      else
        bind (acquire Llog s) (\<lambda>_ s.
        let i = log_slot (b_blockno (buf_at s b)) (lg s) in
        if i \<ge> length (lh_block (lg s)) then Fault
        else
          let s = upd_lg (\<lambda>l. l\<lparr>lh_block := (lh_block l)[i := sint (b_blockno (buf_at s b))]\<rparr>) s;
              s = (if int i = lh_n (lg s) then upd_lg (\<lambda>l. l\<lparr>lh_n := lh_n l + 1\<rparr>) s else s);
              s = upd_buf b (\<lambda>c. c\<lparr>b_flags := b_flags c OR B_DIRTY\<rparr>) s in
          release Llog s))"

end
