(* ===== verification/Umem.thy ===== *)
theory Umem
  imports Kvm
begin

unbundle bit_operations_syntax

text \<open>
  Access to memory by virtual address, as the processor translates it with the page directory
  in \<open>cr3\<close> while the kernel works for a process: an address without a present entry faults, and
  so does a write through an entry that is not writable (the kernel runs with write protection
  on, see kernel/entry.S). Directory entries grant every permission (see \<open>walkpgdir\<close>).
\<close>

definition vload :: "u32 \<Rightarrow> 'a vst_scheme \<Rightarrow> u8 option" where
  "vload va s = ubyte (mem s) (P2V (cr3 s)) va"

definition vstore :: "u32 \<Rightarrow> u8 \<Rightarrow> 'a vst_scheme \<Rightarrow> 'a vst_scheme option" where
  "vstore va b s =
     (let e = pte_at (mem s) (P2V (cr3 s)) va in
      if e AND PTE_P = 0 \<or> e AND PTE_W = 0 then None
      else Some (s\<lparr>mem := (mem s)(uaddr (mem s) (P2V (cr3 s)) va := b)\<rparr>))"

fun vloads :: "u32 \<Rightarrow> nat \<Rightarrow> 'a vst_scheme \<Rightarrow> u8 list option" where
  "vloads va 0 s = Some []"
| "vloads va (Suc n) s =
     (case vload va s of None \<Rightarrow> None
      | Some b \<Rightarrow> map_option ((#) b) (vloads (va + 1) n s))"

fun vstores :: "u32 \<Rightarrow> u8 list \<Rightarrow> 'a vst_scheme \<Rightarrow> 'a vst_scheme option" where
  "vstores va [] s = Some s"
| "vstores va (b # bs) s =
     (case vstore va b s of None \<Rightarrow> None | Some s \<Rightarrow> vstores (va + 1) bs s)"

text \<open>A word at a virtual address.\<close>

definition vload32 :: "u32 \<Rightarrow> 'a vst_scheme \<Rightarrow> u32 option" where
  "vload32 va s = map_option (\<lambda>bs. ucast (bs ! 0) + ucast (bs ! 1) * 0x100
     + ucast (bs ! 2) * 0x10000 + ucast (bs ! 3) * 0x1000000) (vloads va 4 s)"

text \<open>
  Where a copy goes to or comes from: a virtual address, or a variable of the calling function,
  whose bytes are the value itself.
\<close>

datatype dest = Dvar | Daddr u32

datatype src = Svar "u8 list" | Saddr u32

fun dest_put :: "dest \<Rightarrow> u8 list \<Rightarrow> 'a vst_scheme \<Rightarrow> ('a vst_scheme, unit) res" where
  "dest_put Dvar bs s = Ok () s"
| "dest_put (Daddr a) bs s = (case vstores a bs s of None \<Rightarrow> Fault | Some s \<Rightarrow> Ok () s)"

fun dest_add :: "dest \<Rightarrow> u32 \<Rightarrow> dest" where
  "dest_add Dvar n = Dvar"
| "dest_add (Daddr a) n = Daddr (a + n)"

fun src_get :: "src \<Rightarrow> nat \<Rightarrow> 'a vst_scheme \<Rightarrow> ('a vst_scheme, u8 list) res" where
  "src_get (Svar bs) n s = (if n \<le> length bs then Ok (take n bs) s else Fault)"
| "src_get (Saddr a) n s = (case vloads a n s of None \<Rightarrow> Fault | Some bs \<Rightarrow> Ok bs s)"

fun src_add :: "src \<Rightarrow> u32 \<Rightarrow> src" where
  "src_add (Svar bs) n = Svar (drop (unat n) bs)"
| "src_add (Saddr a) n = Saddr (a + n)"

end
