(* ===== verification/Inode.thy ===== *)
theory Inode
  imports Log Umem
begin

unbundle bit_operations_syntax

text \<open>
  kernel/fs.c, the block and inode layers: the block bitmap, the inode cache, the blocks of an
  inode. A pointer to a cached inode is its index. What needs devices, \<open>readi\<close> and \<open>writei\<close> and
  all above them, follows after the console.
\<close>

section \<open>State\<close>

abbreviation (input) NINODE :: nat where "NINODE \<equiv> 50"
abbreviation (input) T_DIR :: u16 where "T_DIR \<equiv> 1"
abbreviation (input) T_FILE :: u16 where "T_FILE \<equiv> 2"
abbreviation (input) T_DEV :: u16 where "T_DEV \<equiv> 3"

record inode =
  i_dev :: u32
  i_inum :: u32
  i_ref :: int
  i_valid :: bool
  i_type :: u16
  i_major :: u16
  i_minor :: u16
  i_nlink :: u16
  i_size :: u32
  i_addrs :: "u32 list"

record icache =
  inodes :: "inode list"
  fsb :: superblock

record ist = gst +
  ic :: icache

lemma lock_fields_ist [simp]:
  "ic (hold l s) = ic s"
  "ic (unhold l s) = ic s"
  by (simp_all add: hold_def unhold_def push_def pop_def)

lemma lock_update_ist [simp]:
  "hold l (s\<lparr>ic := x_ic\<rparr>) = (hold l s)\<lparr>ic := x_ic\<rparr>"
  "unhold l (s\<lparr>ic := x_ic\<rparr>) = (unhold l s)\<lparr>ic := x_ic\<rparr>"
  by (simp_all add: unhold_def pop_def hold_def push_def curcpu_def cur_def)

lemma cpu_frame_ist [simp]:
  "cur (s\<lparr>ic := x_ic\<rparr>) = cur s"
  "curcpu (s\<lparr>ic := x_ic\<rparr>) = curcpu s"
  "curproc (s\<lparr>ic := x_ic\<rparr>) = curproc s"
  "quiet (s\<lparr>ic := x_ic\<rparr>) = quiet s"
  "lk_free l (s\<lparr>ic := x_ic\<rparr>) = lk_free l s"
  "lk_held l (s\<lparr>ic := x_ic\<rparr>) = lk_held l s"
  by (simp_all add: cur_def curcpu_def curproc_def quiet_def lk_free_def lk_held_def)

lemma inv_frame_ist [simp]:
  "km_ready (s\<lparr>ic := x_ic\<rparr>) = km_ready s"
  "free_inv (s\<lparr>ic := x_ic\<rparr>) xs = free_inv s xs"
  "cons_ok (s\<lparr>ic := x_ic\<rparr>) = cons_ok s"
  by (simp_all add: km_ready_def free_inv_def cons_ok_def)

definition upd_inode :: "nat \<Rightarrow> (inode \<Rightarrow> inode) \<Rightarrow> 'a ist_scheme \<Rightarrow> 'a ist_scheme" where
  "upd_inode i f s = s\<lparr>ic := (ic s)\<lparr>inodes := (inodes (ic s))[i := f (inodes (ic s) ! i)]\<rparr>\<rparr>"

abbreviation ino :: "'a ist_scheme \<Rightarrow> nat \<Rightarrow> inode" where
  "ino s i \<equiv> inodes (ic s) ! i"

abbreviation the_sb :: "'a ist_scheme \<Rightarrow> superblock" where
  "the_sb s \<equiv> fsb (ic s)"

section \<open>Blocks\<close>

definition bzero :: "u32 \<Rightarrow> u32 \<Rightarrow> 'a gst_scheme \<Rightarrow> ('a gst_scheme, unit) res" where
  "bzero dev bno s =
     bind (bread dev bno s) (\<lambda>bp s.
     let s = upd_buf bp (\<lambda>b. b\<lparr>b_data := replicate BSIZE 0\<rparr>) s in
     bind (log_write bp s) (\<lambda>_ s. brelse bp s))"

text \<open>The inner loop of \<open>balloc\<close> from bit \<open>bi\<close> on, with \<open>n\<close> bits left in the block.\<close>

fun balloc_bits :: "nat \<Rightarrow> nat \<Rightarrow> block \<Rightarrow> u32 \<Rightarrow> u32 \<Rightarrow> nat option" where
  "balloc_bits 0 bi bs b sz = None"
| "balloc_bits (Suc n) bi bs b sz =
     (if b + of_nat bi < sz then
        if bs ! (bi div 8) AND push_bit (bi mod 8) 1 = 0 then Some bi
        else balloc_bits n (bi + 1) bs b sz
      else None)"

fun balloc_loop :: "nat \<Rightarrow> u32 \<Rightarrow> u32 \<Rightarrow> 'a ist_scheme \<Rightarrow> ('a ist_scheme, u32) res" where
  "balloc_loop 0 dev b s = Hang"
| "balloc_loop (Suc fuel) dev b s =
     (if b < sb_size (the_sb s) then
        bind (bread dev (BBLOCK b (the_sb s)) s) (\<lambda>bp s.
        case balloc_bits BPB 0 (b_data (buf_at s bp)) b (sb_size (the_sb s)) of
          Some bi \<Rightarrow>
            let s = upd_buf bp (\<lambda>c. c\<lparr>b_data := (b_data c)[bi div 8 :=
                      b_data c ! (bi div 8) OR push_bit (bi mod 8) 1]\<rparr>) s in
            bind (log_write bp s) (\<lambda>_ s.
            bind (brelse bp s) (\<lambda>_ s.
            bind (bzero dev (b + of_nat bi) s) (\<lambda>_ s. Ok (b + of_nat bi) s)))
        | None \<Rightarrow> bind (brelse bp s) (\<lambda>_ s. balloc_loop fuel dev (b + of_nat BPB) s))
      else Panic ''balloc: out of blocks'')"

definition balloc :: "u32 \<Rightarrow> 'a ist_scheme \<Rightarrow> ('a ist_scheme, u32) res" where
  "balloc dev s = balloc_loop 1048577 dev 0 s"

definition bfree :: "u32 \<Rightarrow> u32 \<Rightarrow> 'a ist_scheme \<Rightarrow> ('a ist_scheme, unit) res" where
  "bfree dev b s =
     bind (bread dev (BBLOCK b (the_sb s)) s) (\<lambda>bp s.
     let bi = unat (b mod of_nat BPB) in
     if b_data (buf_at s bp) ! (bi div 8) AND push_bit (bi mod 8) 1 = 0 then Panic ''freeing free block''
     else
       let s = upd_buf bp (\<lambda>c. c\<lparr>b_data := (b_data c)[bi div 8 :=
                 b_data c ! (bi div 8) AND NOT (push_bit (bi mod 8) 1)]\<rparr>) s in
       bind (log_write bp s) (\<lambda>_ s. brelse bp s))"

section \<open>Inodes\<close>

fun init_inode_locks :: "nat list \<Rightarrow> 'a sst_scheme \<Rightarrow> 'a sst_scheme" where
  "init_inode_locks [] s = s"
| "init_inode_locks (i # is) s = init_inode_locks is (initsleeplock (Linodesleep i) ''inode'' s)"

definition iinit :: "u32 \<Rightarrow> 'a ist_scheme \<Rightarrow> ('a ist_scheme, unit) res" where
  "iinit dev s =
     (let s = initlock Licache ''icache'' s;
          s = init_inode_locks [0..<NINODE] s in
      bind (readsb dev s) (\<lambda>sb s.
      let s = s\<lparr>ic := (ic s)\<lparr>fsb := sb\<rparr>\<rparr> in
      cprintf (''sb: size %d nblocks %d ninodes %d nlog %d logstart %d inodestart %d bmap start %d''
          @ [CHR 0x0A])
        (map Aint [sb_size sb, sb_nblocks sb, sb_ninodes sb, sb_nlog sb, sb_logstart sb,
          sb_inodestart sb, sb_bmapstart sb]) s))"

definition iget :: "u32 \<Rightarrow> u32 \<Rightarrow> 'a ist_scheme \<Rightarrow> ('a ist_scheme, nat) res" where
  "iget dev inum s =
     bind (acquire Licache s) (\<lambda>_ s.
     case find_idx (\<lambda>ip. i_ref ip > 0 \<and> i_dev ip = dev \<and> i_inum ip = inum) (inodes (ic s)) of
       Some ip \<Rightarrow>
         let s = upd_inode ip (\<lambda>n. n\<lparr>i_ref := i_ref n + 1\<rparr>) s in
         bind (release Licache s) (\<lambda>_ s. Ok ip s)
     | None \<Rightarrow>
         (case find_idx (\<lambda>ip. i_ref ip = 0) (inodes (ic s)) of
            None \<Rightarrow> Panic ''iget: no inodes''
          | Some ip \<Rightarrow>
              let s = upd_inode ip (\<lambda>n. n\<lparr>i_dev := dev, i_inum := inum, i_ref := 1, i_valid := False\<rparr>) s in
              bind (release Licache s) (\<lambda>_ s. Ok ip s)))"

text \<open>The byte offset of an inode in its block.\<close>

definition ioff :: "u32 \<Rightarrow> nat" where
  "ioff inum = 64 * (unat inum mod IPB)"

fun ialloc_loop :: "nat \<Rightarrow> u32 \<Rightarrow> u16 \<Rightarrow> u32 \<Rightarrow> 'a ist_scheme \<Rightarrow> ('a ist_scheme, nat) res" where
  "ialloc_loop 0 dev ty inum s = Hang"
| "ialloc_loop (Suc fuel) dev ty inum s =
     (if inum < sb_ninodes (the_sb s) then
        bind (bread dev (IBLOCK inum (the_sb s)) s) (\<lambda>bp s.
        if get16 (b_data (buf_at s bp)) (ioff inum) = 0 then
          let s = upd_buf bp (\<lambda>c. c\<lparr>b_data := put (b_data c) (ioff inum) (replicate 64 0)\<rparr>) s;
              s = upd_buf bp (\<lambda>c. c\<lparr>b_data := put (b_data c) (ioff inum) (bytes16 ty)\<rparr>) s in
          bind (log_write bp s) (\<lambda>_ s.
          bind (brelse bp s) (\<lambda>_ s. iget dev inum s))
        else bind (brelse bp s) (\<lambda>_ s. ialloc_loop fuel dev ty (inum + 1) s))
      else Panic ''ialloc: no inodes'')"

definition ialloc :: "u32 \<Rightarrow> u16 \<Rightarrow> 'a ist_scheme \<Rightarrow> ('a ist_scheme, nat) res" where
  "ialloc dev ty s = ialloc_loop (unat (sb_ninodes (the_sb s)) + 1) dev ty 1 s"

text \<open>The part of a cached inode that is on disk.\<close>

definition dinode_of :: "inode \<Rightarrow> dinode" where
  "dinode_of n = \<lparr>di_type = i_type n, di_major = i_major n, di_minor = i_minor n,
     di_nlink = i_nlink n, di_size = i_size n, di_addrs = i_addrs n\<rparr>"

definition iupdate :: "nat \<Rightarrow> 'a ist_scheme \<Rightarrow> ('a ist_scheme, unit) res" where
  "iupdate ip s =
     bind (bread (i_dev (ino s ip)) (IBLOCK (i_inum (ino s ip)) (the_sb s)) s) (\<lambda>bp s.
     let n = ino s ip;
         s = upd_buf bp (\<lambda>c. c\<lparr>b_data := put (b_data c) (ioff (i_inum n)) (bytes_dinode (dinode_of n))\<rparr>) s in
     bind (log_write bp s) (\<lambda>_ s. brelse bp s))"

definition idup :: "nat \<Rightarrow> 'a ist_scheme \<Rightarrow> ('a ist_scheme, nat) res" where
  "idup ip s =
     bind (acquire Licache s) (\<lambda>_ s.
     let s = upd_inode ip (\<lambda>n. n\<lparr>i_ref := i_ref n + 1\<rparr>) s in
     bind (release Licache s) (\<lambda>_ s. Ok ip s))"

definition ilock :: "nat option \<Rightarrow> 'a ist_scheme \<Rightarrow> ('a ist_scheme, unit) res" where
  "ilock p s =
     (case p of None \<Rightarrow> Panic ''ilock''
      | Some ip \<Rightarrow>
        if i_ref (ino s ip) < 1 then Panic ''ilock''
        else
          bind (acquiresleep (Linodesleep ip) s) (\<lambda>_ s.
          if \<not> i_valid (ino s ip) then
            bind (bread (i_dev (ino s ip)) (IBLOCK (i_inum (ino s ip)) (the_sb s)) s) (\<lambda>bp s.
            let d = get_dinode (b_data (buf_at s bp)) (ioff (i_inum (ino s ip)));
                s = upd_inode ip (\<lambda>n. n\<lparr>i_type := di_type d, i_major := di_major d,
                      i_minor := di_minor d, i_nlink := di_nlink d, i_size := di_size d,
                      i_addrs := di_addrs d\<rparr>) s in
            bind (brelse bp s) (\<lambda>_ s.
            let s = upd_inode ip (\<lambda>n. n\<lparr>i_valid := True\<rparr>) s in
            if i_type (ino s ip) = 0 then Panic ''ilock: no type'' else Ok () s))
          else Ok () s))"

definition iunlock :: "nat option \<Rightarrow> 'a ist_scheme \<Rightarrow> ('a ist_scheme, unit) res" where
  "iunlock p s =
     (case p of None \<Rightarrow> Panic ''iunlock''
      | Some ip \<Rightarrow>
        bind (holdingsleep (Linodesleep ip) s) (\<lambda>h s.
        if \<not> h \<or> i_ref (ino s ip) < 1 then Panic ''iunlock''
        else releasesleep (Linodesleep ip) s))"

fun itrunc_direct :: "nat list \<Rightarrow> nat \<Rightarrow> 'a ist_scheme \<Rightarrow> ('a ist_scheme, unit) res" where
  "itrunc_direct [] ip s = Ok () s"
| "itrunc_direct (i # is) ip s =
     (if i_addrs (ino s ip) ! i \<noteq> 0 then
        bind (bfree (i_dev (ino s ip)) (i_addrs (ino s ip) ! i) s) (\<lambda>_ s.
        itrunc_direct is ip (upd_inode ip (\<lambda>n. n\<lparr>i_addrs := (i_addrs n)[i := 0]\<rparr>) s))
      else itrunc_direct is ip s)"

fun itrunc_indirect :: "nat list \<Rightarrow> nat \<Rightarrow> nat \<Rightarrow> 'a ist_scheme \<Rightarrow> ('a ist_scheme, unit) res" where
  "itrunc_indirect [] ip bp s = Ok () s"
| "itrunc_indirect (j # js) ip bp s =
     (let a = get32 (b_data (buf_at s bp)) (4 * j) in
      if a \<noteq> 0 then bind (bfree (i_dev (ino s ip)) a s) (\<lambda>_ s. itrunc_indirect js ip bp s)
      else itrunc_indirect js ip bp s)"

definition itrunc :: "nat \<Rightarrow> 'a ist_scheme \<Rightarrow> ('a ist_scheme, unit) res" where
  "itrunc ip s =
     bind (itrunc_direct [0..<NDIRECT] ip s) (\<lambda>_ s.
     bind (if i_addrs (ino s ip) ! NDIRECT \<noteq> 0 then
             bind (bread (i_dev (ino s ip)) (i_addrs (ino s ip) ! NDIRECT) s) (\<lambda>bp s.
             bind (itrunc_indirect [0..<NINDIRECT] ip bp s) (\<lambda>_ s.
             bind (brelse bp s) (\<lambda>_ s.
             bind (bfree (i_dev (ino s ip)) (i_addrs (ino s ip) ! NDIRECT) s) (\<lambda>_ s.
             Ok () (upd_inode ip (\<lambda>n. n\<lparr>i_addrs := (i_addrs n)[NDIRECT := 0]\<rparr>) s)))))
           else Ok () s) (\<lambda>_ s.
     iupdate ip (upd_inode ip (\<lambda>n. n\<lparr>i_size := 0\<rparr>) s)))"

definition iput :: "nat \<Rightarrow> 'a ist_scheme \<Rightarrow> ('a ist_scheme, unit) res" where
  "iput ip s =
     bind (acquiresleep (Linodesleep ip) s) (\<lambda>_ s.
     bind (if i_valid (ino s ip) \<and> i_nlink (ino s ip) = 0 then
             bind (acquire Licache s) (\<lambda>_ s.
             let r = i_ref (ino s ip) in
             bind (release Licache s) (\<lambda>_ s.
             if r = 1 then
               bind (itrunc ip s) (\<lambda>_ s.
               bind (iupdate ip (upd_inode ip (\<lambda>n. n\<lparr>i_type := 0\<rparr>) s)) (\<lambda>_ s.
               Ok () (upd_inode ip (\<lambda>n. n\<lparr>i_valid := False\<rparr>) s)))
             else Ok () s))
           else Ok () s) (\<lambda>_ s.
     bind (releasesleep (Linodesleep ip) s) (\<lambda>_ s.
     bind (acquire Licache s) (\<lambda>_ s.
     release Licache (upd_inode ip (\<lambda>n. n\<lparr>i_ref := i_ref n - 1\<rparr>) s)))))"

definition iunlockput :: "nat \<Rightarrow> 'a ist_scheme \<Rightarrow> ('a ist_scheme, unit) res" where
  "iunlockput ip s = bind (iunlock (Some ip) s) (\<lambda>_ s. iput ip s)"

section \<open>The blocks of a file\<close>

definition bmap :: "nat \<Rightarrow> u32 \<Rightarrow> 'a ist_scheme \<Rightarrow> ('a ist_scheme, u32) res" where
  "bmap ip bn s =
     (if bn < of_nat NDIRECT then
        let addr = i_addrs (ino s ip) ! unat bn in
        if addr = 0 then
          bind (balloc (i_dev (ino s ip)) s) (\<lambda>addr s.
          Ok addr (upd_inode ip (\<lambda>n. n\<lparr>i_addrs := (i_addrs n)[unat bn := addr]\<rparr>) s))
        else Ok addr s
      else
        let bn = bn - of_nat NDIRECT in
        if bn < of_nat NINDIRECT then
          bind (let addr = i_addrs (ino s ip) ! NDIRECT in
                if addr = 0 then
                  bind (balloc (i_dev (ino s ip)) s) (\<lambda>addr s.
                  Ok addr (upd_inode ip (\<lambda>n. n\<lparr>i_addrs := (i_addrs n)[NDIRECT := addr]\<rparr>) s))
                else Ok addr s) (\<lambda>addr s.
          bind (bread (i_dev (ino s ip)) addr s) (\<lambda>bp s.
          bind (let addr = get32 (b_data (buf_at s bp)) (4 * unat bn) in
                if addr = 0 then
                  bind (balloc (i_dev (ino s ip)) s) (\<lambda>addr s.
                  let s = upd_buf bp (\<lambda>c. c\<lparr>b_data := put (b_data c) (4 * unat bn) (bytes32 addr)\<rparr>) s in
                  bind (log_write bp s) (\<lambda>_ s. Ok addr s))
                else Ok addr s) (\<lambda>addr s.
          bind (brelse bp s) (\<lambda>_ s. Ok addr s))))
        else Panic ''bmap: out of range'')"

record stat =
  st_type :: u16
  st_dev :: u32
  st_ino :: u32
  st_nlink :: u16
  st_size :: u32

definition stati :: "nat \<Rightarrow> 'a ist_scheme \<Rightarrow> stat" where
  "stati ip s = \<lparr>st_type = i_type (ino s ip), st_dev = i_dev (ino s ip), st_ino = i_inum (ino s ip),
     st_nlink = i_nlink (ino s ip), st_size = i_size (ino s ip)\<rparr>"

end
