(* ===== verification/Consdev.thy ===== *)
theory Consdev
  imports Inode
begin

unbundle bit_operations_syntax

text \<open>
  Input: the keyboard (kernel/kbd.c, kernel/kbd.h), the serial line (kernel/uart.c) and the
  console device (the second half of kernel/console.c).

  The keyboard controller is the list of scan codes it holds. \<open>getc\<close>, the argument of
  \<open>consoleintr\<close>, is the list of the characters it returns before its first negative result.
  Routing the interrupts (\<open>ioapicenable\<close>) is not modelled.
\<close>

section \<open>The keyboard\<close>

text \<open>A table of 256 bytes from its first entries and the entries with an explicit index.\<close>

definition keytable :: "u8 list \<Rightarrow> (nat \<times> u8) list \<Rightarrow> u8 list" where
  "keytable xs ys = fold (\<lambda>(i, b) t. t[i := b]) ys (xs @ replicate (256 - length xs) 0)"

abbreviation (input) SHIFT :: u32 where "SHIFT \<equiv> 1"
abbreviation (input) CTL :: u32 where "CTL \<equiv> 2"
abbreviation (input) CAPSLOCK :: u32 where "CAPSLOCK \<equiv> 8"
abbreviation (input) E0ESC :: u32 where "E0ESC \<equiv> 64"

definition shiftcode :: "u8 list" where
  "shiftcode = keytable [] [(0x1D, 2), (0x2A, 1), (0x36, 1), (0x38, 4), (0x9D, 2), (0xB8, 4)]"

definition togglecode :: "u8 list" where
  "togglecode = keytable [] [(0x3A, 8), (0x45, 16), (0x46, 32)]"

definition normalmap :: "u8 list" where
  "normalmap = keytable
    [0, 27, 49, 50, 51, 52, 53, 54, 55, 56, 57, 48, 45, 61, 8, 9, 113, 119, 101, 114, 116, 121,
     117, 105, 111, 112, 91, 93, 10, 0, 97, 115, 100, 102, 103, 104, 106, 107, 108, 59, 39, 96,
     0, 92, 122, 120, 99, 118, 98, 110, 109, 44, 46, 47, 0, 42, 0, 32, 0, 0, 0, 0, 0, 0, 0, 0,
     0, 0, 0, 0, 0, 55, 56, 57, 45, 52, 53, 54, 43, 49, 50, 51, 48, 46, 0, 0, 0, 0]
    [(0x9C, 0xA), (0xB5, 0x2F), (0xC8, 0xE2), (0xD0, 0xE3), (0xC9, 0xE6), (0xD1, 0xE7), (0xCB, 0xE4), (0xCD, 0xE5), (0x97, 0xE0), (0xCF, 0xE1), (0xD2, 0xE8), (0xD3, 0xE9)]"

definition shiftmap :: "u8 list" where
  "shiftmap = keytable
    [0, 27, 33, 64, 35, 36, 37, 94, 38, 42, 40, 41, 95, 43, 8, 9, 81, 87, 69, 82, 84, 89, 85,
     73, 79, 80, 123, 125, 10, 0, 65, 83, 68, 70, 71, 72, 74, 75, 76, 58, 34, 126, 0, 124, 90,
     88, 67, 86, 66, 78, 77, 60, 62, 63, 0, 42, 0, 32, 0, 0, 0, 0, 0, 0, 0, 0, 0, 0, 0, 0, 0,
     55, 56, 57, 45, 52, 53, 54, 43, 49, 50, 51, 48, 46, 0, 0, 0, 0]
    [(0x9C, 0xA), (0xB5, 0x2F), (0xC8, 0xE2), (0xD0, 0xE3), (0xC9, 0xE6), (0xD1, 0xE7), (0xCB, 0xE4), (0xCD, 0xE5), (0x97, 0xE0), (0xCF, 0xE1), (0xD2, 0xE8), (0xD3, 0xE9)]"

definition ctlmap :: "u8 list" where
  "ctlmap = keytable
    [0, 0, 0, 0, 0, 0, 0, 0, 0, 0, 0, 0, 0, 0, 0, 0, 17, 23, 5, 18, 20, 25, 21, 9, 15, 16, 0,
     0, 13, 0, 1, 19, 4, 6, 7, 8, 10, 11, 12, 0, 0, 0, 0, 28, 26, 24, 3, 22, 2, 14, 13, 0, 0,
     239, 0, 0]
    [(0x9C, 0xD), (0xB5, 0xEF), (0xC8, 0xE2), (0xD0, 0xE3), (0xC9, 0xE6), (0xD1, 0xE7), (0xCB, 0xE4), (0xCD, 0xE5), (0x97, 0xE0), (0xCF, 0xE1), (0xD2, 0xE8), (0xD3, 0xE9)]"

definition kbdgetc :: "u32 \<Rightarrow> u8 list \<Rightarrow> int \<times> u32 \<times> u8 list" where
  "kbdgetc shift codes =
     (case codes of [] \<Rightarrow> (- 1, shift, [])
      | b # rest \<Rightarrow>
          let data = ucast b :: u32 in
          if data = 0xE0 then (0, shift OR E0ESC, rest)
          else if data AND 0x80 \<noteq> 0 then
            let data = (if shift AND E0ESC \<noteq> 0 then data else data AND 0x7F) in
            (0, shift AND NOT (ucast (shiftcode ! unat data) OR E0ESC), rest)
          else
            let (data, shift) = (if shift AND E0ESC \<noteq> 0 then (data OR 0x80, shift AND NOT E0ESC)
                                 else (data, shift));
                shift = shift OR ucast (shiftcode ! unat data);
                shift = shift XOR ucast (togglecode ! unat data);
                c = uint ([normalmap, shiftmap, ctlmap, ctlmap] ! unat (shift AND (CTL OR SHIFT)) ! unat data) in
            if shift AND CAPSLOCK \<noteq> 0 then
              (if 0x61 \<le> c \<and> c \<le> 0x7A then c - 0x20
               else if 0x41 \<le> c \<and> c \<le> 0x5A then c + 0x20 else c, shift, rest)
            else (c, shift, rest))"

fun kbd_drain :: "u32 \<Rightarrow> u8 list \<Rightarrow> int list \<times> u32" where
  "kbd_drain shift [] = ([], shift)"
| "kbd_drain shift (b # bs) =
     (let (c, shift', _) = kbdgetc shift (b # bs); (cs, shift'') = kbd_drain shift' bs in (c # cs, shift''))"

section \<open>The console device\<close>

abbreviation (input) INPUT_BUF :: u32 where "INPUT_BUF \<equiv> 128"
abbreviation (input) NDEV :: nat where "NDEV \<equiv> 10"
abbreviation (input) CONSOLE :: nat where "CONSOLE \<equiv> 1"

text \<open>The functions a device switch entry can point to.\<close>

datatype devfn = Consoleread | Consolewrite

record devsw =
  dv_read :: "devfn option"
  dv_write :: "devfn option"

record consdev =
  inp_buf :: "u8 list"
  inp_r :: u32
  inp_w :: u32
  inp_e :: u32
  kb_shift :: u32
  kb_codes :: "u8 list"
  devsws :: "devsw list"

record dst = ist +
  cdev :: consdev

lemma lock_fields_dst [simp]:
  "cdev (hold l s) = cdev s"
  "cdev (unhold l s) = cdev s"
  by (simp_all add: hold_def unhold_def push_def pop_def)

lemma lock_update_dst [simp]:
  "hold l (s\<lparr>cdev := x_cdev\<rparr>) = (hold l s)\<lparr>cdev := x_cdev\<rparr>"
  "unhold l (s\<lparr>cdev := x_cdev\<rparr>) = (unhold l s)\<lparr>cdev := x_cdev\<rparr>"
  by (simp_all add: unhold_def pop_def hold_def push_def curcpu_def cur_def)

lemma cpu_frame_dst [simp]:
  "cur (s\<lparr>cdev := x_cdev\<rparr>) = cur s"
  "curcpu (s\<lparr>cdev := x_cdev\<rparr>) = curcpu s"
  "curproc (s\<lparr>cdev := x_cdev\<rparr>) = curproc s"
  "quiet (s\<lparr>cdev := x_cdev\<rparr>) = quiet s"
  "lk_free l (s\<lparr>cdev := x_cdev\<rparr>) = lk_free l s"
  "lk_held l (s\<lparr>cdev := x_cdev\<rparr>) = lk_held l s"
  by (simp_all add: cur_def curcpu_def curproc_def quiet_def lk_free_def lk_held_def)

lemma inv_frame_dst [simp]:
  "km_ready (s\<lparr>cdev := x_cdev\<rparr>) = km_ready s"
  "free_inv (s\<lparr>cdev := x_cdev\<rparr>) xs = free_inv s xs"
  "cons_ok (s\<lparr>cdev := x_cdev\<rparr>) = cons_ok s"
  by (simp_all add: km_ready_def free_inv_def cons_ok_def)

definition upd_cd :: "(consdev \<Rightarrow> consdev) \<Rightarrow> 'a dst_scheme \<Rightarrow> 'a dst_scheme" where
  "upd_cd f s = s\<lparr>cdev := f (cdev s)\<rparr>"

abbreviation inp_at :: "'a dst_scheme \<Rightarrow> u32 \<Rightarrow> u8" where
  "inp_at s i \<equiv> inp_buf (cdev s) ! unat (i mod INPUT_BUF)"

text \<open>The loop that erases a line; it takes at most one step for each index between \<open>w\<close> and \<open>e\<close>.\<close>

fun kill_line :: "nat \<Rightarrow> 'a dst_scheme \<Rightarrow> ('a dst_scheme, unit) res" where
  "kill_line 0 s = Ok () s"
| "kill_line (Suc n) s =
     (if inp_e (cdev s) \<noteq> inp_w (cdev s) \<and> inp_at s (inp_e (cdev s) - 1) \<noteq> 10 then
        bind (consputc BACKSPACE (upd_cd (\<lambda>d. d\<lparr>inp_e := inp_e d - 1\<rparr>) s)) (\<lambda>_ s. kill_line n s)
      else Ok () s)"

definition consolechar :: "int \<Rightarrow> 'a dst_scheme \<Rightarrow> ('a dst_scheme, unit) res" where
  "consolechar c s =
     (if c \<noteq> 0 \<and> inp_e (cdev s) - inp_r (cdev s) < INPUT_BUF then
        let c = (if c = 13 then 10 else c);
            s = upd_cd (\<lambda>d. d\<lparr>inp_buf := (inp_buf d)[unat (inp_e d mod INPUT_BUF) := of_int c]\<rparr>) s;
            s = upd_cd (\<lambda>d. d\<lparr>inp_e := inp_e d + 1\<rparr>) s in
        bind (consputc c s) (\<lambda>_ s.
        if c = 10 \<or> c = 4 \<or> inp_e (cdev s) = inp_r (cdev s) + INPUT_BUF then
          wakeup Cinput (upd_cd (\<lambda>d. d\<lparr>inp_w := inp_e d\<rparr>) s)
        else Ok () s)
      else Ok () s)"

fun consoleintr_loop :: "int list \<Rightarrow> bool \<Rightarrow> 'a dst_scheme \<Rightarrow> ('a dst_scheme, bool) res" where
  "consoleintr_loop [] dump s = Ok dump s"
| "consoleintr_loop (c # cs) dump s =
     (if c = 16 then consoleintr_loop cs True s
      else if c = 21 then
        bind (kill_line (unat (inp_e (cdev s) - inp_w (cdev s))) s) (\<lambda>_ s. consoleintr_loop cs dump s)
      else if c = 8 \<or> c = 0x7f then
        (if inp_e (cdev s) \<noteq> inp_w (cdev s) then
           bind (consputc BACKSPACE (upd_cd (\<lambda>d. d\<lparr>inp_e := inp_e d - 1\<rparr>) s))
             (\<lambda>_ s. consoleintr_loop cs dump s)
         else consoleintr_loop cs dump s)
      else bind (consolechar c s) (\<lambda>_ s. consoleintr_loop cs dump s))"

definition consoleintr :: "int list \<Rightarrow> 'a dst_scheme \<Rightarrow> ('a dst_scheme, unit) res" where
  "consoleintr cs s =
     bind (acquire Lcons s) (\<lambda>_ s.
     bind (consoleintr_loop cs False s) (\<lambda>dump s.
     bind (release Lcons s) (\<lambda>_ s.
     if dump then procdump s else Ok () s)))"

definition kbdintr :: "'a dst_scheme \<Rightarrow> ('a dst_scheme, unit) res" where
  "kbdintr s =
     (let (cs, shift) = kbd_drain (kb_shift (cdev s)) (kb_codes (cdev s)) in
      consoleintr cs (upd_cd (\<lambda>d. d\<lparr>kb_shift := shift, kb_codes := []\<rparr>) s))"

text \<open>\<open>bs\<close> are the bytes that the serial line has received.\<close>

definition uartintr :: "u8 list \<Rightarrow> 'a dst_scheme \<Rightarrow> ('a dst_scheme, unit) res" where
  "uartintr bs s = consoleintr (if uart (ttyd s) then map uint bs else []) s"

text \<open>
  \<open>consoleread_loop n\<close> has \<open>n\<close> bytes to go; \<open>acc\<close> are the bytes read so far. After a wakeup it
  runs again from where it slept.
\<close>

fun consoleread_loop ::
  "nat \<Rightarrow> nat option \<Rightarrow> dest \<Rightarrow> nat \<Rightarrow> u8 list \<Rightarrow> 'a dst_scheme \<Rightarrow> ('a dst_scheme, int \<times> u8 list) res" where
  "consoleread_loop 0 ip dst target acc s =
     bind (release Lcons s) (\<lambda>_ s. bind (ilock ip s) (\<lambda>_ s. Ok (int target, acc) s))"
| "consoleread_loop (Suc n) ip dst target acc s =
     (if inp_r (cdev s) = inp_w (cdev s) then
        bind (myproc s) (\<lambda>p s.
        case p of None \<Rightarrow> Fault
        | Some p \<Rightarrow>
            if p_killed (procs s ! p) then
              bind (release Lcons s) (\<lambda>_ s. bind (ilock ip s) (\<lambda>_ s. Ok (- 1, acc) s))
            else sleep Cinput (Some Lcons) s)
      else
        let c = inp_at s (inp_r (cdev s));
            s = upd_cd (\<lambda>d. d\<lparr>inp_r := inp_r d + 1\<rparr>) s in
        if c = 4 then
          let s = (if Suc n < target then upd_cd (\<lambda>d. d\<lparr>inp_r := inp_r d - 1\<rparr>) s else s) in
          bind (release Lcons s) (\<lambda>_ s. bind (ilock ip s) (\<lambda>_ s. Ok (int (target - Suc n), acc) s))
        else
          bind (dest_put dst [c] s) (\<lambda>_ s.
          if c = 10 then
            bind (release Lcons s) (\<lambda>_ s. bind (ilock ip s) (\<lambda>_ s. Ok (int (target - n), acc @ [c]) s))
          else consoleread_loop n ip (dest_add dst 1) target (acc @ [c]) s))"

definition consoleread :: "nat option \<Rightarrow> dest \<Rightarrow> int \<Rightarrow> 'a dst_scheme \<Rightarrow> ('a dst_scheme, int \<times> u8 list) res" where
  "consoleread ip dst n s =
     bind (iunlock ip s) (\<lambda>_ s.
     bind (acquire Lcons s) (\<lambda>_ s. consoleread_loop (nat n) ip dst (nat n) [] s))"

definition consoleread_return ::
  "nat \<Rightarrow> nat option \<Rightarrow> dest \<Rightarrow> nat \<Rightarrow> u8 list \<Rightarrow> 'a dst_scheme \<Rightarrow> ('a dst_scheme, int \<times> u8 list) res" where
  "consoleread_return n ip dst target acc s =
     bind (sleep_return Lcons s) (\<lambda>_ s. consoleread_loop n ip dst target acc s)"

definition consolewrite :: "nat option \<Rightarrow> src \<Rightarrow> int \<Rightarrow> 'a dst_scheme \<Rightarrow> ('a dst_scheme, int) res" where
  "consolewrite ip buf n s =
     bind (iunlock ip s) (\<lambda>_ s.
     bind (acquire Lcons s) (\<lambda>_ s.
     bind (src_get buf (nat n) s) (\<lambda>bs s.
     bind (consputs (map uint bs) s) (\<lambda>_ s.
     bind (release Lcons s) (\<lambda>_ s.
     bind (ilock ip s) (\<lambda>_ s. Ok n s))))))"

definition consoleinit :: "'a dst_scheme \<Rightarrow> 'a dst_scheme" where
  "consoleinit s =
     (let s = initlock Lcons ''console'' s;
          s = upd_cd (\<lambda>d. d\<lparr>devsws := (devsws d)[CONSOLE := (devsws d ! CONSOLE)\<lparr>dv_write := Some Consolewrite\<rparr>]\<rparr>) s;
          s = upd_cd (\<lambda>d. d\<lparr>devsws := (devsws d)[CONSOLE := (devsws d ! CONSOLE)\<lparr>dv_read := Some Consoleread\<rparr>]\<rparr>) s in
      s\<lparr>cons_locking := True\<rparr>)"

end
