(* ===== verification/Fs.thy ===== *)
theory Fs
  imports Consdev KString
begin

unbundle bit_operations_syntax

text \<open>
  kernel/fs.c, the upper layers: reading and writing the contents of an inode, directories and
  path names. A path is the list of its bytes with the final 0; reading past its end faults.
\<close>

section \<open>Contents\<close>

text \<open>
  The loops over the blocks of a file. Every turn ends a block or the loop, and \<open>bmap\<close> panics
  after \<open>MAXFILE\<close> blocks, so that they take at most \<open>MAXFILE + 1\<close> turns.
\<close>

fun readi_loop ::
  "nat \<Rightarrow> nat \<Rightarrow> dest \<Rightarrow> u32 \<Rightarrow> u32 \<Rightarrow> u32 \<Rightarrow> u8 list \<Rightarrow> 'a ist_scheme \<Rightarrow> ('a ist_scheme, u8 list) res" where
  "readi_loop 0 ip dst off tot n acc s = Hang"
| "readi_loop (Suc fuel) ip dst off tot n acc s =
     (if tot < n then
        bind (bmap ip (off div of_nat BSIZE) s) (\<lambda>addr s.
        bind (bread (i_dev (ino s ip)) addr s) (\<lambda>bp s.
        let m = min (n - tot) (of_nat BSIZE - off mod of_nat BSIZE);
            bs = take (unat m) (drop (unat (off mod of_nat BSIZE)) (b_data (buf_at s bp))) in
        bind (dest_put dst bs s) (\<lambda>_ s.
        bind (brelse bp s) (\<lambda>_ s.
        readi_loop fuel ip (dest_add dst m) (off + m) (tot + m) n (acc @ bs) s))))
      else Ok acc s)"

definition readi :: "nat \<Rightarrow> dest \<Rightarrow> u32 \<Rightarrow> u32 \<Rightarrow> 'a dst_scheme \<Rightarrow> ('a dst_scheme, int \<times> u8 list) res" where
  "readi ip dst off n s =
     (if i_type (ino s ip) = T_DEV then
        let major = sint (i_major (ino s ip)) in
        if major < 0 \<or> major \<ge> int NDEV \<or> dv_read (devsws (cdev s) ! nat major) = None then Ok (- 1, []) s
        else consoleread (Some ip) dst (sint n) s
      else if off > i_size (ino s ip) \<or> off + n < off then Ok (- 1, []) s
      else
        let n = (if off + n > i_size (ino s ip) then i_size (ino s ip) - off else n) in
        bind (readi_loop (MAXFILE + 2) ip dst off 0 n [] s) (\<lambda>bs s. Ok (sint n, bs) s))"

fun writei_loop ::
  "nat \<Rightarrow> nat \<Rightarrow> src \<Rightarrow> u32 \<Rightarrow> u32 \<Rightarrow> u32 \<Rightarrow> 'a ist_scheme \<Rightarrow> ('a ist_scheme, u32) res" where
  "writei_loop 0 ip src off tot n s = Hang"
| "writei_loop (Suc fuel) ip src off tot n s =
     (if tot < n then
        bind (bmap ip (off div of_nat BSIZE) s) (\<lambda>addr s.
        bind (bread (i_dev (ino s ip)) addr s) (\<lambda>bp s.
        let m = min (n - tot) (of_nat BSIZE - off mod of_nat BSIZE) in
        bind (src_get src (unat m) s) (\<lambda>bs s.
        let s = upd_buf bp (\<lambda>c. c\<lparr>b_data := put (b_data c) (unat (off mod of_nat BSIZE)) bs\<rparr>) s in
        bind (log_write bp s) (\<lambda>_ s.
        bind (brelse bp s) (\<lambda>_ s.
        writei_loop fuel ip (src_add src m) (off + m) (tot + m) n s)))))
      else Ok off s)"

definition writei :: "nat \<Rightarrow> src \<Rightarrow> u32 \<Rightarrow> u32 \<Rightarrow> 'a dst_scheme \<Rightarrow> ('a dst_scheme, int) res" where
  "writei ip src off n s =
     (if i_type (ino s ip) = T_DEV then
        let major = sint (i_major (ino s ip)) in
        if major < 0 \<or> major \<ge> int NDEV \<or> dv_write (devsws (cdev s) ! nat major) = None then Ok (- 1) s
        else consolewrite (Some ip) src (sint n) s
      else if off > i_size (ino s ip) \<or> off + n < off then Ok (- 1) s
      else if off + n > of_nat (MAXFILE * BSIZE) then Ok (- 1) s
      else
        bind (writei_loop (MAXFILE + 2) ip src off 0 n s) (\<lambda>off s.
        if n > 0 \<and> off > i_size (ino s ip) then
          bind (iupdate ip (upd_inode ip (\<lambda>k. k\<lparr>i_size := off\<rparr>) s)) (\<lambda>_ s. Ok (sint n) s)
        else Ok (sint n) s))"

section \<open>Directories\<close>

definition namecmp :: "u8 list \<Rightarrow> u8 list \<Rightarrow> int option" where
  "namecmp s t = strncmp s t DIRSIZ"

text \<open>The size of a directory entry is 16 bytes.\<close>

fun dirlookup_loop :: "nat \<Rightarrow> nat \<Rightarrow> u8 list \<Rightarrow> u32 \<Rightarrow> 'a dst_scheme \<Rightarrow> ('a dst_scheme, (nat \<times> u32) option) res" where
  "dirlookup_loop 0 dp name off s = Hang"
| "dirlookup_loop (Suc fuel) dp name off s =
     (if off < i_size (ino s dp) then
        bind (readi dp Dvar off 16 s) (\<lambda>(r, bs) s.
        if r \<noteq> 16 then Panic ''dirlookup read''
        else
          let de = get_dirent bs in
          if de_inum de = 0 then dirlookup_loop fuel dp name (off + 16) s
          else case namecmp name (de_name de) of None \<Rightarrow> Fault
            | Some c \<Rightarrow>
                if c = 0 then bind (iget (i_dev (ino s dp)) (ucast (de_inum de)) s) (\<lambda>ip s. Ok (Some (ip, off)) s)
                else dirlookup_loop fuel dp name (off + 16) s)
      else Ok None s)"

definition dirlookup :: "nat \<Rightarrow> u8 list \<Rightarrow> 'a dst_scheme \<Rightarrow> ('a dst_scheme, (nat \<times> u32) option) res" where
  "dirlookup dp name s =
     (if i_type (ino s dp) \<noteq> T_DIR then Panic ''dirlookup not DIR''
      else dirlookup_loop (unat (i_size (ino s dp)) div 16 + 2) dp name 0 s)"

fun dirlink_loop :: "nat \<Rightarrow> nat \<Rightarrow> u32 \<Rightarrow> 'a dst_scheme \<Rightarrow> ('a dst_scheme, u32) res" where
  "dirlink_loop 0 dp off s = Hang"
| "dirlink_loop (Suc fuel) dp off s =
     (if off < i_size (ino s dp) then
        bind (readi dp Dvar off 16 s) (\<lambda>(r, bs) s.
        if r \<noteq> 16 then Panic ''dirlink read''
        else if de_inum (get_dirent bs) = 0 then Ok off s
        else dirlink_loop fuel dp (off + 16) s)
      else Ok off s)"

definition dirlink :: "nat \<Rightarrow> u8 list \<Rightarrow> u32 \<Rightarrow> 'a dst_scheme \<Rightarrow> ('a dst_scheme, int) res" where
  "dirlink dp name inum s =
     bind (dirlookup dp name s) (\<lambda>r s.
     case r of Some (ip, _) \<Rightarrow> bind (iput ip s) (\<lambda>_ s. Ok (- 1) s)
     | None \<Rightarrow>
         bind (dirlink_loop (unat (i_size (ino s dp)) div 16 + 2) dp 0 s) (\<lambda>off s.
         case strncpy (replicate DIRSIZ 0) name DIRSIZ of None \<Rightarrow> Fault
         | Some nm \<Rightarrow>
             bind (writei dp (Svar (bytes_dirent \<lparr>de_inum = ucast inum, de_name = nm\<rparr>)) off 16 s) (\<lambda>r s.
             if r \<noteq> 16 then Panic ''dirlink'' else Ok 0 s)))"

section \<open>Path names\<close>

abbreviation (input) slash :: u8 where "slash \<equiv> 0x2F"

text \<open>
  \<open>skipelem path name\<close> is \<open>None\<close> when the code reads past the end of \<open>path\<close>, and otherwise the null
  pointer or the rest of the path and the new contents of the array \<open>name\<close>.
\<close>

definition skipelem :: "u8 list \<Rightarrow> u8 list \<Rightarrow> (u8 list \<times> u8 list) option option" where
  "skipelem path name =
     (let path = dropWhile (\<lambda>c. c = slash) path in
      case path of [] \<Rightarrow> None
      | c # _ \<Rightarrow>
          if c = 0 then Some None
          else
            let elem = takeWhile (\<lambda>c. c \<noteq> slash \<and> c \<noteq> 0) path;
                path = dropWhile (\<lambda>c. c \<noteq> slash \<and> c \<noteq> 0) path in
            if path = [] then None
            else
              let name = (if length elem \<ge> DIRSIZ then put name 0 (take DIRSIZ elem)
                          else put name 0 (elem @ [0]));
                  path = dropWhile (\<lambda>c. c = slash) path in
              if path = [] then None else Some (Some (path, name)))"

fun namex_loop ::
  "nat \<Rightarrow> nat \<Rightarrow> u8 list \<Rightarrow> bool \<Rightarrow> u8 list \<Rightarrow> 'a dst_scheme \<Rightarrow> ('a dst_scheme, nat option \<times> u8 list) res" where
  "namex_loop 0 ip path par name s = Hang"
| "namex_loop (Suc fuel) ip path par name s =
     (case skipelem path name of None \<Rightarrow> Fault
      | Some None \<Rightarrow>
          if par then bind (iput ip s) (\<lambda>_ s. Ok (None, name) s) else Ok (Some ip, name) s
      | Some (Some (path, name)) \<Rightarrow>
          bind (ilock (Some ip) s) (\<lambda>_ s.
          if i_type (ino s ip) \<noteq> T_DIR then bind (iunlockput ip s) (\<lambda>_ s. Ok (None, name) s)
          else if par \<and> hd path = 0 then bind (iunlock (Some ip) s) (\<lambda>_ s. Ok (Some ip, name) s)
          else
            bind (dirlookup ip name s) (\<lambda>r s.
            case r of None \<Rightarrow> bind (iunlockput ip s) (\<lambda>_ s. Ok (None, name) s)
            | Some (next, _) \<Rightarrow>
                bind (iunlockput ip s) (\<lambda>_ s. namex_loop fuel next path par name s))))"

definition namex :: "u8 list \<Rightarrow> bool \<Rightarrow> u8 list \<Rightarrow> 'a dst_scheme \<Rightarrow> ('a dst_scheme, nat option \<times> u8 list) res" where
  "namex path par name s =
     (case path of [] \<Rightarrow> Fault
      | c # _ \<Rightarrow>
          bind (if c = slash then iget ROOTDEV ROOTINO s
                else bind (myproc s) (\<lambda>p s.
                  case p of None \<Rightarrow> Fault
                  | Some p \<Rightarrow> case p_cwd (procs s ! p) of None \<Rightarrow> Fault | Some ip \<Rightarrow> idup ip s)) (\<lambda>ip s.
          namex_loop (length path + 1) ip path par name s))"

definition namei :: "u8 list \<Rightarrow> 'a dst_scheme \<Rightarrow> ('a dst_scheme, nat option) res" where
  "namei path s = bind (namex path False (replicate DIRSIZ 0) s) (\<lambda>(ip, _) s. Ok ip s)"

definition nameiparent :: "u8 list \<Rightarrow> u8 list \<Rightarrow> 'a dst_scheme \<Rightarrow> ('a dst_scheme, nat option \<times> u8 list) res" where
  "nameiparent path name s = namex path True name s"

end
