(* ===== verification/Pipe.thy ===== *)
theory Pipe
  imports Fs
begin

unbundle bit_operations_syntax

text \<open>
  kernel/pipe.c without the allocation, which is with the files. A pipe is the contents of the
  page it was allocated in, and is found under the address of the page.
\<close>

section \<open>State\<close>

abbreviation (input) PIPESIZE :: u32 where "PIPESIZE \<equiv> 512"

record pipe =
  pi_data :: "u8 list"
  pi_nread :: u32
  pi_nwrite :: u32
  pi_readopen :: bool
  pi_writeopen :: bool

record ppst = dst +
  pipes :: "u32 \<Rightarrow> pipe"

lemma lock_fields_ppst [simp]:
  "pipes (hold l s) = pipes s"
  "pipes (unhold l s) = pipes s"
  by (simp_all add: hold_def unhold_def push_def pop_def)

lemma lock_update_ppst [simp]:
  "hold l (s\<lparr>pipes := x_pipes\<rparr>) = (hold l s)\<lparr>pipes := x_pipes\<rparr>"
  "unhold l (s\<lparr>pipes := x_pipes\<rparr>) = (unhold l s)\<lparr>pipes := x_pipes\<rparr>"
  by (simp_all add: unhold_def pop_def hold_def push_def curcpu_def cur_def)

lemma cpu_frame_ppst [simp]:
  "cur (s\<lparr>pipes := x_pipes\<rparr>) = cur s"
  "curcpu (s\<lparr>pipes := x_pipes\<rparr>) = curcpu s"
  "curproc (s\<lparr>pipes := x_pipes\<rparr>) = curproc s"
  "quiet (s\<lparr>pipes := x_pipes\<rparr>) = quiet s"
  "lk_free l (s\<lparr>pipes := x_pipes\<rparr>) = lk_free l s"
  "lk_held l (s\<lparr>pipes := x_pipes\<rparr>) = lk_held l s"
  by (simp_all add: cur_def curcpu_def curproc_def quiet_def lk_free_def lk_held_def)

lemma inv_frame_ppst [simp]:
  "km_ready (s\<lparr>pipes := x_pipes\<rparr>) = km_ready s"
  "free_inv (s\<lparr>pipes := x_pipes\<rparr>) xs = free_inv s xs"
  "cons_ok (s\<lparr>pipes := x_pipes\<rparr>) = cons_ok s"
  by (simp_all add: km_ready_def free_inv_def cons_ok_def)

definition upd_pipe :: "u32 \<Rightarrow> (pipe \<Rightarrow> pipe) \<Rightarrow> 'a ppst_scheme \<Rightarrow> 'a ppst_scheme" where
  "upd_pipe p f s = s\<lparr>pipes := (pipes s)(p := f (pipes s p))\<rparr>"

section \<open>Operations\<close>

definition pipeclose :: "u32 \<Rightarrow> bool \<Rightarrow> 'a ppst_scheme \<Rightarrow> ('a ppst_scheme, unit) res" where
  "pipeclose p writable s =
     bind (acquire (Lpipe p) s) (\<lambda>_ s.
     bind (if writable then wakeup (Cnread p) (upd_pipe p (\<lambda>k. k\<lparr>pi_writeopen := False\<rparr>) s)
           else wakeup (Cnwrite p) (upd_pipe p (\<lambda>k. k\<lparr>pi_readopen := False\<rparr>) s)) (\<lambda>_ s.
     if \<not> pi_readopen (pipes s p) \<and> \<not> pi_writeopen (pipes s p) then
       bind (release (Lpipe p) s) (\<lambda>_ s. kfree p s)
     else release (Lpipe p) s))"

definition my_killed :: "'a pst_scheme \<Rightarrow> ('a pst_scheme, bool) res" where
  "my_killed s = bind (myproc s) (\<lambda>p s.
     case p of None \<Rightarrow> Fault | Some p \<Rightarrow> Ok (p_killed (procs s ! p)) s)"

text \<open>
  \<open>pipewrite_loop k\<close> has \<open>k\<close> of the \<open>n\<close> bytes to go, the first of them at \<open>addr\<close>. After a wakeup it
  runs again from where it slept.
\<close>

fun pipewrite_loop :: "nat \<Rightarrow> u32 \<Rightarrow> src \<Rightarrow> int \<Rightarrow> 'a ppst_scheme \<Rightarrow> ('a ppst_scheme, int) res" where
  "pipewrite_loop 0 p addr n s =
     bind (wakeup (Cnread p) s) (\<lambda>_ s. bind (release (Lpipe p) s) (\<lambda>_ s. Ok n s))"
| "pipewrite_loop (Suc k) p addr n s =
     (if pi_nwrite (pipes s p) = pi_nread (pipes s p) + PIPESIZE then
        bind (if \<not> pi_readopen (pipes s p) then Ok True s else my_killed s) (\<lambda>stop s.
        if stop then bind (release (Lpipe p) s) (\<lambda>_ s. Ok (- 1) s)
        else bind (wakeup (Cnread p) s) (\<lambda>_ s. sleep (Cnwrite p) (Some (Lpipe p)) s))
      else
        bind (src_get addr 1 s) (\<lambda>bs s.
        let s = upd_pipe p (\<lambda>k. k\<lparr>pi_data := (pi_data k)[unat (pi_nwrite k mod PIPESIZE) := hd bs]\<rparr>) s;
            s = upd_pipe p (\<lambda>k. k\<lparr>pi_nwrite := pi_nwrite k + 1\<rparr>) s in
        pipewrite_loop k p (src_add addr 1) n s))"

definition pipewrite :: "u32 \<Rightarrow> src \<Rightarrow> int \<Rightarrow> 'a ppst_scheme \<Rightarrow> ('a ppst_scheme, int) res" where
  "pipewrite p addr n s = bind (acquire (Lpipe p) s) (\<lambda>_ s. pipewrite_loop (nat n) p addr n s)"

definition pipewrite_return :: "nat \<Rightarrow> u32 \<Rightarrow> src \<Rightarrow> int \<Rightarrow> 'a ppst_scheme \<Rightarrow> ('a ppst_scheme, int) res" where
  "pipewrite_return k p addr n s = bind (sleep_return (Lpipe p) s) (\<lambda>_ s. pipewrite_loop k p addr n s)"

fun piperead_copy :: "nat \<Rightarrow> u32 \<Rightarrow> dest \<Rightarrow> int \<Rightarrow> 'a ppst_scheme \<Rightarrow> ('a ppst_scheme, int) res" where
  "piperead_copy 0 p addr i s = Ok i s"
| "piperead_copy (Suc k) p addr i s =
     (if pi_nread (pipes s p) = pi_nwrite (pipes s p) then Ok i s
      else
        let c = pi_data (pipes s p) ! unat (pi_nread (pipes s p) mod PIPESIZE);
            s = upd_pipe p (\<lambda>k. k\<lparr>pi_nread := pi_nread k + 1\<rparr>) s in
        bind (dest_put addr [c] s) (\<lambda>_ s. piperead_copy k p (dest_add addr 1) (i + 1) s))"

definition piperead_loop :: "u32 \<Rightarrow> dest \<Rightarrow> int \<Rightarrow> 'a ppst_scheme \<Rightarrow> ('a ppst_scheme, int) res" where
  "piperead_loop p addr n s =
     (if pi_nread (pipes s p) = pi_nwrite (pipes s p) \<and> pi_writeopen (pipes s p) then
        bind (my_killed s) (\<lambda>killed s.
        if killed then bind (release (Lpipe p) s) (\<lambda>_ s. Ok (- 1) s)
        else sleep (Cnread p) (Some (Lpipe p)) s)
      else
        bind (piperead_copy (nat n) p addr 0 s) (\<lambda>i s.
        bind (wakeup (Cnwrite p) s) (\<lambda>_ s.
        bind (release (Lpipe p) s) (\<lambda>_ s. Ok i s))))"

definition piperead :: "u32 \<Rightarrow> dest \<Rightarrow> int \<Rightarrow> 'a ppst_scheme \<Rightarrow> ('a ppst_scheme, int) res" where
  "piperead p addr n s = bind (acquire (Lpipe p) s) (\<lambda>_ s. piperead_loop p addr n s)"

definition piperead_return :: "u32 \<Rightarrow> dest \<Rightarrow> int \<Rightarrow> 'a ppst_scheme \<Rightarrow> ('a ppst_scheme, int) res" where
  "piperead_return p addr n s = bind (sleep_return (Lpipe p) s) (\<lambda>_ s. piperead_loop p addr n s)"

end
