(* ===== verification/File.thy ===== *)
theory File
  imports Pipe
begin

unbundle bit_operations_syntax

text \<open>
  kernel/file.c, and the allocation of a pipe from kernel/pipe.c. A pointer to a file structure
  is its index in the table.
\<close>

section \<open>State\<close>

abbreviation (input) NFILE :: nat where "NFILE \<equiv> 100"

datatype ftype = FD_NONE | FD_PIPE | FD_INODE

record filerec =
  f_type :: ftype
  f_ref :: int
  f_readable :: bool
  f_writable :: bool
  f_pipe :: u32
  f_ip :: nat
  f_off :: u32

record flst = ppst +
  files :: "filerec list"

lemma lock_fields_flst [simp]:
  "files (hold l s) = files s"
  "files (unhold l s) = files s"
  by (simp_all add: hold_def unhold_def push_def pop_def)

lemma lock_update_flst [simp]:
  "hold l (s\<lparr>files := x_files\<rparr>) = (hold l s)\<lparr>files := x_files\<rparr>"
  "unhold l (s\<lparr>files := x_files\<rparr>) = (unhold l s)\<lparr>files := x_files\<rparr>"
  by (simp_all add: unhold_def pop_def hold_def push_def curcpu_def cur_def)

lemma cpu_frame_flst [simp]:
  "cur (s\<lparr>files := x_files\<rparr>) = cur s"
  "curcpu (s\<lparr>files := x_files\<rparr>) = curcpu s"
  "curproc (s\<lparr>files := x_files\<rparr>) = curproc s"
  "quiet (s\<lparr>files := x_files\<rparr>) = quiet s"
  "lk_free l (s\<lparr>files := x_files\<rparr>) = lk_free l s"
  "lk_held l (s\<lparr>files := x_files\<rparr>) = lk_held l s"
  by (simp_all add: cur_def curcpu_def curproc_def quiet_def lk_free_def lk_held_def)

lemma inv_frame_flst [simp]:
  "km_ready (s\<lparr>files := x_files\<rparr>) = km_ready s"
  "free_inv (s\<lparr>files := x_files\<rparr>) xs = free_inv s xs"
  "cons_ok (s\<lparr>files := x_files\<rparr>) = cons_ok s"
  by (simp_all add: km_ready_def free_inv_def cons_ok_def)

definition upd_file :: "nat \<Rightarrow> (filerec \<Rightarrow> filerec) \<Rightarrow> 'a flst_scheme \<Rightarrow> 'a flst_scheme" where
  "upd_file i f s = s\<lparr>files := (files s)[i := f (files s ! i)]\<rparr>"

section \<open>Operations\<close>

definition fileinit :: "'a flst_scheme \<Rightarrow> 'a flst_scheme" where
  "fileinit s = initlock Lftable ''ftable'' s"

definition filealloc :: "'a flst_scheme \<Rightarrow> ('a flst_scheme, nat option) res" where
  "filealloc s =
     bind (acquire Lftable s) (\<lambda>_ s.
     case find_idx (\<lambda>f. f_ref f = 0) (files s) of
       Some f \<Rightarrow>
         let s = upd_file f (\<lambda>k. k\<lparr>f_ref := 1\<rparr>) s in
         bind (release Lftable s) (\<lambda>_ s. Ok (Some f) s)
     | None \<Rightarrow> bind (release Lftable s) (\<lambda>_ s. Ok None s))"

definition filedup :: "nat \<Rightarrow> 'a flst_scheme \<Rightarrow> ('a flst_scheme, nat) res" where
  "filedup f s =
     bind (acquire Lftable s) (\<lambda>_ s.
     if f_ref (files s ! f) < 1 then Panic ''filedup''
     else
       let s = upd_file f (\<lambda>k. k\<lparr>f_ref := f_ref k + 1\<rparr>) s in
       bind (release Lftable s) (\<lambda>_ s. Ok f s))"

definition fileclose :: "nat \<Rightarrow> 'a flst_scheme \<Rightarrow> ('a flst_scheme, unit) res" where
  "fileclose f s =
     bind (acquire Lftable s) (\<lambda>_ s.
     if f_ref (files s ! f) < 1 then Panic ''fileclose''
     else
       let s = upd_file f (\<lambda>k. k\<lparr>f_ref := f_ref k - 1\<rparr>) s in
       if f_ref (files s ! f) > 0 then release Lftable s
       else
         let ff = files s ! f;
             s = upd_file f (\<lambda>k. k\<lparr>f_ref := 0\<rparr>) s;
             s = upd_file f (\<lambda>k. k\<lparr>f_type := FD_NONE\<rparr>) s in
         bind (release Lftable s) (\<lambda>_ s.
         if f_type ff = FD_PIPE then pipeclose (f_pipe ff) (f_writable ff) s
         else if f_type ff = FD_INODE then
           bind (begin_op s) (\<lambda>_ s.
           bind (iput (f_ip ff) s) (\<lambda>_ s. end_op s))
         else Ok () s))"

definition filestat :: "nat \<Rightarrow> 'a flst_scheme \<Rightarrow> ('a flst_scheme, int \<times> stat option) res" where
  "filestat f s =
     (if f_type (files s ! f) = FD_INODE then
        bind (ilock (Some (f_ip (files s ! f))) s) (\<lambda>_ s.
        let st = stati (f_ip (files s ! f)) s in
        bind (iunlock (Some (f_ip (files s ! f))) s) (\<lambda>_ s. Ok (0, Some st) s))
      else Ok (- 1, None) s)"

definition fileread :: "nat \<Rightarrow> dest \<Rightarrow> int \<Rightarrow> 'a flst_scheme \<Rightarrow> ('a flst_scheme, int) res" where
  "fileread f addr n s =
     (if \<not> f_readable (files s ! f) then Ok (- 1) s
      else if f_type (files s ! f) = FD_PIPE then piperead (f_pipe (files s ! f)) addr n s
      else if f_type (files s ! f) = FD_INODE then
        bind (ilock (Some (f_ip (files s ! f))) s) (\<lambda>_ s.
        bind (readi (f_ip (files s ! f)) addr (f_off (files s ! f)) (of_int n) s) (\<lambda>(r, _) s.
        let s = (if r > 0 then upd_file f (\<lambda>k. k\<lparr>f_off := f_off k + of_int r\<rparr>) s else s) in
        bind (iunlock (Some (f_ip (files s ! f))) s) (\<lambda>_ s. Ok r s)))
      else Panic ''fileread'')"

text \<open>
  The loop of \<open>filewrite\<close>, with the bytes still to write at \<open>addr\<close>. Every turn writes at least one
  byte, so that \<open>n\<close> turns are enough.
\<close>

fun filewrite_loop :: "nat \<Rightarrow> nat \<Rightarrow> src \<Rightarrow> int \<Rightarrow> int \<Rightarrow> 'a flst_scheme \<Rightarrow> ('a flst_scheme, int) res" where
  "filewrite_loop 0 f addr i n s = Hang"
| "filewrite_loop (Suc fuel) f addr i n s =
     (if i < n then
        let n1 = n - i;
            n1 = (if n1 > 1536 then 1536 else n1) in
        bind (begin_op s) (\<lambda>_ s.
        bind (ilock (Some (f_ip (files s ! f))) s) (\<lambda>_ s.
        bind (writei (f_ip (files s ! f)) addr (f_off (files s ! f)) (of_int n1) s) (\<lambda>r s.
        let s = (if r > 0 then upd_file f (\<lambda>k. k\<lparr>f_off := f_off k + of_int r\<rparr>) s else s) in
        bind (iunlock (Some (f_ip (files s ! f))) s) (\<lambda>_ s.
        bind (end_op s) (\<lambda>_ s.
        if r < 0 then Ok i s
        else if r \<noteq> n1 then Panic ''short filewrite''
        else filewrite_loop fuel f (src_add addr (of_int r)) (i + r) n s)))))
      else Ok i s)"

definition filewrite :: "nat \<Rightarrow> src \<Rightarrow> int \<Rightarrow> 'a flst_scheme \<Rightarrow> ('a flst_scheme, int) res" where
  "filewrite f addr n s =
     (if \<not> f_writable (files s ! f) then Ok (- 1) s
      else if f_type (files s ! f) = FD_PIPE then pipewrite (f_pipe (files s ! f)) addr n s
      else if f_type (files s ! f) = FD_INODE then
        bind (filewrite_loop (nat n + 1) f addr 0 n s) (\<lambda>i s. Ok (if i = n then n else - 1) s)
      else Panic ''filewrite'')"

section \<open>Allocating a pipe\<close>

definition pipealloc_bad ::
  "nat option \<Rightarrow> nat option \<Rightarrow> 'a flst_scheme \<Rightarrow> ('a flst_scheme, (nat \<times> nat) option) res" where
  "pipealloc_bad f0 f1 s =
     bind (case f0 of None \<Rightarrow> Ok () s | Some f \<Rightarrow> fileclose f s) (\<lambda>_ s.
     bind (case f1 of None \<Rightarrow> Ok () s | Some f \<Rightarrow> fileclose f s) (\<lambda>_ s. Ok None s))"

definition pipealloc :: "'a flst_scheme \<Rightarrow> ('a flst_scheme, (nat \<times> nat) option) res" where
  "pipealloc s =
     bind (filealloc s) (\<lambda>f0 s.
     case f0 of None \<Rightarrow> pipealloc_bad None None s
     | Some a \<Rightarrow>
       bind (filealloc s) (\<lambda>f1 s.
       case f1 of None \<Rightarrow> pipealloc_bad f0 None s
       | Some b \<Rightarrow>
         bind (kalloc s) (\<lambda>p s.
         if p = 0 then pipealloc_bad f0 f1 s
         else
           let s = upd_pipe p (\<lambda>k. k\<lparr>pi_readopen := True, pi_writeopen := True, pi_nwrite := 0, pi_nread := 0\<rparr>) s;
               s = initlock (Lpipe p) ''pipe'' s;
               s = upd_file a (\<lambda>k. k\<lparr>f_type := FD_PIPE, f_readable := True, f_writable := False, f_pipe := p\<rparr>) s;
               s = upd_file b (\<lambda>k. k\<lparr>f_type := FD_PIPE, f_readable := False, f_writable := True, f_pipe := p\<rparr>) s in
           Ok (Some (a, b)) s)))"

end
