(* ===== verification/Proclife.thy ===== *)
theory Proclife
  imports File
begin

unbundle bit_operations_syntax

text \<open>
  The rest of kernel/proc.c: the first process, \<open>fork\<close>, \<open>exit\<close>, \<open>wait\<close> and the first return of a
  new process. The program of the first process, which the build links into the kernel, is the
  argument \<open>initcode\<close>.
\<close>

section \<open>State\<close>

text \<open>
  The remaining global and static variables: the clock and the faulting address, and the
  static variables of \<open>forkret\<close> and \<open>sys_get_shared\<close>.
\<close>

record globals =
  g_ticks :: u32
  g_cr2 :: u32
  g_first :: bool
  g_primecom :: bool

record kst = flst +
  glob :: globals

lemma lock_fields_kst [simp]:
  "glob (hold l s) = glob s"
  "glob (unhold l s) = glob s"
  by (simp_all add: hold_def unhold_def push_def pop_def)

lemma lock_update_kst [simp]:
  "hold l (s\<lparr>glob := x_glob\<rparr>) = (hold l s)\<lparr>glob := x_glob\<rparr>"
  "unhold l (s\<lparr>glob := x_glob\<rparr>) = (unhold l s)\<lparr>glob := x_glob\<rparr>"
  by (simp_all add: unhold_def pop_def hold_def push_def curcpu_def cur_def)

lemma cpu_frame_kst [simp]:
  "cur (s\<lparr>glob := x_glob\<rparr>) = cur s"
  "curcpu (s\<lparr>glob := x_glob\<rparr>) = curcpu s"
  "curproc (s\<lparr>glob := x_glob\<rparr>) = curproc s"
  "quiet (s\<lparr>glob := x_glob\<rparr>) = quiet s"
  "lk_free l (s\<lparr>glob := x_glob\<rparr>) = lk_free l s"
  "lk_held l (s\<lparr>glob := x_glob\<rparr>) = lk_held l s"
  by (simp_all add: cur_def curcpu_def curproc_def quiet_def lk_free_def lk_held_def)

lemma inv_frame_kst [simp]:
  "km_ready (s\<lparr>glob := x_glob\<rparr>) = km_ready s"
  "free_inv (s\<lparr>glob := x_glob\<rparr>) xs = free_inv s xs"
  "cons_ok (s\<lparr>glob := x_glob\<rparr>) = cons_ok s"
  by (simp_all add: km_ready_def free_inv_def cons_ok_def)

definition upd_glob :: "(globals \<Rightarrow> globals) \<Rightarrow> 'a kst_scheme \<Rightarrow> 'a kst_scheme" where
  "upd_glob f s = s\<lparr>glob := f (glob s)\<rparr>"

section \<open>The first process\<close>

definition tf_zero :: trapframe where
  "tf_zero = \<lparr>tf_edi = 0, tf_esi = 0, tf_ebp = 0, tf_oesp = 0, tf_ebx = 0, tf_edx = 0, tf_ecx = 0,
     tf_eax = 0, tf_gs = 0, tf_fs = 0, tf_es = 0, tf_ds = 0, tf_trapno = 0, tf_err = 0, tf_eip = 0,
     tf_cs = 0, tf_eflags = 0, tf_esp = 0, tf_ss = 0\<rparr>"

definition userinit :: "u8 list \<Rightarrow> 'a dst_scheme \<Rightarrow> ('a dst_scheme, unit) res" where
  "userinit initcode s =
     bind (allocproc s) (\<lambda>p s.
     case p of None \<Rightarrow> Fault
     | Some p \<Rightarrow>
       let s = s\<lparr>initproc := Some p\<rparr> in
       bind (setupkvm s) (\<lambda>d s.
       let s = upd_proc p (\<lambda>q. q\<lparr>p_pgdir := d\<rparr>) s in
       if d = 0 then Panic ''userinit: out of memory?''
       else
         bind (inituvm d initcode s) (\<lambda>_ s.
         let s = upd_proc p (\<lambda>q. q\<lparr>p_sz := PGSIZE\<rparr>) s;
             s = upd_proc p (\<lambda>q. q\<lparr>p_tf := tf_zero\<lparr>tf_cs := 0x1B, tf_ds := 0x23, tf_es := 0x23,
                   tf_ss := 0x23, tf_eflags := 0x200, tf_esp := PGSIZE, tf_eip := 0\<rparr>\<rparr>) s in
         case safestrcpy (p_name (procs s ! p)) (map of_char ''initcode'' @ [0]) 16 of None \<Rightarrow> Fault
         | Some nm \<Rightarrow>
             let s = upd_proc p (\<lambda>q. q\<lparr>p_name := nm\<rparr>) s in
             bind (namei [slash, 0] s) (\<lambda>ip s.
             let s = upd_proc p (\<lambda>q. q\<lparr>p_cwd := ip\<rparr>) s in
             bind (acquire Lptable s) (\<lambda>_ s.
             release Lptable (upd_proc p (\<lambda>q. q\<lparr>p_state := RUNNABLE\<rparr>) s))))))"

section \<open>Fork\<close>

fun fork_files :: "nat list \<Rightarrow> nat \<Rightarrow> nat \<Rightarrow> 'a flst_scheme \<Rightarrow> ('a flst_scheme, unit) res" where
  "fork_files [] cp np s = Ok () s"
| "fork_files (i # is) cp np s =
     (case p_ofile (procs s ! cp) ! i of None \<Rightarrow> fork_files is cp np s
      | Some f \<Rightarrow>
          bind (filedup f s) (\<lambda>f s.
          fork_files is cp np (upd_proc np (\<lambda>q. q\<lparr>p_ofile := (p_ofile q)[i := Some f]\<rparr>) s)))"

text \<open>The loop over the shared regions: whether it ended before the tenth entry.\<close>

fun fork_shared :: "nat \<Rightarrow> nat \<Rightarrow> nat \<Rightarrow> nat \<Rightarrow> 'a pst_scheme \<Rightarrow> bool \<times> 'a pst_scheme" where
  "fork_shared 0 i cp np s = (False, s)"
| "fork_shared (Suc n) i cp np s =
     (if sh_sz (p_shared (procs s ! cp) ! i) = 0 then (True, s)
      else fork_shared n (i + 1) cp np
        (upd_proc np (\<lambda>q. q\<lparr>p_shared := (p_shared q)[i := p_shared (procs s ! cp) ! i]\<rparr>) s))"

definition fork_undo :: "nat \<Rightarrow> 'a pst_scheme \<Rightarrow> ('a pst_scheme, int) res" where
  "fork_undo np s =
     bind (kfree (p_kstack (procs s ! np)) s) (\<lambda>_ s.
     let s = upd_proc np (\<lambda>q. q\<lparr>p_kstack := 0\<rparr>) s in
     Ok (- 1) (upd_proc np (\<lambda>q. q\<lparr>p_state := UNUSED\<rparr>) s))"

definition fork :: "'a flst_scheme \<Rightarrow> ('a flst_scheme, int) res" where
  "fork s =
     bind (myproc s) (\<lambda>cp s.
     bind (allocproc s) (\<lambda>np s.
     case np of None \<Rightarrow> Ok (- 1) s
     | Some np \<Rightarrow>
       (case cp of None \<Rightarrow> Fault
        | Some cp \<Rightarrow>
          bind (copyuvm (p_pgdir (procs s ! cp)) (p_sz (procs s ! cp)) s) (\<lambda>d s.
          let s = upd_proc np (\<lambda>q. q\<lparr>p_pgdir := d\<rparr>) s in
          if d = 0 then fork_undo np s
          else
            let s = upd_proc np (\<lambda>q. q\<lparr>p_sz := p_sz (procs s ! cp)\<rparr>) s;
                s = upd_proc np (\<lambda>q. q\<lparr>p_parent := Some cp\<rparr>) s;
                s = upd_proc np (\<lambda>q. q\<lparr>p_tf := p_tf (procs s ! cp)\<rparr>) s;
                s = upd_proc np (\<lambda>q. q\<lparr>p_parentpgdir := p_pgdir (procs s ! cp)\<rparr>) s;
                s = upd_proc np (\<lambda>q. q\<lparr>p_tf := (p_tf q)\<lparr>tf_eax := 0\<rparr>\<rparr>) s in
            bind (fork_files [0..<NOFILE] cp np s) (\<lambda>_ s.
            bind (case p_cwd (procs s ! cp) of None \<Rightarrow> Fault | Some ip \<Rightarrow> idup ip s) (\<lambda>ip s.
            let s = upd_proc np (\<lambda>q. q\<lparr>p_cwd := Some ip\<rparr>) s;
                (ok, s) = fork_shared MAXSHARED 0 cp np s in
            if \<not> ok then fork_undo np s
            else
              case safestrcpy (p_name (procs s ! np)) (p_name (procs s ! cp)) 16 of None \<Rightarrow> Fault
              | Some nm \<Rightarrow>
                  let s = upd_proc np (\<lambda>q. q\<lparr>p_name := nm\<rparr>) s;
                      pid = p_pid (procs s ! np) in
                  bind (acquire Lptable s) (\<lambda>_ s.
                  let s = upd_proc np (\<lambda>q. q\<lparr>p_state := RUNNABLE\<rparr>) s in
                  bind (release Lptable s) (\<lambda>_ s. Ok pid s))))))))"

section \<open>Exit and wait\<close>

fun exit_files :: "nat list \<Rightarrow> nat \<Rightarrow> 'a flst_scheme \<Rightarrow> ('a flst_scheme, unit) res" where
  "exit_files [] cp s = Ok () s"
| "exit_files (fd # fds) cp s =
     (case p_ofile (procs s ! cp) ! fd of None \<Rightarrow> exit_files fds cp s
      | Some f \<Rightarrow>
          bind (fileclose f s) (\<lambda>_ s.
          exit_files fds cp (upd_proc cp (\<lambda>q. q\<lparr>p_ofile := (p_ofile q)[fd := None]\<rparr>) s)))"

definition chan_of :: "nat option \<Rightarrow> chan" where
  "chan_of p = (case p of None \<Rightarrow> Cnull | Some i \<Rightarrow> Cproc i)"

text \<open>Passing the children of \<open>cp\<close> to the first process.\<close>

fun reparent :: "nat list \<Rightarrow> nat \<Rightarrow> 'a pst_scheme \<Rightarrow> 'a pst_scheme" where
  "reparent [] cp s = s"
| "reparent (p # ps) cp s =
     (if p_parent (procs s ! p) = Some cp then
        let s = upd_proc p (\<lambda>q. q\<lparr>p_parent := initproc s\<rparr>) s;
            s = (if p_state (procs s ! p) = ZOMBIE then wakeup1 (chan_of (initproc s)) s else s) in
        reparent ps cp s
      else reparent ps cp s)"

definition exit :: "'a flst_scheme \<Rightarrow> ('a flst_scheme, 'b) res" where
  "exit s =
     bind (myproc s) (\<lambda>cp s.
     if cp = initproc s then Panic ''init exiting''
     else case cp of None \<Rightarrow> Fault
     | Some cp \<Rightarrow>
       bind (exit_files [0..<NOFILE] cp s) (\<lambda>_ s.
       let s = upd_proc cp (\<lambda>q. q\<lparr>p_shared := map (\<lambda>e. e\<lparr>sh_sz := 0\<rparr>) (p_shared q)\<rparr>) s in
       bind (begin_op s) (\<lambda>_ s.
       bind (case p_cwd (procs s ! cp) of None \<Rightarrow> Fault | Some ip \<Rightarrow> iput ip s) (\<lambda>_ s.
       bind (end_op s) (\<lambda>_ s.
       let s = upd_proc cp (\<lambda>q. q\<lparr>p_cwd := None\<rparr>) s in
       bind (acquire Lptable s) (\<lambda>_ s.
       let s = wakeup1 (chan_of (p_parent (procs s ! cp))) s;
           s = reparent [0..<length (procs s)] cp s;
           s = upd_proc cp (\<lambda>q. q\<lparr>p_state := ZOMBIE\<rparr>) s in
       sched s))))))"

definition exit_return :: "'a flst_scheme \<Rightarrow> ('a flst_scheme, 'b) res" where
  "exit_return s = bind (sched_return s) (\<lambda>_ s. Panic ''zombie exit'')"

text \<open>One turn of the loop of \<open>wait\<close>, with the table locked; after a wakeup it runs again.\<close>

definition wait_loop :: "nat option \<Rightarrow> 'a pst_scheme \<Rightarrow> ('a pst_scheme, int) res" where
  "wait_loop cp s =
     (case find_idx (\<lambda>p. p_parent p = cp \<and> p_state p = ZOMBIE) (procs s) of
        Some p \<Rightarrow>
          let pid = p_pid (procs s ! p) in
          bind (kfree (p_kstack (procs s ! p)) s) (\<lambda>_ s.
          let s = upd_proc p (\<lambda>q. q\<lparr>p_kstack := 0\<rparr>) s in
          bind (freevm (p_pgdir (procs s ! p)) s) (\<lambda>_ s.
          let s = upd_proc p (\<lambda>q. q\<lparr>p_pid := 0, p_parent := None, p_name := (p_name q)[0 := 0],
                    p_killed := False, p_state := UNUSED\<rparr>) s in
          bind (release Lptable s) (\<lambda>_ s. Ok pid s)))
      | None \<Rightarrow>
          bind (if \<forall>p\<in>set (procs s). p_parent p \<noteq> cp then Ok True s
                else case cp of None \<Rightarrow> Fault | Some c \<Rightarrow> Ok (p_killed (procs s ! c)) s) (\<lambda>stop s.
          if stop then bind (release Lptable s) (\<lambda>_ s. Ok (- 1) s)
          else sleep (chan_of cp) (Some Lptable) s))"

definition wait :: "'a pst_scheme \<Rightarrow> ('a pst_scheme, int) res" where
  "wait s =
     bind (myproc s) (\<lambda>cp s.
     bind (acquire Lptable s) (\<lambda>_ s. wait_loop cp s))"

definition wait_return :: "nat option \<Rightarrow> 'a pst_scheme \<Rightarrow> ('a pst_scheme, int) res" where
  "wait_return cp s = bind (sleep_return Lptable s) (\<lambda>_ s. wait_loop cp s)"

section \<open>The first return\<close>

definition forkret :: "'a kst_scheme \<Rightarrow> ('a kst_scheme, unit) res" where
  "forkret s =
     bind (release Lptable s) (\<lambda>_ s.
     if g_first (glob s) then
       let s = upd_glob (\<lambda>g. g\<lparr>g_first := False\<rparr>) s in
       bind (iinit ROOTDEV s) (\<lambda>_ s. initlog ROOTDEV s)
     else Ok () s)"

end
