(* ===== verification/Sysarg.thy ===== *)
theory Sysarg
  imports Proclife
begin

unbundle bit_operations_syntax

text \<open>
  kernel/syscall.c, fetching the arguments of a system call from the calling process's memory,
  and kernel/sysproc.c. A fetch gives \<open>None\<close> where the code returns \<open>- 1\<close>. A string argument is
  its address and its bytes with the final 0.
\<close>

section \<open>Arguments\<close>

definition fetchint :: "u32 \<Rightarrow> 'a vst_scheme \<Rightarrow> ('a vst_scheme, u32 option) res" where
  "fetchint addr s =
     bind (myproc s) (\<lambda>p s.
     case p of None \<Rightarrow> Fault
     | Some p \<Rightarrow>
         let sz = p_sz (procs s ! p) in
         if addr \<ge> sz \<or> addr + 4 > sz then Ok None s
         else case vload32 addr s of None \<Rightarrow> Fault | Some w \<Rightarrow> Ok (Some w) s)"

text \<open>The bytes up to the final 0 at \<open>a\<close>, with \<open>n\<close> bytes before the end of the process's memory.\<close>

fun fetchstr_loop :: "nat \<Rightarrow> u32 \<Rightarrow> u8 list \<Rightarrow> 'a vst_scheme \<Rightarrow> ('a vst_scheme, u8 list option) res" where
  "fetchstr_loop 0 a acc s = Ok None s"
| "fetchstr_loop (Suc n) a acc s =
     (case vload a s of None \<Rightarrow> Fault
      | Some b \<Rightarrow> if b = 0 then Ok (Some (acc @ [0])) s else fetchstr_loop n (a + 1) (acc @ [b]) s)"

definition fetchstr :: "u32 \<Rightarrow> 'a vst_scheme \<Rightarrow> ('a vst_scheme, (u32 \<times> u8 list) option) res" where
  "fetchstr addr s =
     bind (myproc s) (\<lambda>p s.
     case p of None \<Rightarrow> Fault
     | Some p \<Rightarrow>
         let sz = p_sz (procs s ! p) in
         if addr \<ge> sz then Ok None s
         else bind (fetchstr_loop (unat sz - unat addr) addr [] s) (\<lambda>r s.
           Ok (map_option (Pair addr) r) s))"

definition argint :: "nat \<Rightarrow> 'a vst_scheme \<Rightarrow> ('a vst_scheme, u32 option) res" where
  "argint n s =
     bind (myproc s) (\<lambda>p s.
     case p of None \<Rightarrow> Fault
     | Some p \<Rightarrow> fetchint (tf_esp (p_tf (procs s ! p)) + 4 + 4 * of_nat n) s)"

definition argptr :: "nat \<Rightarrow> int \<Rightarrow> 'a vst_scheme \<Rightarrow> ('a vst_scheme, u32 option) res" where
  "argptr n nbytes s =
     bind (myproc s) (\<lambda>p s.
     bind (argint n s) (\<lambda>r s.
     case r of None \<Rightarrow> Ok None s
     | Some i \<Rightarrow>
       (case p of None \<Rightarrow> Fault
        | Some p \<Rightarrow>
            let sz = p_sz (procs s ! p) in
            if nbytes < 0 \<or> i \<ge> sz \<or> i + of_int nbytes > sz then Ok None s else Ok (Some i) s)))"

definition argstr :: "nat \<Rightarrow> 'a vst_scheme \<Rightarrow> ('a vst_scheme, (u32 \<times> u8 list) option) res" where
  "argstr n s =
     bind (argint n s) (\<lambda>r s. case r of None \<Rightarrow> Ok None s | Some addr \<Rightarrow> fetchstr addr s)"

definition proveri :: "'a pst_scheme \<Rightarrow> ('a pst_scheme, unit) res" where
  "proveri s =
     bind (myproc s) (\<lambda>p s.
     case p of None \<Rightarrow> Fault
     | Some p \<Rightarrow> cprintf ''%s '' [Astr (Some (p_name (procs s ! p)))] s)"

section \<open>Process system calls\<close>

definition sys_fork :: "'a flst_scheme \<Rightarrow> ('a flst_scheme, int) res" where
  "sys_fork s = fork s"

definition sys_exit :: "'a flst_scheme \<Rightarrow> ('a flst_scheme, int) res" where
  "sys_exit s = exit s"

definition sys_wait :: "'a pst_scheme \<Rightarrow> ('a pst_scheme, int) res" where
  "sys_wait s = wait s"

definition sys_kill :: "'a vst_scheme \<Rightarrow> ('a vst_scheme, int) res" where
  "sys_kill s =
     bind (argint 0 s) (\<lambda>r s. case r of None \<Rightarrow> Ok (- 1) s | Some pid \<Rightarrow> kill (sint pid) s)"

definition sys_getpid :: "'a pst_scheme \<Rightarrow> ('a pst_scheme, int) res" where
  "sys_getpid s =
     bind (myproc s) (\<lambda>p s. case p of None \<Rightarrow> Fault | Some p \<Rightarrow> Ok (p_pid (procs s ! p)) s)"

definition sys_sbrk :: "'a vst_scheme \<Rightarrow> ('a vst_scheme, int) res" where
  "sys_sbrk s =
     bind (argint 0 s) (\<lambda>r s.
     case r of None \<Rightarrow> Ok (- 1) s
     | Some n \<Rightarrow>
         bind (myproc s) (\<lambda>p s.
         case p of None \<Rightarrow> Fault
         | Some p \<Rightarrow>
             let addr = sint (p_sz (procs s ! p)) in
             bind (growproc (sint n) s) (\<lambda>r s. Ok (if r < 0 then - 1 else addr) s)))"

text \<open>The loop of \<open>sys_sleep\<close>; after a wakeup it runs again.\<close>

definition sys_sleep_loop :: "u32 \<Rightarrow> u32 \<Rightarrow> 'a kst_scheme \<Rightarrow> ('a kst_scheme, int) res" where
  "sys_sleep_loop ticks0 n s =
     (if g_ticks (glob s) - ticks0 < n then
        bind (my_killed s) (\<lambda>killed s.
        if killed then bind (release Lticks s) (\<lambda>_ s. Ok (- 1) s)
        else sleep Cticks (Some Lticks) s)
      else bind (release Lticks s) (\<lambda>_ s. Ok 0 s))"

definition sys_sleep :: "'a kst_scheme \<Rightarrow> ('a kst_scheme, int) res" where
  "sys_sleep s =
     bind (argint 0 s) (\<lambda>r s.
     case r of None \<Rightarrow> Ok (- 1) s
     | Some n \<Rightarrow>
         bind (acquire Lticks s) (\<lambda>_ s. sys_sleep_loop (g_ticks (glob s)) n s))"

definition sys_sleep_return :: "u32 \<Rightarrow> u32 \<Rightarrow> 'a kst_scheme \<Rightarrow> ('a kst_scheme, int) res" where
  "sys_sleep_return ticks0 n s = bind (sleep_return Lticks s) (\<lambda>_ s. sys_sleep_loop ticks0 n s)"

definition sys_uptime :: "'a kst_scheme \<Rightarrow> ('a kst_scheme, int) res" where
  "sys_uptime s =
     bind (acquire Lticks s) (\<lambda>_ s.
     let xticks = g_ticks (glob s) in
     bind (release Lticks s) (\<lambda>_ s. Ok (sint xticks) s))"

end
