(* ===== verification/Exec.thy ===== *)
theory Exec
  imports Sysarg
begin

unbundle bit_operations_syntax

text \<open>
  kernel/exec.c with the ELF format of kernel/elf.h, and \<open>loaduvm\<close> of kernel/vm.c. The arguments
  \<open>argv\<close> are the addresses of strings in the calling process's memory, up to the null pointer
  that ends the array.
\<close>

section \<open>The ELF format\<close>

abbreviation (input) ELF_MAGIC :: u32 where "ELF_MAGIC \<equiv> 0x464C457F"
abbreviation (input) ELF_PROG_LOAD :: u32 where "ELF_PROG_LOAD \<equiv> 1"
abbreviation (input) MAXARG :: nat where "MAXARG \<equiv> 32"

text \<open>The fields of the headers that \<open>exec\<close> uses; the headers take 52 and 32 bytes.\<close>

record elfhdr =
  e_magic :: u32
  e_entry :: u32
  e_phoff :: u32
  e_phnum :: u16

definition get_elfhdr :: "u8 list \<Rightarrow> elfhdr" where
  "get_elfhdr bs = \<lparr>e_magic = get32 bs 0, e_entry = get32 bs 24, e_phoff = get32 bs 28,
     e_phnum = get16 bs 44\<rparr>"

record proghdr =
  ph_type :: u32
  ph_off :: u32
  ph_vaddr :: u32
  ph_filesz :: u32
  ph_memsz :: u32

definition get_proghdr :: "u8 list \<Rightarrow> proghdr" where
  "get_proghdr bs = \<lparr>ph_type = get32 bs 0, ph_off = get32 bs 4, ph_vaddr = get32 bs 8,
     ph_filesz = get32 bs 16, ph_memsz = get32 bs 20\<rparr>"

section \<open>Loading\<close>

fun loaduvm_loop ::
  "nat \<Rightarrow> u32 \<Rightarrow> u32 \<Rightarrow> nat \<Rightarrow> u32 \<Rightarrow> u32 \<Rightarrow> u32 \<Rightarrow> 'a dst_scheme \<Rightarrow> ('a dst_scheme, int) res" where
  "loaduvm_loop 0 pgdir addr ip offs sz i s = Hang"
| "loaduvm_loop (Suc fuel) pgdir addr ip offs sz i s =
     (if i < sz then
        bind (walkpgdir pgdir (addr + i) False s) (\<lambda>pte s.
        if pte = 0 then Panic ''loaduvm: address should exist''
        else
          let pa = PTE_ADDR (load32 (mem s) pte);
              n = (if sz - i < PGSIZE then sz - i else PGSIZE) in
          bind (readi ip (Daddr (P2V pa)) (offs + i) n s) (\<lambda>(r, _) s.
          if r \<noteq> sint n then Ok (- 1) s
          else loaduvm_loop fuel pgdir addr ip offs sz (i + PGSIZE) s))
      else Ok 0 s)"

definition loaduvm :: "u32 \<Rightarrow> u32 \<Rightarrow> nat \<Rightarrow> u32 \<Rightarrow> u32 \<Rightarrow> 'a dst_scheme \<Rightarrow> ('a dst_scheme, int) res" where
  "loaduvm pgdir addr ip offs sz s =
     (if addr mod PGSIZE \<noteq> 0 then Panic ''loaduvm: addr must be page aligned''
      else loaduvm_loop 1048577 pgdir addr ip offs sz 0 s)"

text \<open>
  The loop over the program headers, with \<open>n\<close> headers left, from file offset \<open>off\<close> on: the new
  size, or nothing where the code jumps to \<open>bad\<close>.
\<close>

fun load_segments ::
  "nat \<Rightarrow> u32 \<Rightarrow> nat \<Rightarrow> u32 \<Rightarrow> u32 \<Rightarrow> 'a dst_scheme \<Rightarrow> ('a dst_scheme, u32 option) res" where
  "load_segments 0 pgdir ip off sz s = Ok (Some sz) s"
| "load_segments (Suc n) pgdir ip off sz s =
     bind (readi ip Dvar off 32 s) (\<lambda>(r, bs) s.
     if r \<noteq> 32 then Ok None s
     else
       let ph = get_proghdr bs in
       if ph_type ph \<noteq> ELF_PROG_LOAD then load_segments n pgdir ip (off + 32) sz s
       else if ph_memsz ph < ph_filesz ph then Ok None s
       else if ph_vaddr ph + ph_memsz ph < ph_vaddr ph then Ok None s
       else
         bind (allocuvm pgdir sz (ph_vaddr ph + ph_memsz ph) s) (\<lambda>sz s.
         if sz = 0 then Ok None s
         else if ph_vaddr ph mod PGSIZE \<noteq> 0 then Ok None s
         else
           bind (loaduvm pgdir (ph_vaddr ph) ip (ph_off ph) (ph_filesz ph) s) (\<lambda>r s.
           if r < 0 then Ok None s
           else load_segments n pgdir ip (off + 32) sz s)))"

section \<open>Strings in the caller's memory\<close>

text \<open>\<open>strncmp\<close> of a string constant with the string at address \<open>a\<close>.\<close>

fun vstrncmp :: "u8 list \<Rightarrow> u32 \<Rightarrow> nat \<Rightarrow> 'a vst_scheme \<Rightarrow> ('a vst_scheme, int) res" where
  "vstrncmp p a 0 s = Ok 0 s"
| "vstrncmp [] a (Suc n) s = Fault"
| "vstrncmp (x # p) a (Suc n) s =
     (if x = 0 then (case vload a s of None \<Rightarrow> Fault | Some y \<Rightarrow> Ok (uint x - uint y) s)
      else case vload a s of None \<Rightarrow> Fault
        | Some y \<Rightarrow> if x = y then vstrncmp p (a + 1) n s else Ok (uint x - uint y) s)"

text \<open>The bytes of the string at \<open>a\<close> with its final 0; it ends within \<open>n\<close> bytes.\<close>

fun vcstr :: "nat \<Rightarrow> u32 \<Rightarrow> 'a vst_scheme \<Rightarrow> u8 list option" where
  "vcstr 0 a s = None"
| "vcstr (Suc n) a s =
     (case vload a s of None \<Rightarrow> None
      | Some b \<Rightarrow> if b = 0 then Some [0] else map_option ((#) b) (vcstr n (a + 1) s))"

definition cstring :: "string \<Rightarrow> u8 list" where
  "cstring cs = map of_char cs @ [0]"

text \<open>
  Pushing the argument strings: the stack pointer and the addresses pushed, or nothing where
  the code jumps to \<open>bad\<close>.
\<close>

fun push_args ::
  "u32 list \<Rightarrow> nat \<Rightarrow> u32 \<Rightarrow> u32 \<Rightarrow> u32 list \<Rightarrow> 'a vst_scheme \<Rightarrow> ('a vst_scheme, (u32 \<times> u32 list) option) res" where
  "push_args [] argc pgdir sp us s = Ok (Some (sp, us)) s"
| "push_args (a # as) argc pgdir sp us s =
     (if argc \<ge> MAXARG then Ok None s
      else case vcstr 4294967296 a s of None \<Rightarrow> Fault
        | Some bs \<Rightarrow>
            let sp = (sp - of_nat (length bs)) AND NOT 3 in
            bind (copyout pgdir sp bs s) (\<lambda>r s.
            if r < 0 then Ok None s
            else push_args as (argc + 1) pgdir sp (us @ [sp]) s))"

text \<open>The part of the path after its last slash.\<close>

fun last_elem :: "u8 list \<Rightarrow> u8 list \<Rightarrow> u8 list" where
  "last_elem [] l = l"
| "last_elem (c # cs) l = (if c = 0 then l else last_elem cs (if c = slash then cs else l))"

section \<open>Exec\<close>

text \<open>What the code does from the label \<open>bad\<close> on.\<close>

definition exec_bad :: "u32 \<Rightarrow> nat option \<Rightarrow> 'a ist_scheme \<Rightarrow> ('a ist_scheme, int) res" where
  "exec_bad pgdir ip s =
     bind (if pgdir \<noteq> 0 then freevm pgdir s else Ok () s) (\<lambda>_ s.
     bind (case ip of None \<Rightarrow> Ok () s
           | Some ip \<Rightarrow> bind (iunlockput ip s) (\<lambda>_ s. end_op s)) (\<lambda>_ s. Ok (- 1) s))"

text \<open>From the loaded program on: shared regions, stack, arguments, and the switch to the new image.\<close>

definition exec_image ::
  "nat \<Rightarrow> u8 list \<Rightarrow> u32 list \<Rightarrow> elfhdr \<Rightarrow> u32 \<Rightarrow> u32 \<Rightarrow> 'a ist_scheme \<Rightarrow> ('a ist_scheme, int) res" where
  "exec_image p path argv elf pgdir sz s =
     bind (vstrncmp (cstring ''primecalc'') (hd (argv @ [0])) SHAREDNAME s) (\<lambda>r s.
     bind (if r = 0 then linkphysaddr pgdir True s
           else bind (vstrncmp (cstring ''primecom'') (hd (argv @ [0])) SHAREDNAME s) (\<lambda>r s.
             if r = 0 then linkphysaddr pgdir True s else Ok 1 s)) (\<lambda>_ s.
     let sz = PGROUNDUP sz in
     bind (allocuvm pgdir sz (sz + 2 * PGSIZE) s) (\<lambda>sz s.
     if sz = 0 then exec_bad pgdir None s
     else
       bind (clearpteu pgdir (sz - 2 * PGSIZE) s) (\<lambda>_ s.
       bind (push_args argv 0 pgdir sz [] s) (\<lambda>r s.
       case r of None \<Rightarrow> exec_bad pgdir None s
       | Some (sp, us) \<Rightarrow>
           let argc = of_nat (length us) :: u32;
               ustack = [0xffffffff, argc, sp - (argc + 1) * 4] @ us @ [0];
               sp = sp - (3 + argc + 1) * 4 in
           bind (copyout pgdir sp (concat (map bytes32 ustack)) s) (\<lambda>r s.
           if r < 0 then exec_bad pgdir None s
           else
             case safestrcpy (p_name (procs s ! p)) (last_elem path path) 16 of None \<Rightarrow> Fault
             | Some nm \<Rightarrow>
                 let s = upd_proc p (\<lambda>q. q\<lparr>p_name := nm\<rparr>) s;
                     oldpgdir = p_pgdir (procs s ! p);
                     s = upd_proc p (\<lambda>q. q\<lparr>p_pgdir := pgdir\<rparr>) s;
                     s = upd_proc p (\<lambda>q. q\<lparr>p_sz := sz\<rparr>) s;
                     s = upd_proc p (\<lambda>q. q\<lparr>p_tf := (p_tf q)\<lparr>tf_eip := e_entry elf, tf_esp := sp\<rparr>\<rparr>) s in
                 bind (switchuvm (Some p) s) (\<lambda>_ s.
                 bind (freevm oldpgdir s) (\<lambda>_ s. Ok 0 s))))))))"

definition exec :: "u8 list \<Rightarrow> u32 list \<Rightarrow> 'a dst_scheme \<Rightarrow> ('a dst_scheme, int) res" where
  "exec path argv s =
     bind (myproc s) (\<lambda>p s.
     bind (begin_op s) (\<lambda>_ s.
     bind (namei path s) (\<lambda>ip s.
     case ip of
       None \<Rightarrow>
         bind (end_op s) (\<lambda>_ s.
         bind (cprintf (''exec: fail'' @ [CHR 0x0A]) [] s) (\<lambda>_ s. Ok (- 1) s))
     | Some ip \<Rightarrow>
         bind (ilock (Some ip) s) (\<lambda>_ s.
         bind (readi ip Dvar 0 52 s) (\<lambda>(r, bs) s.
         if r \<noteq> 52 then exec_bad 0 (Some ip) s
         else
           let elf = get_elfhdr bs in
           if e_magic elf \<noteq> ELF_MAGIC then exec_bad 0 (Some ip) s
           else
             bind (setupkvm s) (\<lambda>pgdir s.
             if pgdir = 0 then exec_bad 0 (Some ip) s
             else
               bind (load_segments (unat (e_phnum elf)) pgdir ip (e_phoff elf) 0 s) (\<lambda>sz s.
               case sz of None \<Rightarrow> exec_bad pgdir (Some ip) s
               | Some sz \<Rightarrow>
                   bind (iunlockput ip s) (\<lambda>_ s.
                   bind (end_op s) (\<lambda>_ s.
                   case p of None \<Rightarrow> Fault
                   | Some p \<Rightarrow> exec_image p path argv elf pgdir sz s)))))))))"

end
