(* ===== verification/Sysfile.thy ===== *)
theory Sysfile
  imports Exec
begin

unbundle bit_operations_syntax

text \<open>
  kernel/sysfile.c: the file system calls and the two calls of the shared memory interface. An
  array \<open>name\<close> for a path element starts with unspecified bytes that are written before they are
  read; the model starts it with zeros.
\<close>

section \<open>File descriptors\<close>

definition argfd :: "nat \<Rightarrow> 'a vst_scheme \<Rightarrow> ('a vst_scheme, (nat \<times> nat) option) res" where
  "argfd n s =
     bind (argint n s) (\<lambda>r s.
     case r of None \<Rightarrow> Ok None s
     | Some w \<Rightarrow>
         let fd = sint w in
         if fd < 0 \<or> fd \<ge> int NOFILE then Ok None s
         else bind (myproc s) (\<lambda>p s.
           case p of None \<Rightarrow> Fault
           | Some p \<Rightarrow>
             (case p_ofile (procs s ! p) ! nat fd of None \<Rightarrow> Ok None s
              | Some f \<Rightarrow> Ok (Some (nat fd, f)) s)))"

definition set_ofile :: "nat \<Rightarrow> nat option \<Rightarrow> 'a pst_scheme \<Rightarrow> ('a pst_scheme, unit) res" where
  "set_ofile fd v s =
     bind (myproc s) (\<lambda>p s.
     case p of None \<Rightarrow> Fault
     | Some p \<Rightarrow> Ok () (upd_proc p (\<lambda>q. q\<lparr>p_ofile := (p_ofile q)[fd := v]\<rparr>) s))"

definition fdalloc :: "nat \<Rightarrow> 'a pst_scheme \<Rightarrow> ('a pst_scheme, int) res" where
  "fdalloc f s =
     bind (myproc s) (\<lambda>p s.
     case p of None \<Rightarrow> Fault
     | Some p \<Rightarrow>
       (case find_idx (\<lambda>x. x = None) (p_ofile (procs s ! p)) of
          Some fd \<Rightarrow> Ok (int fd) (upd_proc p (\<lambda>q. q\<lparr>p_ofile := (p_ofile q)[fd := Some f]\<rparr>) s)
        | None \<Rightarrow> Ok (- 1) s))"

definition sys_dup :: "'a flst_scheme \<Rightarrow> ('a flst_scheme, int) res" where
  "sys_dup s =
     bind (argfd 0 s) (\<lambda>r s.
     case r of None \<Rightarrow> Ok (- 1) s
     | Some (_, f) \<Rightarrow>
         bind (fdalloc f s) (\<lambda>fd s.
         if fd < 0 then Ok (- 1) s else bind (filedup f s) (\<lambda>_ s. Ok fd s)))"

definition rw_args :: "'a vst_scheme \<Rightarrow> ('a vst_scheme, (nat \<times> u32 \<times> int) option) res" where
  "rw_args s =
     bind (argfd 0 s) (\<lambda>r s.
     case r of None \<Rightarrow> Ok None s
     | Some (_, f) \<Rightarrow>
         bind (argint 2 s) (\<lambda>r s.
         case r of None \<Rightarrow> Ok None s
         | Some n \<Rightarrow>
             bind (argptr 1 (sint n) s) (\<lambda>r s.
             case r of None \<Rightarrow> Ok None s | Some p \<Rightarrow> Ok (Some (f, p, sint n)) s)))"

definition sys_read :: "'a flst_scheme \<Rightarrow> ('a flst_scheme, int) res" where
  "sys_read s =
     bind (rw_args s) (\<lambda>r s.
     case r of None \<Rightarrow> Ok (- 1) s | Some (f, p, n) \<Rightarrow> fileread f (Daddr p) n s)"

definition sys_write :: "'a flst_scheme \<Rightarrow> ('a flst_scheme, int) res" where
  "sys_write s =
     bind (rw_args s) (\<lambda>r s.
     case r of None \<Rightarrow> Ok (- 1) s | Some (f, p, n) \<Rightarrow> filewrite f (Saddr p) n s)"

definition sys_close :: "'a flst_scheme \<Rightarrow> ('a flst_scheme, int) res" where
  "sys_close s =
     bind (argfd 0 s) (\<lambda>r s.
     case r of None \<Rightarrow> Ok (- 1) s
     | Some (fd, f) \<Rightarrow>
         bind (set_ofile fd None s) (\<lambda>_ s.
         bind (fileclose f s) (\<lambda>_ s. Ok 0 s)))"

text \<open>The fields of a \<open>struct stat\<close> at address \<open>a\<close>, which takes 20 bytes.\<close>

definition put_stat :: "u32 \<Rightarrow> stat \<Rightarrow> 'a vst_scheme \<Rightarrow> ('a vst_scheme, unit) res" where
  "put_stat a st s =
     bind (dest_put (Daddr (a + 4)) (bytes32 (st_dev st)) s) (\<lambda>_ s.
     bind (dest_put (Daddr (a + 8)) (bytes32 (st_ino st)) s) (\<lambda>_ s.
     bind (dest_put (Daddr a) (bytes16 (st_type st)) s) (\<lambda>_ s.
     bind (dest_put (Daddr (a + 12)) (bytes16 (st_nlink st)) s) (\<lambda>_ s.
     dest_put (Daddr (a + 16)) (bytes32 (st_size st)) s))))"

definition sys_fstat :: "'a flst_scheme \<Rightarrow> ('a flst_scheme, int) res" where
  "sys_fstat s =
     bind (argfd 0 s) (\<lambda>r s.
     case r of None \<Rightarrow> Ok (- 1) s
     | Some (_, f) \<Rightarrow>
         bind (argptr 1 20 s) (\<lambda>r s.
         case r of None \<Rightarrow> Ok (- 1) s
         | Some a \<Rightarrow>
             bind (filestat f s) (\<lambda>(r, st) s.
             case st of None \<Rightarrow> Ok r s
             | Some st \<Rightarrow> bind (put_stat a st s) (\<lambda>_ s. Ok r s))))"

section \<open>Links\<close>

definition fail_op :: "'a gst_scheme \<Rightarrow> ('a gst_scheme, int) res" where
  "fail_op s = bind (end_op s) (\<lambda>_ s. Ok (- 1) s)"

definition add_nlink :: "nat \<Rightarrow> u16 \<Rightarrow> 'a ist_scheme \<Rightarrow> ('a ist_scheme, unit) res" where
  "add_nlink ip d s = iupdate ip (upd_inode ip (\<lambda>n. n\<lparr>i_nlink := i_nlink n + d\<rparr>) s)"

definition link_bad :: "nat \<Rightarrow> 'a ist_scheme \<Rightarrow> ('a ist_scheme, int) res" where
  "link_bad ip s =
     bind (ilock (Some ip) s) (\<lambda>_ s.
     bind (add_nlink ip (- 1) s) (\<lambda>_ s.
     bind (iunlockput ip s) (\<lambda>_ s. fail_op s)))"

definition sys_link :: "'a dst_scheme \<Rightarrow> ('a dst_scheme, int) res" where
  "sys_link s =
     bind (argstr 0 s) (\<lambda>r s.
     case r of None \<Rightarrow> Ok (- 1) s
     | Some (_, old) \<Rightarrow>
       bind (argstr 1 s) (\<lambda>r s.
       case r of None \<Rightarrow> Ok (- 1) s
       | Some (_, new) \<Rightarrow>
         bind (begin_op s) (\<lambda>_ s.
         bind (namei old s) (\<lambda>r s.
         case r of None \<Rightarrow> fail_op s
         | Some ip \<Rightarrow>
           bind (ilock (Some ip) s) (\<lambda>_ s.
           if i_type (ino s ip) = T_DIR then bind (iunlockput ip s) (\<lambda>_ s. fail_op s)
           else
             bind (add_nlink ip 1 s) (\<lambda>_ s.
             bind (iunlock (Some ip) s) (\<lambda>_ s.
             bind (nameiparent new (replicate DIRSIZ 0) s) (\<lambda>(r, name) s.
             case r of None \<Rightarrow> link_bad ip s
             | Some dp \<Rightarrow>
               bind (ilock (Some dp) s) (\<lambda>_ s.
               bind (if i_dev (ino s dp) \<noteq> i_dev (ino s ip) then Ok (- 1) s
                     else dirlink dp name (i_inum (ino s ip)) s) (\<lambda>r s.
               if r < 0 then bind (iunlockput dp s) (\<lambda>_ s. link_bad ip s)
               else
                 bind (iunlockput dp s) (\<lambda>_ s.
                 bind (iput ip s) (\<lambda>_ s.
                 bind (end_op s) (\<lambda>_ s. Ok 0 s)))))))))))))"

fun isdirempty_loop :: "nat \<Rightarrow> nat \<Rightarrow> u32 \<Rightarrow> 'a dst_scheme \<Rightarrow> ('a dst_scheme, bool) res" where
  "isdirempty_loop 0 dp off s = Hang"
| "isdirempty_loop (Suc fuel) dp off s =
     (if off < i_size (ino s dp) then
        bind (readi dp Dvar off 16 s) (\<lambda>(r, bs) s.
        if r \<noteq> 16 then Panic ''isdirempty: readi''
        else if de_inum (get_dirent bs) \<noteq> 0 then Ok False s
        else isdirempty_loop fuel dp (off + 16) s)
      else Ok True s)"

definition isdirempty :: "nat \<Rightarrow> 'a dst_scheme \<Rightarrow> ('a dst_scheme, bool) res" where
  "isdirempty dp s = isdirempty_loop (unat (i_size (ino s dp)) div 16 + 2) dp 32 s"

definition is_dot :: "u8 list \<Rightarrow> bool option" where
  "is_dot name =
     (case namecmp name (cstring ''.'') of None \<Rightarrow> None
      | Some c \<Rightarrow> if c = 0 then Some True else map_option (\<lambda>c. c = 0) (namecmp name (cstring ''..'')))"

definition unlink_bad :: "nat \<Rightarrow> 'a ist_scheme \<Rightarrow> ('a ist_scheme, int) res" where
  "unlink_bad dp s = bind (iunlockput dp s) (\<lambda>_ s. fail_op s)"

definition sys_unlink :: "'a dst_scheme \<Rightarrow> ('a dst_scheme, int) res" where
  "sys_unlink s =
     bind (argstr 0 s) (\<lambda>r s.
     case r of None \<Rightarrow> Ok (- 1) s
     | Some (_, path) \<Rightarrow>
       bind (begin_op s) (\<lambda>_ s.
       bind (nameiparent path (replicate DIRSIZ 0) s) (\<lambda>(r, name) s.
       case r of None \<Rightarrow> fail_op s
       | Some dp \<Rightarrow>
         bind (ilock (Some dp) s) (\<lambda>_ s.
         case is_dot name of None \<Rightarrow> Fault
         | Some d \<Rightarrow>
           if d then unlink_bad dp s
           else
             bind (dirlookup dp name s) (\<lambda>r s.
             case r of None \<Rightarrow> unlink_bad dp s
             | Some (ip, off) \<Rightarrow>
               bind (ilock (Some ip) s) (\<lambda>_ s.
               if sint (i_nlink (ino s ip)) < 1 then Panic ''unlink: nlink < 1''
               else
                 bind (if i_type (ino s ip) = T_DIR then isdirempty ip s else Ok True s) (\<lambda>empty s.
                 if \<not> empty then bind (iunlockput ip s) (\<lambda>_ s. unlink_bad dp s)
                 else
                   bind (writei dp (Svar (replicate 16 0)) off 16 s) (\<lambda>r s.
                   if r \<noteq> 16 then Panic ''unlink: writei''
                   else
                     bind (if i_type (ino s ip) = T_DIR then add_nlink dp (- 1) s else Ok () s) (\<lambda>_ s.
                     bind (iunlockput dp s) (\<lambda>_ s.
                     bind (add_nlink ip (- 1) s) (\<lambda>_ s.
                     bind (iunlockput ip s) (\<lambda>_ s.
                     bind (end_op s) (\<lambda>_ s. Ok 0 s)))))))))))))"

section \<open>Creating and opening\<close>

definition create :: "u8 list \<Rightarrow> u16 \<Rightarrow> u16 \<Rightarrow> u16 \<Rightarrow> 'a dst_scheme \<Rightarrow> ('a dst_scheme, nat option) res" where
  "create path ty major minor s =
     bind (nameiparent path (replicate DIRSIZ 0) s) (\<lambda>(r, name) s.
     case r of None \<Rightarrow> Ok None s
     | Some dp \<Rightarrow>
       bind (ilock (Some dp) s) (\<lambda>_ s.
       bind (dirlookup dp name s) (\<lambda>r s.
       case r of
         Some (ip, _) \<Rightarrow>
           bind (iunlockput dp s) (\<lambda>_ s.
           bind (ilock (Some ip) s) (\<lambda>_ s.
           if ty = T_FILE \<and> i_type (ino s ip) = T_FILE \<or> i_type (ino s ip) = T_DEV then Ok (Some ip) s
           else bind (iunlockput ip s) (\<lambda>_ s. Ok None s)))
       | None \<Rightarrow>
           bind (ialloc (i_dev (ino s dp)) ty s) (\<lambda>ip s.
           bind (ilock (Some ip) s) (\<lambda>_ s.
           let s = upd_inode ip (\<lambda>n. n\<lparr>i_major := major, i_minor := minor, i_nlink := 1\<rparr>) s in
           bind (iupdate ip s) (\<lambda>_ s.
           bind (if ty = T_DIR then
                   bind (add_nlink dp 1 s) (\<lambda>_ s.
                   bind (dirlink ip (cstring ''.'') (i_inum (ino s ip)) s) (\<lambda>r s.
                   if r < 0 then Panic ''create dots''
                   else bind (dirlink ip (cstring ''..'') (i_inum (ino s dp)) s) (\<lambda>r s.
                     if r < 0 then Panic ''create dots'' else Ok () s)))
                 else Ok () s) (\<lambda>_ s.
           bind (dirlink dp name (i_inum (ino s ip)) s) (\<lambda>r s.
           if r < 0 then Panic ''create: dirlink''
           else bind (iunlockput dp s) (\<lambda>_ s. Ok (Some ip) s)))))))))"

abbreviation (input) O_RDONLY :: u32 where "O_RDONLY \<equiv> 0x000"
abbreviation (input) O_WRONLY :: u32 where "O_WRONLY \<equiv> 0x001"
abbreviation (input) O_RDWR :: u32 where "O_RDWR \<equiv> 0x002"
abbreviation (input) O_CREATE :: u32 where "O_CREATE \<equiv> 0x200"

text \<open>The inode to open, locked, or nothing after \<open>end_op\<close>.\<close>

definition open_inode :: "u8 list \<Rightarrow> u32 \<Rightarrow> 'a dst_scheme \<Rightarrow> ('a dst_scheme, nat option) res" where
  "open_inode path omode s =
     (if omode AND O_CREATE \<noteq> 0 then
        bind (create path T_FILE 0 0 s) (\<lambda>r s.
        case r of None \<Rightarrow> bind (end_op s) (\<lambda>_ s. Ok None s) | Some ip \<Rightarrow> Ok (Some ip) s)
      else
        bind (namei path s) (\<lambda>r s.
        case r of None \<Rightarrow> bind (end_op s) (\<lambda>_ s. Ok None s)
        | Some ip \<Rightarrow>
            bind (ilock (Some ip) s) (\<lambda>_ s.
            if i_type (ino s ip) = T_DIR \<and> omode \<noteq> O_RDONLY then
              bind (iunlockput ip s) (\<lambda>_ s. bind (end_op s) (\<lambda>_ s. Ok None s))
            else Ok (Some ip) s)))"

definition open_bad :: "nat option \<Rightarrow> nat \<Rightarrow> 'a flst_scheme \<Rightarrow> ('a flst_scheme, int) res" where
  "open_bad f ip s =
     bind (case f of None \<Rightarrow> Ok () s | Some f \<Rightarrow> fileclose f s) (\<lambda>_ s.
     bind (iunlockput ip s) (\<lambda>_ s. fail_op s))"

definition sys_open :: "'a flst_scheme \<Rightarrow> ('a flst_scheme, int) res" where
  "sys_open s =
     bind (argstr 0 s) (\<lambda>r s.
     case r of None \<Rightarrow> Ok (- 1) s
     | Some (_, path) \<Rightarrow>
       bind (argint 1 s) (\<lambda>r s.
       case r of None \<Rightarrow> Ok (- 1) s
       | Some omode \<Rightarrow>
         bind (begin_op s) (\<lambda>_ s.
         bind (open_inode path omode s) (\<lambda>r s.
         case r of None \<Rightarrow> Ok (- 1) s
         | Some ip \<Rightarrow>
           bind (filealloc s) (\<lambda>r s.
           case r of None \<Rightarrow> open_bad None ip s
           | Some f \<Rightarrow>
             bind (fdalloc f s) (\<lambda>fd s.
             if fd < 0 then open_bad (Some f) ip s
             else
               bind (iunlock (Some ip) s) (\<lambda>_ s.
               bind (end_op s) (\<lambda>_ s.
               Ok fd (upd_file f (\<lambda>k. k\<lparr>f_type := FD_INODE, f_ip := ip, f_off := 0,
                 f_readable := (omode AND O_WRONLY = 0),
                 f_writable := (omode AND O_WRONLY \<noteq> 0 \<or> omode AND O_RDWR \<noteq> 0)\<rparr>) s)))))))))"

text \<open>The end of \<open>mkdir\<close> and \<open>mknod\<close>.\<close>

definition made :: "nat option \<Rightarrow> 'a ist_scheme \<Rightarrow> ('a ist_scheme, int) res" where
  "made r s =
     (case r of None \<Rightarrow> fail_op s
      | Some ip \<Rightarrow> bind (iunlockput ip s) (\<lambda>_ s. bind (end_op s) (\<lambda>_ s. Ok 0 s)))"

definition sys_mkdir :: "'a dst_scheme \<Rightarrow> ('a dst_scheme, int) res" where
  "sys_mkdir s =
     bind (begin_op s) (\<lambda>_ s.
     bind (argstr 0 s) (\<lambda>r s.
     case r of None \<Rightarrow> fail_op s
     | Some (_, path) \<Rightarrow> bind (create path T_DIR 0 0 s) (\<lambda>r s. made r s)))"

definition sys_mknod :: "'a dst_scheme \<Rightarrow> ('a dst_scheme, int) res" where
  "sys_mknod s =
     bind (begin_op s) (\<lambda>_ s.
     bind (argstr 0 s) (\<lambda>r s.
     case r of None \<Rightarrow> fail_op s
     | Some (_, path) \<Rightarrow>
       bind (argint 1 s) (\<lambda>r s.
       case r of None \<Rightarrow> fail_op s
       | Some major \<Rightarrow>
         bind (argint 2 s) (\<lambda>r s.
         case r of None \<Rightarrow> fail_op s
         | Some minor \<Rightarrow> bind (create path T_DEV (ucast major) (ucast minor) s) (\<lambda>r s. made r s)))))"

definition sys_chdir :: "'a dst_scheme \<Rightarrow> ('a dst_scheme, int) res" where
  "sys_chdir s =
     bind (myproc s) (\<lambda>p s.
     bind (begin_op s) (\<lambda>_ s.
     bind (argstr 0 s) (\<lambda>r s.
     case r of None \<Rightarrow> fail_op s
     | Some (_, path) \<Rightarrow>
       bind (namei path s) (\<lambda>r s.
       case r of None \<Rightarrow> fail_op s
       | Some ip \<Rightarrow>
         bind (ilock (Some ip) s) (\<lambda>_ s.
         if i_type (ino s ip) \<noteq> T_DIR then bind (iunlockput ip s) (\<lambda>_ s. fail_op s)
         else
           bind (iunlock (Some ip) s) (\<lambda>_ s.
           case p of None \<Rightarrow> Fault
           | Some p \<Rightarrow>
             bind (case p_cwd (procs s ! p) of None \<Rightarrow> Fault | Some c \<Rightarrow> iput c s) (\<lambda>_ s.
             bind (end_op s) (\<lambda>_ s.
             Ok 0 (upd_proc p (\<lambda>q. q\<lparr>p_cwd := Some ip\<rparr>) s)))))))))"

section \<open>Exec and pipe\<close>

text \<open>The loop that collects the arguments: their addresses, or nothing where it returns \<open>- 1\<close>.\<close>

fun exec_args :: "nat \<Rightarrow> u32 \<Rightarrow> u32 list \<Rightarrow> 'a vst_scheme \<Rightarrow> ('a vst_scheme, u32 list option) res" where
  "exec_args 0 uargv acc s = Ok None s"
| "exec_args (Suc n) uargv acc s =
     bind (fetchint uargv s) (\<lambda>r s.
     case r of None \<Rightarrow> Ok None s
     | Some uarg \<Rightarrow>
         if uarg = 0 then Ok (Some acc) s
         else bind (fetchstr uarg s) (\<lambda>r s.
           case r of None \<Rightarrow> Ok None s
           | Some (a, _) \<Rightarrow> exec_args n (uargv + 4) (acc @ [a]) s))"

definition sys_exec :: "'a dst_scheme \<Rightarrow> ('a dst_scheme, int) res" where
  "sys_exec s =
     bind (argstr 0 s) (\<lambda>r s.
     case r of None \<Rightarrow> Ok (- 1) s
     | Some (_, path) \<Rightarrow>
       bind (argint 1 s) (\<lambda>r s.
       case r of None \<Rightarrow> Ok (- 1) s
       | Some uargv \<Rightarrow>
         bind (exec_args MAXARG uargv [] s) (\<lambda>r s.
         case r of None \<Rightarrow> Ok (- 1) s | Some argv \<Rightarrow> exec path argv s)))"

definition pipe_bad :: "int \<Rightarrow> nat \<Rightarrow> nat \<Rightarrow> 'a flst_scheme \<Rightarrow> ('a flst_scheme, int) res" where
  "pipe_bad fd0 rfile wfile s =
     bind (if fd0 \<ge> 0 then set_ofile (nat fd0) None s else Ok () s) (\<lambda>_ s.
     bind (fileclose rfile s) (\<lambda>_ s.
     bind (fileclose wfile s) (\<lambda>_ s. Ok (- 1) s)))"

definition sys_pipe :: "'a flst_scheme \<Rightarrow> ('a flst_scheme, int) res" where
  "sys_pipe s =
     bind (argptr 0 8 s) (\<lambda>r s.
     case r of None \<Rightarrow> Ok (- 1) s
     | Some fd \<Rightarrow>
       bind (pipealloc s) (\<lambda>r s.
       case r of None \<Rightarrow> Ok (- 1) s
       | Some (rfile, wfile) \<Rightarrow>
         bind (fdalloc rfile s) (\<lambda>fd0 s.
         if fd0 < 0 then pipe_bad fd0 rfile wfile s
         else bind (fdalloc wfile s) (\<lambda>fd1 s.
           if fd1 < 0 then pipe_bad fd0 rfile wfile s
           else
             bind (dest_put (Daddr fd) (bytes32 (of_int fd0)) s) (\<lambda>_ s.
             bind (dest_put (Daddr (fd + 4)) (bytes32 (of_int fd1)) s) (\<lambda>_ s. Ok 0 s))))))"

section \<open>Shared memory by name\<close>

text \<open>
  The search of \<open>sys_share_mem\<close> from entry \<open>i\<close> on, with \<open>n\<close> entries left: the first entry that is
  free (size 0), or the result the call returns.
\<close>

fun share_slot :: "nat \<Rightarrow> nat \<Rightarrow> u8 list \<Rightarrow> shared list \<Rightarrow> (int + nat) option" where
  "share_slot 0 i name tab = Some (Inl (- 3))"
| "share_slot (Suc n) i name tab =
     (if sh_sz (tab ! i) = 0 then Some (Inr i)
      else case strncmp name (sh_name (tab ! i)) SHAREDNAME of None \<Rightarrow> None
        | Some c \<Rightarrow> if c = 0 then Some (Inl (- 2)) else share_slot n (i + 1) name tab)"

definition sys_share_mem :: "'a vst_scheme \<Rightarrow> ('a vst_scheme, int) res" where
  "sys_share_mem s =
     bind (myproc s) (\<lambda>p s.
     bind (argstr 0 s) (\<lambda>r s.
     case r of None \<Rightarrow> Ok (- 1) s
     | Some (_, name) \<Rightarrow>
       bind (argptr 1 4 s) (\<lambda>r s.
       case r of None \<Rightarrow> Ok (- 1) s
       | Some vamem \<Rightarrow>
         bind (argint 2 s) (\<lambda>r s.
         case r of None \<Rightarrow> Ok (- 1) s
         | Some sz \<Rightarrow>
           (case p of None \<Rightarrow> Fault
            | Some p \<Rightarrow>
              (case share_slot MAXSHARED 0 name (p_shared (procs s ! p)) of None \<Rightarrow> Fault
               | Some (Inl e) \<Rightarrow>
                   if e = - 2 then
                     bind (cprintf (''fratelo obrisi strukture kada zavrsis sa programom (share_mem)''
                       @ [CHR 0x0A]) [] s) (\<lambda>_ s. Ok e s)
                   else Ok e s
               | Some (Inr i) \<Rightarrow>
                   (case strncpy (replicate SHAREDNAME 0) name SHAREDNAME of None \<Rightarrow> Fault
                    | Some nm \<Rightarrow>
                        Ok (int i) (upd_proc p (\<lambda>q. q\<lparr>p_shared := (p_shared q)[i :=
                          \<lparr>sh_name = nm, sh_memstart = vamem, sh_sz = sz\<rparr>]\<rparr>) s)))))))) "

text \<open>The search of \<open>sys_get_shared\<close>, which looks at every entry whatever its size.\<close>

fun shared_entry :: "nat \<Rightarrow> nat \<Rightarrow> u8 list \<Rightarrow> shared list \<Rightarrow> nat option option" where
  "shared_entry 0 i name tab = Some None"
| "shared_entry (Suc n) i name tab =
     (case strncmp name (sh_name (tab ! i)) SHAREDNAME of None \<Rightarrow> None
      | Some c \<Rightarrow> if c = 0 then Some (Some i) else shared_entry n (i + 1) name tab)"

text \<open>
  \<open>sleep(curproc, &curproc->parent)\<close>: the second argument is not a lock. Read as a \<open>struct spinlock\<close>,
  the three fields from \<open>parent\<close> on are its fields \<open>locked\<close>, \<open>name\<close> and \<open>cpu\<close>, so that \<open>cpu\<close> is the
  context pointer of the process, which points to no CPU; \<open>release\<close> then finds that the lock is
  not held.
\<close>

definition sleep_on_parent :: "'a pst_scheme \<Rightarrow> ('a pst_scheme, 'b) res" where
  "sleep_on_parent s = bind (acquire Lptable s) (\<lambda>_ s. Panic ''release'')"

text \<open>
  The function is declared \<open>void\<close>, and its result here is the value that its \<open>return\<close> statements
  name. What the caller sees is what the register holds (see \<open>syscall\<close>).
\<close>

definition sys_get_shared :: "'a kst_scheme \<Rightarrow> ('a kst_scheme, int) res" where
  "sys_get_shared s =
     bind (myproc s) (\<lambda>p s.
     bind (argstr 0 s) (\<lambda>r s.
     case r of None \<Rightarrow> Ok (- 1) s
     | Some (_, name) \<Rightarrow>
       bind (argptr 1 4 s) (\<lambda>r s.
       case r of None \<Rightarrow> Ok (- 1) s
       | Some addr \<Rightarrow>
         (case p of None \<Rightarrow> Fault
          | Some p \<Rightarrow>
            let pname = p_name (procs s ! p) in
            (case (strncmp (cstring ''primecom'') pname SHAREDNAME, strncmp (cstring ''primecalc'') pname SHAREDNAME) of
               (Some com, Some calc) \<Rightarrow>
                 let s = (if com = 0 then upd_glob (\<lambda>g. g\<lparr>g_primecom := True\<rparr>) s else s) in
                 if calc = 0 \<and> g_primecom (glob s) then sleep_on_parent s
                 else
                   (case shared_entry MAXSHARED 0 name (p_shared (procs s ! p)) of None \<Rightarrow> Fault
                    | Some (Some i) \<Rightarrow>
                        bind (dest_put (Daddr addr) (bytes32 (sh_memstart (p_shared (procs s ! p) ! i))) s) (\<lambda>_ s.
                        bind (if strncmp (cstring ''primecom'') pname (if g_primecom (glob s) then 1 else 0) = Some 0
                              then wakeup (Cparent p) s else Ok () s) (\<lambda>_ s.
                        Ok 0 (upd_glob (\<lambda>g. g\<lparr>g_primecom := False\<rparr>) s)))
                    | Some None \<Rightarrow>
                        bind (if com = 0 \<and> g_primecom (glob s) then wakeup (Cparent p) s else Ok () s) (\<lambda>_ s.
                        Ok (- 2) (upd_glob (\<lambda>g. g\<lparr>g_primecom := False\<rparr>) s)))
             | _ \<Rightarrow> Fault)))))"

definition sys_provera :: "'a kst_scheme \<Rightarrow> ('a kst_scheme, int) res" where
  "sys_provera s = Ok 1 s"

end
