(* ===== verification/Trap.thy ===== *)
theory Trap
  imports Sysfile
begin

unbundle bit_operations_syntax

text \<open>
  The dispatch of system calls (kernel/syscall.c) and of traps and interrupts (kernel/trap.c).
  Acknowledging an interrupt (\<open>lapiceoi\<close>) has no effect on the state. The kernel with the memory
  disk has nothing to do for a disk interrupt.
\<close>

section \<open>System calls\<close>

text \<open>
  The table of system calls. \<open>junk\<close> is the value the register \<open>eax\<close> happens to hold when the
  \<open>void\<close> function \<open>sys_get_shared\<close> returns.
\<close>

definition syscalls :: "int \<Rightarrow> int \<Rightarrow> 'a kst_scheme \<Rightarrow> ('a kst_scheme, int) res" where
  "syscalls junk num s =
     (if num = 1 then sys_fork s
      else if num = 2 then sys_exit s
      else if num = 3 then sys_wait s
      else if num = 4 then sys_pipe s
      else if num = 5 then sys_read s
      else if num = 6 then sys_kill s
      else if num = 7 then sys_exec s
      else if num = 8 then sys_fstat s
      else if num = 9 then sys_chdir s
      else if num = 10 then sys_dup s
      else if num = 11 then sys_getpid s
      else if num = 12 then sys_sbrk s
      else if num = 13 then sys_sleep s
      else if num = 14 then sys_uptime s
      else if num = 15 then sys_open s
      else if num = 16 then sys_write s
      else if num = 17 then sys_mknod s
      else if num = 18 then sys_unlink s
      else if num = 19 then sys_link s
      else if num = 20 then sys_mkdir s
      else if num = 21 then sys_close s
      else if num = 22 then sys_share_mem s
      else if num = 23 then bind (sys_get_shared s) (\<lambda>_ s. Ok junk s)
      else sys_provera s)"

definition set_eax :: "nat \<Rightarrow> int \<Rightarrow> 'a pst_scheme \<Rightarrow> 'a pst_scheme" where
  "set_eax p r s = upd_proc p (\<lambda>q. q\<lparr>p_tf := (p_tf q)\<lparr>tf_eax := of_int r\<rparr>\<rparr>) s"

definition syscall :: "int \<Rightarrow> 'a kst_scheme \<Rightarrow> ('a kst_scheme, unit) res" where
  "syscall junk s =
     bind (myproc s) (\<lambda>p s.
     case p of None \<Rightarrow> Fault
     | Some p \<Rightarrow>
         let num = sint (tf_eax (p_tf (procs s ! p))) in
         if num > 0 \<and> num < 25 then
           bind (syscalls junk num s) (\<lambda>r s. Ok () (set_eax p r s))
         else
           bind (cprintf (''%d %s: unknown sys call %d'' @ [CHR 0x0A])
             [Aint (of_int (p_pid (procs s ! p))), Astr (Some (p_name (procs s ! p))), Aint (of_int num)] s) (\<lambda>_ s.
           Ok () (set_eax p (- 1) s)))"

section \<open>Traps\<close>

definition tvinit :: "'a lst_scheme \<Rightarrow> 'a lst_scheme" where
  "tvinit s = initlock Lticks ''time'' s"

definition trap_syscall :: "trapframe \<Rightarrow> int \<Rightarrow> 'a kst_scheme \<Rightarrow> ('a kst_scheme, unit) res" where
  "trap_syscall tf junk s =
     bind (my_killed s) (\<lambda>k s.
     if k then exit s
     else
       bind (myproc s) (\<lambda>p s.
       case p of None \<Rightarrow> Fault
       | Some p \<Rightarrow>
           bind (syscall junk (upd_proc p (\<lambda>q. q\<lparr>p_tf := tf\<rparr>) s)) (\<lambda>_ s.
           bind (my_killed s) (\<lambda>k s. if k then exit s else Ok () s))))"

text \<open>The interrupts and exceptions; \<open>bs\<close> are the bytes the serial line has received.\<close>

definition trap_irq :: "trapframe \<Rightarrow> u8 list \<Rightarrow> 'a kst_scheme \<Rightarrow> ('a kst_scheme, unit) res" where
  "trap_irq tf bs s =
     (let no = tf_trapno tf in
      if no = 32 then
        bind (cpuid s) (\<lambda>c s.
        if c = 0 then
          bind (acquire Lticks s) (\<lambda>_ s.
          let s = upd_glob (\<lambda>g. g\<lparr>g_ticks := g_ticks g + 1\<rparr>) s in
          bind (wakeup Cticks s) (\<lambda>_ s. release Lticks s))
        else Ok () s)
      else if no = 46 \<or> no = 47 then Ok () s
      else if no = 33 then kbdintr s
      else if no = 36 then uartintr bs s
      else if no = 39 \<or> no = 63 then
        bind (cpuid s) (\<lambda>c s.
        cprintf (''cpu%d: spurious interrupt at %x:%x'' @ [CHR 0x0A])
          [Aint (of_nat c), Aint (ucast (tf_cs tf)), Aint (tf_eip tf)] s)
      else
        bind (myproc s) (\<lambda>p s.
        case p of
          Some p \<Rightarrow>
            if tf_cs tf AND 3 = 0 then
              bind (cpuid s) (\<lambda>c s.
              bind (cprintf (''unexpected trap %d from cpu %d eip %x (cr2=0x%x)'' @ [CHR 0x0A])
                [Aint no, Aint (of_nat c), Aint (tf_eip tf), Aint (g_cr2 (glob s))] s) (\<lambda>_ s. Panic ''trap''))
            else
              bind (cpuid s) (\<lambda>c s.
              bind (cprintf (''pid %d %s: trap %d err %d on cpu %d eip 0x%x addr 0x%x--kill proc'' @ [CHR 0x0A])
                [Aint (of_int (p_pid (procs s ! p))), Astr (Some (p_name (procs s ! p))), Aint no,
                 Aint (tf_err tf), Aint (of_nat c), Aint (tf_eip tf), Aint (g_cr2 (glob s))] s) (\<lambda>_ s.
              Ok () (upd_proc p (\<lambda>q. q\<lparr>p_killed := True\<rparr>) s)))
        | None \<Rightarrow>
            bind (cpuid s) (\<lambda>c s.
            bind (cprintf (''unexpected trap %d from cpu %d eip %x (cr2=0x%x)'' @ [CHR 0x0A])
              [Aint no, Aint (of_nat c), Aint (tf_eip tf), Aint (g_cr2 (glob s))] s) (\<lambda>_ s. Panic ''trap''))))"

text \<open>The test before and after \<open>yield\<close>: a killed process exits when it was in user space.\<close>

definition exit_if_killed :: "trapframe \<Rightarrow> 'a flst_scheme \<Rightarrow> ('a flst_scheme, unit) res" where
  "exit_if_killed tf s =
     bind (myproc s) (\<lambda>p s.
     case p of None \<Rightarrow> Ok () s
     | Some p \<Rightarrow> if p_killed (procs s ! p) \<and> tf_cs tf AND 3 = 3 then exit s else Ok () s)"

definition trap :: "trapframe \<Rightarrow> u8 list \<Rightarrow> int \<Rightarrow> 'a kst_scheme \<Rightarrow> ('a kst_scheme, unit) res" where
  "trap tf bs junk s =
     (if tf_trapno tf = 64 then trap_syscall tf junk s
      else
        bind (trap_irq tf bs s) (\<lambda>_ s.
        bind (exit_if_killed tf s) (\<lambda>_ s.
        bind (myproc s) (\<lambda>p s.
        bind (case p of None \<Rightarrow> Ok () s
              | Some p \<Rightarrow> if p_state (procs s ! p) = RUNNING \<and> tf_trapno tf = 32 then yield s else Ok () s) (\<lambda>_ s.
        exit_if_killed tf s)))))"

text \<open>What is left of \<open>trap\<close> when the process runs again after it gave up the CPU.\<close>

definition trap_return :: "trapframe \<Rightarrow> 'a flst_scheme \<Rightarrow> ('a flst_scheme, unit) res" where
  "trap_return tf s = bind (yield_return s) (\<lambda>_ s. exit_if_killed tf s)"

end
