(* ===== verification/Ringbuf.thy ===== *)
theory Ringbuf
  imports Prelude
begin

text \<open>
  A ring buffer whose two 32-bit counters run on and wrap around: the bytes from counter \<open>r\<close> up to
  counter \<open>w\<close>, each in the cell its counter has modulo the size of the buffer. The pipes and the
  console's line buffer are such buffers.
\<close>

definition ring_items :: "nat \<Rightarrow> u8 list \<Rightarrow> u32 \<Rightarrow> u32 \<Rightarrow> u8 list" where
  "ring_items N d r w = map (\<lambda>i. d ! (unat (r + of_nat i) mod N)) [0..<unat (w - r)]"

lemma length_ring_items [simp]: "length (ring_items N d r w) = unat (w - r)"
  by (simp add: ring_items_def)

lemma ring_items_none [simp]: "ring_items N d r r = []"
  by (simp add: ring_items_def)

locale ringbuf =
  fixes N :: nat
  assumes N_pos: "0 < N" and N_dvd: "N dvd 2 ^ 32" and N_less: "N < 2 ^ 32"
begin

lemma cell_add: "unat (r + of_nat i :: u32) mod N = (unat r + i) mod N"
proof -
  have "unat (r + of_nat i :: u32) mod N = ((unat r + i) mod 2 ^ 32) mod N"
    by (simp add: unat_word_ariths unat_of_nat mod_add_right_eq)
  also have "\<dots> = (unat r + i) mod N" using N_dvd by (simp only: mod_mod_cancel)
  finally show ?thesis .
qed

lemma cell_distinct:
  assumes "i < unat (w - r :: u32)" "unat (w - r) < N"
  shows "unat (r + of_nat i) mod N \<noteq> unat w mod N"
proof
  have w: "w = r + of_nat (unat (w - r))" by simp
  assume "unat (r + of_nat i) mod N = unat w mod N"
  then have "(unat r + i) mod N = (unat r + unat (w - r)) mod N" using cell_add [of r "unat (w - r)"] cell_add [of r i] w by metis
  then have "N dvd (unat r + unat (w - r)) - (unat r + i)" using assms(1) by (metis mod_eq_dvd_iff_nat nat_add_left_cancel_le nless_le)
  then have "N dvd unat (w - r) - i" by simp
  then show False using assms dvd_imp_le [of N "unat (w - r) - i"] by simp
qed

lemma count_push: "unat (w - r :: u32) < N \<Longrightarrow> unat (w + 1 - r) = Suc (unat (w - r))"
proof -
  assume "unat (w - r) < N"
  then have "unat (w - r) + 1 < 2 ^ 32" using N_less by simp
  then have "unat (w - r + 1) = unat (w - r) + 1" using unat_add_lem [of "w - r" 1] by simp
  then show ?thesis by (simp add: add_diff_eq diff_add_eq)
qed

lemma push:
  assumes "unat (w - r :: u32) < N" "length d = N"
  shows "ring_items N (d[unat w mod N := x]) r (w + 1) = ring_items N d r w @ [x]"
proof -
  have "d[unat w mod N := x] ! (unat (r + of_nat i) mod N) = d ! (unat (r + of_nat i) mod N)" if "i < unat (w - r)" for i
    using cell_distinct [OF that assms(1)] by (simp add: nth_list_update_neq)
  moreover have "unat w mod N < length d" using N_pos assms(2) by simp
  ultimately show ?thesis using count_push [OF assms(1)] by (simp add: ring_items_def)
qed

lemma pop:
  assumes "r \<noteq> w"
  shows "ring_items N d r w = d ! (unat r mod N) # ring_items N d (r + 1) w" "unat (w - r) = Suc (unat (w - (r + 1)))"
proof -
  have "unat (w - r) \<noteq> 0" using assms by (simp add: unat_eq_0)
  then have "unat (w - r - 1) = unat (w - r) - 1" by (metis unat_minus_one unat_0)
  then show c: "unat (w - r) = Suc (unat (w - (r + 1)))" using \<open>unat (w - r) \<noteq> 0\<close> by (simp add: diff_diff_eq)
  have "[0..<Suc n] = 0 # map Suc [0..<n]" for n using upt_conv_Cons map_Suc_upt by simp
  then show "ring_items N d r w = d ! (unat r mod N) # ring_items N d (r + 1) w"
    unfolding ring_items_def c by (simp add: o_def ac_simps)
qed

lemma full_iff: "unat (w - r :: u32) \<le> N \<Longrightarrow> w = r + of_nat N \<longleftrightarrow> unat (w - r) = N"
proof
  assume N: "unat (w - r) = N"
  have "of_nat (unat (w - r)) = w - r" by simp
  then have "of_nat N = w - r" using N by simp
  then show "w = r + of_nat N" by simp
qed (use N_less in \<open>simp add: unat_of_nat\<close>)

end


context ringbuf
begin

lemma split_at:
  assumes "unat (w - r :: u32) + unat (e - w) = unat (e - r)"
  shows "ring_items N d r e = ring_items N d r w @ ring_items N d w e"
proof -
  have e: "r + of_nat (unat (w - r) + i) = w + of_nat i" for i by simp
  show ?thesis
  proof (rule nth_equalityI)
    fix i assume i: "i < length (ring_items N d r e)"
    show "ring_items N d r e ! i = (ring_items N d r w @ ring_items N d w e) ! i"
    proof (cases "i < unat (w - r)")
      case False
      then show ?thesis using i assms e [of "i - unat (w - r)"] by (simp add: nth_append ring_items_def add.commute del: of_nat_add)
    qed (use i assms in \<open>simp add: nth_append ring_items_def\<close>)
  qed (use assms in simp)
qed

lemma unpush:
  assumes "r \<noteq> (e :: u32)"
  shows "ring_items N d r (e - 1) = butlast (ring_items N d r e)" "unat (e - r) = Suc (unat (e - 1 - r))"
proof -
  have n: "unat (e - r) \<noteq> 0" using assms by (simp add: unat_eq_0)
  then have "unat (e - r - 1) = unat (e - r) - 1" by (metis unat_minus_one unat_0)
  moreover have "e - r - 1 = e - 1 - r" by simp
  ultimately show c: "unat (e - r) = Suc (unat (e - 1 - r))" using n by simp
  show "ring_items N d r (e - 1) = butlast (ring_items N d r e)" unfolding ring_items_def c by (simp add: map_butlast [symmetric])
qed

lemma last_cell: "r \<noteq> (e :: u32) \<Longrightarrow> last (ring_items N d r e) = d ! (unat (e - 1) mod N)"
proof -
  assume "r \<noteq> e"
  note c = unpush(2) [OF this]
  have "r + of_nat (unat (e - 1 - r)) = e - 1" by simp
  then show ?thesis unfolding ring_items_def c by simp
qed

end

end
