(* ===== verification/Ring.thy ===== *)
theory Ring
  imports Prelude
begin

text \<open>
  Doubly linked rings as two functions on pointers: \<open>n\<close> gives the next element, \<open>p\<close> the previous one,
  and \<open>None\<close> is the head, which both directions come back to.
\<close>

fun chain :: "('a option \<Rightarrow> 'a option) \<Rightarrow> 'a option \<Rightarrow> 'a list \<Rightarrow> 'a option \<Rightarrow> bool" where
  "chain f a [] c \<longleftrightarrow> f a = c"
| "chain f a (i # is) c \<longleftrightarrow> f a = Some i \<and> chain f (Some i) is c"

definition ring :: "('a option \<Rightarrow> 'a option) \<Rightarrow> ('a option \<Rightarrow> 'a option) \<Rightarrow> 'a list \<Rightarrow> bool" where
  "ring n p xs \<longleftrightarrow> distinct xs \<and> chain n None xs None \<and> chain p None (rev xs) None"

lemma chain_append: "chain f a (xs @ i # ys) c \<longleftrightarrow> chain f a xs (Some i) \<and> chain f (Some i) ys c"
  by (induction xs arbitrary: a) auto

lemma chain_cong:
  "g a = f a \<Longrightarrow> (\<And>i. i \<in> set xs \<Longrightarrow> g (Some i) = f (Some i)) \<Longrightarrow> chain g a xs c = chain f a xs c"
  by (induction xs arbitrary: a) auto

lemma chain_closed: "chain f a xs None \<Longrightarrow> b = a \<or> b \<in> Some ` set xs \<Longrightarrow> f b = None \<or> f b \<in> Some ` set xs"
  by (induction xs arbitrary: a) auto

text \<open>The pointer at the end of a chain is the last element, or where the chain began.\<close>

definition tip :: "'a option \<Rightarrow> 'a list \<Rightarrow> 'a option" where
  "tip a xs = (if xs = [] then a else Some (last xs))"

definition tops :: "'a list \<Rightarrow> 'a option \<Rightarrow> 'a option" where
  "tops xs c = (case xs of [] \<Rightarrow> c | i # _ \<Rightarrow> Some i)"

lemma chain_tip: "chain f a xs c \<Longrightarrow> f (tip a xs) = c"
  by (induction xs arbitrary: a) (auto simp: tip_def)

lemma chain_tops: "chain f a xs c \<Longrightarrow> f a = tops xs c"
  by (cases xs) (auto simp: tops_def)

lemma tip_rev: "tip a (rev xs) = tops xs a"
  by (cases xs) (auto simp: tip_def tops_def)

lemma tops_rev: "tops (rev xs) a = tip a xs"
  using tip_rev [of a "rev xs"] by simp

lemma chain_retarget:
  "distinct xs \<Longrightarrow> a \<notin> Some ` set xs \<Longrightarrow> chain f a xs c \<Longrightarrow> chain (f(tip a xs := d)) a xs d"
proof (induction xs arbitrary: a)
  case (Cons x xs)
  have "Some x \<notin> Some ` set xs" "chain f (Some x) xs c" using Cons.prems by auto
  then have "chain (f(tip (Some x) xs := d)) (Some x) xs d" using Cons.prems(1) by (intro Cons.IH) auto
  moreover have "tip a (x # xs) = tip (Some x) xs" by (simp add: tip_def)
  moreover have "a \<noteq> tip (Some x) xs" using Cons.prems(2) by (auto simp: tip_def)
  ultimately show ?case using Cons.prems(3) by (simp add: fun_upd_def)
qed (simp add: tip_def)

text \<open>Taking an element out, and putting it in right after the head.\<close>

lemma ring_neighbours:
  assumes "ring n p (xs @ i # ys)"
  shows "n (Some i) = tops ys None" "p (Some i) = tip None xs"
  using assms chain_tops [of n "Some i" ys None] chain_tops [of p "Some i" "rev xs" None]
  by (auto simp: ring_def chain_append tops_rev)

lemma chain_skip:
  assumes "distinct (xs @ i # ys)" "None \<notin> Some ` set xs" "chain f None (xs @ i # ys) c" "c = None"
  shows "chain (f(tip None xs := tops ys c)) None (xs @ ys) c"
proof -
  have c: "chain f None xs (Some i)" "chain f (Some i) ys c" using assms(3) by (simp_all add: chain_append)
  have d: "distinct xs" "distinct ys" "set xs \<inter> set ys = {}" using assms(1) by auto
  show ?thesis
  proof (cases ys)
    case Nil
    then show ?thesis using chain_retarget [OF d(1) assms(2) c(1), of c] by (simp add: tops_def)
  next
    case (Cons y zs)
    have r: "chain (f(tip None xs := Some y)) None xs (Some y)"
      by (rule chain_retarget [OF d(1) assms(2) c(1)])
    have "tip None xs \<noteq> Some k" if "k \<in> set ys" for k using that d(3) by (metis disjoint_iff last_in_set option.distinct(1) option.inject tip_def)
    then have "chain (f(tip None xs := Some y)) (Some y) zs c = chain f (Some y) zs c"
      using Cons by (intro chain_cong) (auto dest: sym)
    then have "chain (f(tip None xs := Some y)) (Some y) zs c" using c(2) Cons by simp
    then show ?thesis using r Cons by (simp add: chain_append tops_def)
  qed
qed

lemma ring_remove:
  assumes "ring n p (xs @ i # ys)"
  shows "ring (n(p (Some i) := n (Some i))) (p(n (Some i) := p (Some i))) (xs @ ys)"
proof -
  note nb = ring_neighbours [OF assms]
  have "chain (n(tip None xs := tops ys None)) None (xs @ ys) None"
    using assms by (intro chain_skip [of xs i ys]) (auto simp: ring_def)
  moreover have "chain (p(tip None (rev ys) := tops (rev xs) None)) None (rev ys @ rev xs) None"
    using assms by (intro chain_skip [of "rev ys" i "rev xs"]) (auto simp: ring_def)
  ultimately show ?thesis using assms nb by (simp add: ring_def tip_rev tops_rev)
qed

lemma ring_front:
  assumes "ring n p xs" "i \<notin> set xs"
  shows "ring (n(Some i := n None, None := Some i)) (p(Some i := None, n None := Some i)) (i # xs)"
proof -
  have h: "n None = tops xs None" using assms(1) chain_tops by (auto simp: ring_def)
  have "chain (n(Some i := n None, None := Some i)) (Some i) xs None"
  proof (cases xs)
    case (Cons x ys)
    have "chain n (Some x) ys None" "n None = Some x" using assms(1) Cons by (simp_all add: ring_def)
    moreover have "chain (n(Some i := n None, None := Some i)) (Some x) ys None = chain n (Some x) ys None"
      using assms(2) Cons by (intro chain_cong) auto
    ultimately show ?thesis using Cons by simp
  qed (use h in \<open>simp add: tops_def\<close>)
  moreover have "chain (p(Some i := None, n None := Some i)) None (rev xs @ [i]) None"
  proof -
    have "chain p None (rev xs) None" "distinct (rev xs)" using assms by (simp_all add: ring_def)
    then have "chain (p(tip None (rev xs) := Some i)) None (rev xs) (Some i)" by (intro chain_retarget) auto
    then have "chain (p(n None := Some i)) None (rev xs) (Some i)" by (simp add: h tip_rev)
    moreover have "chain (p(Some i := None, n None := Some i)) None (rev xs) (Some i) = chain (p(n None := Some i)) None (rev xs) (Some i)"
      using assms(2) by (intro chain_cong) auto
    moreover have "n None \<noteq> Some i" using h assms(2) by (cases xs) (auto simp: tops_def)
    ultimately show ?thesis by (simp add: chain_append)
  qed
  ultimately show ?thesis using assms by (simp add: ring_def)
qed

end
