(* ===== verification/Cache.thy ===== *)
theory Cache
  imports Blocking Bio Ring
begin

unbundle bit_operations_syntax

text \<open>
  The buffer cache of kernel/bio.c over the memory disk: the ring of buffers, the invariant of the
  cache, and what reading, writing and releasing a block do to the contents the cache stands
  for. The operations are seen from a process that holds some buffers while nobody else does.
\<close>

section \<open>Buffers\<close>

lemma upd_bc_fields [simp]:
  "procs (upd_bc f s) = procs s" "sls (upd_bc f s) = sls s" "cur (upd_bc f s) = cur s" "curproc (upd_bc f s) = curproc s"
  "quiet (upd_bc f s) = quiet s" "lk_free k (upd_bc f s) = lk_free k s" "lk_held k (upd_bc f s) = lk_held k s"
  "hold k (upd_bc f s) = upd_bc f (hold k s)" "unhold k (upd_bc f s) = upd_bc f (unhold k s)"
  "bc (upd_bc f s) = f (bc s)" "pid_of (upd_bc f s) = pid_of s"
  by (simp_all add: upd_bc_def pid_of_def split: option.split)

lemma upd_buf_fields [simp]:
  "procs (upd_buf i f s) = procs s" "sls (upd_buf i f s) = sls s" "cur (upd_buf i f s) = cur s" "curproc (upd_buf i f s) = curproc s"
  "quiet (upd_buf i f s) = quiet s" "lk_free k (upd_buf i f s) = lk_free k s" "lk_held k (upd_buf i f s) = lk_held k s"
  "hold k (upd_buf i f s) = upd_buf i f (hold k s)" "unhold k (upd_buf i f s) = upd_buf i f (unhold k s)"
  "bufs (bc (upd_buf i f s)) = (bufs (bc s))[i := f (buf_at s i)]" "pid_of (upd_buf i f s) = pid_of s"
  "disk (bc (upd_buf i f s)) = disk (bc s)" "disksize (bc (upd_buf i f s)) = disksize (bc s)"
  "dk_hist (bc (upd_buf i f s)) = dk_hist (bc s)" "head_next (bc (upd_buf i f s)) = head_next (bc s)"
  "head_prev (bc (upd_buf i f s)) = head_prev (bc s)"
  by (simp_all add: upd_buf_def)

lemma upd_sl_bc [simp]: "bc (upd_sl l f s) = bc s"
  by (simp add: upd_sl_def)

lemma wakeup1_bc [simp]: "bc (wakeup1 ch s) = bc s" "sls (wakeup1 ch t) = sls t"
  by (simp_all add: wakeup1_def)

lemma pid_of_hold [simp]: "quiet s \<Longrightarrow> pid_of (hold l s) = pid_of s"
  by (simp add: pid_of_def split: option.split)

lemma pid_of_wakeup1 [simp]: "(\<forall>p. curproc s = Some p \<longrightarrow> p < length (procs s)) \<Longrightarrow> pid_of (wakeup1 ch s) = pid_of s"
  by (auto simp: pid_of_def wakeup1_nth split: option.split)

section \<open>The ring\<close>

definition cnext :: "bcache \<Rightarrow> nat option \<Rightarrow> nat option" where
  "cnext c p = (case p of None \<Rightarrow> head_next c | Some i \<Rightarrow> b_next (bufs c ! i))"

definition cprev :: "bcache \<Rightarrow> nat option \<Rightarrow> nat option" where
  "cprev c p = (case p of None \<Rightarrow> head_prev c | Some i \<Rightarrow> b_prev (bufs c ! i))"

lemma scan_next_chain:
  "chain (cnext (bc s)) a xs None \<Longrightarrow> length xs < n \<Longrightarrow>
    scan_next n P (cnext (bc s) a) s = Ok (find (\<lambda>i. P (buf_at s i)) xs) s"
proof (induction xs arbitrary: a n)
  case Nil
  then show ?case by (cases n) auto
next
  case (Cons x xs)
  then obtain m where m: "n = Suc m" "length xs < m" by (cases n) auto
  have "scan_next m P (cnext (bc s) (Some x)) s = Ok (find (\<lambda>i. P (buf_at s i)) xs) s"
    using Cons.IH [of "Some x" m] Cons.prems m by simp
  then show ?case using Cons.prems m by (simp add: cnext_def)
qed

lemma scan_prev_chain:
  "chain (cprev (bc s)) a xs None \<Longrightarrow> length xs < n \<Longrightarrow>
    scan_prev n P (cprev (bc s) a) s = Ok (find (\<lambda>i. P (buf_at s i)) xs) s"
proof (induction xs arbitrary: a n)
  case Nil
  then show ?case by (cases n) auto
next
  case (Cons x xs)
  then obtain m where m: "n = Suc m" "length xs < m" by (cases n) auto
  have "scan_prev m P (cprev (bc s) (Some x)) s = Ok (find (\<lambda>i. P (buf_at s i)) xs) s"
    using Cons.IH [of "Some x" m] Cons.prems m by simp
  then show ?case using Cons.prems m by (simp add: cprev_def)
qed

text \<open>The bytes and flags of a buffer, without its links.\<close>

definition core :: "buf \<Rightarrow> u32 \<times> u32 \<times> u32 \<times> u32 \<times> block" where
  "core b = (b_flags b, b_dev b, b_blockno b, b_refcnt b, b_data b)"

text \<open>\<open>relinked s s'\<close>: only links between the buffers differ.\<close>

definition relinked :: "'a bst_scheme \<Rightarrow> 'a bst_scheme \<Rightarrow> bool" where
  "relinked s s' \<longleftrightarrow> s' = s\<lparr>bc := bc s'\<rparr> \<and> length (bufs (bc s')) = length (bufs (bc s)) \<and> disk (bc s') = disk (bc s) \<and>
     disksize (bc s') = disksize (bc s) \<and> dk_hist (bc s') = dk_hist (bc s) \<and> (\<forall>j. core (buf_at s' j) = core (buf_at s j))"


lemma relinked_refl [simp]: "relinked s s"
  by (simp add: relinked_def)

lemma relinked_trans:
  assumes "relinked s t" "relinked t u"
  shows "relinked s u"
proof -
  have t: "t = s\<lparr>bc := bc t\<rparr>" and u: "u = t\<lparr>bc := bc u\<rparr>" using assms unfolding relinked_def by blast+
  have "t\<lparr>bc := bc u\<rparr> = s\<lparr>bc := bc t\<rparr>\<lparr>bc := bc u\<rparr>" using t by (rule arg_cong)
  then have "u = s\<lparr>bc := bc u\<rparr>" using trans [OF u] by simp
  then show ?thesis using assms by (simp add: relinked_def)
qed

definition on_ring :: "bcache \<Rightarrow> nat option \<Rightarrow> bool" where
  "on_ring c p \<longleftrightarrow> (case p of None \<Rightarrow> True | Some i \<Rightarrow> i < length (bufs c))"

lemma upd_buf_links:
  assumes "i < length (bufs (bc s))" "\<And>b. core (f b) = core b"
  shows "cnext (bc (upd_buf i f s)) = (cnext (bc s))(Some i := b_next (f (buf_at s i)))"
    "cprev (bc (upd_buf i f s)) = (cprev (bc s))(Some i := b_prev (f (buf_at s i)))" "relinked s (upd_buf i f s)"
proof -
  show "cnext (bc (upd_buf i f s)) = (cnext (bc s))(Some i := b_next (f (buf_at s i)))"
    "cprev (bc (upd_buf i f s)) = (cprev (bc s))(Some i := b_prev (f (buf_at s i)))"
    using assms(1) by (auto simp: fun_eq_iff cnext_def cprev_def nth_list_update split: option.split)
  have "core (buf_at (upd_buf i f s) j) = core (buf_at s j)" for j
    using assms by (cases "i = j") simp_all
  then show "relinked s (upd_buf i f s)" by (simp add: relinked_def) (simp add: upd_buf_def upd_bc_def)
qed

lemma set_next_links:
  assumes "on_ring (bc s) p"
  shows "cnext (bc (set_next p q s)) = (cnext (bc s))(p := q)" "cprev (bc (set_next p q s)) = cprev (bc s)"
    "relinked s (set_next p q s)"
proof -
  have "cnext (bc (set_next p q s)) = (cnext (bc s))(p := q) \<and> cprev (bc (set_next p q s)) = cprev (bc s) \<and> relinked s (set_next p q s)"
  proof (cases p)
    case None
    then show ?thesis by (auto simp: set_next_def fun_eq_iff cnext_def cprev_def relinked_def upd_bc_def split: option.split)
  next
    case (Some i)
    then have "i < length (bufs (bc s))" using assms by (simp add: on_ring_def)
    from upd_buf_links [OF this, of "\<lambda>b. b\<lparr>b_next := q\<rparr>"] Some show ?thesis
      by (auto simp: set_next_def core_def cprev_def)
  qed
  then show "cnext (bc (set_next p q s)) = (cnext (bc s))(p := q)" "cprev (bc (set_next p q s)) = cprev (bc s)"
    "relinked s (set_next p q s)" by simp_all
qed

lemma set_prev_links:
  assumes "on_ring (bc s) p"
  shows "cprev (bc (set_prev p q s)) = (cprev (bc s))(p := q)" "cnext (bc (set_prev p q s)) = cnext (bc s)"
    "relinked s (set_prev p q s)"
proof -
  have "cprev (bc (set_prev p q s)) = (cprev (bc s))(p := q) \<and> cnext (bc (set_prev p q s)) = cnext (bc s) \<and> relinked s (set_prev p q s)"
  proof (cases p)
    case None
    then show ?thesis by (auto simp: set_prev_def fun_eq_iff cnext_def cprev_def relinked_def upd_bc_def split: option.split)
  next
    case (Some i)
    then have "i < length (bufs (bc s))" using assms by (simp add: on_ring_def)
    from upd_buf_links [OF this, of "\<lambda>b. b\<lparr>b_prev := q\<rparr>"] Some show ?thesis
      by (auto simp: set_prev_def core_def cnext_def)
  qed
  then show "cprev (bc (set_prev p q s)) = (cprev (bc s))(p := q)" "cnext (bc (set_prev p q s)) = cnext (bc s)"
    "relinked s (set_prev p q s)" by simp_all
qed

lemma on_ring_relinked: "relinked s t \<Longrightarrow> on_ring (bc t) p = on_ring (bc s) p"
  by (simp add: on_ring_def relinked_def split: option.split)

lemma link_front_links:
  assumes "i < length (bufs (bc s))" "on_ring (bc s) (head_next (bc s))"
  shows "cnext (bc (link_front i s)) = (cnext (bc s))(Some i := cnext (bc s) None, None := Some i)"
    "cprev (bc (link_front i s)) = (cprev (bc s))(Some i := None, cnext (bc s) None := Some i)"
    "relinked s (link_front i s)"
proof -
  define t where "t = upd_buf i (\<lambda>b. b\<lparr>b_next := head_next (bc s)\<rparr>) s"
  define u where "u = upd_buf i (\<lambda>b. b\<lparr>b_prev := None\<rparr>) t"
  define v where "v = set_prev (head_next (bc u)) (Some i) u"
  have e: "link_front i s = set_next None (Some i) v"
    by (simp add: link_front_def Let_def t_def u_def v_def set_next_def)
  have l: "i < length (bufs (bc t))" using assms(1) by (simp add: t_def)
  note t = upd_buf_links [OF assms(1), of "\<lambda>b. b\<lparr>b_next := head_next (bc s)\<rparr>", folded t_def]
  note u = upd_buf_links [OF l, of "\<lambda>b. b\<lparr>b_prev := None\<rparr>", folded u_def]
  have tl: "cnext (bc t) = (cnext (bc s))(Some i := head_next (bc s))" "cprev (bc t) = cprev (bc s)" "relinked s t"
    using t by (auto simp: core_def cprev_def)
  have ul: "cprev (bc u) = (cprev (bc t))(Some i := None)" "cnext (bc u) = cnext (bc t)" "relinked t u"
    using u by (auto simp: core_def cnext_def)
  have h: "head_next (bc u) = head_next (bc s)" by (simp add: u_def t_def)
  have su: "relinked s u" using tl(3) ul(3) by (rule relinked_trans)
  have on: "on_ring (bc u) (head_next (bc u))" using assms(2) on_ring_relinked [OF su] h by simp
  note v = set_prev_links [OF on, of "Some i", folded v_def]
  have on2: "on_ring (bc v) None" by (simp add: on_ring_def)
  note w = set_next_links [OF on2, of "Some i", folded e]
  have hn: "cnext (bc s) None = head_next (bc s)" by (simp add: cnext_def)
  show "cnext (bc (link_front i s)) = (cnext (bc s))(Some i := cnext (bc s) None, None := Some i)"
    using w(1) v(2) ul(2) tl(1) hn by simp
  show "cprev (bc (link_front i s)) = (cprev (bc s))(Some i := None, cnext (bc s) None := Some i)"
    using w(2) v(1) ul(1) tl(2) h hn by simp
  show "relinked s (link_front i s)" using su v(3) w(3) relinked_trans by blast
qed


lemma ring_on:
  assumes "ring (cnext c) (cprev c) L" "\<forall>i\<in>set L. i < length (bufs c)" "a = None \<or> a \<in> Some ` set L"
  shows "on_ring c (cnext c a)" "on_ring c (cprev c a)"
proof -
  have "cnext c a = None \<or> cnext c a \<in> Some ` set L"
    using assms(1,3) unfolding ring_def by (metis chain_closed)
  moreover have "cprev c a = None \<or> cprev c a \<in> Some ` set L"
    using assms(1,3) unfolding ring_def by (metis chain_closed set_rev)
  ultimately show "on_ring c (cnext c a)" "on_ring c (cprev c a)"
    using assms(2) by (auto simp: on_ring_def split: option.split)
qed

text \<open>What \<open>brelse\<close> does to the links: the buffer moves to the front.\<close>

definition move_front :: "nat \<Rightarrow> 'a bst_scheme \<Rightarrow> 'a bst_scheme" where
  "move_front i s =
     (let s = set_prev (b_next (buf_at s i)) (b_prev (buf_at s i)) s;
          s = set_next (b_prev (buf_at s i)) (b_next (buf_at s i)) s in
      link_front i s)"

lemma move_front_ring:
  assumes r: "ring (cnext (bc s)) (cprev (bc s)) (xs @ i # ys)" and l: "\<forall>j\<in>set (xs @ i # ys). j < length (bufs (bc s))"
  shows "ring (cnext (bc (move_front i s))) (cprev (bc (move_front i s))) (i # xs @ ys)" "relinked s (move_front i s)"
proof -
  have i: "Some i \<in> Some ` set (xs @ i # ys)" by simp
  note on = ring_on [OF r l disjI2 [OF i]]
  have nb: "b_next (buf_at s i) = cnext (bc s) (Some i)" "b_prev (buf_at s i) = cprev (bc s) (Some i)"
    by (simp_all add: cnext_def cprev_def)
  have dist: "distinct (xs @ i # ys)" using r by (simp add: ring_def)
  have nbr: "cnext (bc s) (Some i) = tops ys None" "cprev (bc s) (Some i) = tip None xs"
    using ring_neighbours [OF r] by simp_all
  have ni: "cnext (bc s) (Some i) \<noteq> Some i" "cprev (bc s) (Some i) \<noteq> Some i"
    using dist unfolding nbr by (cases ys, auto simp: tops_def tip_def)
  define t where "t = set_prev (b_next (buf_at s i)) (b_prev (buf_at s i)) s"
  note t = set_prev_links [OF on(1), of "cprev (bc s) (Some i)", folded nb, folded t_def]
  have "cprev (bc t) (Some i) = cprev (bc s) (Some i)" "cnext (bc t) (Some i) = cnext (bc s) (Some i)"
    using t(1,2) ni(1) nb by simp_all
  then have nb2: "b_prev (buf_at t i) = cprev (bc s) (Some i)" "b_next (buf_at t i) = cnext (bc s) (Some i)"
    unfolding cnext_def cprev_def by simp_all
  define u where "u = set_next (b_prev (buf_at t i)) (b_next (buf_at t i)) t"
  have "on_ring (bc t) (cprev (bc s) (Some i))" using on(2) on_ring_relinked [OF t(3)] by simp
  note u = set_next_links [OF this, of "cnext (bc s) (Some i)", folded nb2, folded u_def]
  have ru: "ring (cnext (bc u)) (cprev (bc u)) (xs @ ys)"
    using ring_remove [OF r] u(1,2) t(1,2) nb nb2 by simp
  have su: "relinked s u" using t(3) u(3) by (rule relinked_trans)
  have len: "length (bufs (bc u)) = length (bufs (bc s))" using su by (simp add: relinked_def)
  have h: "on_ring (bc u) (cnext (bc u) None)" by (rule ring_on(1) [OF ru]) (use l len in auto)
  have il: "i < length (bufs (bc u))" using l len by simp
  have "head_next (bc u) = cnext (bc u) None" by (simp add: cnext_def)
  note f = link_front_links [OF il, unfolded this, OF h]
  have e: "move_front i s = link_front i u" by (simp add: move_front_def Let_def t_def u_def)
  show "ring (cnext (bc (move_front i s))) (cprev (bc (move_front i s))) (i # xs @ ys)"
    unfolding e f(1,2) by (rule ring_front [OF ru]) (use dist in auto)
  show "relinked s (move_front i s)" unfolding e using su f(3) by (rule relinked_trans)
qed


section \<open>The invariant\<close>

definition valid :: "buf \<Rightarrow> bool" where
  "valid b \<longleftrightarrow> b_flags b AND B_VALID \<noteq> 0"

definition dirty :: "buf \<Rightarrow> bool" where
  "dirty b \<longleftrightarrow> b_flags b AND B_DIRTY \<noteq> 0"

definition held :: "'a sst_scheme \<Rightarrow> nat \<Rightarrow> bool" where
  "held s i \<longleftrightarrow> sl_locked (sls s (Lbufsleep i)) \<noteq> 0"

text \<open>
  A buffer that nobody holds is unreferenced, and unless it is dirty it holds what the disk has.
  One that is held is valid and has one reference. Only valid buffers are dirty, and the valid
  ones are those of the disk.
\<close>

definition buf_ok :: "(u32 \<Rightarrow> block) \<Rightarrow> u32 \<Rightarrow> bool \<Rightarrow> buf \<Rightarrow> bool" where
  "buf_ok d n h b \<longleftrightarrow> (dirty b \<longrightarrow> valid b) \<and> (valid b \<longleftrightarrow> b_dev b = 1) \<and>
     (valid b \<longrightarrow> length (b_data b) = BSIZE \<and> b_blockno b < n) \<and>
     (if h then b_refcnt b = 1 \<and> valid b
      else b_refcnt b = 0 \<and> (valid b \<and> \<not> dirty b \<longrightarrow> b_data b = d (b_blockno b)))"

definition caches :: "bcache \<Rightarrow> nat \<Rightarrow> u32 \<Rightarrow> bool" where
  "caches c i b \<longleftrightarrow> i < length (bufs c) \<and> b_dev (bufs c ! i) = 1 \<and> b_blockno (bufs c ! i) = b"

definition cache_ready :: "'a bst_scheme \<Rightarrow> bool" where
  "cache_ready s \<longleftrightarrow> quiet s \<and> (\<exists>p. curproc s = Some p \<and> p < length (procs s)) \<and> lk_free Lptable s \<and> lk_free Lbcache s \<and>
     (\<forall>i. lk_free (Lbufsleep i) s)"

definition cache_inv :: "'a bst_scheme \<Rightarrow> bool" where
  "cache_inv s \<longleftrightarrow> cache_ready s \<and> length (bufs (bc s)) = NBUF \<and> (\<forall>b. length (disk (bc s) b) = BSIZE) \<and>
     (\<forall>i < NBUF. buf_ok (disk (bc s)) (disksize (bc s)) (held s i) (buf_at s i)) \<and>
     (\<forall>i < NBUF. held s i \<longrightarrow> sl_pid (sls s (Lbufsleep i)) = pid_of s) \<and>
     (\<forall>i j b. caches (bc s) i b \<longrightarrow> caches (bc s) j b \<longrightarrow> i = j) \<and>
     (\<exists>L. set L = {..<NBUF} \<and> ring (cnext (bc s)) (cprev (bc s)) L)"

text \<open>The contents of a block: those of its buffer if that is valid, otherwise those on disk.\<close>

definition cview :: "bcache \<Rightarrow> u32 \<Rightarrow> block" where
  "cview c b = (case find (\<lambda>x. b_dev x = 1 \<and> b_blockno x = b \<and> valid x) (bufs c) of
     Some x \<Rightarrow> b_data x | None \<Rightarrow> disk c b)"

definition pinned :: "bcache \<Rightarrow> u32 set" where
  "pinned c = {b. \<exists>i. caches c i b \<and> dirty (bufs c ! i)}"

definition opened :: "'a bst_scheme \<Rightarrow> nat \<Rightarrow> u32 option" where
  "opened s i = (if i < NBUF \<and> held s i then Some (b_blockno (buf_at s i)) else None)"

lemma cview_hit:
  assumes "caches c i b" "valid (bufs c ! i)" "\<And>j. caches c j b \<Longrightarrow> j = i"
  shows "cview c b = b_data (bufs c ! i)"
proof -
  let ?P = "\<lambda>x. b_dev x = 1 \<and> b_blockno x = b \<and> valid x"
  have "find ?P (bufs c) \<noteq> None"
    using assms(1,2) by (auto simp: find_None_iff caches_def in_set_conv_nth)
  then obtain x where x: "find ?P (bufs c) = Some x" by blast
  then obtain j where "j < length (bufs c)" "bufs c ! j = x" "?P x" by (auto simp: find_Some_iff)
  moreover from this have "j = i" using assms(3) by (auto simp: caches_def)
  ultimately show ?thesis using x by (simp add: cview_def)
qed

lemma cview_miss: "(\<And>i. caches c i b \<Longrightarrow> \<not> valid (bufs c ! i)) \<Longrightarrow> cview c b = disk c b"
proof -
  assume a: "\<And>i. caches c i b \<Longrightarrow> \<not> valid (bufs c ! i)"
  have "find (\<lambda>x. b_dev x = 1 \<and> b_blockno x = b \<and> valid x) (bufs c) = None"
    using a by (auto simp: find_None_iff caches_def in_set_conv_nth)
  then show ?thesis by (simp add: cview_def)
qed

text \<open>The state may differ in the cache, the sleep locks and in processes that were woken.\<close>

definition only_bc :: "'a bst_scheme \<Rightarrow> 'a bst_scheme \<Rightarrow> bool" where
  "only_bc s s' \<longleftrightarrow> s' = s\<lparr>bc := bc s', sls := sls s', procs := procs s'\<rparr> \<and> map p_pid (procs s') = map p_pid (procs s)"

lemma only_bc_refl [simp]: "only_bc s s"
  by (simp add: only_bc_def)

lemma only_bc_trans:
  assumes "only_bc s t" "only_bc t u"
  shows "only_bc s u"
proof -
  have t: "t = s\<lparr>bc := bc t, sls := sls t, procs := procs t\<rparr>" and u: "u = t\<lparr>bc := bc u, sls := sls u, procs := procs u\<rparr>"
    using assms unfolding only_bc_def by blast+
  have "t\<lparr>bc := bc u, sls := sls u, procs := procs u\<rparr> =
      s\<lparr>bc := bc t, sls := sls t, procs := procs t\<rparr>\<lparr>bc := bc u, sls := sls u, procs := procs u\<rparr>" using t by (rule arg_cong)
  then have "u = s\<lparr>bc := bc u, sls := sls u, procs := procs u\<rparr>" using trans [OF u] by simp
  then show ?thesis using assms by (simp add: only_bc_def)
qed

lemma only_bc_upd:
  "only_bc s (upd_buf i f s)" "only_bc s (upd_sl l g s)" "only_bc s (upd_bc h s)" "only_bc s (wakeup1 ch s)"
  by (simp_all add: only_bc_def upd_buf_def upd_bc_def upd_sl_def wakeup1_def)

lemma only_bc_relinked:
  assumes "relinked s s'"
  shows "only_bc s s'"
proof -
  have e: "s' = s\<lparr>bc := bc s'\<rparr>" using assms unfolding relinked_def by blast
  have "sls s' = sls s" "procs s' = procs s" by (rule trans [OF arg_cong [OF e]], simp)+
  then show ?thesis unfolding only_bc_def using e by simp
qed


lemma cache_invD:
  assumes "cache_inv s"
  shows "cache_ready s" "length (bufs (bc s)) = NBUF" "\<And>b. length (disk (bc s) b) = BSIZE"
    "\<And>i. i < NBUF \<Longrightarrow> buf_ok (disk (bc s)) (disksize (bc s)) (held s i) (buf_at s i)"
    "\<And>i. i < NBUF \<Longrightarrow> held s i \<Longrightarrow> sl_pid (sls s (Lbufsleep i)) = pid_of s"
    "\<And>i j b. caches (bc s) i b \<Longrightarrow> caches (bc s) j b \<Longrightarrow> i = j"
    "\<And>i b. caches (bc s) i b \<Longrightarrow> i < NBUF \<and> valid (buf_at s i) \<and> b < disksize (bc s) \<and> cview (bc s) b = b_data (buf_at s i)"
proof -
  show len: "length (bufs (bc s)) = NBUF" and ok: "\<And>i. i < NBUF \<Longrightarrow> buf_ok (disk (bc s)) (disksize (bc s)) (held s i) (buf_at s i)"
    and un: "\<And>i j b. caches (bc s) i b \<Longrightarrow> caches (bc s) j b \<Longrightarrow> i = j"
    and "cache_ready s" "\<And>b. length (disk (bc s) b) = BSIZE"
      "\<And>i. i < NBUF \<Longrightarrow> held s i \<Longrightarrow> sl_pid (sls s (Lbufsleep i)) = pid_of s"
    using assms by (auto simp: cache_inv_def)
  fix i b assume c: "caches (bc s) i b"
  then have i: "i < NBUF" using len by (simp add: caches_def)
  then have v: "valid (buf_at s i)" "b < disksize (bc s)" using ok c by (auto simp: buf_ok_def caches_def)
  then show "i < NBUF \<and> valid (buf_at s i) \<and> b < disksize (bc s) \<and> cview (bc s) b = b_data (buf_at s i)"
    using cview_hit [OF c] un c i by blast
qed

lemma opened_ran: "cache_inv s \<Longrightarrow> caches (bc s) i b \<Longrightarrow> held s i \<Longrightarrow> b \<in> ran (opened s)"
  using cache_invD(2) [of s] by (intro ranI [of _ i]) (simp add: opened_def caches_def)

lemma cview_clean:
  assumes "cache_inv s" "b \<notin> pinned (bc s)" "b \<notin> ran (opened s)"
  shows "cview (bc s) b = disk (bc s) b"
proof (cases "\<exists>i. caches (bc s) i b")
  case True
  then obtain i where i: "caches (bc s) i b" by blast
  note d = cache_invD(7) [OF assms(1) i]
  have nd: "\<not> dirty (buf_at s i)" using assms(2) i by (auto simp: pinned_def)
  have "\<not> held s i" using opened_ran [OF assms(1) i] assms(3) by blast
  then show ?thesis using cache_invD(4) [OF assms(1), of i] d nd i by (simp add: buf_ok_def caches_def)
qed (auto intro: cview_miss)

text \<open>Taking the lock of a buffer that now holds block \<open>b\<close>, as a hit and as a miss do.\<close>

definition take_buf :: "nat \<Rightarrow> (buf \<Rightarrow> buf) \<Rightarrow> 'a bst_scheme \<Rightarrow> 'a bst_scheme" where
  "take_buf i f s = upd_sl (Lbufsleep i) (\<lambda>k. k\<lparr>sl_locked := 1, sl_pid := pid_of s\<rparr>) (upd_buf i f s)"

lemma take_buf_simps [simp]:
  "held (take_buf i f s) j = (j = i \<or> held s j)" "bufs (bc (take_buf i f s)) = (bufs (bc s))[i := f (buf_at s i)]"
  "disk (bc (take_buf i f s)) = disk (bc s)" "disksize (bc (take_buf i f s)) = disksize (bc s)"
  "dk_hist (bc (take_buf i f s)) = dk_hist (bc s)" "quiet (take_buf i f s) = quiet s" "curproc (take_buf i f s) = curproc s"
  "lk_free l (take_buf i f s) = lk_free l s" "procs (take_buf i f s) = procs s" "pid_of (take_buf i f s) = pid_of s"
  by (auto simp: take_buf_def held_def)

lemma cache_ready_take_buf [simp]: "cache_ready (take_buf i f s) = cache_ready s"
  by (simp add: cache_ready_def)

lemma take_buf_inv:
  assumes inv: "cache_inv s" and i: "i < NBUF" and nh: "\<not> held s i" and b: "b < disksize (bc s)"
    and f: "b_next (f (buf_at s i)) = b_next (buf_at s i)" "b_prev (f (buf_at s i)) = b_prev (buf_at s i)" "b_dev (f (buf_at s i)) = 1"
      "b_blockno (f (buf_at s i)) = b" "b_refcnt (f (buf_at s i)) = 1" "valid (f (buf_at s i))" "b_data (f (buf_at s i)) = cview (bc s) b"
    and h: "caches (bc s) i b \<or> (\<forall>j. \<not> caches (bc s) j b)" and d: "dirty (f (buf_at s i)) = dirty (buf_at s i)"
      "dirty (buf_at s i) \<longrightarrow> caches (bc s) i b"
  shows "cache_inv (take_buf i f s)" "opened (take_buf i f s) = (opened s)(i \<mapsto> b)" "cview (bc (take_buf i f s)) = cview (bc s)"
    "pinned (bc (take_buf i f s)) = pinned (bc s)" "only_bc s (take_buf i f s)" "opened s i = None"
proof -
  let ?s = "take_buf i f s" let ?x = "f (buf_at s i)"
  note D = cache_invD [OF inv]
  have il: "i < length (bufs (bc s))" using i D(2) by simp
  have c: "caches (bc ?s) j a = (if j = i then a = b else caches (bc s) j a)" for j a
    using il f(3,4) by (auto simp: caches_def nth_list_update)
  have un: "j = k" if "caches (bc ?s) j a" "caches (bc ?s) k a" for j k a
    using that D(6) h unfolding c by (metis (full_types))
  have "length (cview (bc s) b) = BSIZE"
  proof (cases "\<exists>j. caches (bc s) j b")
    case True
    then obtain j where "caches (bc s) j b" by blast
    then show ?thesis using D(7) D(4) [of j] by (simp add: buf_ok_def)
  qed (use D(3) cview_miss [of "bc s" b] in auto)
  then have "buf_ok (disk (bc ?s)) (disksize (bc ?s)) (held ?s i) (buf_at ?s i)" using il f b by (simp add: buf_ok_def)
  then have ok: "buf_ok (disk (bc ?s)) (disksize (bc ?s)) (held ?s j) (buf_at ?s j)" if "j < NBUF" for j
    using D(4) [OF that] by (cases "j = i") simp_all
  have "cnext (bc ?s) = cnext (bc s)" "cprev (bc ?s) = cprev (bc s)"
    using il f(1,2) by (auto simp: cnext_def cprev_def fun_eq_iff nth_list_update take_buf_def split: option.split)
  then have rg: "\<exists>L. set L = {..<NBUF} \<and> ring (cnext (bc ?s)) (cprev (bc ?s)) L" using inv by (simp add: cache_inv_def)
  have pid: "sl_pid (sls ?s (Lbufsleep j)) = pid_of ?s" if "j < NBUF" "held ?s j" for j
    using that(1) D(5) [OF that(1)] that(2) [simplified] by (auto simp: take_buf_def)
  show inv': "cache_inv ?s" unfolding cache_inv_def using D(1-3) ok un rg pid by simp
  show "opened s i = None" using nh by (simp add: opened_def)
  show "opened ?s = (opened s)(i \<mapsto> b)" using i il f(4) D(2) by (auto simp: opened_def fun_eq_iff nth_list_update)
  show "only_bc s ?s" unfolding take_buf_def using only_bc_trans only_bc_upd by blast
  show "pinned (bc ?s) = pinned (bc s)"
  proof -
    have "(\<exists>j. caches (bc ?s) j a \<and> dirty (buf_at ?s j)) = (\<exists>j. caches (bc s) j a \<and> dirty (buf_at s j))" for a
      using h d il unfolding c by (auto simp: nth_list_update caches_def)
    then show ?thesis by (simp add: pinned_def)
  qed
  show "cview (bc ?s) = cview (bc s)"
  proof
    fix a
    show "cview (bc ?s) a = cview (bc s) a"
    proof (cases "a = b")
      case True
      then have "caches (bc ?s) i a" unfolding c by simp
      from cache_invD(7) [OF inv' this] show ?thesis using True il f(7) by simp
    next
      case ne: False
      show ?thesis
      proof (cases "\<exists>j. j \<noteq> i \<and> caches (bc s) j a")
        case True
        then obtain j where j: "j \<noteq> i" "caches (bc s) j a" by blast
        then have "caches (bc ?s) j a" unfolding c by simp
        from cache_invD(7) [OF inv' this] D(7) [OF j(2)] show ?thesis using j(1) by simp
      next
        case False
        have "\<not> caches (bc ?s) j a" for j using ne False unfolding c by auto
        then have m: "cview (bc ?s) a = disk (bc s) a" using cview_miss [of "bc ?s" a] by simp
        show ?thesis
        proof (cases "caches (bc s) i a")
          case True
          then have "\<not> dirty (buf_at s i)" using d(2) ne by (auto simp: caches_def)
          then have "b_data (buf_at s i) = disk (bc s) a"
            using D(4) [OF i] D(7) [OF True] nh True by (simp add: buf_ok_def caches_def)
          then show ?thesis using D(7) [OF True] m by simp
        next
          case ni: False
          have "\<not> caches (bc s) j a" for j using False ni by (cases "j = i") auto
          then show ?thesis using m cview_miss [of "bc s" a] by simp
        qed
      qed
    qed
  qed
qed


section \<open>Reading a block\<close>

lemma upd_buf_twice: "i < length (bufs (bc s)) \<Longrightarrow> upd_buf i g (upd_buf i f s) = upd_buf i (\<lambda>b. g (f b)) s"
  by (simp add: upd_buf_def upd_bc_def)

lemma upd_buf_take: "i < length (bufs (bc s)) \<Longrightarrow> upd_buf i g (take_buf i f s) = take_buf i (\<lambda>b. g (f b)) s"
  by (simp add: take_buf_def upd_buf_def upd_bc_def upd_sl_def)

lemma iderw_read:
  assumes "cache_ready s" "held s i" "sl_pid (sls s (Lbufsleep i)) = pid_of s" "\<not> valid (buf_at s i)" "\<not> dirty (buf_at s i)"
    "b_dev (buf_at s i) = 1" "b_blockno (buf_at s i) < disksize (bc s)" "i < length (bufs (bc s))"
  shows "iderw i s = Ok () (upd_buf i (\<lambda>b. b\<lparr>b_data := disk (bc s) (b_blockno b), b_flags := b_flags b OR B_VALID\<rparr>) s)"
proof -
  obtain p where c: "quiet s" "lk_free (Lbufsleep i) s" "curproc s = Some p" using assms(1) by (auto simp: cache_ready_def)
  have "holdingsleep (Lbufsleep i) s = Ok True s" using holdingsleep_eq [OF c] assms(2,3) by (simp add: held_def)
  moreover have "b_flags (buf_at s i) AND (B_VALID OR B_DIRTY) = 0"
    unfolding bit.conj_disj_distrib using assms(4,5) by (simp add: valid_def dirty_def)
  ultimately show ?thesis using assms by (simp add: iderw_def Let_def dirty_def upd_buf_twice)
qed

lemma find_mem: "find P xs = Some x \<Longrightarrow> x \<in> set xs \<and> P x"
  by (auto simp: find_Some_iff)

text \<open>The two searches of \<open>bget\<close>, each along the ring.\<close>

lemma bget_scans:
  assumes "cache_inv s"
  obtains L where "set L = {..<NBUF}"
    "scan_next (NBUF + 1) P (head_next (bc (hold Lbcache s))) (hold Lbcache s) = Ok (find (\<lambda>i. P (buf_at s i)) L) (hold Lbcache s)"
    "scan_prev (NBUF + 1) Q (head_prev (bc (hold Lbcache s))) (hold Lbcache s) = Ok (find (\<lambda>i. Q (buf_at s i)) (rev L)) (hold Lbcache s)"
proof -
  obtain L where L: "set L = {..<NBUF}" "ring (cnext (bc s)) (cprev (bc s)) L" using assms by (auto simp: cache_inv_def)
  have len: "length L = NBUF" using L distinct_card [of L] by (simp add: ring_def)
  let ?h = "hold Lbcache s"
  show thesis
    using that [OF L(1)] scan_next_chain [of ?h None L "NBUF + 1" P] scan_prev_chain [of ?h None "rev L" "NBUF + 1" Q] L(2) len
    by (simp add: ring_def cnext_def cprev_def)
qed

lemma bget_lru:
  assumes inv: "cache_inv s" and r: "(\<exists>i. caches (bc s) i b) \<or> (\<exists>i < NBUF. \<not> held s i \<and> \<not> dirty (buf_at s i))" and b: "b \<notin> ran (opened s)"
  shows "(\<exists>i. caches (bc s) i b \<and> \<not> held s i \<and> bget 1 b s = Ok i (take_buf i (\<lambda>x. x\<lparr>b_refcnt := b_refcnt x + 1\<rparr>) s)) \<or>
    (\<exists>i < NBUF. (\<forall>j. \<not> caches (bc s) j b) \<and> \<not> held s i \<and> \<not> dirty (buf_at s i) \<and>
      bget 1 b s = Ok i (take_buf i (\<lambda>x. x\<lparr>b_dev := 1, b_blockno := b, b_flags := 0, b_refcnt := 1\<rparr>) s))"
proof -
  note D = cache_invD [OF inv]
  obtain p where c: "quiet s" "lk_free Lbcache s" "\<And>i. lk_free (Lbufsleep i) s" "curproc s = Some p"
    using D(1) by (auto simp: cache_ready_def)
  let ?h = "hold Lbcache s"
  let ?P = "\<lambda>x. b_dev x = 1 \<and> b_blockno x = b" and ?Q = "\<lambda>x. b_refcnt x = 0 \<and> b_flags x AND B_DIRTY = 0"
  obtain L where L: "set L = {..<NBUF}"
    and sn: "scan_next (NBUF + 1) ?P (head_next (bc ?h)) ?h = Ok (find (\<lambda>i. ?P (buf_at s i)) L) ?h"
    and sp: "scan_prev (NBUF + 1) ?Q (head_prev (bc ?h)) ?h = Ok (find (\<lambda>i. ?Q (buf_at s i)) (rev L)) ?h"
    using bget_scans [OF inv] .
  have al: "acquiresleep (Lbufsleep i) (upd_buf i f s) = Ok () (take_buf i f s)" if "\<not> held s i" for i f
    using acquiresleep_eq [of "upd_buf i f s" "Lbufsleep i" p] c that by (simp add: take_buf_def held_def)
  have q: "quiet ?h" "lk_held Lbcache ?h" using c by simp_all
  show ?thesis
  proof (cases "find (\<lambda>i. ?P (buf_at s i)) L")
    case (Some i)
    then have i: "caches (bc s) i b" using L D(2) by (auto simp: caches_def dest!: find_mem)
    have nh: "\<not> held s i" using opened_ran [OF inv i] b by blast
    then have "bget 1 b s = Ok i (take_buf i (\<lambda>x. x\<lparr>b_refcnt := b_refcnt x + 1\<rparr>) s)"
      unfolding bget_def using c q sn Some al by (simp add: acquire_eq release_eq Let_def)
    then show ?thesis using i nh by blast
  next
    case None
    then have nc: "\<not> caches (bc s) j b" for j using L D(2) by (auto simp: find_None_iff caches_def)
    have "find (\<lambda>i. ?Q (buf_at s i)) (rev L) \<noteq> None"
      using r nc L D(4) by (auto simp: find_None_iff buf_ok_def dirty_def)
    then obtain i where i: "find (\<lambda>i. ?Q (buf_at s i)) (rev L) = Some i" by blast
    have i': "i < NBUF" "?Q (buf_at s i)" using find_mem [OF i] L by simp_all
    then have nh: "\<not> held s i" using D(4) [of i] by (auto simp: buf_ok_def)
    then have "bget 1 b s = Ok i (take_buf i (\<lambda>x. x\<lparr>b_dev := 1, b_blockno := b, b_flags := 0, b_refcnt := 1\<rparr>) s)"
      unfolding bget_def using c q sn sp None i al by (simp add: acquire_eq release_eq Let_def)
    then show ?thesis using i' nh nc by (auto simp: dirty_def)
  qed
qed

text \<open>Without a buffer to recycle, \<open>bget\<close> panics.\<close>

lemma bget_full:
  assumes inv: "cache_inv s" and n: "\<And>i. \<not> caches (bc s) i b" "\<And>i. i < NBUF \<Longrightarrow> held s i \<or> dirty (buf_at s i)"
  shows "bget 1 b s = Panic ''bget: no buffers''"
proof -
  note D = cache_invD [OF inv]
  let ?h = "hold Lbcache s"
  let ?P = "\<lambda>x. b_dev x = 1 \<and> b_blockno x = b" and ?Q = "\<lambda>x. b_refcnt x = 0 \<and> b_flags x AND B_DIRTY = 0"
  obtain L where L: "set L = {..<NBUF}"
    and sn: "scan_next (NBUF + 1) ?P (head_next (bc ?h)) ?h = Ok (find (\<lambda>i. ?P (buf_at s i)) L) ?h"
    and sp: "scan_prev (NBUF + 1) ?Q (head_prev (bc ?h)) ?h = Ok (find (\<lambda>i. ?Q (buf_at s i)) (rev L)) ?h"
    using bget_scans [OF inv] .
  have 1: "find (\<lambda>i. ?P (buf_at s i)) L = None" using n(1) L D(2) by (auto simp: find_None_iff caches_def)
  have "\<not> ?Q (buf_at s i)" if "i < NBUF" for i using n(2) [OF that] D(4) [OF that] by (auto simp: buf_ok_def dirty_def)
  then have 2: "find (\<lambda>i. ?Q (buf_at s i)) (rev L) = None" using L by (auto simp: find_None_iff)
  show ?thesis unfolding bget_def using D(1) sn sp 1 2 by (simp add: cache_ready_def acquire_eq)
qed

lemma bread_spec:
  assumes inv: "cache_inv s" and n: "b < disksize (bc s)" and b: "b \<notin> ran (opened s)"
    and r: "(\<exists>i. caches (bc s) i b) \<or> (\<exists>i < NBUF. \<not> held s i \<and> \<not> dirty (buf_at s i))"
  obtains i s' where "bread 1 b s = Ok i s'" "cache_inv s'" "opened s i = None" "opened s' = (opened s)(i \<mapsto> b)"
    "cview (bc s') = cview (bc s)" "pinned (bc s') = pinned (bc s)" "disk (bc s') = disk (bc s)" "disksize (bc s') = disksize (bc s)"
    "dk_hist (bc s') = dk_hist (bc s)" "only_bc s s'" "b_data (buf_at s' i) = cview (bc s) b"
proof -
  note D = cache_invD [OF inv] and goal = that
  have fin: thesis if i: "i < NBUF" "\<not> held s i" and e: "bread 1 b s = Ok i (take_buf i f s)"
    and f: "b_next (f (buf_at s i)) = b_next (buf_at s i)" "b_prev (f (buf_at s i)) = b_prev (buf_at s i)" "b_dev (f (buf_at s i)) = 1"
      "b_blockno (f (buf_at s i)) = b" "b_refcnt (f (buf_at s i)) = 1" "valid (f (buf_at s i))" "b_data (f (buf_at s i)) = cview (bc s) b"
    and h: "caches (bc s) i b \<or> (\<forall>j. \<not> caches (bc s) j b)" "dirty (f (buf_at s i)) = dirty (buf_at s i)"
      "dirty (buf_at s i) \<longrightarrow> caches (bc s) i b" for i f
  proof -
    note t = take_buf_inv [where f = f, OF inv i n f h]
    show ?thesis using goal [OF e t(1,6,2,3,4)] t(5) i(1) D(2) f(7) by simp
  qed
  from bget_lru [OF inv r b] show ?thesis
  proof (elim disjE exE conjE)
    fix i let ?f = "\<lambda>x. x\<lparr>b_refcnt := b_refcnt x + 1\<rparr>"
    assume c: "caches (bc s) i b" and nh: "\<not> held s i" and g: "bget 1 b s = Ok i (take_buf i ?f s)"
    note h = D(7) [OF c]
    have i: "i < length (bufs (bc s))" using c by (simp add: caches_def)
    have "bread 1 b s = Ok i (take_buf i ?f s)" using g h i by (simp add: bread_def valid_def)
    moreover have "b_refcnt (buf_at s i) = 0" using D(4) [of i] h nh by (simp add: buf_ok_def)
    ultimately show ?thesis using h nh c by (intro fin [of i ?f]) (auto simp: caches_def valid_def dirty_def)
  next
    fix i let ?f = "\<lambda>x. x\<lparr>b_dev := 1, b_blockno := b, b_flags := 0, b_refcnt := 1\<rparr>"
    let ?g = "\<lambda>x. x\<lparr>b_data := disk (bc s) (b_blockno x), b_flags := b_flags x OR B_VALID\<rparr>"
    assume i: "i < NBUF" and nc: "\<forall>j. \<not> caches (bc s) j b" and nh: "\<not> held s i" and nd: "\<not> dirty (buf_at s i)"
      and g: "bget 1 b s = Ok i (take_buf i ?f s)"
    have il: "i < length (bufs (bc s))" using i D(2) by simp
    have "iderw i (take_buf i ?f s) = Ok () (upd_buf i ?g (take_buf i ?f s))"
      using iderw_read [of "take_buf i ?f s" i] D(1) il n by (simp add: valid_def dirty_def) (simp add: take_buf_def)
    then have "bread 1 b s = Ok i (take_buf i (\<lambda>x. ?g (?f x)) s)"
      using g il by (simp add: bread_def upd_buf_take)
    moreover have "cview (bc s) b = disk (bc s) b" using nc by (intro cview_miss) blast
    ultimately show ?thesis using i nh nd nc by (intro fin [of i "\<lambda>x. ?g (?f x)"]) (auto simp: valid_def dirty_def)
  qed
qed

section \<open>Writing and pinning a block\<close>

lemma openedD:
  assumes "cache_inv s" "opened s i = Some b"
  shows "i < NBUF" "i < length (bufs (bc s))" "held s i" "caches (bc s) i b" "valid (buf_at s i)" "b_blockno (buf_at s i) = b"
    "b_dev (buf_at s i) = 1" "b_refcnt (buf_at s i) = 1" "b_data (buf_at s i) = cview (bc s) b" "b < disksize (bc s)"
    "length (b_data (buf_at s i)) = BSIZE"
proof -
  note D = cache_invD [OF assms(1)]
  show i: "i < NBUF" and h: "held s i" and b: "b_blockno (buf_at s i) = b"
    using assms(2) by (auto simp: opened_def split: if_splits)
  show l: "i < length (bufs (bc s))" using i D(2) by simp
  have o: "buf_ok (disk (bc s)) (disksize (bc s)) True (buf_at s i)" using D(4) [OF i] h by simp
  then show "valid (buf_at s i)" "b_refcnt (buf_at s i) = 1" "length (b_data (buf_at s i)) = BSIZE" and d: "b_dev (buf_at s i) = 1"
    by (auto simp: buf_ok_def)
  show c: "caches (bc s) i b" using l d b by (simp add: caches_def)
  show "b_data (buf_at s i) = cview (bc s) b" "b < disksize (bc s)" using D(7) [OF c] by simp_all
qed

text \<open>Changing a buffer that is held, and perhaps its block on disk with it.\<close>

definition set_buf :: "nat \<Rightarrow> (buf \<Rightarrow> buf) \<Rightarrow> (u32 \<Rightarrow> block) \<Rightarrow> (u32 \<times> block) list \<Rightarrow> 'a bst_scheme \<Rightarrow> 'a bst_scheme" where
  "set_buf i f d h s = upd_bc (\<lambda>c. c\<lparr>disk := d, dk_hist := h\<rparr>) (upd_buf i f s)"

lemma set_buf_simps [simp]:
  "held (set_buf i f d h s) = held s" "bufs (bc (set_buf i f d h s)) = (bufs (bc s))[i := f (buf_at s i)]"
  "disk (bc (set_buf i f d h s)) = d" "disksize (bc (set_buf i f d h s)) = disksize (bc s)" "dk_hist (bc (set_buf i f d h s)) = h"
  "quiet (set_buf i f d h s) = quiet s" "curproc (set_buf i f d h s) = curproc s" "lk_free l (set_buf i f d h s) = lk_free l s"
  "procs (set_buf i f d h s) = procs s" "pid_of (set_buf i f d h s) = pid_of s" "sls (set_buf i f d h s) = sls s"
  "cache_ready (set_buf i f d h s) = cache_ready s"
  by (auto simp: set_buf_def held_def cache_ready_def)

lemma upd_buf_set: "upd_buf i f s = set_buf i f (disk (bc s)) (dk_hist (bc s)) s"
  by (simp add: set_buf_def upd_bc_def upd_buf_def)

lemma set_buf_inv:
  assumes inv: "cache_inv s" and o: "opened s i = Some b"
    and f: "b_next (f (buf_at s i)) = b_next (buf_at s i)" "b_prev (f (buf_at s i)) = b_prev (buf_at s i)" "b_dev (f (buf_at s i)) = 1"
      "b_blockno (f (buf_at s i)) = b" "b_refcnt (f (buf_at s i)) = 1" "valid (f (buf_at s i))" "length (b_data (f (buf_at s i))) = BSIZE"
    and d: "\<And>a. a \<noteq> b \<Longrightarrow> d a = disk (bc s) a" "length (d b) = BSIZE"
  shows "cache_inv (set_buf i f d h s)" "opened (set_buf i f d h s) = opened s"
    "cview (bc (set_buf i f d h s)) = (cview (bc s))(b := b_data (f (buf_at s i)))"
    "pinned (bc (set_buf i f d h s)) = (if dirty (f (buf_at s i)) then insert b (pinned (bc s)) else pinned (bc s) - {b})"
    "only_bc s (set_buf i f d h s)"
proof -
  let ?s = "set_buf i f d h s"
  note D = cache_invD [OF inv] and O = openedD [OF inv o]
  have c: "caches (bc ?s) j a = caches (bc s) j a" for j a
    using O f(3,4) by (auto simp: caches_def nth_list_update)
  have "buf_ok d (disksize (bc s)) True (f (buf_at s i))" using f O(10) by (simp add: buf_ok_def)
  moreover have "buf_ok d (disksize (bc s)) (held s j) (buf_at s j)" if "j < NBUF" "j \<noteq> i" for j
  proof (cases "b_dev (buf_at s j) = 1 \<and> b_blockno (buf_at s j) = b")
    case True
    then have "caches (bc s) j b" using that D(2) by (simp add: caches_def)
    then show ?thesis using D(6) O(4) that by blast
  next
    case False
    then show ?thesis using D(4) [OF that(1)] d(1) [of "b_blockno (buf_at s j)"] by (auto simp: buf_ok_def)
  qed
  ultimately have ok: "buf_ok (disk (bc ?s)) (disksize (bc ?s)) (held ?s j) (buf_at ?s j)" if "j < NBUF" for j
    using that O(2,3) by (cases "j = i") simp_all
  have "cnext (bc ?s) = cnext (bc s)" "cprev (bc ?s) = cprev (bc s)"
    using O(2) f(1,2) by (auto simp: cnext_def cprev_def fun_eq_iff nth_list_update set_buf_def split: option.split)
  then have rg: "\<exists>L. set L = {..<NBUF} \<and> ring (cnext (bc ?s)) (cprev (bc ?s)) L" using inv by (simp add: cache_inv_def)
  have "length (d a) = BSIZE" for a using d D(3) by (cases "a = b") auto
  then show inv': "cache_inv ?s" unfolding cache_inv_def c using D(1,2,5,6) ok rg by simp
  show "opened ?s = opened s" using O f(4) D(2) by (auto simp: opened_def fun_eq_iff nth_list_update)
  show "only_bc s ?s" unfolding set_buf_def using only_bc_trans only_bc_upd by blast
  show "pinned (bc ?s) = (if dirty (f (buf_at s i)) then insert b (pinned (bc s)) else pinned (bc s) - {b})"
  proof -
    have "(\<exists>j. caches (bc ?s) j a \<and> dirty (buf_at ?s j)) = (if a = b then dirty (f (buf_at s i)) else a \<in> pinned (bc s))" for a
    proof (cases "a = b")
      case True
      then have "caches (bc s) j a \<longleftrightarrow> j = i" for j using O(4) D(6) by blast
      then show ?thesis using True O(2) unfolding c by simp
    next
      case False
      then have "\<not> caches (bc s) i a" using O(4) by (auto simp: caches_def)
      then have "caches (bc s) j a \<Longrightarrow> buf_at ?s j = buf_at s j" for j by (cases "j = i") auto
      then show ?thesis using False unfolding c pinned_def by (auto simp del: set_buf_simps)
    qed
    then show ?thesis unfolding pinned_def [of "bc ?s"] by auto
  qed
  show "cview (bc ?s) = (cview (bc s))(b := b_data (f (buf_at s i)))"
  proof
    fix a
    show "cview (bc ?s) a = ((cview (bc s))(b := b_data (f (buf_at s i)))) a"
    proof (cases "\<exists>j. caches (bc s) j a")
      case True
      then obtain j where j: "caches (bc s) j a" by blast
      then have "caches (bc ?s) j a" unfolding c .
      note h = cache_invD(7) [OF inv' this]
      show ?thesis
      proof (cases "a = b")
        case True
        then have "j = i" using j O(4) D(6) by blast
        then show ?thesis using h True O(2) by simp
      next
        case False
        then have "j \<noteq> i" using j O(4) by (auto simp: caches_def)
        then show ?thesis using h False D(7) [OF j] by simp
      qed
    next
      case False
      then have "a \<noteq> b" "cview (bc ?s) a = d a" "cview (bc s) a = disk (bc s) a"
        using O(4) cview_miss [of "bc ?s" a] cview_miss [of "bc s" a] unfolding c by auto
      then show ?thesis using d(1) by simp
    qed
  qed
qed


lemma flag_bits:
  fixes w :: u32
  shows "(w OR B_DIRTY) AND B_VALID = w AND B_VALID" "(w OR B_DIRTY) AND B_DIRTY = B_DIRTY"
    "((w OR B_DIRTY) AND NOT B_DIRTY OR B_VALID) AND B_VALID = B_VALID" "((w OR B_DIRTY) AND NOT B_DIRTY OR B_VALID) AND B_DIRTY = 0"
    "(w OR B_DIRTY) AND (B_VALID OR B_DIRTY) \<noteq> B_VALID"
proof -
  show "(w OR B_DIRTY) AND B_VALID = w AND B_VALID" "((w OR B_DIRTY) AND NOT B_DIRTY OR B_VALID) AND B_DIRTY = 0"
    by (simp_all add: word_ao_dist and.assoc)
  show d: "(w OR B_DIRTY) AND B_DIRTY = B_DIRTY" and "((w OR B_DIRTY) AND NOT B_DIRTY OR B_VALID) AND B_VALID = B_VALID"
    by (simp_all only: word_ao_absorbs)
  show "(w OR B_DIRTY) AND (B_VALID OR B_DIRTY) \<noteq> B_VALID"
  proof
    assume "(w OR B_DIRTY) AND (B_VALID OR B_DIRTY) = B_VALID"
    then have "((w OR B_DIRTY) AND (B_VALID OR B_DIRTY)) AND B_DIRTY = B_VALID AND B_DIRTY" by simp
    then show False using d by (simp add: and.assoc)
  qed
qed

lemma set_data_spec:
  assumes "cache_inv s" "opened s i = Some b" "length d = BSIZE"
  shows "cache_inv (upd_buf i (\<lambda>x. x\<lparr>b_data := d\<rparr>) s)" "opened (upd_buf i (\<lambda>x. x\<lparr>b_data := d\<rparr>) s) = opened s"
    "cview (bc (upd_buf i (\<lambda>x. x\<lparr>b_data := d\<rparr>) s)) = (cview (bc s))(b := d)"
    "pinned (bc (upd_buf i (\<lambda>x. x\<lparr>b_data := d\<rparr>) s)) = pinned (bc s)"
proof -
  let ?f = "\<lambda>x. x\<lparr>b_data := d\<rparr>"
  note O = openedD [OF assms(1,2)]
  note S = set_buf_inv [OF assms(1,2), of ?f "disk (bc s)" "dk_hist (bc s)", folded upd_buf_set]
  have v: "valid (?f (buf_at s i))" "dirty (?f (buf_at s i)) = dirty (buf_at s i)" using O(5) by (simp_all add: valid_def dirty_def)
  have l: "length (disk (bc s) b) = BSIZE" by (rule cache_invD(3) [OF assms(1)])
  show "cache_inv (upd_buf i ?f s)" "opened (upd_buf i ?f s) = opened s" "cview (bc (upd_buf i ?f s)) = (cview (bc s))(b := d)"
    using S(1-3) O v l assms(3) by simp_all
  have "pinned (bc (upd_buf i ?f s)) = (if dirty (buf_at s i) then insert b (pinned (bc s)) else pinned (bc s) - {b})"
    using S(4) O v l assms(3) by simp
  moreover have "caches (bc s) j b \<longleftrightarrow> j = i" for j using O(4) cache_invD(6) [OF assms(1)] by blast
  then have "dirty (buf_at s i) \<longleftrightarrow> b \<in> pinned (bc s)" by (simp add: pinned_def)
  ultimately show "pinned (bc (upd_buf i ?f s)) = pinned (bc s)" by auto
qed

lemma pin_spec:
  assumes "cache_inv s" "opened s i = Some b"
  shows "cache_inv (upd_buf i (\<lambda>x. x\<lparr>b_flags := b_flags x OR B_DIRTY\<rparr>) s)"
    "opened (upd_buf i (\<lambda>x. x\<lparr>b_flags := b_flags x OR B_DIRTY\<rparr>) s) = opened s"
    "cview (bc (upd_buf i (\<lambda>x. x\<lparr>b_flags := b_flags x OR B_DIRTY\<rparr>) s)) = cview (bc s)"
    "pinned (bc (upd_buf i (\<lambda>x. x\<lparr>b_flags := b_flags x OR B_DIRTY\<rparr>) s)) = insert b (pinned (bc s))"
proof -
  let ?f = "\<lambda>x. x\<lparr>b_flags := b_flags x OR B_DIRTY\<rparr>"
  note O = openedD [OF assms]
  note S = set_buf_inv [OF assms, of ?f "disk (bc s)" "dk_hist (bc s)", folded upd_buf_set]
  have v: "valid (?f (buf_at s i))" "dirty (?f (buf_at s i))"
    using O(5) flag_bits by (simp_all add: valid_def dirty_def)
  have l: "length (disk (bc s) b) = BSIZE" by (rule cache_invD(3) [OF assms(1)])
  show "cache_inv (upd_buf i ?f s)" "opened (upd_buf i ?f s) = opened s" "cview (bc (upd_buf i ?f s)) = cview (bc s)"
    "pinned (bc (upd_buf i ?f s)) = insert b (pinned (bc s))"
    using S(1-4) O v l by simp_all
qed

lemma bwrite_spec:
  assumes inv: "cache_inv s" and o: "opened s i = Some b"
  obtains s' where "bwrite i s = Ok () s'" "cache_inv s'" "opened s' = opened s" "cview (bc s') = cview (bc s)"
    "pinned (bc s') = pinned (bc s) - {b}" "disk (bc s') = (disk (bc s))(b := cview (bc s) b)" "disksize (bc s') = disksize (bc s)"
    "dk_hist (bc s') = dk_hist (bc s) @ [(b, cview (bc s) b)]" "only_bc s s'"
proof -
  note O = openedD [OF assms]
  obtain p where c: "quiet s" "lk_free (Lbufsleep i) s" "curproc s = Some p" and pid: "sl_pid (sls s (Lbufsleep i)) = pid_of s"
    using cache_invD(1,5) [OF inv] O by (auto simp: cache_ready_def)
  let ?g = "\<lambda>x. x\<lparr>b_flags := (b_flags x OR B_DIRTY) AND NOT B_DIRTY OR B_VALID\<rparr>"
  let ?d = "(disk (bc s))(b := cview (bc s) b)" let ?h = "dk_hist (bc s) @ [(b, cview (bc s) b)]"
  let ?u = "upd_buf i (\<lambda>x. x\<lparr>b_flags := b_flags x OR B_DIRTY\<rparr>) s"
  have hs: "holdingsleep (Lbufsleep i) s = Ok True s" "holdingsleep (Lbufsleep i) ?u = Ok True ?u"
    using holdingsleep_eq [OF c] holdingsleep_eq [of ?u "Lbufsleep i" p] c O(3) pid by (simp_all add: held_def)
  have "bwrite i s = iderw i ?u" using hs(1) by (simp add: bwrite_def)
  also have "\<dots> = Ok () (set_buf i ?g ?d ?h s)"
    unfolding iderw_def using hs(2) O flag_bits
    by (simp add: Let_def) (simp add: set_buf_def upd_buf_def upd_bc_def)
  finally have e: "bwrite i s = Ok () (set_buf i ?g ?d ?h s)" .
  have v: "valid (?g (buf_at s i))" "\<not> dirty (?g (buf_at s i))" using flag_bits by (simp_all add: valid_def dirty_def)
  note S = set_buf_inv [OF inv o, of ?g ?d ?h]
  have "cache_inv (set_buf i ?g ?d ?h s)" "opened (set_buf i ?g ?d ?h s) = opened s" "only_bc s (set_buf i ?g ?d ?h s)"
    "cview (bc (set_buf i ?g ?d ?h s)) = cview (bc s)" "pinned (bc (set_buf i ?g ?d ?h s)) = pinned (bc s) - {b}"
    using S O v by simp_all
  then show ?thesis using that [OF e] by simp
qed


section \<open>Releasing a block\<close>

lemma links_fields [simp]:
  "bc (set_next p q (unhold k s)) = bc (set_next p q s)" "bc (set_prev p q (unhold k s)) = bc (set_prev p q s)"
  "quiet (set_next p q s) = quiet s" "lk_held k (set_next p q s) = lk_held k s"
  "quiet (set_prev p q s) = quiet s" "lk_held k (set_prev p q s) = lk_held k s"
  by (cases p; simp add: set_next_def set_prev_def upd_buf_def)+

lemma move_front_lock [simp]:
  "quiet (move_front i s) = quiet s" "lk_held k (move_front i s) = lk_held k s"
  by (simp_all add: move_front_def link_front_def Let_def)

lemma unhold_links [simp]:
  "unhold k (set_next p q s) = set_next p q (unhold k s)" "unhold k (set_prev p q s) = set_prev p q (unhold k s)"
  by (cases p; simp add: set_next_def set_prev_def)+

lemma unhold_move_front [simp]: "unhold k (move_front i s) = move_front i (unhold k s)"
proof -
  have "unhold k (link_front i s) = link_front i (unhold k s)" for s :: "'a bst_scheme" by (simp add: link_front_def Let_def)
  then show ?thesis by (simp add: move_front_def Let_def)
qed

lemma relinked_fields:
  assumes "relinked s s'"
  shows "sls s' = sls s" "procs s' = procs s" "quiet s' = quiet s" "curproc s' = curproc s" "lk_free l s' = lk_free l s"
    "lk_held l s' = lk_held l s" "pid_of s' = pid_of s"
proof -
  have e: "s' = s\<lparr>bc := bc s'\<rparr>" using assms unfolding relinked_def by blast
  show "sls s' = sls s" "procs s' = procs s" "quiet s' = quiet s" "curproc s' = curproc s" "lk_free l s' = lk_free l s"
    "lk_held l s' = lk_held l s" by (rule trans [OF arg_cong [OF e]], simp)+
  then show "pid_of s' = pid_of s" by (simp add: pid_of_def split: option.split)
qed

lemma core_eq:
  assumes "core x = core y"
  shows "b_flags x = b_flags y" "b_dev x = b_dev y" "b_blockno x = b_blockno y" "b_refcnt x = b_refcnt y" "b_data x = b_data y"
    "valid x = valid y" "dirty x = dirty y" "buf_ok d n h x = buf_ok d n h y"
  using assms by (simp_all add: core_def valid_def dirty_def buf_ok_def)

lemma cview_cong:
  assumes "length (bufs c') = length (bufs c)" "disk c' = disk c"
    "\<And>j. j < length (bufs c) \<Longrightarrow> b_dev (bufs c' ! j) = b_dev (bufs c ! j) \<and> b_blockno (bufs c' ! j) = b_blockno (bufs c ! j) \<and>
      b_data (bufs c' ! j) = b_data (bufs c ! j) \<and> b_flags (bufs c' ! j) = b_flags (bufs c ! j)"
  shows "cview c' = cview c" "caches c' = caches c" "pinned c' = pinned c"
proof -
  have fm: "map_option b_data (find P xs) = map_option b_data (find P ys)"
    if "list_all2 (\<lambda>x y. P x = P y \<and> b_data x = b_data y) xs ys" for P xs ys
    using that by (induction rule: list_all2_induct) auto
  have "map_option b_data (find (\<lambda>x. b_dev x = 1 \<and> b_blockno x = b \<and> valid x) (bufs c')) =
      map_option b_data (find (\<lambda>x. b_dev x = 1 \<and> b_blockno x = b \<and> valid x) (bufs c))" for b
    using assms by (intro fm) (auto simp: list_all2_conv_all_nth valid_def)
  then show "cview c' = cview c"
    unfolding cview_def fun_eq_iff assms(2) by (metis (no_types, lifting) option.case_eq_if option.map_disc_iff option.map_sel)
  show c: "caches c' = caches c" using assms by (auto simp: caches_def fun_eq_iff)
  show "pinned c' = pinned c" unfolding pinned_def c using assms by (auto simp: caches_def dirty_def)
qed

definition give_back :: "nat \<Rightarrow> 'a bst_scheme \<Rightarrow> 'a bst_scheme" where
  "give_back i s = upd_buf i (\<lambda>x. x\<lparr>b_refcnt := b_refcnt x - 1\<rparr>)
     (wakeup1 (Csleep (Lbufsleep i)) (upd_sl (Lbufsleep i) (\<lambda>k. k\<lparr>sl_locked := 0, sl_pid := 0\<rparr>) s))"

lemma brelse_eq:
  assumes inv: "cache_inv s" and o: "opened s i = Some b"
  shows "brelse i s = Ok () (move_front i (give_back i s))"
proof -
  note O = openedD [OF assms]
  obtain p where c: "quiet s" "\<And>i. lk_free (Lbufsleep i) s" "lk_free Lbcache s" "lk_free Lptable s" "curproc s = Some p"
    and pid: "sl_pid (sls s (Lbufsleep i)) = pid_of s"
    using cache_invD(1,5) [OF inv] O by (auto simp: cache_ready_def)
  let ?t = "wakeup1 (Csleep (Lbufsleep i)) (upd_sl (Lbufsleep i) (\<lambda>k. k\<lparr>sl_locked := 0, sl_pid := 0\<rparr>) s)"
  have "holdingsleep (Lbufsleep i) s = Ok True s" using holdingsleep_eq [OF c(1,2,5)] O(3) pid by (simp add: held_def)
  moreover have "releasesleep (Lbufsleep i) s = Ok () ?t" using releasesleep_eq [OF c(1,2,4)] by simp
  moreover have "b_refcnt (buf_at (give_back i s) i) = 0" using O by (simp add: give_back_def)
  ultimately show ?thesis
    unfolding brelse_def move_front_def [symmetric] using c O(2) by (simp add: Let_def acquire_eq release_eq give_back_def)
qed


lemma brelse_spec:
  assumes inv: "cache_inv s" and o: "opened s i = Some b" and w: "cview (bc s) b = disk (bc s) b \<or> b \<in> pinned (bc s)"
  obtains s' where "brelse i s = Ok () s'" "cache_inv s'" "opened s' = (opened s)(i := None)" "cview (bc s') = cview (bc s)"
    "pinned (bc s') = pinned (bc s)" "disk (bc s') = disk (bc s)" "disksize (bc s') = disksize (bc s)"
    "dk_hist (bc s') = dk_hist (bc s)" "only_bc s s'"
proof -
  note O = openedD [OF inv o] and D = cache_invD [OF inv]
  let ?t = "give_back i s"
  have t: "length (bufs (bc ?t)) = NBUF" "disk (bc ?t) = disk (bc s)" "disksize (bc ?t) = disksize (bc s)" "dk_hist (bc ?t) = dk_hist (bc s)"
    "buf_at ?t j = (if j = i then (buf_at s i)\<lparr>b_refcnt := b_refcnt (buf_at s i) - 1\<rparr> else buf_at s j)"
    "held ?t j \<longleftrightarrow> j \<noteq> i \<and> held s j" for j
    using D(2) O(2) by (auto simp: give_back_def held_def nth_list_update)
  have nx: "cnext (bc ?t) = cnext (bc s)" "cprev (bc ?t) = cprev (bc s)"
    using O(2) by (auto simp: cnext_def cprev_def fun_eq_iff nth_list_update give_back_def split: option.split)
  obtain L where L: "set L = {..<NBUF}" "ring (cnext (bc s)) (cprev (bc s)) L" using inv by (auto simp: cache_inv_def)
  then obtain xs ys where xy: "L = xs @ i # ys" using O(1) by (metis lessThan_iff split_list)
  have rt: "ring (cnext (bc ?t)) (cprev (bc ?t)) (xs @ i # ys)" using L(2) nx xy by simp
  have lt: "\<forall>j\<in>set (xs @ i # ys). j < length (bufs (bc ?t))" using L(1) xy t(1) by simp
  define u where "u = move_front i ?t"
  note m = move_front_ring [OF rt lt, folded u_def]
  note rf = relinked_fields [OF m(2)]
  have u: "length (bufs (bc u)) = NBUF" "disk (bc u) = disk (bc s)" "disksize (bc u) = disksize (bc s)" "dk_hist (bc u) = dk_hist (bc s)"
    and cu: "core (buf_at u j) = core (buf_at ?t j)" for j
    using m(2) t by (auto simp: relinked_def)
  have hu: "held u j \<longleftrightarrow> j \<noteq> i \<and> held s j" for j using rf(1) t(6) by (simp add: held_def)
  have pr: "curproc s = Some p \<Longrightarrow> p < length (procs s)" for p using D(1) by (auto simp: cache_ready_def)
  have pu: "pid_of u = pid_of s" using rf(7) pr by (simp add: give_back_def)
  have c: "cview (bc u) = cview (bc s)" "caches (bc u) = caches (bc s)" "pinned (bc u) = pinned (bc s)"
    using cview_cong [of "bc u" "bc s"] u D(2) core_eq [OF cu] t(5) by simp_all
  have b: "b_refcnt (buf_at s i) - 1 = 0" using O(8) by simp
  have "b_data (buf_at s i) = disk (bc s) b" if "\<not> dirty (buf_at s i)"
  proof -
    have "caches (bc s) j b \<longleftrightarrow> j = i" for j using O(4) D(6) by blast
    then have "b \<notin> pinned (bc s)" using that by (simp add: pinned_def)
    then show ?thesis using w O(9) by simp
  qed
  then have "buf_ok (disk (bc s)) (disksize (bc s)) False (buf_at ?t i)"
    using O b by (simp add: t(5) buf_ok_def valid_def dirty_def)
  moreover have "buf_ok (disk (bc s)) (disksize (bc s)) (held s j) (buf_at ?t j)" if "j < NBUF" "j \<noteq> i" for j
    using D(4) [OF that(1)] that(2) by (simp add: t(5))
  ultimately have ok: "buf_ok (disk (bc u)) (disksize (bc u)) (held u j) (buf_at u j)" if "j < NBUF" for j
    using that by (cases "j = i") (simp_all add: u core_eq(8) [OF cu] hu)
  have rd: "cache_ready u" using D(1) rf by (auto simp: cache_ready_def give_back_def)
  have pd: "sl_pid (sls u (Lbufsleep j)) = pid_of u" if "j < NBUF" "held u j" for j
    using that D(5) [of j] pu rf(1) by (simp add: hu give_back_def)
  have "set (i # xs @ ys) = {..<NBUF}" using L(1) xy by auto
  then have "\<exists>L. set L = {..<NBUF} \<and> ring (cnext (bc u)) (cprev (bc u)) L" using m(1) by blast
  then have "cache_inv u" unfolding cache_inv_def c(2) using rd u D(3,6) ok pd by auto
  moreover have "opened u = (opened s)(i := None)"
    using core_eq(3) [OF cu] by (auto simp: opened_def hu t(5) fun_eq_iff)
  moreover have "only_bc s ?t"
    unfolding give_back_def by (rule only_bc_trans [OF only_bc_trans [OF only_bc_upd(2) only_bc_upd(4)] only_bc_upd(1)])
  then have "only_bc s u" using only_bc_relinked [OF m(2)] by (rule only_bc_trans)
  ultimately show ?thesis using that [of u] brelse_eq [OF inv o] u c by (simp add: u_def)
qed

end
