(* ===== verification/Blockio.thy ===== *)
theory Blockio
  imports Cache
begin

unbundle bit_operations_syntax

text \<open>
  The buffer cache as a store of blocks: a locale with the laws of reading, changing, writing and
  releasing a block, its interpretation on the operations of kernel/bio.c, and the lemmas on
  copying blocks that the log is built on.
\<close>

section \<open>The contract of the cache\<close>

text \<open>
  What a user of the cache sees: the contents of every block (\<open>va\<close>), what the disk has (\<open>dk\<close>), the
  blocks that must stay in memory (\<open>pn\<close>), the buffers in use and their blocks (\<open>op\<close>), the sequence
  of disk writes (\<open>hi\<close>) and the size of the disk (\<open>sz\<close>).
\<close>

record cab =
  va :: "u32 \<Rightarrow> block"
  dk :: "u32 \<Rightarrow> block"
  pn :: "u32 set"
  op :: "nat \<Rightarrow> u32 option"
  hi :: "(u32 \<times> block) list"
  sz :: u32

definition cabs :: "'a bst_scheme \<Rightarrow> cab" where
  "cabs s = \<lparr>va = cview (bc s), dk = disk (bc s), pn = pinned (bc s), op = opened s, hi = dk_hist (bc s), sz = disksize (bc s)\<rparr>"

text \<open>Giving block \<open>b\<close> new contents, and copying block \<open>a\<close> to block \<open>b\<close>, both on disk and in memory.\<close>

definition rewritten :: "u32 \<Rightarrow> block \<Rightarrow> cab \<Rightarrow> cab" where
  "rewritten b d A = A\<lparr>va := (va A)(b := d), dk := (dk A)(b := d), hi := hi A @ [(b, d)], pn := pn A - {b}\<rparr>"

definition copied :: "u32 \<Rightarrow> u32 \<Rightarrow> cab \<Rightarrow> cab" where
  "copied a b A = rewritten b (va A a) A"

locale block_cache =
  fixes inv :: "'s \<Rightarrow> bool" and abs :: "'s \<Rightarrow> cab" and frame :: "'s \<Rightarrow> 's \<Rightarrow> bool" and dat :: "'s \<Rightarrow> nat \<Rightarrow> block"
    and rd :: "u32 \<Rightarrow> 's \<Rightarrow> ('s, nat) res" and wr :: "nat \<Rightarrow> 's \<Rightarrow> ('s, unit) res" and rel :: "nat \<Rightarrow> 's \<Rightarrow> ('s, unit) res"
    and setd :: "nat \<Rightarrow> block \<Rightarrow> 's \<Rightarrow> 's"
  assumes l_read: "inv s \<Longrightarrow> b < sz (abs s) \<Longrightarrow> b \<notin> ran (op (abs s)) \<Longrightarrow> b \<in> pn (abs s) \<or> card (pn (abs s) \<union> ran (op (abs s))) < NBUF \<Longrightarrow>
      \<exists>i s'. rd b s = Ok i s' \<and> inv s' \<and> frame s s' \<and> op (abs s) i = None \<and> abs s' = (abs s)\<lparr>op := (op (abs s))(i \<mapsto> b)\<rparr>"
    and l_data: "inv s \<Longrightarrow> op (abs s) i = Some b \<Longrightarrow> dat s i = va (abs s) b \<and> length (va (abs s) b) = BSIZE"
    and l_clean: "inv s \<Longrightarrow> b \<notin> pn (abs s) \<Longrightarrow> b \<notin> ran (op (abs s)) \<Longrightarrow> va (abs s) b = dk (abs s) b"
    and l_set: "inv s \<Longrightarrow> op (abs s) i = Some b \<Longrightarrow> length d = BSIZE \<Longrightarrow>
      inv (setd i d s) \<and> frame s (setd i d s) \<and> abs (setd i d s) = (abs s)\<lparr>va := (va (abs s))(b := d)\<rparr>"
    and l_write: "inv s \<Longrightarrow> op (abs s) i = Some b \<Longrightarrow> \<exists>s'. wr i s = Ok () s' \<and> inv s' \<and> frame s s' \<and>
      abs s' = (abs s)\<lparr>dk := (dk (abs s))(b := va (abs s) b), hi := hi (abs s) @ [(b, va (abs s) b)], pn := pn (abs s) - {b}\<rparr>"
    and l_release: "inv s \<Longrightarrow> op (abs s) i = Some b \<Longrightarrow> va (abs s) b = dk (abs s) b \<or> b \<in> pn (abs s) \<Longrightarrow>
      \<exists>s'. rel i s = Ok () s' \<and> inv s' \<and> frame s s' \<and> abs s' = (abs s)\<lparr>op := (op (abs s))(i := None)\<rparr>"
    and frame_trans: "frame s t \<Longrightarrow> frame t u \<Longrightarrow> frame s u"
begin

lemma copy_tail:
  assumes inv: "inv s2" and A: "abs s2 = A\<lparr>op := [i \<mapsto> a, j \<mapsto> b]\<rparr>" "op A = Map.empty" "i \<noteq> j" "a \<noteq> b" "va A a = dk A a \<or> a \<in> pn A"
  shows "\<exists>s'. bind (wr j (setd j (dat s2 i) s2)) (\<lambda>_ s. bind (rel i s) (\<lambda>_ s. bind (rel j s) (\<lambda>_ s. k s))) = k s' \<and>
    inv s' \<and> frame s2 s' \<and> abs s' = copied a b A"
proof -
  have d: "dat s2 i = va A a" "length (va A a) = BSIZE" using l_data [OF inv, of i a] A(1,3) by simp_all
  let ?s3 = "setd j (dat s2 i) s2"
  have s3: "inv ?s3" "frame s2 ?s3" "abs ?s3 = A\<lparr>op := [i \<mapsto> a, j \<mapsto> b], va := (va A)(b := va A a)\<rparr>"
    using l_set [OF inv, of j b "dat s2 i"] d A(1) by simp_all
  obtain s4 where s4: "wr j ?s3 = Ok () s4" "inv s4" "frame ?s3 s4" "abs s4 = (copied a b A)\<lparr>op := [i \<mapsto> a, j \<mapsto> b]\<rparr>"
    using l_write [OF s3(1), of j b] s3(3) by (auto simp: copied_def rewritten_def)
  obtain s5 where s5: "rel i s4 = Ok () s5" "inv s5" "frame s4 s5" "abs s5 = (copied a b A)\<lparr>op := [j \<mapsto> b]\<rparr>"
    using l_release [OF s4(2), of i a] s4(4) A(3-5) by (auto simp: copied_def rewritten_def fun_upd_twist)
  obtain s6 where s6: "rel j s5 = Ok () s6" "inv s6" "frame s5 s6" "abs s6 = (copied a b A)\<lparr>op := Map.empty\<rparr>"
    using l_release [OF s5(2), of j b] s5(4) by (auto simp: copied_def rewritten_def)
  have "frame s2 s6" using s3(2) s4(3) s5(3) s6(3) frame_trans by blast
  moreover have "abs s6 = copied a b A" using s6(4) A(2) by (simp add: copied_def rewritten_def)
  ultimately show ?thesis using s4(1) s5(1) s6(1,2) by auto
qed

lemma copy_src_first:
  assumes inv: "inv s" and o: "op (abs s) = Map.empty" and a: "a < sz (abs s)" "a \<in> pn (abs s) \<or> card (pn (abs s)) < NBUF"
    and b: "b < sz (abs s)" "a \<noteq> b" "b \<in> pn (abs s) \<or> card (insert a (pn (abs s))) < NBUF"
    and R: "\<And>t. frame s t \<Longrightarrow> R t = rd b t"
  shows "\<exists>s'. bind (rd a s) (\<lambda>i s. bind (R s) (\<lambda>j s. bind (wr j (setd j (dat s i) s)) (\<lambda>_ s.
      bind (rel i s) (\<lambda>_ s. bind (rel j s) (\<lambda>_ s. k s))))) = k s' \<and> inv s' \<and> frame s s' \<and> abs s' = copied a b (abs s)"
proof -
  obtain i s1 where s1: "rd a s = Ok i s1" "inv s1" "frame s s1" "abs s1 = (abs s)\<lparr>op := [i \<mapsto> a]\<rparr>"
    using l_read [OF inv a(1)] a(2) o by auto
  obtain j s2 where s2: "rd b s1 = Ok j s2" "inv s2" "frame s1 s2" "i \<noteq> j" "abs s2 = (abs s)\<lparr>op := [i \<mapsto> a, j \<mapsto> b]\<rparr>"
    using l_read [OF s1(2), of b] b s1(4) by (auto split: if_splits)
  have c: "va (abs s) a = dk (abs s) a \<or> a \<in> pn (abs s)" using l_clean [OF inv, of a] o by auto
  have f: "frame s s2" using s1(3) s2(3) by (rule frame_trans)
  obtain s3 where s3: "bind (wr j (setd j (dat s2 i) s2)) (\<lambda>_ s. bind (rel i s) (\<lambda>_ s. bind (rel j s) (\<lambda>_ s. k s))) = k s3"
    "inv s3" "frame s2 s3" "abs s3 = copied a b (abs s)" using copy_tail [OF s2(2,5) o s2(4) b(2) c, of k] by blast
  show ?thesis using s3 frame_trans [OF f s3(3)] s1(1) s2(1) R [OF s1(3)] by (intro exI [of _ s3]) simp
qed

lemma copy_dst_first:
  assumes inv: "inv s" and o: "op (abs s) = Map.empty" and b: "b < sz (abs s)" "b \<in> pn (abs s) \<or> card (pn (abs s)) < NBUF"
    and a: "a < sz (abs s)" "a \<noteq> b" "a \<in> pn (abs s) \<or> card (insert b (pn (abs s))) < NBUF"
    and R: "\<And>t. frame s t \<Longrightarrow> R t = rd a t"
  shows "\<exists>s'. bind (rd b s) (\<lambda>j s. bind (R s) (\<lambda>i s. bind (wr j (setd j (dat s i) s)) (\<lambda>_ s.
      bind (rel i s) (\<lambda>_ s. bind (rel j s) (\<lambda>_ s. k s))))) = k s' \<and> inv s' \<and> frame s s' \<and> abs s' = copied a b (abs s)"
proof -
  obtain j s1 where s1: "rd b s = Ok j s1" "inv s1" "frame s s1" "abs s1 = (abs s)\<lparr>op := [j \<mapsto> b]\<rparr>"
    using l_read [OF inv b(1)] b(2) o by auto
  obtain i s2 where s2: "rd a s1 = Ok i s2" "inv s2" "frame s1 s2" "i \<noteq> j" "abs s2 = (abs s)\<lparr>op := [i \<mapsto> a, j \<mapsto> b]\<rparr>"
    using l_read [OF s1(2), of a] a s1(4) by (auto split: if_splits simp: fun_upd_twist)
  have c: "va (abs s) a = dk (abs s) a \<or> a \<in> pn (abs s)" using l_clean [OF inv, of a] o by auto
  have f: "frame s s2" using s1(3) s2(3) by (rule frame_trans)
  obtain s3 where s3: "bind (wr j (setd j (dat s2 i) s2)) (\<lambda>_ s. bind (rel i s) (\<lambda>_ s. bind (rel j s) (\<lambda>_ s. k s))) = k s3"
    "inv s3" "frame s2 s3" "abs s3 = copied a b (abs s)" using copy_tail [OF s2(2,5) o s2(4) a(2) c, of k] by blast
  show ?thesis using s3 frame_trans [OF f s3(3)] s1(1) s2(1) R [OF s1(3)] by (intro exI [of _ s3]) simp
qed

text \<open>Changing the contents of one block, on disk as well.\<close>

lemma rewrite_block:
  assumes inv: "inv s" and o: "op (abs s) = Map.empty" and b: "b < sz (abs s)" "b \<in> pn (abs s) \<or> card (pn (abs s)) < NBUF"
    and F: "\<And>d. length d = BSIZE \<Longrightarrow> length (F d) = BSIZE"
  shows "\<exists>s'. bind (rd b s) (\<lambda>i s. bind (wr i (setd i (F (dat s i)) s)) (\<lambda>_ s. rel i s)) = Ok () s' \<and> inv s' \<and> frame s s' \<and>
    abs s' = rewritten b (F (va (abs s) b)) (abs s)"
proof -
  obtain i s1 where s1: "rd b s = Ok i s1" "inv s1" "frame s s1" "abs s1 = (abs s)\<lparr>op := [i \<mapsto> b]\<rparr>"
    using l_read [OF inv b(1)] b(2) o by auto
  have d: "dat s1 i = va (abs s) b" "length (F (dat s1 i)) = BSIZE" using l_data [OF s1(2), of i b] s1(4) F by simp_all
  let ?s2 = "setd i (F (dat s1 i)) s1"
  have s2: "inv ?s2" "frame s1 ?s2" "abs ?s2 = (abs s)\<lparr>op := [i \<mapsto> b], va := (va (abs s))(b := F (va (abs s) b))\<rparr>"
    using l_set [OF s1(2) _ d(2), of i b] d(1) s1(4) by simp_all
  obtain s3 where s3: "wr i ?s2 = Ok () s3" "inv s3" "frame ?s2 s3" "abs s3 = (rewritten b (F (va (abs s) b)) (abs s))\<lparr>op := [i \<mapsto> b]\<rparr>"
    using l_write [OF s2(1), of i b] s2(3) by (auto simp: rewritten_def)
  obtain s4 where s4: "rel i s3 = Ok () s4" "inv s4" "frame s3 s4" "abs s4 = (rewritten b (F (va (abs s) b)) (abs s))\<lparr>op := Map.empty\<rparr>"
    using l_release [OF s3(2), of i b] s3(4) by (auto simp: rewritten_def)
  have "frame s s4" using s1(3) s2(2) s3(3) s4(3) frame_trans by blast
  then show ?thesis using s1(1) s3(1) s4(1,2,4) o by (auto simp: rewritten_def)
qed

end


section \<open>kernel/bio.c keeps the contract\<close>

lemma room_free:
  assumes inv: "cache_inv s" and c: "card (pinned (bc s) \<union> ran (opened s)) < NBUF"
  shows "\<exists>i < NBUF. \<not> held s i \<and> \<not> dirty (buf_at s i)"
proof (rule ccontr)
  assume "\<not> ?thesis"
  then have all: "held s i \<or> dirty (buf_at s i)" if "i < NBUF" for i using that by blast
  note D = cache_invD [OF inv]
  let ?b = "\<lambda>i. b_blockno (buf_at s i)"
  have ca: "caches (bc s) i (?b i)" if "i < NBUF" for i
    using all [OF that] D(4) [OF that] D(2) that by (auto simp: buf_ok_def caches_def)
  have "?b i \<in> pinned (bc s) \<union> ran (opened s)" if i: "i < NBUF" for i
    using all [OF i] ca [OF i] opened_ran [OF inv ca [OF i]] by (auto simp: pinned_def)
  then have "?b ` {..<NBUF} \<subseteq> pinned (bc s) \<union> ran (opened s)" by auto
  then have "card (?b ` {..<NBUF}) \<le> card (pinned (bc s) \<union> ran (opened s))" by (intro card_mono) auto
  moreover have "inj_on ?b {..<NBUF}"
  proof (rule inj_onI)
    fix i j assume "i \<in> {..<NBUF}" "j \<in> {..<NBUF}" "?b i = ?b j"
    then show "i = j" using D(6) [of i "?b i" j] ca [of i] ca [of j] by simp
  qed
  then have "card (?b ` {..<NBUF}) = NBUF" by (simp add: card_image)
  ultimately show False using c by simp
qed

interpretation bio: block_cache cache_inv cabs only_bc "\<lambda>s i. b_data (buf_at s i)" "bread 1" bwrite brelse
  "\<lambda>i d. upd_buf i (\<lambda>x. x\<lparr>b_data := d\<rparr>)"
proof
  fix s :: "'a bst_scheme" and b
  assume inv: "cache_inv s" and b: "b < sz (cabs s)" "b \<notin> ran (op (cabs s))"
    and r: "b \<in> pn (cabs s) \<or> card (pn (cabs s) \<union> ran (op (cabs s))) < NBUF"
  have b': "b < disksize (bc s)" "b \<notin> ran (opened s)" using b by (simp_all add: cabs_def)
  have "(\<exists>i. caches (bc s) i b) \<or> (\<exists>i < NBUF. \<not> held s i \<and> \<not> dirty (buf_at s i))"
    using r room_free [OF inv] by (auto simp: cabs_def pinned_def)
  then obtain i s' where "bread 1 b s = Ok i s'" "cache_inv s'" "opened s i = None" "opened s' = (opened s)(i \<mapsto> b)"
    "cview (bc s') = cview (bc s)" "pinned (bc s') = pinned (bc s)" "disk (bc s') = disk (bc s)" "disksize (bc s') = disksize (bc s)"
    "dk_hist (bc s') = dk_hist (bc s)" "only_bc s s'"
    by (rule bread_spec [OF inv b'])
  then show "\<exists>i s'. bread 1 b s = Ok i s' \<and> cache_inv s' \<and> only_bc s s' \<and> op (cabs s) i = None \<and>
      cabs s' = (cabs s)\<lparr>op := (op (cabs s))(i \<mapsto> b)\<rparr>"
    by (intro exI [of _ i] exI [of _ s']) (simp add: cabs_def)
next
  fix s :: "'a bst_scheme" and i b assume inv: "cache_inv s" and "op (cabs s) i = Some b"
  then have o: "opened s i = Some b" by (simp add: cabs_def)
  note O = openedD [OF inv o]
  show "b_data (buf_at s i) = va (cabs s) b \<and> length (va (cabs s) b) = BSIZE"
    using O(9,11) by (simp add: cabs_def)
  show "\<exists>s'. bwrite i s = Ok () s' \<and> cache_inv s' \<and> only_bc s s' \<and> cabs s' = (cabs s)\<lparr>dk := (dk (cabs s))(b := va (cabs s) b),
      hi := hi (cabs s) @ [(b, va (cabs s) b)], pn := pn (cabs s) - {b}\<rparr>"
    by (rule bwrite_spec [OF inv o]) (simp add: cabs_def)
  show "\<exists>s'. brelse i s = Ok () s' \<and> cache_inv s' \<and> only_bc s s' \<and> cabs s' = (cabs s)\<lparr>op := (op (cabs s))(i := None)\<rparr>"
    if "va (cabs s) b = dk (cabs s) b \<or> b \<in> pn (cabs s)"
  proof -
    have "cview (bc s) b = disk (bc s) b \<or> b \<in> pinned (bc s)" using that by (simp add: cabs_def)
    then show ?thesis by (rule brelse_spec [OF inv o]) (simp add: cabs_def)
  qed
  show "cache_inv (upd_buf i (\<lambda>x. x\<lparr>b_data := d\<rparr>) s) \<and> only_bc s (upd_buf i (\<lambda>x. x\<lparr>b_data := d\<rparr>) s) \<and>
      cabs (upd_buf i (\<lambda>x. x\<lparr>b_data := d\<rparr>) s) = (cabs s)\<lparr>va := (va (cabs s))(b := d)\<rparr>" if "length d = BSIZE" for d
    using set_data_spec [OF inv o that] only_bc_upd(1) by (simp add: cabs_def)
next
  fix s :: "'a bst_scheme" and b assume "cache_inv s" "b \<notin> pn (cabs s)" "b \<notin> ran (op (cabs s))"
  then show "va (cabs s) b = dk (cabs s) b" using cview_clean by (simp add: cabs_def)
qed (rule only_bc_trans)

end
