(* ===== verification/Diskfmt.thy ===== *)
theory Diskfmt
  imports Fsformat
begin

unbundle bit_operations_syntax

text \<open>
  The on-disk format of kernel/fs.h read back: what is stored in a block at some offset is what is
  loaded from there, and nothing else of the block changes.
\<close>

section \<open>Integers\<close>

lemma unat_byte: "unat (ucast (drop_bit k w) :: u8) = unat w div 2 ^ k mod 256" for w :: "'a::len word"
  by (simp only: unsigned_ucast_eq unsigned_drop_bit_eq) (simp add: take_bit_eq_mod drop_bit_eq_div)

lemma digits32: "(x::nat) mod 256 + x div 256 mod 256 * 256 + x div 65536 mod 256 * 65536 + x div 16777216 mod 256 * 16777216 =
  x mod 4294967296"
proof -
  have "x mod (256 * 16777216) = 256 * (x div 256 mod 16777216) + x mod 256" by (rule mod_mult2_eq)
  moreover have "x div 256 mod (256 * 65536) = 256 * (x div 256 div 256 mod 65536) + x div 256 mod 256" by (rule mod_mult2_eq)
  moreover have "x div 256 div 256 mod (256 * 256) = 256 * (x div 256 div 256 div 256 mod 256) + x div 256 div 256 mod 256"
    by (rule mod_mult2_eq)
  ultimately show ?thesis by (simp add: div_mult2_eq [symmetric])
qed

lemma get32_bytes32 [simp]: "get32 (bytes32 w) 0 = w"
proof -
  let ?b = "\<lambda>k. unat (ucast (drop_bit k w) :: u8)"
  have c: "ucast x = (of_nat (unat x) :: u32)" for x :: u8 by simp
  have "get32 (bytes32 w) 0 = of_nat (?b 0) + of_nat (?b 8) * 0x100 + of_nat (?b 16) * 0x10000 + of_nat (?b 24) * 0x1000000"
    unfolding get32_def bytes32_def c by (simp add: numeral_2_eq_2 numeral_3_eq_3)
  also have "\<dots> = of_nat (?b 0 + ?b 8 * 0x100 + ?b 16 * 0x10000 + ?b 24 * 0x1000000)" by simp
  also have "\<dots> = of_nat (unat w mod 4294967296)"
    using digits32 [of "unat w"] unfolding unat_byte by simp
  also have "\<dots> = w" using unsigned_less [of w, where ?'a = nat] by simp
  finally show ?thesis .
qed

lemma get16_bytes16 [simp]: "get16 (bytes16 w) 0 = w"
proof -
  let ?b = "\<lambda>k. unat (ucast (drop_bit k w) :: u8)"
  have c: "ucast x = (of_nat (unat x) :: u16)" for x :: u8 by simp
  have "get16 (bytes16 w) 0 = of_nat (?b 0) + of_nat (?b 8) * 0x100"
    unfolding get16_def bytes16_def c by simp
  also have "\<dots> = of_nat (?b 0 + ?b 8 * 0x100)" by simp
  also have "\<dots> = of_nat (unat w mod 65536)"
    using mod_mult2_eq [of "unat w" 256 256] unfolding unat_byte by (simp add: mult.commute add.commute)
  also have "\<dots> = w" using unsigned_less [of w, where ?'a = nat] by simp
  finally show ?thesis .
qed


text \<open>A field depends on its own bytes only.\<close>

lemma get32_cong:
  assumes "\<And>k. k < 4 \<Longrightarrow> bs ! (i + k) = cs ! (j + k)"
  shows "get32 bs i = get32 cs j"
  using assms [of 0] assms [of 1] assms [of 2] assms [of 3] by (simp add: get32_def)

lemma get16_cong:
  assumes "\<And>k. k < 2 \<Longrightarrow> bs ! (i + k) = cs ! (j + k)"
  shows "get16 bs i = get16 cs j"
  using assms [of 0] assms [of 1] by (simp add: get16_def)

lemma get32_put [simp]: "i + 4 \<le> length bs \<Longrightarrow> get32 (put bs i (bytes32 w)) i = w"
  using get32_cong [of "put bs i (bytes32 w)" i "bytes32 w" 0] by (simp add: nth_put)

lemma get32_put_other:
  assumes "i + length new \<le> length bs" "j + 4 \<le> length bs" "j + 4 \<le> i \<or> i + length new \<le> j"
  shows "get32 (put bs i new) j = get32 bs j"
  using assms by (intro get32_cong put_outside) auto

lemma get16_put_other:
  assumes "i + length new \<le> length bs" "j + 2 \<le> length bs" "j + 2 \<le> i \<or> i + length new \<le> j"
  shows "get16 (put bs i new) j = get16 bs j"
  using assms by (intro get16_cong put_outside) auto

section \<open>Inodes and directory entries\<close>

lemma get32_mid: "length xs = i \<Longrightarrow> get32 (xs @ bytes32 w @ ys) i = w"
  using get32_cong [of "xs @ bytes32 w @ ys" i "bytes32 w" 0] by (simp add: nth_append)

lemma get16_mid: "length xs = i \<Longrightarrow> get16 (xs @ bytes16 w @ ys) i = w"
  using get16_cong [of "xs @ bytes16 w @ ys" i "bytes16 w" 0] by (simp add: nth_append)

lemma length_words [simp]: "length (concat (map bytes32 ws)) = 4 * length ws"
  by (induction ws) auto

lemma get32_words:
  assumes "k < length ws" "length xs = i"
  shows "get32 (xs @ concat (map bytes32 ws) @ ys) (i + 4 * k) = ws ! k"
proof -
  have "ws = take k ws @ ws ! k # drop (Suc k) ws" using assms(1) by (rule id_take_nth_drop)
  then have "concat (map bytes32 ws) = concat (map bytes32 (take k ws)) @ bytes32 (ws ! k) @ concat (map bytes32 (drop (Suc k) ws))"
    by (metis concat.simps(2) concat_append list.simps(9) map_append)
  moreover have "length (xs @ concat (map bytes32 (take k ws))) = i + 4 * k" using assms by simp
  ultimately show ?thesis
    using get32_mid [of "xs @ concat (map bytes32 (take k ws))" "i + 4 * k" "ws ! k" "concat (map bytes32 (drop (Suc k) ws)) @ ys"]
    by (simp only: append_assoc)
qed

lemma length_dinode: "length (di_addrs d) = NDIRECT + 1 \<Longrightarrow> length (bytes_dinode d) = 64"
  by (simp add: bytes_dinode_def)

lemma get_dinode_cong:
  assumes "\<And>k. k < 64 \<Longrightarrow> bs ! (i + k) = cs ! (j + k)"
  shows "get_dinode bs i = get_dinode cs j"
proof -
  have a16: "get16 bs (i + a) = get16 cs (j + a)" if "a + 2 \<le> 64" for a
    using that assms by (intro get16_cong) (simp add: add.assoc)
  have a32: "get32 bs (i + a) = get32 cs (j + a)" if "a + 4 \<le> 64" for a
    using that assms by (intro get32_cong) (simp add: add.assoc)
  have "get32 bs (i + 12 + 4 * k) = get32 cs (j + 12 + 4 * k)" if "k < NDIRECT + 1" for k
    using a32 [of "12 + 4 * k"] that by (simp add: add.assoc)
  then have "map (\<lambda>k. get32 bs (i + 12 + 4 * k)) [0..<NDIRECT + 1] = map (\<lambda>k. get32 cs (j + 12 + 4 * k)) [0..<NDIRECT + 1]"
    by (intro map_cong) auto
  then show ?thesis
    using a16 [of 0] a16 [of 2] a16 [of 4] a16 [of 6] a32 [of 8] unfolding get_dinode_def by simp
qed

lemma get_bytes_dinode:
  assumes "length (di_addrs d) = NDIRECT + 1"
  shows "get_dinode (bytes_dinode d) 0 = d"
proof -
  have a: "map (\<lambda>k. get32 (bytes_dinode d) (0 + 12 + 4 * k)) [0..<NDIRECT + 1] = di_addrs d"
  proof (rule nth_equalityI)
    show "length (map (\<lambda>k. get32 (bytes_dinode d) (0 + 12 + 4 * k)) [0..<NDIRECT + 1]) = length (di_addrs d)" using assms by simp
    fix k assume "k < length (map (\<lambda>k. get32 (bytes_dinode d) (0 + 12 + 4 * k)) [0..<NDIRECT + 1])"
    then have k: "k < NDIRECT + 1" by simp
    then have "get32 (bytes_dinode d) (12 + 4 * k) = di_addrs d ! k"
      using get32_words [of k "di_addrs d" "bytes16 (di_type d) @ bytes16 (di_major d) @ bytes16 (di_minor d)
        @ bytes16 (di_nlink d) @ bytes32 (di_size d)" 12 "[]"] assms by (simp add: bytes_dinode_def)
    moreover have "map (\<lambda>k. get32 (bytes_dinode d) (0 + 12 + 4 * k)) [0..<NDIRECT + 1] ! k = get32 (bytes_dinode d) (12 + 4 * k)"
      using k by (subst nth_map) simp_all
    ultimately show "map (\<lambda>k. get32 (bytes_dinode d) (0 + 12 + 4 * k)) [0..<NDIRECT + 1] ! k = di_addrs d ! k" by simp
  qed
  have f: "get16 (bytes_dinode d) 0 = di_type d" "get16 (bytes_dinode d) 2 = di_major d" "get16 (bytes_dinode d) 4 = di_minor d"
    "get16 (bytes_dinode d) 6 = di_nlink d" "get32 (bytes_dinode d) 8 = di_size d"
    using get16_mid [of "[]" 0] get16_mid [of "bytes16 (di_type d)" 2]
      get16_mid [of "bytes16 (di_type d) @ bytes16 (di_major d)" 4]
      get16_mid [of "bytes16 (di_type d) @ bytes16 (di_major d) @ bytes16 (di_minor d)" 6]
      get32_mid [of "bytes16 (di_type d) @ bytes16 (di_major d) @ bytes16 (di_minor d) @ bytes16 (di_nlink d)" 8]
    by (simp_all add: bytes_dinode_def)
  show ?thesis unfolding get_dinode_def add_0 a [unfolded add_0] f by simp
qed



definition ex_dinode :: dinode where
  "ex_dinode = \<lparr>di_type = 2, di_major = 0, di_minor = 0, di_nlink = 1, di_size = 1000, di_addrs = 60 # 61 # replicate 11 0\<rparr>"

definition ex_dirent :: dirent where
  "ex_dirent = \<lparr>de_inum = 7, de_name = 46 # replicate 13 0\<rparr>"


end
