(* ===== verification/Crash.thy ===== *)
theory Crash
  imports Blockio Diskfmt Log
begin

unbundle bit_operations_syntax

text \<open>
  The redo log of kernel/log.c: what \<open>commit\<close> and \<open>recover_from_log\<close> do to the disk, and that a
  power failure at any write of a commit leaves a disk that recovery turns into the state before or
  after the transaction.
\<close>

section \<open>The log's place on disk\<close>

definition lstart :: "log \<Rightarrow> u32" where
  "lstart l = of_int (lg_start l)"

definition lblk :: "log \<Rightarrow> nat \<Rightarrow> u32" where
  "lblk l t = of_int (lg_start l + int t + 1)"

definition hblk :: "log \<Rightarrow> nat \<Rightarrow> u32" where
  "hblk l t = of_int (lh_block l ! t)"

definition lcount :: "log \<Rightarrow> nat" where
  "lcount l = nat (lh_n l)"

definition logset :: "log \<Rightarrow> u32 set" where
  "logset l = insert (lstart l) (lblk l ` {..<29})"

text \<open>
  \<open>log_ok l n z\<close>: the log lies on the disk of \<open>z\<close> blocks, and the \<open>n\<close> blocks in its header are
  different blocks of the disk outside the log.
\<close>

definition log_ok :: "log \<Rightarrow> nat \<Rightarrow> u32 \<Rightarrow> bool" where
  "log_ok l n z \<longleftrightarrow> lg_dev l = 1 \<and> length (lh_block l) = 30 \<and> 0 \<le> lg_start l \<and> lg_start l + 30 \<le> uint z \<and> n < NBUF \<and>
     (\<forall>t < n. hblk l t < z \<and> hblk l t \<notin> logset l) \<and> inj_on (hblk l) {..<n}"

lemma uint_small: "0 \<le> k \<Longrightarrow> k < uint z \<Longrightarrow> uint (of_int k :: u32) = k" for z :: u32
  using uint_lt2p [of z] by (simp add: uint_word_of_int)

lemma lblk_facts:
  assumes "log_ok l n z"
  shows "lstart l < z" "\<And>t. t < 29 \<Longrightarrow> lblk l t < z" "\<And>t. t < 29 \<Longrightarrow> lblk l t \<noteq> lstart l"
    "\<And>t u. t < 29 \<Longrightarrow> u < 29 \<Longrightarrow> lblk l t = lblk l u \<longleftrightarrow> t = u"
    "\<And>t u. t < n \<Longrightarrow> u < 29 \<Longrightarrow> hblk l t \<noteq> lblk l u" "\<And>t. t < n \<Longrightarrow> hblk l t \<noteq> lstart l"
proof -
  have s: "0 \<le> lg_start l" "lg_start l + 30 \<le> uint z" using assms by (simp_all add: log_ok_def)
  have u0: "uint (lstart l) = lg_start l" using uint_small [of "lg_start l" z] s by (simp add: lstart_def)
  have u: "uint (lblk l t) = lg_start l + int t + 1" if "t < 29" for t
    using uint_small [of "lg_start l + int t + 1" z] s that by (simp add: lblk_def)
  show "lstart l < z" using u0 s by (simp add: word_less_def)
  show "lblk l t < z" if "t < 29" for t using u [OF that] that s by (simp add: word_less_def)
  show "lblk l t \<noteq> lstart l" if "t < 29" for t using u [OF that] u0 by auto
  show "lblk l t = lblk l v \<longleftrightarrow> t = v" if "t < 29" "v < 29" for t v
  proof
    assume "lblk l t = lblk l v"
    then have "uint (lblk l t) = uint (lblk l v)" by simp
    then show "t = v" using u [OF that(1)] u [OF that(2)] by simp
  qed simp
  show "hblk l t \<noteq> lblk l v" if "t < n" "v < 29" for t v using assms that by (auto simp: log_ok_def logset_def)
  show "hblk l t \<noteq> lstart l" if "t < n" for t using assms that by (auto simp: log_ok_def logset_def)
qed

lemma lstart_fresh:
  assumes "log_ok l n z"
  shows "lstart l \<notin> lblk l ` {..<n}"
proof
  assume "lstart l \<in> lblk l ` {..<n}"
  then obtain t where t: "t < n" "lstart l = lblk l t" by blast
  then show False using lblk_facts(3) [OF assms, of t] assms by (simp add: log_ok_def)
qed

section \<open>The state of the log and of the cache\<close>

lemma only_bc_lg:
  assumes "only_bc s (s' :: 'a gst_scheme)"
  shows "lg s' = lg s"
proof -
  have "s' = s\<lparr>bc := bc s', sls := sls s', procs := procs s'\<rparr>" using assms unfolding only_bc_def by blast
  then show ?thesis by (rule trans [OF arg_cong]) simp
qed

lemma only_bc_locks: "only_bc s s' \<Longrightarrow> locks s' = locks s"
proof -
  assume "only_bc s s'"
  then have "s' = s\<lparr>bc := bc s', sls := sls s', procs := procs s'\<rparr>" unfolding only_bc_def by blast
  then show ?thesis by (rule trans [OF arg_cong]) simp
qed

lemma upd_lg_fields [simp]:
  "locks (upd_lg f s) = locks s"
  "bc (upd_lg f s) = bc s" "sls (upd_lg f s) = sls s" "procs (upd_lg f s) = procs s" "lg (upd_lg f s) = f (lg s)"
  "quiet (upd_lg f s) = quiet s" "curproc (upd_lg f s) = curproc s" "lk_free k (upd_lg f s) = lk_free k s"
  by (simp_all add: upd_lg_def)

lemma upd_lg_cache [simp]:
  "cache_inv (upd_lg f s) = cache_inv s" "cabs (upd_lg f s) = cabs s"
  by (simp_all add: cache_inv_def cache_ready_def cabs_def opened_def held_def pid_of_def fun_eq_iff cong: option.case_cong)


section \<open>Copying to the log and back\<close>

definition logged :: "log \<Rightarrow> nat list \<Rightarrow> cab \<Rightarrow> cab" where
  "logged l us A = fold (\<lambda>t. copied (hblk l t) (lblk l t)) us A"

definition installed :: "log \<Rightarrow> nat list \<Rightarrow> cab \<Rightarrow> cab" where
  "installed l us A = fold (\<lambda>t. copied (lblk l t) (hblk l t)) us A"

lemma copied_fields [simp]:
  "op (copied a b A) = op A" "sz (copied a b A) = sz A" "pn (copied a b A) = pn A - {b}"
  by (simp_all add: copied_def rewritten_def)

lemma homes_card:
  assumes "log_ok l n z" "P \<subseteq> hblk l ` {..<n}"
  shows "card P < NBUF"
proof -
  have "card P \<le> card (hblk l ` {..<n})" using assms(2) by (intro card_mono) auto
  also have "\<dots> \<le> n" using card_image_le [of "{..<n}" "hblk l"] by simp
  finally show ?thesis using assms(1) by (simp add: log_ok_def)
qed

lemma write_log_loop_spec:
  fixes s :: "'a gst_scheme"
  assumes "cache_inv s" "op (cabs s) = Map.empty" "log_ok (lg s) n (sz (cabs s))" "pn (cabs s) = hblk (lg s) ` {..<n}" "\<forall>t\<in>set us. t < n"
  shows "\<exists>s'. write_log_loop us s = Ok () s' \<and> cache_inv s' \<and> only_bc s s' \<and> cabs s' = logged (lg s) us (cabs s)"
  using assms
proof (induction us arbitrary: s)
  case Nil
  then show ?case by (auto simp: logged_def)
next
  case (Cons t us)
  let ?l = "lg s" let ?a = "hblk ?l t" and ?b = "lblk ?l t"
  note lf = lblk_facts [OF Cons.prems(3)]
  have n: "n < 30" "lg_dev ?l = 1" "length (lh_block ?l) = 30" "\<And>t. t < n \<Longrightarrow> hblk ?l t < sz (cabs s)"
    using Cons.prems(3) by (auto simp: log_ok_def)
  have t: "t < n" "t < 29" using Cons.prems(5) n(1) by auto
  let ?R = "\<lambda>u :: 'a gst_scheme. bread (of_int (lg_dev (lg u))) (of_int (lh_block (lg u) ! t)) u"
  have R: "?R u = bread 1 ?a u" if "only_bc s u" for u
    using only_bc_lg [OF that] n(2) by (simp add: hblk_def)
  have a: "?a \<in> pn (cabs s)" using Cons.prems(4) t(1) by simp
  obtain s1 where s1: "write_log_loop (t # us) s = write_log_loop us s1" "cache_inv s1" "only_bc s s1" "cabs s1 = copied ?a ?b (cabs s)"
    using bio.copy_dst_first [where R = ?R and a = ?a and b = ?b and k = "write_log_loop us", OF Cons.prems(1,2) lf(2) _ n(4) lf(5)]
      R a t n homes_card [OF Cons.prems(3), of "pn (cabs s)"] Cons.prems(4) by (auto simp: Let_def lblk_def)
  have lg1: "lg s1 = ?l" using only_bc_lg [OF s1(3)] .
  have nb: "?b \<notin> pn (cabs s)" using lf(5) [OF _ t(2)] unfolding Cons.prems(4) by (metis imageE lessThan_iff)
  obtain s' where "write_log_loop us s1 = Ok () s'" "cache_inv s'" "only_bc s1 s'" "cabs s' = logged ?l us (cabs s1)"
    using Cons.IH [of s1] s1 lg1 nb Cons.prems by auto
  then show ?case using s1 only_bc_trans [OF s1(3)] by (auto simp: logged_def)
qed

lemma install_trans_loop_spec:
  fixes s :: "'a gst_scheme"
  assumes "cache_inv s" "op (cabs s) = Map.empty" "log_ok (lg s) n (sz (cabs s))" "pn (cabs s) \<subseteq> hblk (lg s) ` {..<n}"
    "\<forall>t\<in>set us. t < n" "distinct us" "pn (cabs s) = {} \<or> (\<forall>t\<in>set us. hblk (lg s) t \<in> pn (cabs s))"
  shows "\<exists>s'. install_trans_loop us s = Ok () s' \<and> cache_inv s' \<and> only_bc s s' \<and> cabs s' = installed (lg s) us (cabs s)"
  using assms
proof (induction us arbitrary: s)
  case Nil
  then show ?case by (auto simp: installed_def)
next
  case (Cons t us)
  let ?l = "lg s" let ?b = "hblk ?l t" and ?a = "lblk ?l t"
  note lf = lblk_facts [OF Cons.prems(3)]
  have n: "n < 30" "lg_dev ?l = 1" "length (lh_block ?l) = 30" "\<And>t. t < n \<Longrightarrow> hblk ?l t < sz (cabs s)" "inj_on (hblk ?l) {..<n}"
    using Cons.prems(3) by (auto simp: log_ok_def)
  have t: "t < n" "t < 29" using Cons.prems(5) n(1) by auto
  let ?R = "\<lambda>u :: 'a gst_scheme. bread (of_int (lg_dev (lg u))) (of_int (lh_block (lg u) ! t)) u"
  have R: "?R u = bread 1 ?b u" if "only_bc s u" for u
    using only_bc_lg [OF that] n(2) by (simp add: hblk_def)
  have b: "?b \<in> pn (cabs s) \<or> card (insert ?a (pn (cabs s))) < NBUF" using Cons.prems(7) by auto
  obtain s1 where s1: "install_trans_loop (t # us) s = install_trans_loop us s1" "cache_inv s1" "only_bc s s1" "cabs s1 = copied ?a ?b (cabs s)"
    using bio.copy_src_first [where R = ?R and a = ?a and b = ?b and k = "install_trans_loop us", OF Cons.prems(1,2) lf(2) _ n(4) lf(5) [symmetric]]
      R b t n(1-3) homes_card [OF Cons.prems(3,4)] by (auto simp: Let_def lblk_def)
  have lg1: "lg s1 = ?l" using only_bc_lg [OF s1(3)] .
  have "hblk ?l u \<noteq> ?b" if "u \<in> set us" for u
    using that n(5) t Cons.prems(5,6) by (auto dest: inj_onD)
  then have "pn (cabs s1) = {} \<or> (\<forall>u\<in>set us. hblk ?l u \<in> pn (cabs s1))" using Cons.prems(7) s1(4) by auto
  then obtain s' where "install_trans_loop us s1 = Ok () s'" "cache_inv s'" "only_bc s1 s'" "cabs s' = installed ?l us (cabs s1)"
    using Cons.IH [of s1] s1 lg1 Cons.prems by auto
  then show ?case using s1 only_bc_trans [OF s1(3)] by (auto simp: installed_def)
qed


section \<open>The header\<close>

definition encode_head :: "log \<Rightarrow> nat list \<Rightarrow> block \<Rightarrow> block" where
  "encode_head l us d = fold (\<lambda>i d. put d (4 + 4 * i) (bytes32 (of_int (lh_block l ! i)))) us (put d 0 (bytes32 (of_int (lh_n l))))"

lemma length_encode: "length d = BSIZE \<Longrightarrow> \<forall>i\<in>set us. i < 30 \<Longrightarrow> length (encode_head l us d) = BSIZE"
proof -
  assume "length d = BSIZE" "\<forall>i\<in>set us. i < 30"
  then have "length (fold (\<lambda>i d. put d (4 + 4 * i) (bytes32 (of_int (lh_block l ! i)))) us e) = BSIZE" if "length e = BSIZE" for e
    using that by (induction us arbitrary: e) auto
  then show ?thesis using \<open>length d = BSIZE\<close> by (simp add: encode_head_def)
qed

lemma head_fold_other:
  "length e = BSIZE \<Longrightarrow> \<forall>i\<in>set us. i < 30 \<Longrightarrow> j + 4 \<le> BSIZE \<Longrightarrow> \<forall>i\<in>set us. j + 4 \<le> 4 + 4 * i \<or> 8 + 4 * i \<le> j \<Longrightarrow>
    get32 (fold (\<lambda>i d. put d (4 + 4 * i) (bytes32 (w i))) us e) j = get32 e j"
  by (induction us arbitrary: e) (auto simp: get32_put_other)

lemma hd_n_encode:
  assumes "length d = BSIZE" "\<forall>i\<in>set us. i < 30"
  shows "hd_n (encode_head l us d) = sint (of_int (lh_n l) :: u32)"
  using assms head_fold_other [of "put d 0 (bytes32 (of_int (lh_n l)))" us 0 "\<lambda>i. of_int (lh_block l ! i)"]
  by (simp add: hd_n_def encode_head_def)

lemma hd_block_encode:
  assumes "length d = BSIZE" "n \<le> 30" "i < n"
  shows "hd_block (encode_head l [0..<n] d) i = sint (hblk l i)"
proof -
  let ?f = "\<lambda>i d. put d (4 + 4 * i) (bytes32 (of_int (lh_block l ! i) :: u32))"
  define e where "e = fold ?f [0..<i] (put d 0 (bytes32 (of_int (lh_n l))))"
  have "length e = BSIZE" using length_encode [OF assms(1), of "[0..<i]" l] assms(2,3) by (simp add: e_def encode_head_def)
  have "[0..<n] = [0..<i] @ i # [Suc i..<n]" using assms(3) upt_add_eq_append [of 0 i "n - i"] by (simp add: upt_conv_Cons)
  then have "encode_head l [0..<n] d = fold ?f [Suc i..<n] (?f i e)" by (simp add: encode_head_def e_def)
  then have "get32 (encode_head l [0..<n] d) (4 + 4 * i) = get32 (?f i e) (4 + 4 * i)"
    using head_fold_other [of "?f i e" "[Suc i..<n]" "4 + 4 * i" "\<lambda>i. of_int (lh_block l ! i)"] \<open>length e = BSIZE\<close> assms(2,3) by auto
  also have "\<dots> = hblk l i" using \<open>length e = BSIZE\<close> assms(2,3) by (simp add: hblk_def)
  finally show ?thesis by (simp add: hd_block_def)
qed

lemma upd_buf_lg [simp]: "lg (upd_buf i f s) = lg s"
  by (simp add: upd_buf_def upd_bc_def)

lemma write_head_loop_eq:
  assumes "b < length (bufs (bc s))" "\<forall>i\<in>set us. i < length (lh_block (lg s))"
  shows "write_head_loop us b s = Ok () (upd_buf b (\<lambda>c. c\<lparr>b_data :=
    fold (\<lambda>i d. put d (4 + 4 * i) (bytes32 (of_int (lh_block (lg s) ! i)))) us (b_data c)\<rparr>) s)"
  using assms
proof (induction us arbitrary: s)
  case Nil
  have "upd_buf b (\<lambda>c. c\<lparr>b_data := b_data c\<rparr>) s = s" by (simp add: upd_buf_def upd_bc_def)
  then show ?case by simp
next
  case (Cons i us)
  then show ?case by (simp add: upd_buf_twice)
qed

lemma write_head_spec:
  fixes s :: "'a gst_scheme"
  assumes inv: "cache_inv s" and o: "op (cabs s) = Map.empty" and ok: "log_ok (lg s) n (sz (cabs s))" and c: "card (pn (cabs s)) < NBUF"
    and m: "lcount (lg s) \<le> 30"
  shows "\<exists>s'. write_head s = Ok () s' \<and> cache_inv s' \<and> only_bc s s' \<and>
    cabs s' = rewritten (lstart (lg s)) (encode_head (lg s) [0..<lcount (lg s)] (va (cabs s) (lstart (lg s)))) (cabs s)"
proof -
  let ?l = "lg s" let ?b = "lstart ?l" and ?F = "encode_head ?l [0..<lcount ?l]"
  have l: "lg_dev ?l = 1" "length (lh_block ?l) = 30" using ok by (simp_all add: log_ok_def)
  note b = lblk_facts(1) [OF ok]
  have F: "length (?F d) = BSIZE" if "length d = BSIZE" for d using length_encode [OF that] m by auto
  obtain i t where t: "bread 1 ?b s = Ok i t" "cache_inv t" "only_bc s t" "op (cabs t) i = Some ?b"
    using bio.l_read [OF inv b] o c by auto
  have lg: "lg t = ?l" using only_bc_lg [OF t(3)] .
  have i: "i < length (bufs (bc t))" using openedD(2) [OF t(2)] t(4) by (simp add: cabs_def)
  obtain s' where s': "bind (bread 1 ?b s) (\<lambda>i s. bind (bwrite i (upd_buf i (\<lambda>x. x\<lparr>b_data := ?F (b_data (buf_at s i))\<rparr>) s)) (\<lambda>_ s. brelse i s)) = Ok () s'"
    "cache_inv s'" "only_bc s s'" "cabs s' = rewritten ?b (?F (va (cabs s) ?b)) (cabs s)"
    using bio.rewrite_block [where F = ?F, OF inv o b _ F] c by auto
  have e: "upd_buf i (\<lambda>c. c\<lparr>b_data := fold (\<lambda>i d. put d (4 + 4 * i) (bytes32 (of_int (lh_block ?l ! i)))) [0..<nat (lh_n ?l)] (b_data c)\<rparr>)
      (upd_buf i (\<lambda>c. c\<lparr>b_data := put (b_data c) 0 (bytes32 (of_int (lh_n ?l)))\<rparr>) t) =
      upd_buf i (\<lambda>x. x\<lparr>b_data := ?F (b_data (buf_at t i))\<rparr>) t"
    using i by (simp add: upd_buf_twice encode_head_def lcount_def) (simp add: upd_buf_def upd_bc_def)
  have "write_head s = bind (bwrite i (upd_buf i (\<lambda>x. x\<lparr>b_data := ?F (b_data (buf_at t i))\<rparr>) t)) (\<lambda>_ s. brelse i s)"
    unfolding write_head_def using t(1) l i lg m write_head_loop_eq [of i "upd_buf i (\<lambda>c. c\<lparr>b_data := put (b_data c) 0 (bytes32 (of_int (lh_n ?l)))\<rparr>) t" "[0..<nat (lh_n ?l)]"]
    by (simp add: lstart_def Let_def e lcount_def)
  then show ?thesis using s' t(1) by (intro exI [of _ s']) simp
qed


section \<open>The writes of a commit\<close>

definition replay :: "(u32 \<times> block) list \<Rightarrow> (u32 \<Rightarrow> block) \<Rightarrow> u32 \<Rightarrow> block" where
  "replay w D = fold (\<lambda>(b, x) D. D(b := x)) w D"

lemma replay_simps [simp]:
  "replay [] D = D" "replay ((b, x) # w) D = replay w (D(b := x))" "replay (v @ w) D = replay w (replay v D)"
  by (simp_all add: replay_def)

lemma replay_other: "b \<notin> fst ` set w \<Longrightarrow> replay w D b = D b"
  by (induction w arbitrary: D) auto

lemma replay_map:
  "distinct us \<Longrightarrow> inj_on f (set us) \<Longrightarrow> t \<in> set us \<Longrightarrow> replay (map (\<lambda>t. (f t, g t)) us) D (f t) = g t"
proof (induction us arbitrary: D)
  case (Cons u us)
  show ?case
  proof (cases "t = u")
    case True
    then have "f t \<notin> fst ` set (map (\<lambda>t. (f t, g t)) us)" using Cons.prems by (auto dest: inj_onD)
    then show ?thesis using True by (simp add: replay_other)
  qed (use Cons in auto)
qed simp

definition log_writes :: "log \<Rightarrow> nat list \<Rightarrow> (u32 \<Rightarrow> block) \<Rightarrow> (u32 \<times> block) list" where
  "log_writes l us V = map (\<lambda>t. (lblk l t, V (hblk l t))) us"

definition home_writes :: "log \<Rightarrow> nat list \<Rightarrow> (nat \<Rightarrow> block) \<Rightarrow> (u32 \<times> block) list" where
  "home_writes l us V = map (\<lambda>t. (hblk l t, V t)) us"

lemma logged_eq:
  assumes "log_ok l n z" "\<forall>t\<in>set us. t < n"
  shows "logged l us A = A\<lparr>va := replay (log_writes l us (va A)) (va A), dk := replay (log_writes l us (va A)) (dk A),
    hi := hi A @ log_writes l us (va A), pn := pn A - lblk l ` set us\<rparr>"
  using assms(2)
proof (induction us arbitrary: A)
  case Nil
  then show ?case by (simp add: logged_def log_writes_def)
next
  case (Cons t us)
  have n: "n < 30" using assms(1) by (simp add: log_ok_def)
  let ?A = "copied (hblk l t) (lblk l t) A"
  have v: "va ?A (hblk l u) = va A (hblk l u)" if "u < n" for u
    using lblk_facts(5) [OF assms(1) that, of t] Cons.prems n by (simp add: copied_def rewritten_def)
  have w: "log_writes l us (va ?A) = log_writes l us (va A)" using Cons.prems v by (simp add: log_writes_def)
  have "logged l (t # us) A = logged l us ?A" by (simp add: logged_def)
  also have "\<dots> = ?A\<lparr>va := replay (log_writes l us (va A)) (va ?A), dk := replay (log_writes l us (va A)) (dk ?A),
      hi := hi ?A @ log_writes l us (va A), pn := pn ?A - lblk l ` set us\<rparr>"
    using Cons.IH [of ?A] Cons.prems unfolding w by simp
  also have "\<dots> = A\<lparr>va := replay (log_writes l (t # us) (va A)) (va A), dk := replay (log_writes l (t # us) (va A)) (dk A),
      hi := hi A @ log_writes l (t # us) (va A), pn := pn A - lblk l ` set (t # us)\<rparr>"
    by (rule cab.equality) (simp_all add: copied_def rewritten_def log_writes_def, blast)
  finally show ?case .
qed

lemma installed_eq:
  assumes "log_ok l n z" "\<forall>t\<in>set us. t < n"
  shows "installed l us A = A\<lparr>va := replay (home_writes l us (\<lambda>t. va A (lblk l t))) (va A), dk := replay (home_writes l us (\<lambda>t. va A (lblk l t))) (dk A),
    hi := hi A @ home_writes l us (\<lambda>t. va A (lblk l t)), pn := pn A - hblk l ` set us\<rparr>"
  using assms(2)
proof (induction us arbitrary: A)
  case Nil
  then show ?case by (simp add: installed_def home_writes_def)
next
  case (Cons t us)
  have n: "n < 30" using assms(1) by (simp add: log_ok_def)
  let ?A = "copied (lblk l t) (hblk l t) A"
  have v: "va ?A (lblk l u) = va A (lblk l u)" if "u < n" for u
    using lblk_facts(5) [OF assms(1), of t u] Cons.prems that n by (simp add: copied_def rewritten_def)
  have w: "home_writes l us (\<lambda>t. va ?A (lblk l t)) = home_writes l us (\<lambda>t. va A (lblk l t))" using Cons.prems v by (simp add: home_writes_def)
  have "installed l (t # us) A = installed l us ?A" by (simp add: installed_def)
  also have "\<dots> = ?A\<lparr>va := replay (home_writes l us (\<lambda>t. va A (lblk l t))) (va ?A), dk := replay (home_writes l us (\<lambda>t. va A (lblk l t))) (dk ?A),
      hi := hi ?A @ home_writes l us (\<lambda>t. va A (lblk l t)), pn := pn ?A - hblk l ` set us\<rparr>"
    using Cons.IH [of ?A] Cons.prems unfolding w by simp
  also have "\<dots> = A\<lparr>va := replay (home_writes l (t # us) (\<lambda>t. va A (lblk l t))) (va A),
      dk := replay (home_writes l (t # us) (\<lambda>t. va A (lblk l t))) (dk A),
      hi := hi A @ home_writes l (t # us) (\<lambda>t. va A (lblk l t)), pn := pn A - hblk l ` set (t # us)\<rparr>"
    by (rule cab.equality) (simp_all add: copied_def rewritten_def home_writes_def, blast)
  finally show ?case .
qed


lemma va_length: "cache_inv s \<Longrightarrow> length (va (cabs s) b) = BSIZE"
proof -
  assume inv: "cache_inv s"
  note D = cache_invD [OF inv]
  show ?thesis
  proof (cases "\<exists>j. caches (bc s) j b")
    case True
    then obtain j where "caches (bc s) j b" by blast
    then show ?thesis using D(7) D(4) [of j] by (simp add: buf_ok_def cabs_def)
  next
    case False
    then have "cview (bc s) b = disk (bc s) b" by (intro cview_miss) blast
    then show ?thesis using D(3) by (simp add: cabs_def)
  qed
qed

definition commit_writes :: "log \<Rightarrow> (u32 \<Rightarrow> block) \<Rightarrow> (u32 \<times> block) list" where
  "commit_writes l V = (let H = encode_head l [0..<lcount l] (V (lstart l)) in
     log_writes l [0..<lcount l] V @ [(lstart l, H)] @ home_writes l [0..<lcount l] (\<lambda>t. V (hblk l t)) @
     [(lstart l, encode_head (l\<lparr>lh_n := 0\<rparr>) [] H)])"

lemma commit_spec:
  fixes s :: "'a gst_scheme"
  assumes inv: "cache_inv s" and o: "op (cabs s) = Map.empty" and ok: "log_ok (lg s) (lcount (lg s)) (sz (cabs s))"
    and p: "pn (cabs s) = hblk (lg s) ` {..<lcount (lg s)}" and n: "0 < lh_n (lg s)"
  shows "\<exists>s'. commit s = Ok () s' \<and> cache_inv s' \<and> lg s' = (lg s)\<lparr>lh_n := 0\<rparr> \<and> op (cabs s') = Map.empty \<and> pn (cabs s') = {} \<and>
    hi (cabs s') = hi (cabs s) @ commit_writes (lg s) (va (cabs s)) \<and>
    dk (cabs s') = replay (commit_writes (lg s) (va (cabs s))) (dk (cabs s)) \<and> sz (cabs s') = sz (cabs s) \<and> locks s' = locks s"
proof -
  define l A m where "l = lg s" and "A = cabs s" and "m = lcount l"
  note okl = ok [folded l_def A_def, folded m_def]
  have m30: "m < 30" using okl by (simp add: log_ok_def)
  have us: "\<forall>t\<in>set [0..<m]. t < m" by simp
  have pA: "pn A = hblk l ` {..<m}" using p by (simp add: l_def A_def m_def)
  note lf = lblk_facts [OF okl]
  have nl: "nat (lh_n l) = m" by (simp add: m_def lcount_def)
  obtain s1 where s1: "write_log_loop [0..<m] s = Ok () s1" "cache_inv s1" "only_bc s s1" "cabs s1 = logged l [0..<m] A"
    using write_log_loop_spec [OF inv o ok p, of "[0..<m]"] us by (auto simp: l_def A_def m_def)
  have g1: "lg s1 = l" using only_bc_lg [OF s1(3)] l_def by simp
  define W1 where "W1 = log_writes l [0..<m] (va A)"
  have A1: "cabs s1 = A\<lparr>va := replay W1 (va A), dk := replay W1 (dk A), hi := hi A @ W1\<rparr>"
  proof -
    have "pn A \<inter> lblk l ` set [0..<m] = {}"
    proof (rule equals0I)
      fix b assume "b \<in> pn A \<inter> lblk l ` set [0..<m]"
      then obtain t u where "t < m" "u < m" "hblk l t = lblk l u" unfolding pA by auto
      then show False using lf(5) [of t u] m30 by simp
    qed
    then have d: "pn A - lblk l ` set [0..<m] = pn A" by (rule Diff_triv)
    show ?thesis unfolding s1(4) logged_eq [OF okl us, of A] d W1_def by (rule cab.equality) simp_all
  qed
  have st1: "replay W1 D (lstart l) = D (lstart l)" for D
  proof (rule replay_other)
    have "lstart l \<notin> lblk l ` {0..<m}" using lstart_fresh [OF okl] by (simp add: lessThan_atLeast0)
    then show "lstart l \<notin> fst ` set W1" by (simp add: W1_def log_writes_def image_image)
  qed
  have in1: "replay W1 D (lblk l t) = va A (hblk l t)" if "t < m" for t D
    unfolding W1_def log_writes_def using that lf(4) m30 by (intro replay_map) (auto simp: inj_on_def)
  define H where "H = encode_head l [0..<m] (va A (lstart l))"
  have c1: "card (pn (cabs s1)) < NBUF" using homes_card [OF okl, of "pn A"] p A1 by (simp add: l_def A_def m_def)
  obtain s2 where s2: "write_head s1 = Ok () s2" "cache_inv s2" "only_bc s1 s2" "cabs s2 = rewritten (lstart l) H (cabs s1)"
    using write_head_spec [OF s1(2) _ _ c1, of m] g1 okl o A1 m30 st1 by (auto simp: H_def A_def m_def)
  have g2: "lg s2 = l" using only_bc_lg [OF s2(3)] g1 by simp
  have A2: "cabs s2 = A\<lparr>va := (replay W1 (va A))(lstart l := H), dk := (replay W1 (dk A))(lstart l := H),
      hi := hi A @ W1 @ [(lstart l, H)]\<rparr>"
  proof -
    have d: "pn A - {lstart l} = pn A" using lf(6) unfolding pA by (metis Diff_empty Diff_insert0 imageE lessThan_iff)
    show ?thesis unfolding s2(4) A1 rewritten_def by (rule cab.equality) (simp_all add: d)
  qed
  define W2 where "W2 = home_writes l [0..<m] (\<lambda>t. va A (hblk l t))"
  obtain s3 where s3: "install_trans_loop [0..<m] s2 = Ok () s3" "cache_inv s3" "only_bc s2 s3" "cabs s3 = installed l [0..<m] (cabs s2)"
    using install_trans_loop_spec [OF s2(2), of m "[0..<m]"] g2 okl o A2 p by (auto simp: l_def A_def m_def)
  have g3: "lg s3 = l" using only_bc_lg [OF s3(3)] g2 by simp
  have hw: "home_writes l [0..<m] (\<lambda>t. va (cabs s2) (lblk l t)) = W2"
    using A2 in1 lf(3) m30 by (auto simp: home_writes_def W2_def)
  have A3: "cabs s3 = A\<lparr>va := replay W2 ((replay W1 (va A))(lstart l := H)), dk := replay W2 ((replay W1 (dk A))(lstart l := H)),
      hi := hi A @ W1 @ [(lstart l, H)] @ W2, pn := {}\<rparr>"
  proof -
    have d: "pn A - hblk l ` set [0..<m] = {}" unfolding pA by auto
    have e: "cabs s3 = (cabs s2)\<lparr>va := replay W2 (va (cabs s2)), dk := replay W2 (dk (cabs s2)), hi := hi (cabs s2) @ W2,
        pn := pn (cabs s2) - hblk l ` set [0..<m]\<rparr>"
      using s3(4) installed_eq [OF okl us, of "cabs s2"] unfolding hw by (rule trans)
    show ?thesis unfolding e A2 by (rule cab.equality) (simp_all add: d [simplified])
  qed
  have st3: "va (cabs s3) (lstart l) = H"
  proof -
    have "lstart l \<notin> fst ` set W2" using lf(6) by (force simp: W2_def home_writes_def)
    then show ?thesis using A3 replay_other [of "lstart l" W2] by simp
  qed
  let ?s4 = "upd_lg (\<lambda>l. l\<lparr>lh_n := 0\<rparr>) s3"
  have ok0: "log_ok (lg ?s4) 0 (sz (cabs ?s4))" using okl g3 A3 by (simp add: log_ok_def)
  obtain s5 where s5: "write_head ?s4 = Ok () s5" "cache_inv s5" "only_bc ?s4 s5"
    "cabs s5 = rewritten (lstart l) (encode_head (l\<lparr>lh_n := 0\<rparr>) [] H) (cabs s3)"
    using write_head_spec [of ?s4 0] s3(2) ok0 g3 A3 o st3 by (auto simp: lcount_def lstart_def A_def)
  have "locks s5 = locks s" using only_bc_locks [OF s1(3)] only_bc_locks [OF s2(3)] only_bc_locks [OF s3(3)] only_bc_locks [OF s5(3)] by simp
  moreover have "lg s5 = l\<lparr>lh_n := 0\<rparr>" using only_bc_lg [OF s5(3)] g3 by simp
  moreover have "commit s = Ok () s5"
    using n s1(1) s2(1) s3(1) s5(1) g2 nl unfolding commit_def write_log_def install_trans_def by (simp add: l_def)
  moreover have "commit_writes l (va A) = W1 @ [(lstart l, H)] @ W2 @ [(lstart l, encode_head (l\<lparr>lh_n := 0\<rparr>) [] H)]"
    by (simp add: commit_writes_def Let_def W1_def W2_def H_def m_def)
  ultimately show ?thesis using s5(2,4) A3 o unfolding l_def [symmetric] A_def [symmetric]
    by (intro exI [of _ s5]) (simp add: rewritten_def A_def)
qed


section \<open>Recovery\<close>

definition loaded :: "log \<Rightarrow> block \<Rightarrow> log" where
  "loaded l H = l\<lparr>lh_n := hd_n H, lh_block := fold (\<lambda>i bs. bs[i := hd_block H i]) [0..<nat (hd_n H)] (lh_block l)\<rparr>"

lemma length_load [simp]: "length (fold (\<lambda>i bs. bs[i := f i]) us xs) = length xs"
  by (induction us arbitrary: xs) auto

lemma nth_load:
  "k < length xs \<Longrightarrow> distinct us \<Longrightarrow> fold (\<lambda>i bs. bs[i := f i]) us xs ! k = (if k \<in> set us then f k else xs ! k)"
  by (induction us arbitrary: xs) (auto simp: nth_list_update)

lemma loaded_fields [simp]:
  "lstart (loaded l H) = lstart l" "lblk (loaded l H) = lblk l" "lg_dev (loaded l H) = lg_dev l" "lg_start (loaded l H) = lg_start l"
  "length (lh_block (loaded l H)) = length (lh_block l)" "lh_n (loaded l H) = hd_n H" "logset (loaded l H) = logset l"
  by (simp_all add: loaded_def lstart_def lblk_def logset_def fun_eq_iff)

lemma hblk_loaded: "t < nat (hd_n H) \<Longrightarrow> t < length (lh_block l) \<Longrightarrow> hblk (loaded l H) t = of_int (hd_block H t)"
  by (simp add: loaded_def hblk_def nth_load)

lemma read_head_loop_eq:
  "\<forall>i\<in>set us. i < length (lh_block (lg s)) \<Longrightarrow> read_head_loop us H s =
    Ok () (upd_lg (\<lambda>l. l\<lparr>lh_block := fold (\<lambda>i bs. bs[i := hd_block H i]) us (lh_block l)\<rparr>) s)"
proof (induction us arbitrary: s)
  case Nil
  have "upd_lg (\<lambda>l. l\<lparr>lh_block := lh_block l\<rparr>) s = s" by (simp add: upd_lg_def)
  then show ?case by simp
next
  case (Cons i us)
  then show ?case by (simp add: upd_lg_def)
qed

lemma read_head_spec:
  fixes s :: "'a gst_scheme"
  assumes inv: "cache_inv s" and o: "op (cabs s) = Map.empty" and p: "pn (cabs s) = {}"
    and ok: "log_ok (loaded (lg s) (dk (cabs s) (lstart (lg s)))) n (sz (cabs s))" "nat (hd_n (dk (cabs s) (lstart (lg s)))) \<le> 30"
  shows "\<exists>s'. read_head s = Ok () s' \<and> cache_inv s' \<and> cabs s' = cabs s \<and> lg s' = loaded (lg s) (dk (cabs s) (lstart (lg s))) \<and>
    locks s' = locks s"
proof -
  let ?l = "lg s" let ?b = "lstart ?l" let ?H = "dk (cabs s) ?b"
  have l: "lg_dev ?l = 1" "length (lh_block ?l) = 30" using ok(1) by (simp_all add: log_ok_def)
  have b: "?b < sz (cabs s)" using lblk_facts(1) [OF ok(1)] by simp
  obtain i t where t: "bread 1 ?b s = Ok i t" "cache_inv t" "only_bc s t" "cabs t = (cabs s)\<lparr>op := [i \<mapsto> ?b]\<rparr>"
    using bio.l_read [OF inv b] o p by auto
  have g: "lg t = ?l" using only_bc_lg [OF t(3)] .
  have v: "va (cabs s) ?b = ?H" using bio.l_clean [OF inv] o p by simp
  have d: "b_data (buf_at t i) = ?H" using bio.l_data [OF t(2), of i ?b] t(4) v by simp
  let ?u = "upd_lg (\<lambda>_. loaded ?l ?H) t"
  have u: "cache_inv ?u" "cabs ?u = (cabs s)\<lparr>op := [i \<mapsto> ?b]\<rparr>" using t(2,4) by simp_all
  obtain s' where s': "brelse i ?u = Ok () s'" "cache_inv s'" "only_bc ?u s'" "cabs s' = (cabs s)\<lparr>op := Map.empty\<rparr>"
    using bio.l_release [OF u(1), of i ?b] u(2) v by auto
  have "read_head_loop [0..<nat (hd_n ?H)] ?H (upd_lg (\<lambda>l. l\<lparr>lh_n := hd_n ?H\<rparr>) t) = Ok () ?u"
    using read_head_loop_eq [of "[0..<nat (hd_n ?H)]" "upd_lg (\<lambda>l. l\<lparr>lh_n := hd_n ?H\<rparr>) t" ?H] l g ok(2)
    by (simp add: upd_lg_def loaded_def)
  then have "read_head s = Ok () s'"
    unfolding read_head_def using t(1) l d s'(1) by (simp add: lstart_def Let_def)
  moreover have "lg s' = loaded ?l ?H" using only_bc_lg [OF s'(3)] by simp
  moreover have "locks s' = locks s" using only_bc_locks [OF s'(3)] only_bc_locks [OF t(3)] by simp
  moreover have "cabs s' = cabs s" using s'(4) o by simp
  ultimately show ?thesis using s'(2) by blast
qed

definition recovered :: "log \<Rightarrow> (u32 \<Rightarrow> block) \<Rightarrow> u32 \<Rightarrow> block" where
  "recovered l D = replay (home_writes (loaded l (D (lstart l))) [0..<nat (hd_n (D (lstart l)))] (\<lambda>t. D (lblk l t))) D"

lemma recover_spec:
  fixes s :: "'a gst_scheme"
  assumes inv: "cache_inv s" and o: "op (cabs s) = Map.empty" and p: "pn (cabs s) = {}"
    and ok: "log_ok (loaded (lg s) (dk (cabs s) (lstart (lg s)))) (nat (hd_n (dk (cabs s) (lstart (lg s))))) (sz (cabs s))"
  shows "\<exists>s' H. recover_from_log s = Ok () s' \<and> cache_inv s' \<and> op (cabs s') = Map.empty \<and> pn (cabs s') = {} \<and> lh_n (lg s') = 0 \<and> hd_n H = 0 \<and>
    dk (cabs s') = (recovered (lg s) (dk (cabs s)))(lstart (lg s) := H) \<and> sz (cabs s') = sz (cabs s) \<and>
    lg s' = (loaded (lg s) (dk (cabs s) (lstart (lg s))))\<lparr>lh_n := 0\<rparr> \<and> locks s' = locks s"
proof -
  define l D m where "l = lg s" and "D = dk (cabs s)" and "m = nat (hd_n (D (lstart l)))"
  let ?l = "loaded l (D (lstart l))"
  note okl = ok [folded l_def D_def, folded m_def]
  have m30: "m < 30" using okl by (simp add: log_ok_def)
  obtain s1 where s1: "read_head s = Ok () s1" "cache_inv s1" "cabs s1 = cabs s" "lg s1 = ?l" "locks s1 = locks s"
    using read_head_spec [OF inv o p ok] m30 by (auto simp: l_def D_def m_def)
  obtain s2 where s2: "install_trans_loop [0..<m] s1 = Ok () s2" "cache_inv s2" "only_bc s1 s2" "cabs s2 = installed ?l [0..<m] (cabs s1)"
    using install_trans_loop_spec [OF s1(2), of m "[0..<m]"] s1(3,4) okl o p by auto
  have g2: "lg s2 = ?l" using only_bc_lg [OF s2(3)] s1(4) by simp
  have v: "va (cabs s) = D" using bio.l_clean [OF inv] o p by (simp add: D_def fun_eq_iff)
  have us: "\<forall>t\<in>set [0..<m]. t < m" by simp
  have A2: "cabs s2 = (cabs s)\<lparr>va := recovered l D, dk := recovered l D, hi := hi (cabs s2), pn := {}\<rparr>"
    unfolding s2(4) s1(3) installed_eq [OF okl us, of "cabs s"]
    by (rule cab.equality) (simp_all add: v p recovered_def m_def D_def [symmetric])
  let ?s3 = "upd_lg (\<lambda>l. l\<lparr>lh_n := 0\<rparr>) s2"
  let ?H = "encode_head (?l\<lparr>lh_n := 0\<rparr>) [] (va (cabs s2) (lstart l))"
  have op2: "op (cabs s2) = Map.empty" "pn (cabs s2) = {}" "dk (cabs s2) = recovered l D" "sz (cabs s2) = sz (cabs s)"
    by (subst A2, simp add: o)+
  have ok0: "log_ok (lg ?s3) 0 (sz (cabs ?s3))" using okl g2 op2(4) by (simp add: log_ok_def)
  obtain s' where s': "write_head ?s3 = Ok () s'" "cache_inv s'" "only_bc ?s3 s'" "cabs s' = rewritten (lstart l) ?H (cabs s2)"
    using write_head_spec [of ?s3 0] s2(2) ok0 g2 op2 by (auto simp: lcount_def lstart_def)
  have "hd_n ?H = 0" using hd_n_encode [OF va_length [OF s2(2)], of "[]"] by simp
  moreover have "recover_from_log s = Ok () s'"
    using s1(1,4) s2(1) s'(1) unfolding recover_from_log_def install_trans_def by (simp add: m_def)
  moreover have "lh_n (lg s') = 0" "lg s' = ?l\<lparr>lh_n := 0\<rparr>" using only_bc_lg [OF s'(3)] g2 by simp_all
  moreover have "locks s' = locks s" using only_bc_locks [OF s'(3)] only_bc_locks [OF s2(3)] s1(5) by simp
  moreover have "op (cabs s') = Map.empty" "pn (cabs s') = {}" "dk (cabs s') = (recovered l D)(lstart l := ?H)" "sz (cabs s') = sz (cabs s)"
    using s'(4) op2 by (simp_all add: rewritten_def)
  ultimately show ?thesis using s'(2) unfolding l_def [symmetric] D_def [symmetric] by blast
qed


section \<open>Power failures\<close>

text \<open>What recovery makes of the disk after the first \<open>k\<close> writes of a commit.\<close>

lemma sint_small: "0 \<le> k \<Longrightarrow> k < 100 \<Longrightarrow> sint (of_int k :: u32) = k"
  by (simp add: signed_of_int signed_take_bit_int_eq_self)

lemma loaded_none:
  assumes "log_ok l m z" "lg_start r = lg_start l" "lg_dev r = lg_dev l" "length (lh_block r) = 30" "hd_n (D (lstart l)) = 0"
  shows "log_ok (loaded r (D (lstart r))) (nat (hd_n (D (lstart r)))) z" "recovered r D = D"
proof -
  have "lstart r = lstart l" using assms(2) by (simp add: lstart_def)
  then show "log_ok (loaded r (D (lstart r))) (nat (hd_n (D (lstart r)))) z" "recovered r D = D"
    using assms by (simp_all add: log_ok_def recovered_def home_writes_def)
qed

lemma loaded_head:
  assumes ok: "log_ok l m z" and r: "lg_start r = lg_start l" "lg_dev r = lg_dev l" "length (lh_block r) = 30"
    and H: "D (lstart l) = H" "hd_n H = int m" "\<And>t. t < m \<Longrightarrow> hd_block H t = sint (hblk l t)"
  shows "log_ok (loaded r (D (lstart r))) (nat (hd_n (D (lstart r)))) z"
    "recovered r D = replay (home_writes l [0..<m] (\<lambda>t. D (lblk l t))) D"
proof -
  have e: "lstart r = lstart l" "lblk r = lblk l" using r(1) by (simp_all add: lstart_def lblk_def fun_eq_iff)
  have m: "m < 30" using ok by (simp add: log_ok_def)
  have h: "hblk (loaded r H) t = hblk l t" if "t < m" for t
    using that H m r(3) by (simp add: hblk_loaded)
  have "logset r = logset l" by (simp add: logset_def e)
  then show "log_ok (loaded r (D (lstart r))) (nat (hd_n (D (lstart r)))) z"
    using ok h r H by (auto simp: log_ok_def e inj_on_def)
  show "recovered r D = replay (home_writes l [0..<m] (\<lambda>t. D (lblk l t))) D"
  proof -
    have "home_writes (loaded r H) [0..<m] V = home_writes l [0..<m] V" for V
      unfolding home_writes_def by (intro map_cong) (simp_all add: h)
    then show ?thesis using H by (simp add: recovered_def e)
  qed
qed

lemma homes_replayed:
  assumes "log_ok l m z"
  shows "replay (home_writes l [0..<m] (\<lambda>t. V (hblk l t))) D b = (if b \<in> hblk l ` {..<m} then V b else D b)"
proof (cases "b \<in> hblk l ` {..<m}")
  case True
  then obtain t where "t < m" "b = hblk l t" by auto
  moreover have "inj_on (hblk l) (set [0..<m])" using assms by (simp add: log_ok_def lessThan_atLeast0)
  ultimately show ?thesis using replay_map [of "[0..<m]" "hblk l" t] by (simp add: home_writes_def)
next
  case False
  then show ?thesis using replay_other [of b "home_writes l [0..<m] (\<lambda>t. V (hblk l t))" D]
    by (auto simp: home_writes_def image_image lessThan_atLeast0)
qed

lemma logs_replayed:
  assumes "log_ok l m z" "j \<le> m"
  shows "b \<notin> lblk l ` {..<m} \<Longrightarrow> replay (take j (log_writes l [0..<m] V)) D b = D b"
    "t < m \<Longrightarrow> replay (log_writes l [0..<m] V) D (lblk l t) = V (hblk l t)"
proof -
  have m: "m < 30" using assms by (simp add: log_ok_def)
  show "replay (take j (log_writes l [0..<m] V)) D b = D b" if "b \<notin> lblk l ` {..<m}"
  proof (rule replay_other)
    have "fst ` set (take j (log_writes l [0..<m] V)) \<subseteq> fst ` set (log_writes l [0..<m] V)" by (intro image_mono set_take_subset)
    then show "b \<notin> fst ` set (take j (log_writes l [0..<m] V))"
      using that by (auto simp: log_writes_def image_image lessThan_atLeast0)
  qed
  show "replay (log_writes l [0..<m] V) D (lblk l t) = V (hblk l t)" if "t < m"
    unfolding log_writes_def using that lblk_facts(4) [OF assms(1)] m by (intro replay_map) (auto simp: inj_on_def)
qed


definition after_crash :: "log \<Rightarrow> nat \<Rightarrow> (u32 \<Rightarrow> block) \<Rightarrow> (u32 \<Rightarrow> block) \<Rightarrow> u32 \<Rightarrow> block" where
  "after_crash l k V D b = (if k \<le> lcount l then D b else if b \<in> hblk l ` {..<lcount l} then V b else D b)"

lemma crash_recovers:
  assumes ok: "log_ok l (lcount l) z" and n: "0 \<le> lh_n l" and D: "hd_n (D (lstart l)) = 0" and V: "length (V (lstart l)) = BSIZE"
    and r: "lg_start r = lg_start l" "lg_dev r = lg_dev l" "length (lh_block r) = 30" and k: "k \<le> length (commit_writes l V)"
  defines "C \<equiv> replay (take k (commit_writes l V)) D"
  shows "log_ok (loaded r (C (lstart r))) (nat (hd_n (C (lstart r)))) z \<and> (\<forall>b. b \<notin> logset l \<longrightarrow> recovered r C b = after_crash l k V D b)"
proof -
  define m where "m = lcount l"
  define W1 W2 H H0 where "W1 = log_writes l [0..<m] V" and "W2 = home_writes l [0..<m] (\<lambda>t. V (hblk l t))"
    and "H = encode_head l [0..<m] (V (lstart l))" and "H0 = encode_head (l\<lparr>lh_n := 0\<rparr>) [] H"
  note okm = ok [folded m_def]
  have m: "m < 30" "int m = lh_n l" using okm n by (simp_all add: log_ok_def m_def lcount_def)
  have W: "commit_writes l V = W1 @ (lstart l, H) # W2 @ [(lstart l, H0)]"
    by (simp add: commit_writes_def Let_def W1_def W2_def H_def H0_def m_def)
  have len: "length W1 = m" "length W2 = m" by (simp_all add: W1_def W2_def log_writes_def home_writes_def)
  have lH: "length H = BSIZE" unfolding H_def using length_encode [OF V] m(1) by auto
  have H: "hd_n H = int m" "\<And>t. t < m \<Longrightarrow> hd_block H t = sint (hblk l t)" "hd_n H0 = 0"
    using hd_n_encode [OF V, of "[0..<m]" l] hd_block_encode [OF V] m sint_small [of "int m"] hd_n_encode [OF lH, of "[]" "l\<lparr>lh_n := 0\<rparr>"]
    by (simp_all add: H_def H0_def)
  note lf = lblk_facts [OF okm]
  have st: "lstart l \<notin> lblk l ` {..<m}" "lstart l \<notin> fst ` set W2"
    using lstart_fresh [OF okm] lf(6) by (simp, force simp: W2_def home_writes_def)
  have out: "b \<noteq> lstart l" "b \<notin> lblk l ` {..<m}" if "b \<notin> logset l" for b using that m(1) by (auto simp: logset_def)
  consider "k \<le> m" | j where "k = Suc (m + j)" "j \<le> m" | "k = Suc (Suc (m + m))"
  proof -
    have "k \<le> Suc (Suc (m + m))" using k W len by simp
    then show ?thesis using that(1,3) that(2) [of "k - Suc m"] by linarith
  qed
  then show ?thesis
  proof cases
    case 1
    then have C: "C = replay (take k W1) D" unfolding C_def W using len by simp
    have "hd_n (C (lstart l)) = 0" using logs_replayed(1) [OF okm 1 st(1)] D unfolding C W1_def by simp
    note ln = loaded_none [where D = C, OF okm r this]
    show ?thesis using ln 1 logs_replayed(1) [OF okm 1 out(2)] unfolding C W1_def by (simp add: after_crash_def m_def)
  next
    case (2 j)
    let ?E = "(replay W1 D)(lstart l := H)"
    have C: "C = replay (take j W2) ?E" unfolding C_def W 2(1) using len 2(2) by simp
    have sub: "fst ` set (take j W2) \<subseteq> fst ` set W2" by (intro image_mono set_take_subset)
    have s: "C (lstart l) = H" unfolding C using st(2) sub replay_other [of "lstart l" "take j W2" ?E] by auto
    have b: "C (lblk l t) = V (hblk l t)" if "t < m" for t
    proof -
      have "lblk l t \<notin> fst ` set (take j W2)"
        using sub lf(5) [of _ t] that m(1) by (force simp: W2_def home_writes_def)
      then have "C (lblk l t) = ?E (lblk l t)" unfolding C by (rule replay_other)
      also have "\<dots> = V (hblk l t)" using logs_replayed(2) [OF okm le_refl that] lf(3) [of t] that m(1) by (simp add: W1_def)
      finally show ?thesis .
    qed
    note lh = loaded_head [where D = C, OF okm r s H(1,2)]
    have "home_writes l [0..<m] (\<lambda>t. C (lblk l t)) = W2" using b by (simp add: home_writes_def W2_def)
    then have rec: "recovered r C b = (if b \<in> hblk l ` {..<m} then V b else C b)" for b
      using lh(2) homes_replayed [OF okm, of V C b] by (simp add: W2_def)
    have "C b = D b" if "b \<notin> logset l" "b \<notin> hblk l ` {..<m}" for b
    proof -
      have "b \<notin> fst ` set (take j W2)" using sub that(2) by (auto simp: W2_def home_writes_def)
      then have "C b = ?E b" unfolding C by (rule replay_other)
      also have "\<dots> = D b" using out [OF that(1)] logs_replayed(1) [OF okm le_refl out(2) [OF that(1)], of V D] len(1) by (simp add: W1_def)
      finally show ?thesis .
    qed
    then show ?thesis using lh(1) rec 2 by (simp add: after_crash_def m_def [symmetric])
  next
    case 3
    have C: "C = (replay W2 ((replay W1 D)(lstart l := H)))(lstart l := H0)" unfolding C_def W 3 using len by simp
    have "hd_n (C (lstart l)) = 0" using H(3) unfolding C by simp
    note ln = loaded_none [where D = C, OF okm r this]
    have "C b = (if b \<in> hblk l ` {..<m} then V b else D b)" if "b \<notin> logset l" for b
      using homes_replayed [OF okm, of V "(replay W1 D)(lstart l := H)" b] out [OF that] 
        logs_replayed(1) [OF okm le_refl out(2) [OF that], of V D] len(1) unfolding C W2_def [symmetric] by (simp add: W1_def)
    then show ?thesis using ln 3 by (simp add: after_crash_def m_def [symmetric])
  qed
qed

end
