(* ===== verification/Tx.thy ===== *)
theory Tx
  imports Crash
begin

unbundle bit_operations_syntax

text \<open>
  Transactions of kernel/log.c from \<open>begin_op\<close> to \<open>end_op\<close>, on the cache that \<open>binit\<close> sets up, and
  the restart of the machine through \<open>initlog\<close> after a power failure.
\<close>

section \<open>A fresh cache\<close>

lemma initsleeplock_fields [simp]:
  "bc (initsleeplock l nm s) = bc s" "procs (initsleeplock l nm s) = procs s" "quiet (initsleeplock l nm s) = quiet s"
  "curproc (initsleeplock l nm s) = curproc s" "sls (initsleeplock l nm s) = (sls s)(l := \<lparr>sl_locked = 0, sl_name = nm, sl_pid = 0\<rparr>)"
  "lk_free k (initsleeplock l nm s) \<longleftrightarrow> k = l \<or> lk_free k s"
  by (cases "sls s l"; simp add: initsleeplock_def Let_def upd_sl_def initlock_def quiet_def cur_def curcpu_def curproc_def lk_free_def)+

lemma initlock_fields [simp]:
  "bc (initlock l nm t) = bc t" "procs (initlock l nm u) = procs u" "quiet (initlock l nm s) = quiet s"
  "curproc (initlock l nm s) = curproc s" "sls (initlock l nm v) = sls v" "lk_free k (initlock l nm s) \<longleftrightarrow> k = l \<or> lk_free k s"
  by (simp_all add: initlock_def quiet_def cur_def curcpu_def curproc_def lk_free_def)

text \<open>\<open>binit_frame s s'\<close>: the links, the locks and the sleep locks are all that differ.\<close>

definition binit_frame :: "nat set \<Rightarrow> 'a bst_scheme \<Rightarrow> 'a bst_scheme \<Rightarrow> bool" where
  "binit_frame A s s' \<longleftrightarrow> length (bufs (bc s')) = length (bufs (bc s)) \<and> disk (bc s') = disk (bc s) \<and>
     disksize (bc s') = disksize (bc s) \<and> dk_hist (bc s') = dk_hist (bc s) \<and> (\<forall>j. core (buf_at s' j) = core (buf_at s j)) \<and>
     quiet s' = quiet s \<and> procs s' = procs s \<and> curproc s' = curproc s \<and>
     (\<forall>k. lk_free k s' \<longleftrightarrow> k \<in> Lbufsleep ` A \<or> lk_free k s) \<and>
     (\<forall>i. held s' i \<longleftrightarrow> i \<notin> A \<and> held s i)"

lemma binit_loop_spec:
  assumes "ring (cnext (bc s)) (cprev (bc s)) L" "distinct us" "set us \<inter> set L = {}" "\<forall>i\<in>set us \<union> set L. i < length (bufs (bc s))"
  shows "ring (cnext (bc (binit_loop us s))) (cprev (bc (binit_loop us s))) (rev us @ L) \<and> binit_frame (set us) s (binit_loop us s)"
  using assms
proof (induction us arbitrary: s L)
  case Nil
  then show ?case by (simp add: binit_frame_def)
next
  case (Cons i us)
  let ?t = "initsleeplock (Lbufsleep i) ''buffer'' s" let ?u = "link_front i ?t"
  have r: "ring (cnext (bc ?t)) (cprev (bc ?t)) L" and i: "i < length (bufs (bc ?t))" "i \<notin> set L" using Cons.prems by auto
  have "on_ring (bc ?t) (cnext (bc ?t) None)" by (rule ring_on(1) [OF r]) (use Cons.prems(4) in auto)
  then have h: "on_ring (bc ?t) (head_next (bc ?t))" by (simp add: cnext_def)
  note f = link_front_links [OF i(1) h]
  have r2: "ring (cnext (bc ?u)) (cprev (bc ?u)) (i # L)" unfolding f(1,2) by (rule ring_front [OF r i(2)])
  have len: "length (bufs (bc ?u)) = length (bufs (bc s))" using f(3) by (simp add: relinked_def)
  have IH: "ring (cnext (bc (binit_loop us ?u))) (cprev (bc (binit_loop us ?u))) (rev us @ i # L)"
    "binit_frame (set us) ?u (binit_loop us ?u)"
    using Cons.IH [OF r2] Cons.prems len by auto
  have e: "?u = ?t\<lparr>bc := bc ?u\<rparr>" using f(3) unfolding relinked_def by blast
  have g: "quiet ?u = quiet s" "procs ?u = procs s" "curproc ?u = curproc s" "sls ?u = sls ?t" "\<And>k. lk_free k ?u \<longleftrightarrow> k = Lbufsleep i \<or> lk_free k s"
    by (subst e, simp)+
  have "binit_frame (set (i # us)) s (binit_loop us ?u)"
    using IH(2) f(3) g by (auto simp: binit_frame_def relinked_def held_def)
  then show ?case using IH(1) by simp
qed

text \<open>
  \<open>boots s D n\<close>: the machine before \<open>binit\<close>: the buffers are zero, as static data of the kernel, the
  disk holds \<open>D\<close>, and a process runs.
\<close>

definition boots :: "'a bst_scheme \<Rightarrow> (u32 \<Rightarrow> block) \<Rightarrow> u32 \<Rightarrow> bool" where
  "boots s D n \<longleftrightarrow> quiet s \<and> (\<exists>p. curproc s = Some p \<and> p < length (procs s)) \<and> lk_free Lptable s \<and> (\<forall>i \<ge> NBUF. lk_free (Lbufsleep i) s) \<and>
     length (bufs (bc s)) = NBUF \<and> (\<forall>j < NBUF. b_flags (buf_at s j) = 0 \<and> b_dev (buf_at s j) = 0 \<and> b_refcnt (buf_at s j) = 0) \<and>
     disk (bc s) = D \<and> disksize (bc s) = n \<and> (\<forall>b. length (D b) = BSIZE)"

lemma binit_inv:
  assumes "boots s D n"
  shows "cache_inv (binit s)" "opened (binit s) = Map.empty" "pinned (bc (binit s)) = {}" "cview (bc (binit s)) = D"
    "disk (bc (binit s)) = D" "disksize (bc (binit s)) = n"
proof -
  let ?t = "upd_bc (\<lambda>c. c\<lparr>head_prev := None, head_next := None\<rparr>) (initlock Lbcache ''bcache'' s)"
  note B = assms [unfolded boots_def]
  have e: "binit s = binit_loop [0..<NBUF] ?t" by (simp add: binit_def Let_def)
  have r: "ring (cnext (bc ?t)) (cprev (bc ?t)) []" by (simp add: ring_def cnext_def cprev_def)
  have bl: "ring (cnext (bc (binit s))) (cprev (bc (binit s))) (rev [0..<NBUF])" "binit_frame {0..<NBUF} ?t (binit s)"
    using binit_loop_spec [OF r, of "[0..<NBUF]"] B unfolding e by (simp_all del: upt_conv_Cons upt_rec_numeral)
  note F = bl(2) [unfolded binit_frame_def]
  have b: "core (buf_at (binit s) j) = core (buf_at s j)" for j using F by simp
  then have z: "b_flags (buf_at (binit s) j) = 0" "b_dev (buf_at (binit s) j) = 0" "b_refcnt (buf_at (binit s) j) = 0" if "j < NBUF" for j
    using that B by (simp_all add: core_def)
  have len: "length (bufs (bc (binit s))) = NBUF" using F B by simp
  have c: "\<not> caches (bc (binit s)) i b" for i b using z(2) [of i] len by (auto simp: caches_def)
  show dk: "disk (bc (binit s)) = D" "disksize (bc (binit s)) = n" using F B by simp_all
  show "pinned (bc (binit s)) = {}" "cview (bc (binit s)) = D" using c dk(1) cview_miss [of "bc (binit s)"] by (auto simp: pinned_def fun_eq_iff)
  have h: "\<not> held (binit s) i" if "i < NBUF" for i using F that by simp
  then show "opened (binit s) = Map.empty" by (simp add: opened_def fun_eq_iff)
  have "lk_free (Lbufsleep i) (binit s)" for i using F B by (cases "i < NBUF") auto
  then have "cache_ready (binit s)" using F B by (auto simp: cache_ready_def)
  moreover have "buf_ok D n False (buf_at (binit s) i)" if "i < NBUF" for i using z [OF that] by (simp add: buf_ok_def valid_def dirty_def)
  moreover have "\<exists>L. set L = {..<NBUF} \<and> ring (cnext (bc (binit s))) (cprev (bc (binit s))) L"
    using bl(1) by (intro exI [of _ "rev [0..<NBUF]"]) (simp add: lessThan_atLeast0 del: upt_conv_Cons upt_rec_numeral)
  ultimately show "cache_inv (binit s)" using len h c dk B by (simp add: cache_inv_def)
qed


section \<open>Recording a block\<close>

lemma upd_lg_locks [simp]: "hold k (upd_lg f s) = upd_lg f (hold k s)" "unhold k (upd_lg f s) = upd_lg f (unhold k s)"
  "lk_held k (upd_lg f s) = lk_held k s" "pid_of (upd_lg f s) = pid_of s"
  by (simp_all add: upd_lg_def pid_of_def split: option.split)

lemma opened_lg [simp]: "opened (upd_lg f s) = opened s"
  by (simp add: opened_def held_def fun_eq_iff)

definition recorded :: "u32 \<Rightarrow> log \<Rightarrow> log" where
  "recorded b l = l\<lparr>lh_block := (lh_block l)[log_slot b l := sint b],
     lh_n := (if log_slot b l = lcount l then lh_n l + 1 else lh_n l)\<rparr>"

lemma log_slot_cases:
  assumes "lcount l \<le> length (lh_block l)"
  shows "(b \<in> hblk l ` {..<lcount l} \<and> log_slot b l < lcount l \<and> hblk l (log_slot b l) = b) \<or>
    (b \<notin> hblk l ` {..<lcount l} \<and> log_slot b l = lcount l)"
proof (cases "find_idx (\<lambda>x. of_int x = b) (take (lcount l) (lh_block l))")
  case None
  then have a: "\<forall>x\<in>set (take (lcount l) (lh_block l)). word_of_int x \<noteq> b" by simp
  have "hblk l t \<noteq> b" if "t < lcount l" for t
  proof -
    have "lh_block l ! t \<in> set (take (lcount l) (lh_block l))" using that assms by (auto simp: in_set_conv_nth intro!: exI [of _ t])
    then show ?thesis using a by (simp add: hblk_def)
  qed
  moreover have "log_slot b l = lcount l" using None unfolding log_slot_def lcount_def by (simp only: option.case)
  ultimately show ?thesis by auto
next
  case (Some i)
  then have "i < lcount l" "hblk l i = b" "log_slot b l = i"
    using find_idx_SomeD(1,2) [OF Some] by (auto simp: hblk_def log_slot_def lcount_def)
  then show ?thesis by auto
qed

lemma recorded_ok:
  assumes l: "log_ok l (lcount l) z" "0 \<le> lh_n l" "lh_n l < 29" and b: "b < z" "b \<notin> logset l"
  shows "log_ok (recorded b l) (lcount (recorded b l)) z" "hblk (recorded b l) ` {..<lcount (recorded b l)} = insert b (hblk l ` {..<lcount l})"
    "logset (recorded b l) = logset l" "lstart (recorded b l) = lstart l" "0 \<le> lh_n (recorded b l)"
    "lcount (recorded b l) = card (insert b (hblk l ` {..<lcount l}))"
proof -
  let ?n = "lcount l" and ?k = "log_slot b l" let ?m = "if ?k = ?n then Suc ?n else ?n"
  have n: "length (lh_block l) = 30" "?n < 29" "inj_on (hblk l) {..<?n}" using l by (auto simp: log_ok_def lcount_def)
  note k = log_slot_cases [of l b, unfolded n(1)]
  have k30: "?k < 30" "?k \<le> ?n" using k n(2) by auto
  have m: "lcount (recorded b l) = ?m" using l(2) by (simp add: recorded_def lcount_def nat_add_distrib)
  have h: "hblk (recorded b l) t = (if t = ?k then b else hblk l t)" if "t < 30" for t
    using that k30 n(1) by (simp add: hblk_def recorded_def)
  show ls: "logset (recorded b l) = logset l" and st: "lstart (recorded b l) = lstart l" and "0 \<le> lh_n (recorded b l)"
    using l(2) by (auto simp: logset_def lstart_def lblk_def recorded_def image_def)
  have eq: "hblk (recorded b l) t = (if t = ?n then b else hblk l t)" if "t < ?m" for t
    using h [of t] that k n(2) by (auto split: if_splits)
  show im: "hblk (recorded b l) ` {..<lcount (recorded b l)} = insert b (hblk l ` {..<?n})"
  proof (cases "?k = ?n")
    case True
    then show ?thesis unfolding m using eq by (auto simp: lessThan_Suc image_def)
  next
    case False
    then show ?thesis unfolding m using eq k n(2) by (force simp: image_def)
  qed
  have inj: "inj_on (hblk (recorded b l)) {..<?m}"
  proof (cases "?k = ?n")
    case True
    then have "b \<notin> hblk l ` {..<?n}" using k n(2) by auto
    then have "inj_on ((hblk l)(?n := b)) {..<Suc ?n}" using n(3) by (simp add: lessThan_Suc inj_on_fun_updI inj_on_insert)
    moreover have "inj_on (hblk (recorded b l)) {..<Suc ?n} \<longleftrightarrow> inj_on ((hblk l)(?n := b)) {..<Suc ?n}"
      by (rule inj_on_cong) (use eq True in simp)
    ultimately show ?thesis using True by simp
  next
    case False
    then have "inj_on (hblk (recorded b l)) {..<?n} \<longleftrightarrow> inj_on (hblk l) {..<?n}"
      by (intro inj_on_cong) (use eq in auto)
    then show ?thesis using False n(3) by simp
  qed
  have all: "\<forall>t < ?m. hblk (recorded b l) t < z \<and> hblk (recorded b l) t \<notin> logset l"
    using eq b l(1) by (auto simp: log_ok_def less_Suc_eq)
  show "log_ok (recorded b l) (lcount (recorded b l)) z"
    using l(1) n(2) inj all unfolding m ls log_ok_def by (simp add: recorded_def)
  show "lcount (recorded b l) = card (insert b (hblk l ` {..<?n}))"
    using inj m im card_image [of "hblk (recorded b l)" "{..<?m}"] by simp
qed

lemma log_write_spec:
  fixes s :: "'a gst_scheme"
  assumes "cache_inv s" "opened s i = Some b" "length (lh_block (lg s)) = 30" "0 \<le> lh_n (lg s)" "lh_n (lg s) < 29"
    "lh_n (lg s) < lg_size (lg s) - 1" "1 \<le> lg_outstanding (lg s)" "lk_free Llog s"
  shows "log_write i s = Ok () (upd_buf i (\<lambda>c. c\<lparr>b_flags := b_flags c OR B_DIRTY\<rparr>) (upd_lg (recorded b) s))"
proof -
  note O = openedD [OF assms(1,2)]
  have q: "quiet s" using cache_invD(1) [OF assms(1)] by (simp add: cache_ready_def)
  have n: "lcount (lg s) < 29" "int (lcount (lg s)) = lh_n (lg s)" using assms(4,5) by (simp_all add: lcount_def)
  have k: "log_slot b (lg s) < 30" using log_slot_cases [of "lg s" b] assms(3) n by auto
  have kn: "int (log_slot b (lg s)) = lh_n (lg s) \<longleftrightarrow> log_slot b (lg s) = lcount (lg s)" using n(2) by linarith
  let ?g = "\<lambda>l. l\<lparr>lh_block := (lh_block l)[log_slot b (lg s) := sint b]\<rparr>"
  have e: "(if int (log_slot b (lg s)) = lh_n (lg (upd_lg ?g (hold Llog s))) then upd_lg (\<lambda>l. l\<lparr>lh_n := lh_n l + 1\<rparr>) (upd_lg ?g (hold Llog s))
      else upd_lg ?g (hold Llog s)) = upd_lg (recorded b) (hold Llog s)"
    by (simp add: kn upd_lg_def recorded_def)
  show ?thesis using assms(3-8) q O(6) k e unfolding log_write_def
    by (simp add: lock_eqs Let_def hold_lemmas)
qed


section \<open>Transactions\<close>

text \<open>
  \<open>log_home l D z\<close>: the log is where the super block of disk \<open>D\<close> says, it is on the disk of \<open>z\<close> blocks,
  it does not have more blocks than \<open>LOGSIZE\<close>, and its header on disk is empty.
\<close>

definition log_home :: "log \<Rightarrow> (u32 \<Rightarrow> block) \<Rightarrow> u32 \<Rightarrow> bool" where
  "log_home l D z \<longleftrightarrow> sint (sb_logstart (get_superblock (D 1))) = lg_start l \<and> sint (sb_nlog (get_superblock (D 1))) = lg_size l \<and>
     lg_size l \<le> LOGSIZE \<and> 1 < z \<and> 1 \<notin> logset l \<and> hd_n (D (lstart l)) = 0"

definition tx_inv :: "'a gst_scheme \<Rightarrow> bool" where
  "tx_inv s \<longleftrightarrow> cache_inv s \<and> lk_free Llog s \<and> log_home (lg s) (disk (bc s)) (disksize (bc s)) \<and> 0 \<le> lh_n (lg s) \<and>
     log_ok (lg s) (lcount (lg s)) (disksize (bc s)) \<and> pinned (bc s) = hblk (lg s) ` {..<lcount (lg s)} \<and> 1 \<notin> hblk (lg s) ` {..<lcount (lg s)} \<and>
     ran (opened s) \<inter> logset (lg s) = {} \<and> \<not> lg_committing (lg s)"

text \<open>\<open>tx_idle s\<close>: no operation is under way and nothing waits to be written.\<close>

definition tx_idle :: "'a gst_scheme \<Rightarrow> bool" where
  "tx_idle s \<longleftrightarrow> tx_inv s \<and> lg_outstanding (lg s) = 0 \<and> lh_n (lg s) = 0 \<and> opened s = Map.empty"

text \<open>
  What a system call does between \<open>begin_op\<close> and \<open>end_op\<close>: it reads blocks outside the log, changes the
  data of buffers it holds, passes them to \<open>log_write\<close>, and gives back those that it has not changed
  or has passed to \<open>log_write\<close>. It does not change the super block.
\<close>

inductive tx_step :: "'a gst_scheme \<Rightarrow> 'a gst_scheme \<Rightarrow> bool" where
  tx_bread: "b < disksize (bc s) \<Longrightarrow> b \<notin> logset (lg s) \<Longrightarrow> b \<notin> ran (opened s) \<Longrightarrow> bread 1 b s = Ok i s' \<Longrightarrow> tx_step s s'"
| tx_change: "opened s i = Some b \<Longrightarrow> length d = BSIZE \<Longrightarrow> tx_step s (upd_buf i (\<lambda>x. x\<lparr>b_data := d\<rparr>) s)"
| tx_log: "opened s i = Some b \<Longrightarrow> b \<noteq> 1 \<Longrightarrow> log_write i s = Ok () s' \<Longrightarrow> tx_step s s'"
| tx_brelse: "opened s i = Some b \<Longrightarrow> cview (bc s) b = disk (bc s) b \<or> b \<in> pinned (bc s) \<Longrightarrow> brelse i s = Ok () s' \<Longrightarrow> tx_step s s'"

definition tx_frame :: "'a gst_scheme \<Rightarrow> 'a gst_scheme \<Rightarrow> bool" where
  "tx_frame s s' \<longleftrightarrow> disk (bc s') = disk (bc s) \<and> disksize (bc s') = disksize (bc s) \<and> dk_hist (bc s') = dk_hist (bc s) \<and>
     lg s' = (lg s)\<lparr>lh_n := lh_n (lg s'), lh_block := lh_block (lg s')\<rparr>"

lemma tx_frameI:
  "disk (bc s') = disk (bc s) \<Longrightarrow> disksize (bc s') = disksize (bc s) \<Longrightarrow> dk_hist (bc s') = dk_hist (bc s) \<Longrightarrow> lg s' = lg s \<Longrightarrow> tx_frame s s'"
  by (simp add: tx_frame_def)

lemma logset_cong: "lg_start l' = lg_start l \<Longrightarrow> logset l' = logset l" "lg_start l' = lg_start l \<Longrightarrow> lstart l' = lstart l"
  by (simp_all add: logset_def lstart_def lblk_def image_def)

lemma tx_frame_lg:
  assumes "tx_frame s s'"
  shows "lg_start (lg s') = lg_start (lg s)" "lg_outstanding (lg s') = lg_outstanding (lg s)" "lg_size (lg s') = lg_size (lg s)"
    "lg_committing (lg s') = lg_committing (lg s)" "lg_dev (lg s') = lg_dev (lg s)"
proof -
  have e: "lg s' = (lg s)\<lparr>lh_n := lh_n (lg s'), lh_block := lh_block (lg s')\<rparr>" using assms by (simp add: tx_frame_def)
  show "lg_start (lg s') = lg_start (lg s)" "lg_outstanding (lg s') = lg_outstanding (lg s)" "lg_size (lg s') = lg_size (lg s)"
    "lg_committing (lg s') = lg_committing (lg s)" "lg_dev (lg s') = lg_dev (lg s)"
    by (rule trans [OF arg_cong [OF e]], simp)+
qed

lemma tx_frame_trans:
  assumes "tx_frame s t" "tx_frame t u"
  shows "tx_frame s u"
proof -
  have "lg u = (lg s)\<lparr>lh_n := lh_n (lg u), lh_block := lh_block (lg u)\<rparr>"
    using tx_frame_lg [OF assms(1)] tx_frame_lg [OF assms(2)] by (intro log.equality) simp_all
  then show ?thesis using assms unfolding tx_frame_def by simp
qed

text \<open>A step that leaves the log, the disk and what is pinned alone keeps the invariant.\<close>

lemma tx_inv_cache:
  assumes "tx_inv s" "cache_inv s'" "lg s' = lg s" "locks s' = locks s" "disk (bc s') = disk (bc s)" "disksize (bc s') = disksize (bc s)"
    "pinned (bc s') = pinned (bc s)" "ran (opened s') \<inter> logset (lg s) = {}"
  shows "tx_inv s'"
  using assms by (simp add: tx_inv_def lk_free_def)

lemma bread_room:
  assumes inv: "cache_inv s" and r: "bread 1 b s = Ok i s'"
  shows "(\<exists>i. caches (bc s) i b) \<or> (\<exists>i < NBUF. \<not> held s i \<and> \<not> dirty (buf_at s i))"
proof (rule ccontr)
  assume "\<not> ?thesis"
  then have "bget 1 b s = Panic ''bget: no buffers''" by (intro bget_full [OF inv]) auto
  then show False using r by (simp add: bread_def)
qed

lemma tx_step_inv:
  fixes s :: "'a gst_scheme"
  assumes "tx_step s s'" "tx_inv s"
  shows "tx_inv s' \<and> tx_frame s s'"
  using assms
proof (induction rule: tx_step.induct)
  case (tx_bread b s i s')
  have inv: "cache_inv s" and ls: "ran (opened s) \<inter> logset (lg s) = {}" using tx_bread.prems by (simp_all add: tx_inv_def)
  obtain j t where t: "bread 1 b s = Ok j t" "cache_inv t" "opened s j = None" "opened t = (opened s)(j \<mapsto> b)" "pinned (bc t) = pinned (bc s)"
    "disk (bc t) = disk (bc s)" "disksize (bc t) = disksize (bc s)" "dk_hist (bc t) = dk_hist (bc s)" "only_bc s t"
    using bread_spec [OF inv tx_bread.hyps(1,3) bread_room [OF inv tx_bread.hyps(4)]] by metis
  have e: "t = s'" using t(1) tx_bread.hyps(4) by simp
  have "ran (opened t) \<inter> logset (lg s) = {}" using t(3,4) ls tx_bread.hyps(2) by simp
  then have "tx_inv t" using tx_inv_cache [OF tx_bread.prems t(2)] only_bc_lg [OF t(9)] only_bc_locks [OF t(9)] t by simp
  moreover have "tx_frame s t" by (rule tx_frameI) (use t only_bc_lg [OF t(9)] in simp_all)
  ultimately show ?case using e by simp
next
  case (tx_change s i b d)
  have inv: "cache_inv s" and ls: "ran (opened s) \<inter> logset (lg s) = {}" using tx_change.prems by (simp_all add: tx_inv_def)
  note d = set_data_spec [OF inv tx_change.hyps]
  let ?t = "upd_buf i (\<lambda>x. x\<lparr>b_data := d\<rparr>) s"
  have "locks ?t = locks s" by (simp add: upd_buf_def upd_bc_def)
  then have "tx_inv ?t" using tx_inv_cache [OF tx_change.prems d(1)] d(2,4) ls by simp
  then show ?case by (simp add: tx_frame_def)
next
  case (tx_log s i b s')
  note T = tx_log.prems [unfolded tx_inv_def log_home_def]
  note O = openedD [OF conjunct1 [OF T] tx_log.hyps(1)]
  have g: "length (lh_block (lg s)) = 30" using T by (simp add: log_ok_def)
  have n: "lh_n (lg s) < lg_size (lg s) - 1" "1 \<le> lg_outstanding (lg s)" using tx_log.hyps(3) by (simp_all add: log_write_def split: if_splits)
  have b: "b \<notin> logset (lg s)" using T tx_log.hyps(1) by (auto simp: ran_def)
  let ?u = "upd_lg (recorded b) s" let ?t = "upd_buf i (\<lambda>c. c\<lparr>b_flags := b_flags c OR B_DIRTY\<rparr>) ?u"
  have e: "s' = ?t" using log_write_spec [OF _ tx_log.hyps(1) g] T n tx_log.hyps(3) by simp
  have R: "log_ok (recorded b (lg s)) (lcount (recorded b (lg s))) (disksize (bc s))"
    "hblk (recorded b (lg s)) ` {..<lcount (recorded b (lg s))} = insert b (pinned (bc s))"
    "logset (recorded b (lg s)) = logset (lg s)" "lstart (recorded b (lg s)) = lstart (lg s)" "0 \<le> lh_n (recorded b (lg s))"
    using recorded_ok [of "lg s" "disksize (bc s)" b] T n O(10) b by simp_all
  have P: "cache_inv ?t" "opened ?t = opened s" "pinned (bc ?t) = insert b (pinned (bc s))"
    using pin_spec [of ?u i b] T tx_log.hyps(1) by simp_all
  have f: "lg_start (recorded b (lg s)) = lg_start (lg s)" "lg_size (recorded b (lg s)) = lg_size (lg s)"
    "lg_committing (recorded b (lg s)) = lg_committing (lg s)" by (simp_all add: recorded_def)
  have "tx_inv ?t" unfolding tx_inv_def log_home_def using T R P f tx_log.hyps(2) by simp
  moreover have "tx_frame s ?t" by (simp add: tx_frame_def recorded_def)
  ultimately show ?case using e by simp
next
  case (tx_brelse s i b s')
  have inv: "cache_inv s" and ls: "ran (opened s) \<inter> logset (lg s) = {}" using tx_brelse.prems by (simp_all add: tx_inv_def)
  obtain t where t: "brelse i s = Ok () t" "cache_inv t" "opened t = (opened s)(i := None)" "pinned (bc t) = pinned (bc s)"
    "disk (bc t) = disk (bc s)" "disksize (bc t) = disksize (bc s)" "dk_hist (bc t) = dk_hist (bc s)" "only_bc s t"
    using brelse_spec [OF inv tx_brelse.hyps(1,2)] by metis
  have e: "t = s'" using t(1) tx_brelse.hyps(3) by simp
  have "ran (opened t) \<inter> logset (lg s) = {}" using t(3) ls by (auto simp: ran_def split: if_splits)
  then have "tx_inv t" using tx_inv_cache [OF tx_brelse.prems t(2)] only_bc_lg [OF t(8)] only_bc_locks [OF t(8)] t by simp
  moreover have "tx_frame s t" by (rule tx_frameI) (use t only_bc_lg [OF t(8)] in simp_all)
  ultimately show ?case using e by simp
qed

lemma tx_steps_inv:
  assumes "tx_step\<^sup>*\<^sup>* s s'" "tx_inv s"
  shows "tx_inv s' \<and> tx_frame s s'"
  using assms
proof (induction rule: rtranclp_induct)
  case base
  then show ?case by (simp add: tx_frameI)
next
  case (step t u)
  then show ?case using tx_step_inv tx_frame_trans by blast
qed

end
