(* ===== verification/Atomic.thy ===== *)
theory Atomic
  imports Tx
begin

unbundle bit_operations_syntax

text \<open>
  A transaction as a whole: what \<open>begin_op\<close> and \<open>end_op\<close> of kernel/log.c do around the steps of a
  system call, and what \<open>initlog\<close> finds after a power failure at any of its disk writes.
\<close>

section \<open>Starting the machine\<close>

lemma lg_links [simp]: "lg (set_next p q s) = lg s" "lg (set_prev p q s) = lg s" "lg (link_front i s) = lg s" "lg (upd_bc f s) = lg s"
    "lg (initlock l nm s) = lg s" "lg (initsleeplock l nm s) = lg s"
  by (auto simp: set_next_def set_prev_def link_front_def upd_bc_def Let_def upd_buf_def initlock_def initsleeplock_def upd_sl_def split: option.split)

lemma lg_binit_loop [simp]: "lg (binit_loop us s) = lg s"
  by (induction us arbitrary: s) auto

lemma lg_binit [simp]: "lg (binit s) = lg s"
  unfolding binit_def Let_def by (simp del: upt_conv_Cons upt_rec_numeral binit_loop.simps)

text \<open>\<open>reboots r D z\<close>: the machine before \<open>binit\<close>, with disk \<open>D\<close> and the zero \<open>log\<close> of static data.\<close>

definition reboots :: "'a gst_scheme \<Rightarrow> (u32 \<Rightarrow> block) \<Rightarrow> u32 \<Rightarrow> bool" where
  "reboots r D z \<longleftrightarrow> boots r D z \<and> length (lh_block (lg r)) = 30 \<and> lg_outstanding (lg r) = 0 \<and> \<not> lg_committing (lg r)"

text \<open>What \<open>initlog\<close> takes from the super block.\<close>

definition placed :: "block \<Rightarrow> log \<Rightarrow> log" where
  "placed b l = l\<lparr>lg_start := sint (sb_logstart (get_superblock b)), lg_size := sint (sb_nlog (get_superblock b)), lg_dev := 1\<rparr>"

lemma readsb_spec:
  fixes s :: "'a bst_scheme"
  assumes inv: "cache_inv s" and o: "op (cabs s) = Map.empty" and p: "pn (cabs s) = {}" and z: "1 < sz (cabs s)"
  shows "\<exists>s'. readsb 1 s = Ok (get_superblock (dk (cabs s) 1)) s' \<and> cache_inv s' \<and> cabs s' = cabs s \<and> only_bc s s'"
proof -
  obtain i t where t: "bread 1 1 s = Ok i t" "cache_inv t" "only_bc s t" "cabs t = (cabs s)\<lparr>op := [i \<mapsto> 1]\<rparr>"
    using bio.l_read [OF inv z] o p by auto
  have v: "va (cabs s) 1 = dk (cabs s) 1" using bio.l_clean [OF inv] o p by simp
  have d: "b_data (buf_at t i) = dk (cabs s) 1" using bio.l_data [OF t(2), of i 1] t(4) v by simp
  obtain s' where s': "brelse i t = Ok () s'" "cache_inv s'" "only_bc t s'" "cabs s' = (cabs s)\<lparr>op := Map.empty\<rparr>"
    using bio.l_release [OF t(2), of i 1] t(4) v by auto
  have "readsb 1 s = Ok (get_superblock (dk (cabs s) 1)) s'" unfolding readsb_def using t(1) d s'(1) by (simp add: Let_def)
  moreover have "cabs s' = cabs s" using s'(4) o by simp
  moreover have "only_bc s s'" using t(3) s'(3) by (rule only_bc_trans)
  ultimately show ?thesis using s'(2) by blast
qed

lemma initlock_cache [simp]: "cache_inv s \<Longrightarrow> cache_inv (initlock Llog nm s)" "cabs (initlock l nm s) = cabs s"
  by (simp_all add: cache_inv_def cache_ready_def cabs_def opened_def held_def pid_of_def fun_eq_iff cong: option.case_cong)

lemma initlog_spec:
  fixes r :: "'a gst_scheme"
  defines "l \<equiv> placed (dk (cabs r) 1) (lg r)"
  assumes inv: "cache_inv r" and o: "op (cabs r) = Map.empty" and p: "pn (cabs r) = {}" and z: "1 < sz (cabs r)"
    and ok: "log_ok (loaded l (dk (cabs r) (lstart l))) (nat (hd_n (dk (cabs r) (lstart l)))) (sz (cabs r))"
  shows "\<exists>r' H. initlog 1 r = Ok () r' \<and> cache_inv r' \<and> op (cabs r') = Map.empty \<and> pn (cabs r') = {} \<and> hd_n H = 0 \<and>
    dk (cabs r') = (recovered l (dk (cabs r)))(lstart l := H) \<and> sz (cabs r') = sz (cabs r) \<and>
    lg r' = (loaded l (dk (cabs r) (lstart l)))\<lparr>lh_n := 0\<rparr> \<and> lk_free Llog r'"
proof -
  let ?i = "initlock Llog ''log'' r"
  obtain t where t: "readsb 1 ?i = Ok (get_superblock (dk (cabs r) 1)) t" "cache_inv t" "cabs t = cabs r" "only_bc ?i t"
    using readsb_spec [of ?i] inv o p z by auto
  have lt: "lg t = lg r" using only_bc_lg [OF t(4)] by simp
  let ?u = "upd_lg (placed (dk (cabs r) 1)) t"
  have u: "cache_inv ?u" "cabs ?u = cabs r" "lg ?u = l" using t(2,3) lt by (simp_all add: l_def)
  obtain r' H where r': "recover_from_log ?u = Ok () r'" "cache_inv r'" "op (cabs r') = Map.empty" "pn (cabs r') = {}" "hd_n H = 0"
    "dk (cabs r') = (recovered l (dk (cabs r)))(lstart l := H)" "sz (cabs r') = sz (cabs r)"
    "lg r' = (loaded l (dk (cabs r) (lstart l)))\<lparr>lh_n := 0\<rparr>" "locks r' = locks ?u"
    using recover_spec [OF u(1)] o p ok unfolding u(2,3) by auto
  have "lk_free Llog r'" using r'(9) only_bc_locks [OF t(4)] by (simp add: lk_free_def initlock_def)
  moreover have "initlog 1 r = Ok () r'" using t(1) r'(1) unfolding initlog_def placed_def by (simp add: Let_def)
  ultimately show ?thesis using r' by blast
qed


section \<open>The end of a transaction\<close>

lemma wakeup1_lg [simp]: "lg (wakeup1 ch s) = lg s"
  by (simp add: wakeup1_def)

lemma wakeup1_cache [simp]: "cache_inv s \<Longrightarrow> cache_inv (wakeup1 ch s)" "opened (wakeup1 ch s) = opened s"
  by (auto simp: cache_inv_def cache_ready_def opened_def held_def fun_eq_iff)

lemma upd_lg_twice [simp]: "upd_lg f (upd_lg g s) = upd_lg (\<lambda>l. f (g l)) s"
  by (simp add: upd_lg_def)

lemma begin_op_idle:
  assumes "tx_idle s"
  shows "begin_op s = Ok () (upd_lg (\<lambda>l. l\<lparr>lg_outstanding := lg_outstanding l + 1\<rparr>) s)"
  using assms by (simp add: begin_op_def begin_op_loop_def tx_idle_def tx_inv_def cache_inv_def cache_ready_def lock_eqs)

lemma begin_op_inv:
  assumes "tx_idle s" "begin_op s = Ok () t"
  shows "tx_inv t" "lh_n (lg t) = 0" "lg_outstanding (lg t) = 1" "logset (lg t) = logset (lg s)"
    "lg_size (lg t) = lg_size (lg s)" "opened t = Map.empty" "bc t = bc s"
proof -
  have e: "t = upd_lg (\<lambda>l. l\<lparr>lg_outstanding := lg_outstanding l + 1\<rparr>) s" using assms begin_op_idle by fastforce
  have l: "logset (lg t) = logset (lg s)" "lstart (lg t) = lstart (lg s)" using logset_cong [of "lg t" "lg s"] e by simp_all
  then show "tx_inv t" using assms(1) e by (simp add: tx_idle_def tx_inv_def log_home_def log_ok_def hblk_def lcount_def)
  show "lh_n (lg t) = 0" "lg_outstanding (lg t) = 1" "logset (lg t) = logset (lg s)" "lg_size (lg t) = lg_size (lg s)"
    "opened t = Map.empty" "bc t = bc s" using assms(1) e l by (simp_all add: tx_idle_def)
qed

definition closing :: "log \<Rightarrow> log" where
  "closing l = l\<lparr>lg_outstanding := lg_outstanding l - 1, lg_committing := True\<rparr>"

lemma end_op_last:
  fixes s :: "'a gst_scheme"
  assumes inv: "cache_inv s" "lk_free Llog s" and l: "lg_outstanding (lg s) = 1" "\<not> lg_committing (lg s)"
    and c: "commit (upd_lg closing s) = Ok () t" "cache_inv t" "lk_free Llog t"
  shows "end_op s = Ok () (wakeup1 Clog (upd_lg (\<lambda>l. l\<lparr>lg_committing := False\<rparr>) t))"
proof -
  have q: "quiet s" "lk_free Lptable s" "quiet t" "lk_free Lptable t" using inv c(2) by (simp_all add: cache_inv_def cache_ready_def)
  have w: "wakeup Clog (hold Llog (upd_lg f t)) = Ok () (wakeup1 Clog (hold Llog (upd_lg f t)))" for f
    using q c(3) by (intro wakeup_eq) (simp_all add: hold_lemmas)
  have cl: "upd_lg (\<lambda>l. l\<lparr>lg_outstanding := lg_outstanding l - 1, lg_committing := True\<rparr>) s = upd_lg closing s"
    by (simp add: upd_lg_def closing_def)
  show ?thesis unfolding end_op_def using l q inv(2) c(1,3) w
    by (simp add: lock_eqs Let_def cl)
qed

lemma closing_log [simp]: "log_ok (closing l) n z = log_ok l n z" "lcount (closing l) = lcount l" "hblk (closing l) = hblk l"
    "lstart (closing l) = lstart l" "logset (closing l) = logset l" "lh_n (closing l) = lh_n l" "lblk (closing l) = lblk l"
proof -
  show h: "hblk (closing l) = hblk l" and "lstart (closing l) = lstart l" and b: "lblk (closing l) = lblk l" and "lh_n (closing l) = lh_n l"
    and "lcount (closing l) = lcount l"
    by (simp_all add: closing_def fun_eq_iff hblk_def lstart_def lblk_def lcount_def)
  then show ls: "logset (closing l) = logset l" by (simp add: logset_def)
  show "log_ok (closing l) n z = log_ok l n z" by (simp add: log_ok_def h ls) (simp add: closing_def)
qed

lemma commit_replayed:
  assumes "log_ok l (lcount l) z" "b \<notin> logset l"
  shows "replay (commit_writes l V) D b = (if b \<in> hblk l ` {..<lcount l} then V b else D b)"
proof -
  have n: "lcount l < 30" using assms(1) by (simp add: log_ok_def)
  then have "b \<notin> lblk l ` {..<lcount l}" "b \<noteq> lstart l" using assms(2) by (auto simp: logset_def)
  then show ?thesis
    using homes_replayed [OF assms(1), of V] logs_replayed(1) [OF assms(1) order_refl, of b V D]
    by (simp add: commit_writes_def Let_def log_writes_def)
qed

text \<open>The writes of the last \<open>end_op\<close>: those of \<open>commit\<close>, or none when nothing was logged.\<close>

definition end_writes :: "log \<Rightarrow> (u32 \<Rightarrow> block) \<Rightarrow> (u32 \<times> block) list" where
  "end_writes l V = (if 0 < lh_n l then commit_writes l V else [])"

lemma commit_idle:
  fixes s :: "'a gst_scheme"
  assumes t: "tx_inv s" and o: "opened s = Map.empty"
  shows "\<exists>t. commit (upd_lg closing s) = Ok () t \<and> cache_inv t \<and> opened t = Map.empty \<and> pinned (bc t) = {} \<and> locks t = locks s \<and>
    lg t = (closing (lg s))\<lparr>lh_n := 0\<rparr> \<and> dk_hist (bc t) = dk_hist (bc s) @ end_writes (closing (lg s)) (cview (bc s)) \<and>
    disk (bc t) = replay (end_writes (closing (lg s)) (cview (bc s))) (disk (bc s)) \<and> disksize (bc t) = disksize (bc s)"
proof -
  let ?u = "upd_lg closing s"
  note T = t [unfolded tx_inv_def]
  have u: "cabs ?u = cabs s" "cache_inv ?u" "lg ?u = closing (lg s)" using T by simp_all
  show ?thesis
  proof (cases "0 < lh_n (lg s)")
    case True
    have "op (cabs ?u) = Map.empty" "log_ok (lg ?u) (lcount (lg ?u)) (sz (cabs ?u))" "pn (cabs ?u) = hblk (lg ?u) ` {..<lcount (lg ?u)}" "0 < lh_n (lg ?u)"
      using T o True unfolding u by (simp_all add: cabs_def)
    from commit_spec [OF u(2) this] obtain v where v: "commit ?u = Ok () v" "cache_inv v" "lg v = (lg ?u)\<lparr>lh_n := 0\<rparr>" "op (cabs v) = Map.empty"
      "pn (cabs v) = {}" "hi (cabs v) = hi (cabs s) @ commit_writes (lg ?u) (va (cabs s))"
      "dk (cabs v) = replay (commit_writes (lg ?u) (va (cabs s))) (dk (cabs s))" "sz (cabs v) = sz (cabs s)" "locks v = locks ?u"
      unfolding u by blast
    then show ?thesis using True by (intro exI [of _ v]) (simp add: end_writes_def cabs_def)
  next
    case False
    then have n: "lh_n (lg s) = 0" using T by simp
    have "(closing (lg s))\<lparr>lh_n := 0\<rparr> = closing (lg s)" using n by (intro log.equality) (simp_all add: closing_def)
    moreover have "pinned (bc s) = {}" using T n by (simp add: lcount_def)
    ultimately show ?thesis using T n o u by (simp add: commit_def end_writes_def)
  qed
qed


section \<open>Restart\<close>

lemma end_writes_targets:
  assumes "log_ok l (lcount l) z" "b \<in> fst ` set (take k (end_writes l V))"
  shows "b \<in> logset l \<union> hblk l ` {..<lcount l}"
proof -
  have n: "lcount l < 30" using assms(1) by (simp add: log_ok_def)
  have "b \<in> fst ` set (end_writes l V)" using assms(2) set_take_subset [of k "end_writes l V"] by blast
  then have "b \<in> insert (lstart l) (lblk l ` {..<lcount l}) \<union> hblk l ` {..<lcount l}"
    by (auto simp: end_writes_def commit_writes_def Let_def log_writes_def home_writes_def lessThan_atLeast0 split: if_splits)
  then show ?thesis using n by (auto simp: logset_def)
qed

lemma end_recovers:
  assumes ok: "log_ok l (lcount l) z" and n: "0 \<le> lh_n l" and D: "hd_n (D (lstart l)) = 0" and V: "length (V (lstart l)) = BSIZE"
    and r: "lg_start r = lg_start l" "lg_dev r = lg_dev l" "length (lh_block r) = 30" and k: "k \<le> length (end_writes l V)"
  defines "C \<equiv> replay (take k (end_writes l V)) D"
  shows "log_ok (loaded r (C (lstart r))) (nat (hd_n (C (lstart r)))) z \<and> (\<forall>b. b \<notin> logset l \<longrightarrow> recovered r C b = after_crash l k V D b)"
proof (cases "0 < lh_n l")
  case True
  then show ?thesis using crash_recovers [where V = V and D = D, OF ok n D V r] k by (simp add: end_writes_def C_def)
next
  case False
  then have "C = D" "k = 0" using k by (simp_all add: end_writes_def C_def)
  then show ?thesis using loaded_none [where D = D, OF ok r D] by (simp add: after_crash_def)
qed

lemma initlog_idle:
  fixes r :: "'a gst_scheme" and C :: "u32 \<Rightarrow> block"
  defines "l \<equiv> placed (C 1) (lg r)"
  assumes R: "reboots r C z" and z: "1 < z" "1 \<notin> logset l" "lg_size l \<le> LOGSIZE"
    and ok: "log_ok (loaded l (C (lstart l))) (nat (hd_n (C (lstart l)))) z" and same: "recovered l C 1 = C 1"
  shows "\<exists>r'. initlog 1 (binit r) = Ok () r' \<and> tx_idle r' \<and> logset (lg r') = logset l \<and> lg_size (lg r') = lg_size l \<and> disksize (bc r') = z \<and>
    (\<forall>b. b \<noteq> lstart l \<longrightarrow> disk (bc r') b = recovered l C b)"
proof -
  note B = binit_inv [OF conjunct1 [OF R [unfolded reboots_def]]]
  have b: "cache_inv (binit r)" "op (cabs (binit r)) = Map.empty" "pn (cabs (binit r)) = {}" "dk (cabs (binit r)) = C" "sz (cabs (binit r)) = z"
    using B by (simp_all add: cabs_def)
  obtain r' H where r': "initlog 1 (binit r) = Ok () r'" "cache_inv r'" "op (cabs r') = Map.empty" "pn (cabs r') = {}" "hd_n H = 0"
    "dk (cabs r') = (recovered l C)(lstart l := H)" "sz (cabs r') = z" "lg r' = (loaded l (C (lstart l)))\<lparr>lh_n := 0\<rparr>" "lk_free Llog r'"
    using initlog_spec [OF b(1-3)] ok z(1) unfolding b(4,5) lg_binit l_def by auto
  have dk: "disk (bc r') b = recovered l C b" if "b \<noteq> lstart l" for b using r'(6) that by (simp add: cabs_def)
  have h: "disk (bc r') (lstart l) = H" "disksize (bc r') = z" using r'(6,7) by (simp_all add: cabs_def)
  have d1: "disk (bc r') 1 = C 1" using dk [of 1] z(2) same by (auto simp: logset_def)
  have lg: "lg_start (lg r') = lg_start l" "lg_size (lg r') = lg_size l" "lg_outstanding (lg r') = 0" "\<not> lg_committing (lg r')" "lh_n (lg r') = 0"
    "logset (lg r') = logset l" "lstart (lg r') = lstart l"
    using r'(8) R logset_cong [of "lg r'" l] by (simp_all add: reboots_def loaded_def l_def placed_def)
  have "log_ok (lg r') 0 z" using ok r'(8) by (simp add: log_ok_def)
  moreover have "log_home (lg r') (disk (bc r')) z" unfolding log_home_def lg d1 h(1) using r'(5) z by (simp add: l_def placed_def)
  moreover have "opened r' = Map.empty" "pinned (bc r') = {}" using r'(3,4) by (simp_all add: cabs_def)
  ultimately have "tx_idle r'" unfolding tx_idle_def tx_inv_def using lg r'(2,9) h(2) by (simp add: lcount_def)
  then show ?thesis using r'(1) dk lg h(2) by blast
qed

lemma restart:
  fixes u :: "'a gst_scheme" and r :: "'b gst_scheme"
  assumes t: "tx_inv u" and o: "opened u = Map.empty" and k: "k \<le> length (end_writes (closing (lg u)) (cview (bc u)))"
    and r: "reboots r (replay (take k (end_writes (closing (lg u)) (cview (bc u)))) (disk (bc u))) (disksize (bc u))"
  shows "\<exists>r'. initlog 1 (binit r) = Ok () r' \<and> tx_idle r' \<and> (\<forall>b. b \<notin> logset (lg u) \<longrightarrow>
    disk (bc r') b = (if k \<le> lcount (lg u) then disk (bc u) b else cview (bc u) b))"
proof -
  define D V l z where "D = disk (bc u)" and "V = cview (bc u)" and "l = closing (lg u)" and "z = disksize (bc u)"
  define C where "C = replay (take k (end_writes l V)) D"
  note T = t [unfolded tx_inv_def log_home_def, folded D_def z_def]
  have ok: "log_ok l (lcount l) z" "0 \<le> lh_n l" "hd_n (D (lstart l)) = 0" "1 \<notin> logset l \<union> hblk l ` {..<lcount l}" using T by (simp_all add: l_def)
  have lV: "length (V (lstart l)) = BSIZE" using va_length [of u] T by (simp add: V_def cabs_def)
  have cl: "V b = D b" if "b \<notin> hblk l ` {..<lcount l}" for b using cview_clean [of u b] T o that by (simp add: V_def D_def l_def)
  have C1: "C 1 = D 1" unfolding C_def by (rule replay_other) (use end_writes_targets [OF ok(1), of 1 k V] ok(4) in blast)
  note R = r [folded D_def V_def l_def z_def, folded C_def, unfolded reboots_def]
  let ?p = "placed (C 1) (lg r)"
  have p: "lg_start ?p = lg_start l" "lg_dev ?p = lg_dev l" "length (lh_block ?p) = 30" "lstart ?p = lstart l" "logset ?p = logset l"
    using T C1 R ok(1) logset_cong [of ?p l] by (simp_all add: placed_def l_def closing_def log_ok_def)
  note er = end_recovers [where V = V and D = D, OF ok(1-3) lV p(1-3) k [folded V_def l_def], folded C_def]
  have r1: "recovered ?p C b = (if k \<le> lcount (lg u) then D b else V b)" if "b \<notin> logset l" for b
    using er cl [of b] that by (simp add: after_crash_def l_def)
  have "recovered ?p C 1 = C 1" "lg_size ?p \<le> LOGSIZE" using r1 [of 1] cl [of 1] ok(4) C1 T by (simp_all add: placed_def)
  then obtain r' where "initlog 1 (binit r) = Ok () r'" "tx_idle r'" "\<And>b. b \<noteq> lstart l \<Longrightarrow> disk (bc r') b = recovered ?p C b"
    using initlog_idle [of r C z] R T er ok(4) p by (auto simp: reboots_def)
  then show ?thesis using r1 by (intro exI [of _ r']) (auto simp: logset_def l_def D_def V_def)
qed

lemma end_op_idle:
  fixes u :: "'a gst_scheme"
  defines "W \<equiv> end_writes (closing (lg u)) (cview (bc u))"
  assumes t: "tx_inv u" and o: "opened u = Map.empty" and one: "lg_outstanding (lg u) = 1"
  shows "\<exists>v. end_op u = Ok () v \<and> tx_idle v \<and> (\<forall>b. b \<notin> logset (lg u) \<longrightarrow> disk (bc v) b = cview (bc u) b) \<and>
    dk_hist (bc v) = dk_hist (bc u) @ W \<and> disk (bc v) = replay W (disk (bc u))"
proof -
  let ?l = "closing (lg u)"
  note T = t [unfolded tx_inv_def log_home_def]
  obtain c where c: "commit (upd_lg closing u) = Ok () c" "cache_inv c" "opened c = Map.empty" "pinned (bc c) = {}" "locks c = locks u"
    "lg c = ?l\<lparr>lh_n := 0\<rparr>" "dk_hist (bc c) = dk_hist (bc u) @ W" "disk (bc c) = replay W (disk (bc u))" "disksize (bc c) = disksize (bc u)"
    using commit_idle [OF t o] by (auto simp: W_def)
  let ?c = "upd_lg (\<lambda>l. l\<lparr>lg_committing := False\<rparr>) c" let ?v = "wakeup1 Clog ?c"
  have lc: "lk_free Llog c" using T c(5) by (simp add: lk_free_def)
  have e: "end_op u = Ok () ?v" using end_op_last [of u, OF _ _ one] T c(1,2) lc by simp
  have cl: "cview (bc u) b = disk (bc u) b" if "b \<notin> hblk (lg u) ` {..<lcount (lg u)}" for b using cview_clean [of u b] T o that by simp
  have dk: "disk (bc c) b = cview (bc u) b" if "b \<notin> logset (lg u)" for b
  proof (cases "0 < lh_n (lg u)")
    case True
    then show ?thesis using commit_replayed [of ?l "disksize (bc u)" b "cview (bc u)" "disk (bc u)"] T that cl [of b] c(8)
      by (simp add: W_def end_writes_def)
  next
    case False
    then show ?thesis using cl [of b] c(8) T by (simp add: W_def end_writes_def lcount_def)
  qed
  have d1: "disk (bc c) 1 = disk (bc u) 1" using dk [of 1] cl [of 1] T by simp
  have hd: "hd_n (disk (bc c) (lstart (lg u))) = 0"
  proof (cases "0 < lh_n (lg u)")
    case True
    let ?H = "encode_head ?l [0..<lcount ?l] (cview (bc u) (lstart ?l))"
    have lV: "length (cview (bc u) (lstart ?l)) = BSIZE" using va_length [of u] T by (simp add: cabs_def)
    have "lcount ?l < 30" using T by (simp add: log_ok_def)
    then have "length ?H = BSIZE" using length_encode [OF lV] by auto
    then have "hd_n (encode_head (?l\<lparr>lh_n := 0\<rparr>) [] ?H) = 0" using hd_n_encode [of ?H "[]" "?l\<lparr>lh_n := 0\<rparr>"] by simp
    then show ?thesis using True c(8) by (simp add: W_def end_writes_def commit_writes_def Let_def)
  next
    case False
    then show ?thesis using c(8) T by (simp add: W_def end_writes_def)
  qed
  have lg: "lg ?v = (lg u)\<lparr>lg_outstanding := 0, lg_committing := False, lh_n := 0\<rparr>" using c(6) one by (simp add: closing_def)
  have ls: "logset (lg ?v) = logset (lg u)" "lstart (lg ?v) = lstart (lg u)" unfolding lg by (rule logset_cong, simp)+
  have "log_ok (lg ?v) 0 (disksize (bc u))" using T unfolding lg by (simp add: log_ok_def)
  moreover have "log_home (lg ?v) (disk (bc c)) (disksize (bc u))" unfolding log_home_def ls unfolding lg d1 using hd T by simp
  moreover have "opened ?v = Map.empty" using c(3) by simp
  ultimately have "tx_idle ?v" unfolding tx_idle_def tx_inv_def using c(2,4,9) lc lg by (simp add: lcount_def)
  then show ?thesis using e dk c(7,8) by (intro exI [of _ ?v]) simp
qed

text \<open>
  C1: a system call that changes blocks between \<open>begin_op\<close> and \<open>end_op\<close>, through buffers that it
  passes to \<open>log_write\<close>, is atomic. From an idle log \<open>begin_op\<close> returns at once; nothing that
  the call does before \<open>end_op\<close> reaches the disk; \<open>end_op\<close> returns, leaves the log idle, and the disk
  then holds, outside the log, exactly what the call made of the blocks. If the power fails
  after any number \<open>k\<close> of the disk writes of \<open>end_op\<close>, then starting the machine again with
  \<open>binit\<close> and \<open>initlog\<close> returns with an idle log, and outside the log the disk holds either all the
  blocks as they were before the call (up to the write of the header) or all the blocks as the
  call left them (from the write of the header on).
\<close>

theorem transaction_atomic:
  fixes s :: "'a gst_scheme"
  assumes "tx_idle s"
  shows "\<exists>t. begin_op s = Ok () t \<and> (\<forall>u. tx_step\<^sup>*\<^sup>* t u \<and> opened u = Map.empty \<longrightarrow> disk (bc u) = disk (bc s) \<and>
    (\<exists>v W. end_op u = Ok () v \<and> tx_idle v \<and> (\<forall>b. b \<notin> logset (lg s) \<longrightarrow> disk (bc v) b = cview (bc u) b) \<and>
      dk_hist (bc v) = dk_hist (bc s) @ W \<and> disk (bc v) = replay W (disk (bc s)) \<and>
      (\<forall>k (r :: 'b gst_scheme). k \<le> length W \<and> reboots r (replay (take k W) (disk (bc s))) (disksize (bc s)) \<longrightarrow>
        (\<exists>r'. initlog 1 (binit r) = Ok () r' \<and> tx_idle r' \<and> (\<forall>b. b \<notin> logset (lg s) \<longrightarrow>
          disk (bc r') b = (if k \<le> lcount (lg u) then disk (bc s) b else cview (bc u) b))))))"
proof (rule exI [of _ "upd_lg (\<lambda>l. l\<lparr>lg_outstanding := lg_outstanding l + 1\<rparr>) s"], intro conjI allI impI)
  let ?t = "upd_lg (\<lambda>l. l\<lparr>lg_outstanding := lg_outstanding l + 1\<rparr>) s"
  show "begin_op s = Ok () ?t" by (rule begin_op_idle [OF assms])
  fix u assume u: "tx_step\<^sup>*\<^sup>* ?t u \<and> opened u = Map.empty"
  have t: "tx_inv ?t" by (rule begin_op_inv(1) [OF assms begin_op_idle [OF assms]])
  have f: "tx_inv u" "tx_frame ?t u" using tx_steps_inv [OF conjunct1 [OF u] t] by simp_all
  note F = f(2) [unfolded tx_frame_def] tx_frame_lg [OF f(2)]
  have d: "disk (bc u) = disk (bc s)" "disksize (bc u) = disksize (bc s)" "dk_hist (bc u) = dk_hist (bc s)" "lg_outstanding (lg u) = 1"
    "logset (lg u) = logset (lg s)"
    using F assms logset_cong [of "lg u" "lg s"] by (simp_all add: tx_idle_def)
  show "disk (bc u) = disk (bc s)" by (rule d(1))
  note e = end_op_idle [OF f(1) conjunct2 [OF u] d(4)] and r = restart [OF f(1) conjunct2 [OF u]]
  show "\<exists>v W. end_op u = Ok () v \<and> tx_idle v \<and> (\<forall>b. b \<notin> logset (lg s) \<longrightarrow> disk (bc v) b = cview (bc u) b) \<and>
      dk_hist (bc v) = dk_hist (bc s) @ W \<and> disk (bc v) = replay W (disk (bc s)) \<and>
      (\<forall>k (r :: 'b gst_scheme). k \<le> length W \<and> reboots r (replay (take k W) (disk (bc s))) (disksize (bc s)) \<longrightarrow>
        (\<exists>r'. initlog 1 (binit r) = Ok () r' \<and> tx_idle r' \<and> (\<forall>b. b \<notin> logset (lg s) \<longrightarrow>
          disk (bc r') b = (if k \<le> lcount (lg u) then disk (bc s) b else cview (bc u) b))))"
    using e r unfolding d by blast
qed


lemma update_runs:
  fixes s :: "'a gst_scheme"
  assumes t: "tx_inv s" and o: "opened s = Map.empty" and n: "lh_n (lg s) < lg_size (lg s) - 1" "1 \<le> lg_outstanding (lg s)"
    and b: "b < disksize (bc s)" "b \<notin> logset (lg s)" "b \<noteq> 1" and d: "length d = BSIZE"
  shows "\<exists>u. tx_step\<^sup>*\<^sup>* s u \<and> opened u = Map.empty \<and> cview (bc u) = (cview (bc s))(b := d)"
proof -
  note T = t [unfolded tx_inv_def]
  have "card (pinned (bc s) \<union> ran (opened s)) < NBUF" using homes_card [of "lg s" "lcount (lg s)" "disksize (bc s)" "pinned (bc s)"] T o by simp
  then have r: "\<exists>i < NBUF. \<not> held s i \<and> \<not> dirty (buf_at s i)" using room_free [of s] T by blast
  obtain i s1 where s1: "bread 1 b s = Ok i s1" "cache_inv s1" "opened s1 = [i \<mapsto> b]" "cview (bc s1) = cview (bc s)" "only_bc s s1"
    using bread_spec [of s b thesis] T b o r by simp
  have st1: "tx_step s s1" by (rule tx_bread [OF b(1,2) _ s1(1)]) (use o in simp)
  let ?s2 = "upd_buf i (\<lambda>x. x\<lparr>b_data := d\<rparr>) s1"
  have s1o: "opened s1 i = Some b" using s1(3) by simp
  have st2: "tx_step s1 ?s2" by (rule tx_change [OF s1o d])
  note D = set_data_spec [OF s1(2) s1o d]
  have s2: "opened ?s2 i = Some b" "cview (bc ?s2) = (cview (bc s))(b := d)" using D s1(3,4) by simp_all
  have i2: "tx_inv ?s2" "lg ?s2 = lg s" using tx_step_inv [OF st1 t] tx_step_inv [OF st2] only_bc_lg [OF s1(5)] by auto
  let ?s3 = "upd_buf i (\<lambda>c. c\<lparr>b_flags := b_flags c OR B_DIRTY\<rparr>) (upd_lg (recorded b) ?s2)"
  have s3: "log_write i ?s2 = Ok () ?s3"
    using log_write_spec [OF D(1) s2(1)] i2 n T by (simp add: tx_inv_def log_ok_def log_home_def)
  have st3: "tx_step ?s2 ?s3" by (rule tx_log [OF s2(1) b(3) s3])
  note P = pin_spec [of "upd_lg (recorded b) ?s2" i b]
  have p: "cache_inv ?s3" "opened ?s3 i = Some b" "opened ?s3 = [i \<mapsto> b]" "b \<in> pinned (bc ?s3)" "cview (bc ?s3) = (cview (bc s))(b := d)"
    using P D(1,2) s1(3) s2 by simp_all
  obtain u where u: "brelse i ?s3 = Ok () u" "opened u = (opened ?s3)(i := None)" "cview (bc u) = cview (bc ?s3)"
    by (rule brelse_spec [OF p(1,2) disjI2 [OF p(4)]]) blast
  have st4: "tx_step ?s3 u" by (rule tx_brelse [OF p(2) disjI2 [OF p(4)] u(1)])
  have "tx_step\<^sup>*\<^sup>* s u" using st1 st2 st3 st4 by (meson converse_rtranclp_into_rtranclp r_into_rtranclp)
  moreover have "opened u = Map.empty" using u(2) p(3) by simp
  ultimately show ?thesis using u(3) p(5) by auto
qed

text \<open>A machine with an empty disk of 1000 blocks, whose log starts at block 2.\<close>

definition ex_disk :: "u32 \<Rightarrow> block" where
  "ex_disk b = (if b = 1 then put (put (replicate BSIZE 0) 12 (bytes32 30)) 16 (bytes32 2) else replicate BSIZE 0)"

definition ex_gst :: gst where
  "ex_gst = bst.extend (sst.extend ex_sst
     \<lparr>bc = \<lparr>bufs = replicate NBUF \<lparr>b_flags = 0, b_dev = 0, b_blockno = 0, b_refcnt = 0, b_prev = None, b_next = None,
          b_data = replicate BSIZE 0\<rparr>, head_prev = None, head_next = None, disk = ex_disk, disksize = 1000, dk_hist = []\<rparr>\<rparr>)
     \<lparr>lg = \<lparr>lg_start = 0, lg_size = 0, lg_outstanding = 0, lg_committing = False, lg_dev = 0, lh_n = 0, lh_block = replicate 30 0\<rparr>\<rparr>"

lemma ex_gst_truncate: "lst.truncate ex_gst = ex_lst"
  by (simp add: ex_gst_def bst.defs sst.defs ex_sst_def vst.defs pst.defs ex_pst_def cst.defs ex_cst_def mst.defs ex_mst_def lst.defs)

lemma ex_gst_fields:
  "quiet ex_gst" "lk_free l ex_gst" "curproc ex_gst = Some 0" "procs ex_gst = procs ex_sst"
  "lg ex_gst = \<lparr>lg_start = 0, lg_size = 0, lg_outstanding = 0, lg_committing = False, lg_dev = 0, lh_n = 0, lh_block = replicate 30 0\<rparr>"
  "bufs (bc ex_gst) = replicate NBUF \<lparr>b_flags = 0, b_dev = 0, b_blockno = 0, b_refcnt = 0, b_prev = None, b_next = None, b_data = replicate BSIZE 0\<rparr>"
  "disk (bc ex_gst) = ex_disk" "disksize (bc ex_gst) = 1000"
  using lst_truncate(1) [of ex_gst] lst_truncate(2) [of l ex_gst] lst_truncate_cpu [of ex_gst] ex_lst_ready ex_lst_cpu
  by (simp_all add: ex_gst_truncate) (simp_all add: ex_gst_def bst.defs sst.defs)

lemma ex_reboots: "reboots ex_gst ex_disk 1000"
proof -
  have "0 < length (procs ex_sst)" by (simp add: ex_sst_def vst.defs pst.defs ex_pst_def cst.defs)
  moreover have "length (ex_disk b) = BSIZE" for b by (simp add: ex_disk_def bytes32_def)
  ultimately show ?thesis by (simp add: reboots_def boots_def ex_gst_fields)
qed


lemma ex_idle: "\<exists>s. initlog 1 (binit ex_gst) = Ok () s \<and> tx_idle s \<and> 100 \<notin> logset (lg s) \<and> lg_size (lg s) = 30 \<and> disksize (bc s) = 1000"
proof -
  let ?l = "placed (ex_disk 1) (lg ex_gst)"
  have g: "get32 (ex_disk 1) 12 = 30" "get32 (ex_disk 1) 16 = 2"
    using get32_put_other [of 16 "bytes32 2" "put (replicate BSIZE 0) 12 (bytes32 30)" 12] by (simp_all add: ex_disk_def)
  have l: "lg_start ?l = 2" "lg_size ?l = 30" "lg_dev ?l = 1" "lh_block ?l = replicate 30 0"
    using g by (simp_all add: placed_def get_superblock_def ex_gst_fields)
  have far: "b \<notin> logset ?l" if "b = 1 \<or> b = 100" for b
  proof -
    have "(of_int (2 + int t + 1) :: u32) \<noteq> b" if "t < 29" for t
    proof
      assume "(of_int (2 + int t + 1) :: u32) = b"
      then have "uint (of_int (2 + int t + 1) :: u32) = uint b" by simp
      then show False using uint_small [of "2 + int t + 1" 1000] that \<open>b = 1 \<or> b = 100\<close> by auto
    qed
    then show ?thesis using that l(1) by (auto simp: logset_def lstart_def lblk_def)
  qed
  have "lstart ?l = 2" unfolding lstart_def l(1) by simp
  then have h: "hd_n (ex_disk (lstart ?l)) = 0" by (simp add: hd_n_def get32_def) (simp add: ex_disk_def)
  then have "log_ok (loaded ?l (ex_disk (lstart ?l))) (nat (hd_n (ex_disk (lstart ?l)))) 1000" "recovered ?l ex_disk 1 = ex_disk 1"
    using l by (simp_all add: log_ok_def loaded_def recovered_def home_writes_def)
  from initlog_idle [OF ex_reboots _ _ _ this] far l show ?thesis by auto
qed

theorem transaction_atomic_witness:
  "\<exists>s t u v. initlog 1 (binit ex_gst) = Ok () s \<and> begin_op s = Ok () t \<and> tx_step\<^sup>*\<^sup>* t u \<and> opened u = Map.empty \<and> end_op u = Ok () v \<and>
    disk (bc v) 100 = replicate BSIZE 7"
proof -
  obtain s where s: "initlog 1 (binit ex_gst) = Ok () s" "tx_idle s" "100 \<notin> logset (lg s)" "lg_size (lg s) = 30" "disksize (bc s) = 1000"
    using ex_idle by blast
  obtain t where t: "begin_op s = Ok () t" and run: "\<forall>u. tx_step\<^sup>*\<^sup>* t u \<and> opened u = Map.empty \<longrightarrow>
      (\<exists>v. end_op u = Ok () v \<and> (\<forall>b. b \<notin> logset (lg s) \<longrightarrow> disk (bc v) b = cview (bc u) b))"
    using transaction_atomic [OF s(2), where 'b = unit] by blast
  have "\<exists>u. tx_step\<^sup>*\<^sup>* t u \<and> opened u = Map.empty \<and> cview (bc u) = (cview (bc t))(100 := replicate BSIZE 7)"
    using s begin_op_inv [OF s(2) t] by (intro update_runs) simp_all
  then obtain u where u: "tx_step\<^sup>*\<^sup>* t u" "opened u = Map.empty" "cview (bc u) 100 = replicate BSIZE 7" by auto
  then show ?thesis using run s(1,3) t by metis
qed


section \<open>The size of the log\<close>

lemma tx_step_count:
  assumes "tx_step s s'" "tx_inv s" "lh_n (lg s) = 0 \<or> lh_n (lg s) < lg_size (lg s)"
  shows "lh_n (lg s') = 0 \<or> lh_n (lg s') < lg_size (lg s')"
  using assms
proof (induction rule: tx_step.induct)
  case (tx_bread b s i s')
  have inv: "cache_inv s" using tx_bread.prems by (simp add: tx_inv_def)
  obtain j t where "bread 1 b s = Ok j t" "only_bc s t"
    by (rule bread_spec [OF inv tx_bread.hyps(1,3) bread_room [OF inv tx_bread.hyps(4)]]) blast
  then show ?case using tx_bread.hyps(4) tx_bread.prems only_bc_lg by fastforce
next
  case (tx_log s i b s')
  note T = tx_log.prems(1) [unfolded tx_inv_def log_home_def]
  have n: "lh_n (lg s) < lg_size (lg s) - 1" "1 \<le> lg_outstanding (lg s)" using tx_log.hyps(3) by (simp_all add: log_write_def split: if_splits)
  then have "log_write i s = Ok () (upd_buf i (\<lambda>c. c\<lparr>b_flags := b_flags c OR B_DIRTY\<rparr>) (upd_lg (recorded b) s))"
    using log_write_spec [OF _ tx_log.hyps(1)] T by (simp add: log_ok_def)
  then show ?case using n tx_log.hyps(3) by (auto simp: recorded_def)
next
  case (tx_brelse s i b s')
  have inv: "cache_inv s" using tx_brelse.prems by (simp add: tx_inv_def)
  obtain t where "brelse i s = Ok () t" "only_bc s t" by (rule brelse_spec [OF inv tx_brelse.hyps(1,2)]) blast
  then show ?case using tx_brelse.hyps(3) tx_brelse.prems only_bc_lg by fastforce
qed simp

lemma tx_steps_count:
  assumes "tx_step\<^sup>*\<^sup>* s s'" "tx_inv s" "lh_n (lg s) = 0 \<or> lh_n (lg s) < lg_size (lg s)"
  shows "lh_n (lg s') = 0 \<or> lh_n (lg s') < lg_size (lg s')"
  using assms
proof (induction rule: rtranclp_induct)
  case (step t u)
  then show ?case using tx_step_count tx_steps_inv by blast
qed simp

text \<open>
  C33: the bound of the log, and absorption. In a transaction the number of blocks in the log's
  header is the number of different blocks passed to \<open>log_write\<close>, and those are the blocks that the
  cache keeps in memory. While that number is less than \<open>log.size - 1\<close> another \<open>log_write\<close> of a
  held buffer returns, adds its block to them if it is new, and changes no contents; when it is
  \<open>log.size - 1\<close>, which is at most 29, \<open>log_write\<close> panics, even for a block that is already there.
\<close>

theorem log_write_bound:
  assumes "tx_idle s" "begin_op s = Ok () t" "tx_step\<^sup>*\<^sup>* t u" "opened u i = Some b" "2 \<le> lg_size (lg s)"
  shows "card (pinned (bc u)) = nat (lh_n (lg u)) \<and> pinned (bc u) = hblk (lg u) ` {..<nat (lh_n (lg u))} \<and>
    0 \<le> lh_n (lg u) \<and> lh_n (lg u) \<le> lg_size (lg s) - 1 \<and> lg_size (lg s) - 1 \<le> 29 \<and>
    (if lh_n (lg u) < lg_size (lg s) - 1
     then \<exists>v. log_write i u = Ok () v \<and> pinned (bc v) = insert b (pinned (bc u)) \<and>
       lh_n (lg v) = int (card (insert b (pinned (bc u)))) \<and> cview (bc v) = cview (bc u) \<and> disk (bc v) = disk (bc s)
     else log_write i u = Panic ''too big a transaction'')"
proof -
  note t = begin_op_inv [OF assms(1,2)]
  have u: "tx_inv u" "tx_frame t u" using tx_steps_inv [OF assms(3) t(1)] by simp_all
  note F = tx_frame_lg [OF u(2)] and T = u(1) [unfolded tx_inv_def log_home_def]
  have z: "lg_size (lg u) = lg_size (lg s)" "lg_outstanding (lg u) = 1" "disk (bc u) = disk (bc s)" "lg_size (lg u) \<le> 30"
    using F t u(2) T by (simp_all add: tx_frame_def)
  have n: "lh_n (lg u) \<le> lg_size (lg u) - 1" using tx_steps_count [OF assms(3) t(1)] t(2) assms(5) z by auto
  have c: "pinned (bc u) = hblk (lg u) ` {..<lcount (lg u)}" "inj_on (hblk (lg u)) {..<lcount (lg u)}" "0 \<le> lh_n (lg u)" "cache_inv u"
    "length (lh_block (lg u)) = 30" "lk_free Llog u" using T by (simp_all add: log_ok_def)
  have cp: "card (pinned (bc u)) = lcount (lg u)" unfolding c(1) card_image [OF c(2)] by simp
  have ok: "\<exists>v. log_write i u = Ok () v \<and> pinned (bc v) = insert b (pinned (bc u)) \<and>
       lh_n (lg v) = int (card (insert b (pinned (bc u)))) \<and> cview (bc v) = cview (bc u) \<and> disk (bc v) = disk (bc s)"
    if l: "lh_n (lg u) < lg_size (lg u) - 1"
  proof -
    let ?w = "upd_lg (recorded b) u" let ?v = "upd_buf i (\<lambda>c. c\<lparr>b_flags := b_flags c OR B_DIRTY\<rparr>) ?w"
    note O = openedD [OF c(4) assms(4)]
    have b: "b \<notin> logset (lg u)" using T assms(4) by (auto simp: ran_def)
    note R = recorded_ok [of "lg u" "disksize (bc u)" b]
    have "lcount (recorded b (lg u)) = card (insert b (pinned (bc u)))" "0 \<le> lh_n (recorded b (lg u))"
      using R(5,6) T l z(4) O(10) b c(1) by simp_all
    then have "lh_n (lg ?v) = int (card (insert b (pinned (bc u))))" by (simp add: lcount_def)
    moreover have "log_write i u = Ok () ?v" using log_write_spec [OF c(4) assms(4) c(5,3)] c(6) l z by simp
    ultimately show ?thesis using pin_spec [of ?w i b] c(4) assms(4) z(3) by (intro exI [of _ ?v]) simp
  qed
  have "log_write i u = Panic ''too big a transaction''" if "\<not> lh_n (lg u) < lg_size (lg u) - 1"
    using that by (simp add: log_write_def)
  then show ?thesis using ok cp c z n by (simp add: lcount_def)
qed

theorem log_write_bound_witness:
  "\<exists>s t u i. initlog 1 (binit ex_gst) = Ok () s \<and> begin_op s = Ok () t \<and> bread 1 100 t = Ok i u \<and> lg_size (lg s) = 30 \<and>
    (\<exists>v. log_write i u = Ok () v \<and> pinned (bc v) = {100} \<and> lh_n (lg v) = 1)"
proof -
  obtain s where s: "initlog 1 (binit ex_gst) = Ok () s" "tx_idle s" "100 \<notin> logset (lg s)" "lg_size (lg s) = 30" "disksize (bc s) = 1000"
    using ex_idle by blast
  obtain t where t: "begin_op s = Ok () t" using begin_op_idle [OF s(2)] by blast
  note B = begin_op_inv [OF s(2) t] and T = begin_op_inv(1) [OF s(2) t, unfolded tx_inv_def]
  have p: "pinned (bc t) = {}" using T B(2) by (simp add: lcount_def)
  then have r: "\<exists>i < NBUF. \<not> held t i \<and> \<not> dirty (buf_at t i)" using room_free [of t] T B(6) by simp
  obtain i u where u: "bread 1 100 t = Ok i u" "opened u i = Some 100" "pinned (bc u) = {}" "only_bc t u"
    using bread_spec [of t 100 thesis] T s(5) B(6,7) r p by simp
  have st: "tx_step t u" by (rule tx_bread [OF _ _ _ u(1)]) (use s B in simp_all)
  have "lh_n (lg u) = 0" using only_bc_lg [OF u(4)] B(2) by simp
  then obtain v where "log_write i u = Ok () v" "pinned (bc v) = {100}" "lh_n (lg v) = 1"
    using log_write_bound [OF s(2) t r_into_rtranclp [where r = tx_step, OF st] u(2)] s(4) u(3) by auto
  then show ?thesis using s(1,4) t u(1) by blast
qed


section \<open>Reading back\<close>

text \<open>
  C16: a process that holds no buffer reads block \<open>b\<close>, overwrites the buffer with \<open>d\<close>, and passes it to
  \<open>bwrite\<close> and \<open>brelse\<close>. All four calls return; the only change on disk is that block \<open>b\<close> holds
  \<open>d\<close>, by one write; and whichever block \<open>a\<close> is read next, through whichever of the 30 buffers,
  \<open>bread\<close> returns its latest contents: \<open>d\<close> for \<open>b\<close>, and for any other block what the cache or the
  disk had for it before.
\<close>

theorem bwrite_bread:
  assumes "cache_inv s" "opened s = Map.empty" "card (pinned (bc s)) < NBUF" "b < disksize (bc s)" "length d = BSIZE"
  shows "\<exists>i s1 s2 s3. bread 1 b s = Ok i s1 \<and> bwrite i (upd_buf i (\<lambda>x. x\<lparr>b_data := d\<rparr>) s1) = Ok () s2 \<and> brelse i s2 = Ok () s3 \<and>
    cache_inv s3 \<and> disk (bc s3) = (disk (bc s))(b := d) \<and> dk_hist (bc s3) = dk_hist (bc s) @ [(b, d)] \<and>
    (\<forall>a < disksize (bc s). \<exists>j s4. bread 1 a s3 = Ok j s4 \<and> b_data (buf_at s4 j) = (if a = b then d else cview (bc s) a))"
proof -
  have ab: "op (cabs s) = Map.empty" "b < sz (cabs s)" "b \<in> pn (cabs s) \<or> card (pn (cabs s)) < NBUF" using assms by (simp_all add: cabs_def)
  obtain i s1 where s1: "bread 1 b s = Ok i s1" using bio.l_read [OF assms(1) ab(2)] ab by auto
  obtain s3 where s3: "bind (bread 1 b s) (\<lambda>i s. bind (bwrite i (upd_buf i (\<lambda>x. x\<lparr>b_data := d\<rparr>) s)) (\<lambda>_ s. brelse i s)) = Ok () s3"
    "cache_inv s3" "cabs s3 = rewritten b d (cabs s)"
    using bio.rewrite_block [where F = "\<lambda>_. d", OF assms(1) ab(1,2,3)] assms(5) by auto
  obtain s2 where s2: "bwrite i (upd_buf i (\<lambda>x. x\<lparr>b_data := d\<rparr>) s1) = Ok () s2" "brelse i s2 = Ok () s3"
    using s3(1) s1 by (auto simp: ok_iff)
  have f: "disk (bc s3) = (disk (bc s))(b := d)" "dk_hist (bc s3) = dk_hist (bc s) @ [(b, d)]" "op (cabs s3) = Map.empty"
    "pn (cabs s3) = pn (cabs s) - {b}" "sz (cabs s3) = disksize (bc s)" "va (cabs s3) = (cview (bc s))(b := d)"
    using arg_cong [OF s3(3), of dk] arg_cong [OF s3(3), of hi] s3(3) ab by (simp_all add: rewritten_def) (simp_all add: cabs_def)
  have "card (pn (cabs s3)) \<le> card (pinned (bc s))"
    unfolding f(4) using card_Diff1_le [of "pinned (bc s)" b] by (simp add: cabs_def)
  then have c: "card (pn (cabs s3)) < NBUF" using assms(3) by simp
  have "\<exists>j s4. bread 1 a s3 = Ok j s4 \<and> b_data (buf_at s4 j) = (if a = b then d else cview (bc s) a)" if la: "a < disksize (bc s)" for a
  proof -
    obtain j s4 where s4: "bread 1 a s3 = Ok j s4" "cache_inv s4" "cabs s4 = (cabs s3)\<lparr>op := [j \<mapsto> a]\<rparr>"
      using bio.l_read [OF s3(2), of a] la f(3,5) c by auto
    then show ?thesis using bio.l_data [OF s4(2), of j a] f(6) by (intro exI [of _ j] exI [of _ s4]) simp
  qed
  then show ?thesis using s1 s2 s3(2) f(1,2) by blast
qed

theorem bwrite_bread_witness:
  "\<exists>i s1 s2 s3. bread 1 100 (binit ex_gst) = Ok i s1 \<and> bwrite i (upd_buf i (\<lambda>x. x\<lparr>b_data := replicate BSIZE 7\<rparr>) s1) = Ok () s2 \<and>
    brelse i s2 = Ok () s3 \<and> disk (bc s3) 100 = replicate BSIZE 7 \<and>
    (\<exists>j s4. bread 1 100 s3 = Ok j s4 \<and> b_data (buf_at s4 j) = replicate BSIZE 7) \<and>
    (\<exists>j s4. bread 1 200 s3 = Ok j s4 \<and> b_data (buf_at s4 j) = replicate BSIZE 0)"
proof -
  have "boots ex_gst ex_disk 1000" using ex_reboots by (simp add: reboots_def)
  note B = binit_inv [OF this]
  obtain i s1 s2 s3 where s: "bread 1 100 (binit ex_gst) = Ok i s1" "bwrite i (upd_buf i (\<lambda>x. x\<lparr>b_data := replicate BSIZE 7\<rparr>) s1) = Ok () s2"
    "brelse i s2 = Ok () s3" "disk (bc s3) = ex_disk(100 := replicate BSIZE 7)"
    "\<forall>a < 1000. \<exists>j s4. bread 1 a s3 = Ok j s4 \<and> b_data (buf_at s4 j) = (if a = 100 then replicate BSIZE 7 else ex_disk a)"
    using bwrite_bread [of "binit ex_gst" 100 "replicate BSIZE 7", unfolded B(3-6) simp_thms, OF B(1,2)] by (auto simp del: fun_upd_apply split del: if_split)
  have "disk (bc s3) 100 = replicate BSIZE 7" using s(4) by simp
  moreover have "ex_disk 200 = replicate BSIZE 0" by (simp add: ex_disk_def)
  ultimately show ?thesis using s(1-3) s(5) [rule_format, of 100] s(5) [rule_format, of 200] by fastforce
qed

end
