(* ===== verification/Example.thy ===== *)
theory Example
  imports Atomic Proclife
begin

text \<open>
  A running machine to evaluate the theorems on: two CPUs with every lock free, one process, an
  empty cache over the disk of 1000 blocks, empty tables, and empty pipes.
\<close>

definition zero_inode :: inode where
  "zero_inode = \<lparr>i_dev = 0, i_inum = 0, i_ref = 0, i_valid = False, i_type = 0, i_major = 0, i_minor = 0, i_nlink = 0, i_size = 0,
     i_addrs = replicate 13 0\<rparr>"

definition zero_file :: filerec where
  "zero_file = \<lparr>f_type = FD_NONE, f_ref = 0, f_readable = False, f_writable = False, f_pipe = 0, f_ip = 0, f_off = 0\<rparr>"

definition empty_pipe :: pipe where
  "empty_pipe = \<lparr>pi_data = replicate 512 0, pi_nread = 0, pi_nwrite = 0, pi_readopen = True, pi_writeopen = True\<rparr>"

definition ex_kst :: kst where
  "ex_kst = flst.extend (ppst.extend (dst.extend (ist.extend (gst.extend ex_gst
       \<lparr>ic = \<lparr>inodes = replicate 50 zero_inode, fsb = get_superblock (ex_disk 1)\<rparr>\<rparr>)
       \<lparr>cdev = \<lparr>inp_buf = replicate 128 0, inp_r = 0, inp_w = 0, inp_e = 0, kb_shift = 0, kb_codes = [],
          devsws = replicate 10 \<lparr>dv_read = None, dv_write = None\<rparr>\<rparr>\<rparr>)
       \<lparr>pipes = (\<lambda>_. empty_pipe)\<rparr>)
       \<lparr>files = replicate 100 zero_file\<rparr>)
       \<lparr>glob = \<lparr>g_ticks = 0, g_cr2 = 0, g_first = False, g_primecom = False\<rparr>\<rparr>"

lemmas ex_kst_defs = ex_kst_def flst.defs ppst.defs dst.defs ist.defs gst.defs ex_gst_def bst.defs sst.defs ex_sst_def vst.defs pst.defs
  ex_pst_def cst.defs ex_cst_def mst.defs ex_mst_def lst.defs

lemma ex_kst_lst: "lst.truncate ex_kst = ex_lst"
  by (simp add: ex_kst_defs)

lemma ex_kst_ready [simp]: "quiet ex_kst" "lk_free l ex_kst" "curproc ex_kst = Some 0" "ncli (curcpu ex_kst) = 0"
  using lst_truncate(1) [of ex_kst] lst_truncate(2) [of l ex_kst] lst_truncate_cpu [of ex_kst] ex_lst_ready ex_lst_cpu
  by (simp_all add: ex_kst_lst)

lemma ex_kst_fields [simp]:
  "procs ex_kst = (replicate NPROC zero_proc)[0 := zero_proc\<lparr>p_state := RUNNING, p_pid := 1\<rparr>]" "pipes ex_kst = (\<lambda>_. empty_pipe)"
  "files ex_kst = replicate 100 zero_file" "inodes (ic ex_kst) = replicate 50 zero_inode" "cr3 ex_kst = 0"
  "cdev ex_kst = \<lparr>inp_buf = replicate 128 0, inp_r = 0, inp_w = 0, inp_e = 0, kb_shift = 0, kb_codes = [],
     devsws = replicate 10 \<lparr>dv_read = None, dv_write = None\<rparr>\<rparr>" "cons_ok ex_kst"
  "initproc ex_kst = Some 0" "nextpid ex_kst = 2"
  by (simp_all add: ex_kst_defs cons_ok_def)

end
