(* ===== verification/Pipeq.thy ===== *)
theory Pipeq
  imports Ringbuf Example
begin

unbundle bit_operations_syntax

text \<open>
  A pipe of kernel/pipe.c is a queue of at most 512 bytes: what \<open>pipewrite\<close> and \<open>piperead\<close> do to the
  queue, to the memory of the process, and to the processes that wait at the other end.
\<close>

interpretation pbuf: ringbuf 512
  by unfold_locales simp_all

definition pipe_items :: "pipe \<Rightarrow> u8 list" where
  "pipe_items k = ring_items 512 (pi_data k) (pi_nread k) (pi_nwrite k)"

definition pipe_ok :: "pipe \<Rightarrow> bool" where
  "pipe_ok k \<longleftrightarrow> length (pi_data k) = 512 \<and> length (pipe_items k) \<le> 512"

lemma upd_pipe_fields [simp]:
  "procs (upd_pipe p f s) = procs s" "cur (upd_pipe p f s) = cur s" "curproc (upd_pipe p f s) = curproc s"
  "curcpu (upd_pipe p f s) = curcpu s" "mem (upd_pipe p f s) = mem s" "cr3 (upd_pipe p f s) = cr3 s"
  "quiet (upd_pipe p f s) = quiet s" "lk_free l (upd_pipe p f s) = lk_free l s" "lk_held l (upd_pipe p f s) = lk_held l s"
  "hold l (upd_pipe p f s) = upd_pipe p f (hold l s)" "unhold l (upd_pipe p f s) = upd_pipe p f (unhold l s)"
  "pipes (upd_pipe p f s) = (pipes s)(p := f (pipes s p))"
  by (simp_all add: upd_pipe_def)

lemma upd_pipe_id [simp]: "upd_pipe p (\<lambda>k. k) s = s"
  by (simp add: upd_pipe_def)

lemma upd_pipe_twice [simp]: "upd_pipe p g (upd_pipe p f s) = upd_pipe p (\<lambda>k. g (f k)) s"
  by (simp add: upd_pipe_def)

lemma wakeup1_pipes [simp]: "pipes (wakeup1 ch s) = pipes s" "upd_pipe p f (wakeup1 ch s) = wakeup1 ch (upd_pipe p f s)"
  by (simp_all add: wakeup1_def upd_pipe_def)

section \<open>Bytes from and to the process\<close>

lemma vload_cong: "mem t = mem s \<Longrightarrow> cr3 t = cr3 s \<Longrightarrow> vload a t = vload a s"
  by (simp add: vload_def)

lemma vloads_cong:
  assumes "mem t = mem s" "cr3 t = cr3 s"
  shows "vloads a n t = vloads a n s"
proof (induction n arbitrary: a)
  case (Suc n)
  then show ?case using vload_cong [OF assms, of a] by (simp split: option.split)
qed simp

text \<open>The bytes that a copy from \<open>a\<close> reads.\<close>

fun src_bytes :: "src \<Rightarrow> nat \<Rightarrow> 'a vst_scheme \<Rightarrow> u8 list option" where
  "src_bytes (Svar bs) n s = (if n \<le> length bs then Some (take n bs) else None)"
| "src_bytes (Saddr a) n s = vloads a n s"

lemma src_bytes_cong:
  assumes "mem t = mem s" "cr3 t = cr3 s"
  shows "src_bytes a n t = src_bytes a n s"
  using vloads_cong [OF assms] by (cases a) simp_all

lemma src_get_eq: "src_get a n s = (case src_bytes a n s of None \<Rightarrow> Fault | Some bs \<Rightarrow> Ok bs s)"
  by (cases a) simp_all

lemma src_bytes_Suc:
  assumes "src_bytes a (Suc n) s = Some bs"
  obtains b cs where "bs = b # cs" "src_bytes a 1 s = Some [b]" "src_bytes (src_add a 1) n s = Some cs"
  using assms by (cases a) (auto split: if_splits option.splits simp: Suc_le_length_iff)

lemma src_bytes_length: "src_bytes a n s = Some bs \<Longrightarrow> length bs = n"
proof (induction n arbitrary: a bs)
  case 0
  then show ?case by (cases a) auto
next
  case (Suc n)
  then show ?case by (metis src_bytes_Suc length_Cons)
qed

lemma src_add_add: "m < 2 ^ 31 \<Longrightarrow> src_add (src_add a 1) (of_nat m) = src_add a (of_nat (Suc m))"
proof (cases a)
  case (Svar bs)
  assume m: "m < 2 ^ 31"
  then have "unat (of_nat m :: u32) = m" "unat (of_nat (Suc m) :: u32) = Suc m" by (simp_all only: unat_of_nat) simp_all
  then show ?thesis using Svar by (simp del: of_nat_Suc)
qed (simp add: add.assoc)

lemma src_add_0 [simp]: "src_add a 0 = a"
  by (cases a) simp_all

section \<open>Writing\<close>

definition fill1 :: "u8 \<Rightarrow> pipe \<Rightarrow> pipe" where
  "fill1 b k = k\<lparr>pi_data := (pi_data k)[unat (pi_nwrite k mod PIPESIZE) := b], pi_nwrite := pi_nwrite k + 1\<rparr>"

lemma fill1_fields [simp]: "pi_nread (fill1 b k) = pi_nread k" "pi_readopen (fill1 b k) = pi_readopen k" "pi_writeopen (fill1 b k) = pi_writeopen k"
  by (simp_all add: fill1_def)

lemma pipe_full: "pipe_ok k \<Longrightarrow> pi_nwrite k = pi_nread k + PIPESIZE \<longleftrightarrow> length (pipe_items k) = 512"
  using pbuf.full_iff [of "pi_nwrite k" "pi_nread k"] by (simp add: pipe_ok_def pipe_items_def)

lemma pipe_empty: "pipe_ok k \<Longrightarrow> pi_nread k = pi_nwrite k \<longleftrightarrow> pipe_items k = []"
  using pbuf.pop(2) [of "pi_nread k" "pi_nwrite k"] by (auto simp: pipe_items_def) (metis length_ring_items list.size(3) nat.distinct(1))

lemma fill1_items: "pipe_ok k \<Longrightarrow> length (pipe_items k) < 512 \<Longrightarrow> pipe_items (fill1 b k) = pipe_items k @ [b] \<and> pipe_ok (fill1 b k)"
  using pbuf.push [of "pi_nwrite k" "pi_nread k" "pi_data k" b] pbuf.count_push [of "pi_nwrite k" "pi_nread k"]
  by (auto simp: pipe_ok_def pipe_items_def fill1_def unat_mod)

lemma fill_items:
  "pipe_ok k \<Longrightarrow> length (pipe_items k) + length bs \<le> 512 \<Longrightarrow> pipe_items (fold fill1 bs k) = pipe_items k @ bs \<and> pipe_ok (fold fill1 bs k) \<and>
    pi_nread (fold fill1 bs k) = pi_nread k \<and> pi_readopen (fold fill1 bs k) = pi_readopen k \<and> pi_writeopen (fold fill1 bs k) = pi_writeopen k"
proof (induction bs arbitrary: k)
  case (Cons b bs)
  then show ?case using fill1_items [of k b] by simp
qed simp

lemma pipewrite_fill:
  assumes "pipe_ok (pipes s p)" "m \<le> k" "length (pipe_items (pipes s p)) + m \<le> 512" "src_bytes addr k s = Some bs"
  shows "pipewrite_loop k p addr n s = pipewrite_loop (k - m) p (src_add addr (of_nat m)) n (upd_pipe p (fold fill1 (take m bs)) s)"
  using assms
proof (induction m arbitrary: k addr s bs)
  case 0
  show ?case by (simp add: id_def)
next
  case (Suc m)
  then obtain j where k: "k = Suc j" by (cases k) auto
  obtain b cs where b: "bs = b # cs" "src_bytes addr 1 s = Some [b]" "src_bytes (src_add addr 1) j s = Some cs"
    using src_bytes_Suc [of addr j s bs] Suc.prems(4) k by metis
  let ?t = "upd_pipe p (fill1 b) s"
  have ok: "pipe_items (fill1 b (pipes s p)) = pipe_items (pipes s p) @ [b]" "pipe_ok (fill1 b (pipes s p))" using fill1_items Suc.prems(1,3) by simp_all
  have nf: "\<not> pi_nwrite (pipes s p) = pi_nread (pipes s p) + PIPESIZE" using pipe_full [OF Suc.prems(1)] Suc.prems(3) by simp
  have "src_bytes (src_add addr 1) j ?t = Some cs" using b(3) src_bytes_cong [of ?t s] by simp
  then have "pipewrite_loop j p (src_add addr 1) n ?t =
      pipewrite_loop (j - m) p (src_add (src_add addr 1) (of_nat m)) n (upd_pipe p (fold fill1 (take m cs)) ?t)"
    using Suc.prems(2,3) ok k by (intro Suc.IH) simp_all
  moreover have "pipewrite_loop k p addr n s = pipewrite_loop j p (src_add addr 1) n ?t"
    using nf b(2) unfolding k pipewrite_loop.simps src_get_eq by (simp add: Let_def fill1_def [abs_def])
  moreover have "src_add (src_add addr 1) (of_nat m) = src_add addr (of_nat (Suc m))" using Suc.prems(3) by (intro src_add_add) simp
  ultimately show ?case using b(1) k by (simp add: comp_def del: of_nat_Suc)
qed

lemma my_killed_eq: "quiet s \<Longrightarrow> curproc s = Some c \<Longrightarrow> my_killed s = Ok (p_killed (procs s ! c)) s"
  by (simp add: my_killed_def myproc_eq)

text \<open>
  C11: \<open>pipewrite\<close> appends to the queue of the pipe. Let \<open>m\<close> be the number of bytes that fit into the 512
  of the pipe. If that is all \<open>n\<close>, they are appended in order and \<open>n\<close> is returned. Otherwise the first \<open>m\<close>
  are appended, and then: when no reader is left or the process was killed, the result is \<open>-1\<close>; when there
  is one, the process sleeps on the pipe with the lock free. In every case but the error every
  process that waits to read from the pipe is made runnable, and no other pipe changes. The
  counters are unsigned and wrap around.
\<close>

theorem pipewrite_appends:
  fixes s :: "'a ppst_scheme"
  assumes s: "quiet s" "lk_free (Lpipe p) s" "lk_free Lptable s" "curproc s = Some c" "c < length (procs s)" "ncli (curcpu s) = 0"
    and k: "pipe_ok (pipes s p)" and bs: "src_bytes addr (nat n) s = Some bs" "0 \<le> n"
    and m: "m = min (nat n) (512 - length (pipe_items (pipes s p)))"
  shows "\<exists>t. pipe_items (pipes t p) = pipe_items (pipes s p) @ take m bs \<and> pipe_ok (pipes t p) \<and> (\<forall>q. q \<noteq> p \<longrightarrow> pipes t q = pipes s q) \<and>
    lk_free (Lpipe p) t \<and>
    (if m < nat n \<and> (\<not> pi_readopen (pipes s p) \<or> p_killed (procs s ! c)) then pipewrite p addr n s = Ok (- 1) t
     else (\<forall>i < length (procs s). i \<noteq> c \<and> p_state (procs s ! i) = SLEEPING \<and> p_chan (procs s ! i) = Cnread p \<longrightarrow> p_state (procs t ! i) = RUNNABLE) \<and>
       (if m = nat n then pipewrite p addr n s = Ok n t
        else pipewrite p addr n s = Sleeps t \<and> p_state (procs t ! c) = SLEEPING \<and> p_chan (procs t ! c) = Cnwrite p))"
proof -
  let ?h = "hold (Lpipe p) s" let ?f = "fold fill1 (take m bs)" let ?u = "upd_pipe p ?f ?h"
  have len: "length bs = nat n" using src_bytes_length [OF bs(1)] .
  have q: "length (pipe_items (pipes s p)) \<le> 512" using k by (simp add: pipe_ok_def)
  have fi: "pipe_items (?f (pipes s p)) = pipe_items (pipes s p) @ take m bs" "pipe_ok (?f (pipes s p))" "pi_nread (?f (pipes s p)) = pi_nread (pipes s p)"
    "pi_readopen (?f (pipes s p)) = pi_readopen (pipes s p)"
    using fill_items [OF k, of "take m bs"] len m q by auto
  have "src_bytes addr (nat n) ?h = Some bs" using bs(1) src_bytes_cong [of ?h s] by simp
  then have "pipewrite_loop (nat n) p addr n ?h = pipewrite_loop (nat n - m) p (src_add addr (of_nat m)) n ?u"
    using m q k by (intro pipewrite_fill) auto
  then have e: "pipewrite p addr n s = pipewrite_loop (nat n - m) p (src_add addr (of_nat m)) n ?u"
    using s by (simp add: pipewrite_def acquire_eq)
  show ?thesis
  proof (cases "m = nat n")
    case True
    then have "pipewrite p addr n s = Ok n (wakeup1 (Cnread p) (upd_pipe p ?f s))"
      using e s by (simp add: wakeup_eq release_eq)
    then show ?thesis using True fi s by (intro exI [of _ "wakeup1 (Cnread p) (upd_pipe p ?f s)"]) (auto simp: wakeup1_nth)
  next
    case False
    then have lt: "m < nat n" using m by simp
    then obtain j where j: "nat n - m = Suc j" using Suc_diff_Suc by metis
    have full: "pi_nwrite (?f (pipes s p)) = pi_nread (?f (pipes s p)) + PIPESIZE"
      using pipe_full [OF fi(2)] fi(1) len m False q by auto
    show ?thesis
    proof (cases "\<not> pi_readopen (pipes s p) \<or> p_killed (procs s ! c)")
      case True
      then have "pipewrite p addr n s = Ok (- 1) (upd_pipe p ?f s)"
        using e s full fi by (auto simp: j my_killed_eq release_eq)
      then show ?thesis using True False m fi s by (intro exI [of _ "upd_pipe p ?f s"]) auto
    next
      case go: False
      let ?w = "wakeup1 (Cnread p) ?u"
      let ?t = "upd_proc c (\<lambda>q. q\<lparr>p_chan := Cnwrite p, p_state := SLEEPING,
          p_context := (p_context q)\<lparr>cx_eip := Insched (intena (curcpu ?w))\<rparr>\<rparr>) (unhold (Lpipe p) (hold Lptable ?w))"
      have "pipewrite p addr n s = sleep (Cnwrite p) (Some (Lpipe p)) ?w"
        using e s full fi go by (simp add: j my_killed_eq wakeup_eq)
      also have "\<dots> = Sleeps ?t" using s by (intro sleep_eq) (simp_all add: hold_lemmas)
      finally have r: "pipewrite p addr n s = Sleeps ?t" .
      have "procs ?t = (procs ?w)[c := (procs ?w ! c)\<lparr>p_chan := Cnwrite p, p_state := SLEEPING,
          p_context := (p_context (procs ?w ! c))\<lparr>cx_eip := Insched (intena (curcpu ?w))\<rparr>\<rparr>]" "pipes ?t = pipes ?u"
        by (simp_all add: upd_proc_def wakeup1_def)
      moreover have "lk_free (Lpipe p) ?t"
        using unhold_lemmas(5) [of "hold Lptable ?w" "Lpipe p"] s by (simp add: lk_free_def)
      ultimately show ?thesis using r False go m fi s by (intro exI [of _ ?t]) (auto simp: wakeup1_nth)
    qed
  qed
qed

section \<open>Reading\<close>

lemma vstore_upd_pipe: "vstore a b (upd_pipe p f s) = map_option (upd_pipe p f) (vstore a b s)"
  by (simp add: vstore_def Let_def) (simp add: upd_pipe_def)

lemma vstores_upd_pipe: "vstores a bs (upd_pipe p f s) = map_option (upd_pipe p f) (vstores a bs s)"
  by (induction a bs s rule: vstores.induct) (simp_all add: vstore_upd_pipe split: option.split)

lemma vstore_hold: "vstore a b (hold l s) = map_option (hold l) (vstore a b s)"
  by (simp add: vstore_def Let_def)

lemma vstores_hold: "vstores a bs (hold l s) = map_option (hold l) (vstores a bs s)"
  by (induction a bs s rule: vstores.induct) (simp_all add: vstore_hold split: option.split)

lemma vstores_mem: "vstores a bs s = Some u \<Longrightarrow> \<exists>x. u = s\<lparr>mem := x\<rparr>"
proof (induction a bs s rule: vstores.induct)
  case (1 va s)
  then show ?case by (intro exI [of _ "mem s"]) simp
next
  case (2 va b bs s)
  then obtain t where t: "vstore va b s = Some t" "vstores (va + 1) bs t = Some u" by (auto split: option.splits)
  then obtain x y where "t = s\<lparr>mem := x\<rparr>" "u = t\<lparr>mem := y\<rparr>" using 2 by (auto simp: vstore_def Let_def split: if_splits)
  then show ?case by (intro exI [of _ y]) simp
qed

definition drain :: "nat \<Rightarrow> pipe \<Rightarrow> pipe" where
  "drain m k = k\<lparr>pi_nread := pi_nread k + of_nat m\<rparr>"

lemma drain_items:
  "pipe_ok k \<Longrightarrow> m \<le> length (pipe_items k) \<Longrightarrow> pipe_items (drain m k) = drop m (pipe_items k) \<and> pipe_ok (drain m k)"
proof (induction m arbitrary: k)
  case 0
  then show ?case by (simp add: drain_def)
next
  case (Suc m)
  have "pi_nread k \<noteq> pi_nwrite k" using pipe_empty [OF Suc.prems(1)] Suc.prems(2) by auto
  note P = pbuf.pop [OF this]
  have d: "pipe_items (drain 1 k) = tl (pipe_items k)" "pipe_ok (drain 1 k)"
    using P Suc.prems(1) by (auto simp: pipe_ok_def pipe_items_def drain_def)
  have "drain (Suc m) k = drain m (drain 1 k)" by (simp add: drain_def add.assoc)
  then show ?case using Suc.IH [OF d(2)] d(1) Suc.prems(2) by (simp add: drop_Suc)
qed

lemma piperead_copy_eq:
  assumes "pipe_ok (pipes s p)" "m = min k (length (pipe_items (pipes s p)))" "vstores a (take m (pipe_items (pipes s p))) s = Some u"
  shows "piperead_copy k p (Daddr a) i s = Ok (i + int m) (upd_pipe p (drain m) u)"
  using assms
proof (induction k arbitrary: m a i s u)
  case 0
  then show ?case by (simp add: drain_def)
next
  case (Suc k)
  let ?q = "pipe_items (pipes s p)"
  show ?case
  proof (cases "pi_nread (pipes s p) = pi_nwrite (pipes s p)")
    case True
    then show ?thesis using pipe_empty [OF Suc.prems(1)] Suc.prems by (simp add: drain_def)
  next
    case False
    note P = pbuf.pop [OF this]
    let ?c = "pi_data (pipes s p) ! unat (pi_nread (pipes s p) mod PIPESIZE)" let ?t = "upd_pipe p (drain 1) s"
    have q: "?q = ?c # pipe_items (drain 1 (pipes s p))"
      using P by (simp add: pipe_items_def drain_def unat_mod)
    have ok: "pipe_ok (drain 1 (pipes s p))" using drain_items [OF Suc.prems(1), of 1] q by (cases ?q) auto
    obtain j where j: "m = Suc j" "j = min k (length (pipe_items (drain 1 (pipes s p))))" using Suc.prems(2) q by simp
    obtain v where v: "vstore a ?c s = Some v" "vstores (a + 1) (take j (pipe_items (drain 1 (pipes s p)))) v = Some u"
      using Suc.prems(3) j q by (auto split: option.splits)
    obtain x where x: "v = s\<lparr>mem := x\<rparr>" using v(1) by (auto simp: vstore_def Let_def split: if_splits)
    let ?w = "upd_pipe p (drain 1) v"
    have "dest_put (Daddr a) [?c] ?t = Ok () ?w" using v(1) by (simp add: vstore_upd_pipe)
    then have "piperead_copy (Suc k) p (Daddr a) i s = piperead_copy k p (Daddr (a + 1)) (i + 1) ?w"
      using False by (simp add: Let_def drain_def [abs_def])
    moreover have "pipes ?w p = drain 1 (pipes s p)" using x by simp
    moreover have "piperead_copy k p (Daddr (a + 1)) (i + 1) ?w = Ok (i + 1 + int j) (upd_pipe p (drain j) (upd_pipe p (drain 1) u))"
      using v(2) ok j(2) calculation(2) by (intro Suc.IH) (simp_all add: vstores_upd_pipe)
    ultimately show ?thesis using j(1) by (simp add: drain_def [abs_def] add.assoc)
  qed
qed

text \<open>
  C12: \<open>piperead\<close> takes from the front of the queue. When bytes are there, or no writer is left, it copies
  the first \<open>n\<close> of them, or all if there are fewer, to the buffer of the process in order, removes them
  from the queue, makes every process that waits to write to the pipe runnable, and returns how
  many they were: \<open>0\<close> is the end of the file. When the queue is empty and a writer is left, it
  sleeps on the pipe with the lock free, or returns \<open>-1\<close> if the process was killed; the pipe is
  then as it was.
\<close>

theorem piperead_takes:
  fixes s :: "'a ppst_scheme"
  assumes s: "quiet s" "lk_free (Lpipe p) s" "lk_free Lptable s" "curproc s = Some c" "c < length (procs s)" "ncli (curcpu s) = 0"
    and k: "pipe_ok (pipes s p)" and n: "0 \<le> n" and u: "vstores a (take (nat n) (pipe_items (pipes s p))) s = Some u"
  shows "if pipe_items (pipes s p) = [] \<and> pi_writeopen (pipes s p)
    then if p_killed (procs s ! c) then piperead p (Daddr a) n s = Ok (- 1) s
      else \<exists>t. piperead p (Daddr a) n s = Sleeps t \<and> pipes t = pipes s \<and> lk_free (Lpipe p) t \<and>
        p_state (procs t ! c) = SLEEPING \<and> p_chan (procs t ! c) = Cnread p
    else \<exists>t. piperead p (Daddr a) n s = Ok (int (min (nat n) (length (pipe_items (pipes s p))))) t \<and>
      pipe_items (pipes t p) = drop (nat n) (pipe_items (pipes s p)) \<and> pipe_ok (pipes t p) \<and> mem t = mem u \<and>
      (\<forall>q. q \<noteq> p \<longrightarrow> pipes t q = pipes s q) \<and> lk_free (Lpipe p) t \<and>
      (\<forall>i < length (procs s). p_state (procs s ! i) = SLEEPING \<and> p_chan (procs s ! i) = Cnwrite p \<longrightarrow> p_state (procs t ! i) = RUNNABLE)"
proof -
  let ?q = "pipe_items (pipes s p)" let ?h = "hold (Lpipe p) s"
  let ?m = "min (nat n) (length ?q)"
  note em = pipe_empty [OF k]
  obtain x where x: "u = s\<lparr>mem := x\<rparr>" using vstores_mem [OF u] by blast
  show ?thesis
  proof (cases "?q = [] \<and> pi_writeopen (pipes s p)")
    case True
    let ?t = "upd_proc c (\<lambda>q. q\<lparr>p_chan := Cnread p, p_state := SLEEPING,
        p_context := (p_context q)\<lparr>cx_eip := Insched (intena (curcpu ?h))\<rparr>\<rparr>) (unhold (Lpipe p) (hold Lptable ?h))"
    have e: "piperead p (Daddr a) n s = (if p_killed (procs s ! c) then Ok (- 1) s else sleep (Cnread p) (Some (Lpipe p)) ?h)"
      using s True em by (simp add: piperead_def piperead_loop_def lock_eqs my_killed_eq)
    have "(sleep (Cnread p) (Some (Lpipe p)) ?h :: ('a ppst_scheme, int) res) = Sleeps ?t" using s by (intro sleep_eq) (simp_all add: hold_lemmas)
    moreover have "pipes ?t = pipes s" "procs ?t = (procs s)[c := (procs s ! c)\<lparr>p_chan := Cnread p, p_state := SLEEPING,
        p_context := (p_context (procs s ! c))\<lparr>cx_eip := Insched (intena (curcpu ?h))\<rparr>\<rparr>]" by (simp_all add: upd_proc_def)
    moreover have "lk_free (Lpipe p) ?t" using unhold_lemmas(5) [of "hold Lptable ?h" "Lpipe p"] s by (simp add: lk_free_def)
    ultimately show ?thesis using True e s by auto
  next
    case False
    have "take ?m ?q = take (nat n) ?q" by (simp add: min_def)
    then have "vstores a (take ?m ?q) ?h = Some (hold (Lpipe p) u)" using u by (simp add: vstores_hold)
    then have "piperead_copy (nat n) p (Daddr a) 0 ?h = Ok (int ?m) (upd_pipe p (drain ?m) (hold (Lpipe p) u))"
      using piperead_copy_eq [of ?h p ?m "nat n" a _ 0] k by simp
    then have "piperead p (Daddr a) n s = Ok (int ?m) (wakeup1 (Cnwrite p) (upd_pipe p (drain ?m) u))"
      using s False em x by (auto simp: piperead_def piperead_loop_def lock_eqs wakeup_eq)
    moreover have "pipe_items (drain ?m (pipes s p)) = drop (nat n) ?q" "pipe_ok (drain ?m (pipes s p))" using drain_items [OF k, of ?m] by (auto simp: min_def)
    ultimately show ?thesis using False x s by (auto simp: wakeup1_nth)
  qed
qed


theorem pipewrite_appends_witness:
  "\<exists>t. pipe_items (pipes t 0x80400000) = [104, 105] \<and> pipewrite 0x80400000 (Svar [104, 105]) 2 ex_kst = Ok 2 t"
proof -
  have k: "pipe_ok (pipes ex_kst 0x80400000)" "src_bytes (Svar [104, 105]) (nat 2) ex_kst = Some [104, 105]"
    "2 = min (nat 2) (512 - length (pipe_items (pipes ex_kst 0x80400000)))" "pipe_items (pipes ex_kst 0x80400000) = []" "0 < length (procs ex_kst)"
    by (simp_all add: pipe_ok_def pipe_items_def empty_pipe_def)
  have "(0 :: int) \<le> 2" by simp
  from pipewrite_appends [OF ex_kst_ready(1,2,2,3) k(5) ex_kst_ready(4) k(1,2) this k(3)] show ?thesis
    unfolding k(4) by (elim exE) (auto split: if_split_asm)
qed

text \<open>The same machine with two bytes in a pipe, and a page table through which every address can be written.\<close>

definition ex_piped :: kst where
  "ex_piped = (ex_kst\<lparr>mem := (\<lambda>_. 7)\<rparr>)\<lparr>pipes := (\<lambda>_. fold fill1 [104, 105] empty_pipe)\<rparr>"

theorem piperead_takes_witness:
  "\<exists>t. piperead 0x80400000 (Daddr 0x1000) 1 ex_piped = Ok 1 t \<and> pipe_items (pipes t 0x80400000) = [105] \<and> mem t 0x87070000 = 104"
proof -
  have i: "pipe_items (fold fill1 [104, 105] empty_pipe) = [104, 105]" "pipe_ok (fold fill1 [104, 105] empty_pipe)"
    using fill_items [of empty_pipe "[104, 105]"] by (simp_all add: pipe_ok_def pipe_items_def empty_pipe_def)
  have v: "vstores 0x1000 [104] ex_piped = Some (ex_piped\<lparr>mem := (\<lambda>_. 7)(0x87070000 := 104)\<rparr>)"
    by (simp add: ex_piped_def vstore_def Let_def pte_at_def pde_at_def pte_addr_def present_def load32_def uaddr_def frame_of_def
        PGROUNDDOWN_def P2V_def PTE_ADDR_def PDX_def PTX_def)
  have r: "quiet ex_piped" "lk_free l ex_piped" "curproc ex_piped = Some 0" "ncli (curcpu ex_piped) = 0" "procs ex_piped = procs ex_kst"
    "pipes ex_piped = (\<lambda>_. fold fill1 [104, 105] empty_pipe)" for l by (simp_all add: ex_piped_def)
  have k: "pipe_ok (pipes ex_piped 0x80400000)" "pipe_items (pipes ex_piped 0x80400000) = [104, 105]" "0 < length (procs ex_piped)"
    "vstores 0x1000 (take (nat 1) (pipe_items (pipes ex_piped 0x80400000))) ex_piped = Some (ex_piped\<lparr>mem := (\<lambda>_. 7)(0x87070000 := 104)\<rparr>)"
    "(0 :: int) \<le> 1" using i v by (simp_all add: r)
  from piperead_takes [OF r(1,2,2,3) k(3) r(4) k(1,5,4)] show ?thesis
    unfolding k(2) by (auto split: if_split_asm)
qed

end
