(* ===== verification/Lineed.thy ===== *)
theory Lineed
  imports Ringbuf Example
begin

unbundle bit_operations_syntax

text \<open>
  The line editor of kernel/console.c: the input buffer holds the bytes that \<open>consoleread\<close> may take and,
  after them, the line that is being typed. \<open>consoleintr\<close> does to these two what a line editor
  on lists does.
\<close>

interpretation ibuf: ringbuf 128
  by unfold_locales simp_all

definition inp_ready :: "consdev \<Rightarrow> u8 list" where
  "inp_ready d = ring_items 128 (inp_buf d) (inp_r d) (inp_w d)"

definition inp_line :: "consdev \<Rightarrow> u8 list" where
  "inp_line d = ring_items 128 (inp_buf d) (inp_w d) (inp_e d)"

text \<open>The order of the three counters, and that the line being typed has no newline.\<close>

definition inp_ok :: "consdev \<Rightarrow> bool" where
  "inp_ok d \<longleftrightarrow> length (inp_buf d) = 128 \<and> unat (inp_w d - inp_r d) + unat (inp_e d - inp_w d) = unat (inp_e d - inp_r d) \<and>
     unat (inp_e d - inp_r d) \<le> 128 \<and> 10 \<notin> set (inp_line d)"

section \<open>The editor on lists\<close>

definition edit1 :: "int \<Rightarrow> u8 list \<times> u8 list \<Rightarrow> u8 list \<times> u8 list" where
  "edit1 c = (\<lambda>(R, L).
     if c = 16 then (R, L)
     else if c = 21 then (R, [])
     else if c = 8 \<or> c = 0x7f then (R, butlast L)
     else if c = 0 \<or> length R + length L \<ge> 128 then (R, L)
     else
       let c = (if c = 13 then 10 else c); L = L @ [of_int c] in
       if c = 10 \<or> c = 4 \<or> length R + length L = 128 then (R @ L, []) else (R, L))"

lemma edit1_control: "edit1 16 p = p" "edit1 21 (R, L) = (R, [])" "c = 8 \<or> c = 0x7f \<Longrightarrow> edit1 c (R, L) = (R, butlast L)"
  by (auto simp: edit1_def)

section \<open>The counters\<close>

lemma wakeup1_cons [simp]: "cons_ok (wakeup1 ch s) = cons_ok s" "cdev (wakeup1 ch t) = cdev t"
  by (simp_all add: wakeup1_def cons_ok_def)

lemma upd_cd_fields [simp]:
  "procs (upd_cd f s) = procs s" "curproc (upd_cd f s) = curproc s" "quiet (upd_cd f s) = quiet s" "lk_free l (upd_cd f s) = lk_free l s"
  "lk_held l (upd_cd f s) = lk_held l s" "hold l (upd_cd f s) = upd_cd f (hold l s)" "unhold l (upd_cd f s) = upd_cd f (unhold l s)"
  "cdev (upd_cd f s) = f (cdev s)" "cons_ok (upd_cd f s) = cons_ok s" "upd_cd f (upd_cd g s) = upd_cd (\<lambda>d. f (g d)) s"
  by (simp_all add: upd_cd_def)

lemma line_empty: "inp_e d = inp_w d \<longleftrightarrow> inp_line d = []"
  using unat_eq_0 [of "inp_e d - inp_w d"] by (auto simp: inp_line_def ring_items_def)

lemma inp_all: "inp_ok d \<Longrightarrow> ring_items 128 (inp_buf d) (inp_r d) (inp_e d) = inp_ready d @ inp_line d"
  unfolding inp_ready_def inp_line_def inp_ok_def by (intro ibuf.split_at) simp

lemma inp_count: "inp_ok d \<Longrightarrow> unat (inp_e d - inp_r d) = length (inp_ready d) + length (inp_line d)"
  by (simp add: inp_ok_def inp_ready_def inp_line_def)

lemma rubout:
  assumes "inp_ok d" "inp_line d \<noteq> []"
  shows "inp_ok (d\<lparr>inp_e := inp_e d - 1\<rparr>)" "inp_line (d\<lparr>inp_e := inp_e d - 1\<rparr>) = butlast (inp_line d)"
    "inp_ready (d\<lparr>inp_e := inp_e d - 1\<rparr>) = inp_ready d"
proof -
  have w: "inp_w d \<noteq> inp_e d" using assms(2) line_empty [of d] by auto
  note u = ibuf.unpush(1) [OF w, of "inp_buf d"] ibuf.unpush(2) [OF w]
  have "inp_r d \<noteq> inp_e d"
    using u(2) assms(1) by (auto simp: inp_ok_def)
  note v = ibuf.unpush(2) [OF this]
  show l: "inp_line (d\<lparr>inp_e := inp_e d - 1\<rparr>) = butlast (inp_line d)" using u(1) by (simp add: inp_line_def)
  show "inp_ready (d\<lparr>inp_e := inp_e d - 1\<rparr>) = inp_ready d" by (simp add: inp_ready_def)
  have "10 \<notin> set (butlast (inp_line d))" using assms(1) by (auto simp: inp_ok_def dest: in_set_butlastD)
  then show "inp_ok (d\<lparr>inp_e := inp_e d - 1\<rparr>)" using assms(1) u(2) v by (simp add: inp_ok_def l)
qed

lemma type_char:
  fixes b :: u8
  assumes ok: "inp_ok d" and room: "length (inp_ready d) + length (inp_line d) < 128"
  defines "d' \<equiv> d\<lparr>inp_buf := (inp_buf d)[unat (inp_e d mod INPUT_BUF) := b], inp_e := inp_e d + 1\<rparr>"
  shows "inp_line d' = inp_line d @ [b]" "inp_ready d' = inp_ready d" "b \<noteq> 10 \<Longrightarrow> inp_ok d'"
    "inp_ok (d'\<lparr>inp_w := inp_e d'\<rparr>)" "inp_ready (d'\<lparr>inp_w := inp_e d'\<rparr>) = inp_ready d @ inp_line d @ [b]" "inp_line (d'\<lparr>inp_w := inp_e d'\<rparr>) = []"
proof -
  note D = ok [unfolded inp_ok_def] and c = inp_count [OF ok]
  have l: "length (inp_buf d) = 128" "unat (inp_e d - inp_w d) < 128" "unat (inp_e d - inp_r d) < 128" using D c room by auto
  have m: "unat (inp_e d mod INPUT_BUF) = unat (inp_e d) mod 128" by (simp add: unat_mod)
  show li: "inp_line d' = inp_line d @ [b]"
    using ibuf.push [OF l(2,1)] unfolding d'_def inp_line_def m by simp
  have all: "ring_items 128 (inp_buf d') (inp_r d') (inp_e d') = inp_ready d @ inp_line d @ [b]"
    using ibuf.push [OF l(3,1)] inp_all [OF ok] unfolding d'_def m by simp
  have n: "unat (inp_e d' - inp_w d') = Suc (unat (inp_e d - inp_w d))" "unat (inp_e d' - inp_r d') = Suc (unat (inp_e d - inp_r d))"
    using ibuf.count_push [OF l(2)] ibuf.count_push [OF l(3)] by (simp_all add: d'_def)
  have s: "unat (inp_w d' - inp_r d') + unat (inp_e d' - inp_w d') = unat (inp_e d' - inp_r d')" using n D by (simp add: d'_def)
  have "ring_items 128 (inp_buf d') (inp_r d') (inp_e d') = inp_ready d' @ inp_line d'"
    unfolding inp_ready_def inp_line_def by (rule ibuf.split_at [OF s])
  then show "inp_ready d' = inp_ready d" using all li by simp
  have bl: "length (inp_buf d') = 128" "unat (inp_e d' - inp_r d') \<le> 128" using l n by (simp_all add: d'_def)
  then show "inp_ok d'" if "b \<noteq> 10" using that s li D by (simp add: inp_ok_def)
  show "inp_ok (d'\<lparr>inp_w := inp_e d'\<rparr>)" "inp_line (d'\<lparr>inp_w := inp_e d'\<rparr>) = []" using bl by (simp_all add: inp_ok_def inp_line_def)
  show "inp_ready (d'\<lparr>inp_w := inp_e d'\<rparr>) = inp_ready d @ inp_line d @ [b]" using all by (simp add: inp_ready_def)
qed

lemma inp_limit: "inp_ok d \<Longrightarrow> inp_e d - inp_r d < INPUT_BUF \<longleftrightarrow> length (inp_ready d) + length (inp_line d) < 128"
  using inp_count [of d] by (simp add: word_less_nat_alt)

lemma inp_full:
  assumes "inp_ok d"
  shows "inp_e d = inp_r d + INPUT_BUF \<longleftrightarrow> length (inp_ready d) + length (inp_line d) = 128"
proof -
  have "unat (inp_e d - inp_r d) \<le> 128" using assms by (simp add: inp_ok_def)
  from ibuf.full_iff [OF this] show ?thesis using inp_count [OF assms] by simp
qed

section \<open>The interrupt\<close>

text \<open>The state between two characters, and what a character may change of it.\<close>

definition typing :: "'a dst_scheme \<Rightarrow> bool" where
  "typing s \<longleftrightarrow> quiet s \<and> lk_held Lcons s \<and> lk_free Lptable s \<and> cons_ok s \<and> inp_ok (cdev s)"

definition typed :: "'a dst_scheme \<Rightarrow> 'a dst_scheme \<Rightarrow> bool" where
  "typed s t \<longleftrightarrow> typing t \<and> length (procs t) = length (procs s) \<and>
     (\<forall>i < length (procs s). procs t ! i = procs s ! i \<or>
        p_state (procs s ! i) = SLEEPING \<and> p_chan (procs s ! i) = Cinput \<and> p_state (procs t ! i) = RUNNABLE) \<and>
     (inp_ready (cdev t) \<noteq> inp_ready (cdev s) \<longrightarrow>
        (\<forall>i < length (procs s). p_state (procs s ! i) = SLEEPING \<and> p_chan (procs s ! i) = Cinput \<longrightarrow> p_state (procs t ! i) = RUNNABLE))"

lemma consputc_ok:
  assumes "cons_ok s"
  obtains x where "consputc c s = Ok () (s\<lparr>ttyd := x\<rparr>)" "cons_ok (s\<lparr>ttyd := x\<rparr>)"
proof -
  obtain x where x: "tputs [c] (ttyd s) = Some x" "uint (crt_pos x) < 24 * 80" using tputs_ok [of "ttyd s" "[c]"] assms by (auto simp: cons_ok_def)
  then have "consputs [c] s = Ok () (s\<lparr>ttyd := x\<rparr>)" using consputs_tputs [of s "[c]"] assms by (simp add: cons_ok_def)
  then have "consputc c s = Ok () (s\<lparr>ttyd := x\<rparr>)" by (cases "consputc c s") simp_all
  then show thesis using that x assms by (simp add: cons_ok_def)
qed

lemma typing_putc:
  assumes "typing s"
  obtains x where "consputc c s = Ok () (s\<lparr>ttyd := x\<rparr>)" "typing (s\<lparr>ttyd := x\<rparr>)"
proof -
  have "cons_ok s" using assms by (simp add: typing_def)
  then obtain x where "consputc c s = Ok () (s\<lparr>ttyd := x\<rparr>)" "cons_ok (s\<lparr>ttyd := x\<rparr>)" by (rule consputc_ok)
  then show thesis using that [of x] assms by (simp add: typing_def)
qed

lemma typed_same: "typing t \<Longrightarrow> procs t = procs s \<Longrightarrow> inp_ready (cdev t) = inp_ready (cdev s) \<Longrightarrow> typed s t"
  by (simp add: typed_def)

lemma kill_line_spec:
  assumes "typing s" "n = length (inp_line (cdev s))"
  shows "\<exists>t. kill_line n s = Ok () t \<and> typed s t \<and> inp_line (cdev t) = [] \<and> inp_ready (cdev t) = inp_ready (cdev s) \<and> procs t = procs s"
  using assms
proof (induction n arbitrary: s)
  case 0
  then show ?case by (simp add: typed_same)
next
  case (Suc n)
  let ?d = "cdev s" let ?s = "upd_cd (\<lambda>d. d\<lparr>inp_e := inp_e d - 1\<rparr>) s"
  have ok: "inp_ok ?d" "inp_line ?d \<noteq> []" using Suc.prems by (auto simp: typing_def)
  then have w: "inp_w ?d \<noteq> inp_e ?d" using line_empty [of ?d] by auto
  have "last (inp_line ?d) \<noteq> 10" using ok last_in_set [OF ok(2)] unfolding inp_ok_def by metis
  then have nl: "inp_at s (inp_e ?d - 1) \<noteq> 10" using ibuf.last_cell [OF w, of "inp_buf ?d"] by (simp add: inp_line_def unat_mod)
  note R = rubout [OF ok]
  have "typing ?s" using Suc.prems(1) R(1) by (simp add: typing_def)
  then obtain x where x: "consputc BACKSPACE ?s = Ok () (?s\<lparr>ttyd := x\<rparr>)" "typing (?s\<lparr>ttyd := x\<rparr>)" by (rule typing_putc)
  have "n = length (inp_line (cdev (?s\<lparr>ttyd := x\<rparr>)))" using R(2) Suc.prems(2) by simp
  from Suc.IH [OF x(2) this] obtain t where t: "kill_line n (?s\<lparr>ttyd := x\<rparr>) = Ok () t" "typed (?s\<lparr>ttyd := x\<rparr>) t" "inp_line (cdev t) = []"
    "inp_ready (cdev t) = inp_ready ?d" "procs t = procs s" using R(3) by auto
  then have "kill_line (Suc n) s = Ok () t" using w nl x(1) by simp
  then show ?case using t by (auto simp: typed_def)
qed

lemma typed_trans:
  assumes "typed s t" "typed t u"
  shows "typed s u"
proof -
  have l: "length (procs t) = length (procs s)" "length (procs u) = length (procs s)" using assms by (simp_all add: typed_def)
  have "procs u ! i = procs s ! i \<or> p_state (procs s ! i) = SLEEPING \<and> p_chan (procs s ! i) = Cinput \<and> p_state (procs u ! i) = RUNNABLE"
    if i: "i < length (procs s)" for i
    using assms i l(1) unfolding typed_def by (metis procstate.distinct(23))
  moreover have "p_state (procs u ! i) = RUNNABLE"
    if i: "i < length (procs s)" and z: "p_state (procs s ! i) = SLEEPING" "p_chan (procs s ! i) = Cinput" and n: "inp_ready (cdev u) \<noteq> inp_ready (cdev s)" for i
  proof (cases "inp_ready (cdev t) = inp_ready (cdev s)")
    case True
    then show ?thesis using assms i z n l(1) unfolding typed_def by metis
  next
    case False
    then have "p_state (procs t ! i) = RUNNABLE" using assms(1) i z unfolding typed_def by blast
    then show ?thesis using assms(2) i l(1) unfolding typed_def by (metis procstate.distinct(23))
  qed
  ultimately show ?thesis using assms(2) l unfolding typed_def by simp
qed

definition inp_state :: "consdev \<Rightarrow> u8 list \<times> u8 list" where
  "inp_state d = (inp_ready d, inp_line d)"

lemma consolechar_spec:
  assumes ty: "typing s" and c: "0 \<le> c" "c < 256" "c \<noteq> 16" "c \<noteq> 21" "c \<noteq> 8" "c \<noteq> 0x7f"
  shows "\<exists>t. consolechar c s = Ok () t \<and> typed s t \<and> inp_state (cdev t) = edit1 c (inp_state (cdev s))"
proof (cases "c \<noteq> 0 \<and> length (inp_ready (cdev s)) + length (inp_line (cdev s)) < 128")
  case False
  have ok: "inp_ok (cdev s)" using ty by (simp add: typing_def)
  then have "consolechar c s = Ok () s" using False inp_limit [OF ok] by (auto simp: consolechar_def)
  then show ?thesis using False ty c by (auto simp: typed_same inp_state_def edit1_def)
next
  case True
  let ?c = "if c = 13 then 10 else c"
  have ok: "inp_ok (cdev s)" and q: "quiet s" "lk_free Lptable s" using ty by (simp_all add: typing_def)
  have room: "length (inp_ready (cdev s)) + length (inp_line (cdev s)) < 128" using True by simp
  let ?f = "\<lambda>d. d\<lparr>inp_buf := (inp_buf d)[unat (inp_e d mod INPUT_BUF) := of_int ?c], inp_e := inp_e d + 1\<rparr>"
  let ?s = "upd_cd ?f s"
  note T = type_char [OF ok room, of "of_int ?c"]
  have nl: "(of_int ?c :: u8) = 10 \<longleftrightarrow> ?c = 10"
  proof
    assume "(of_int ?c :: u8) = 10"
    then have "uint (of_int ?c :: u8) = 10" by simp
    then show "?c = 10" using c by (simp add: uint_word_of_int split: if_splits)
  qed simp
  have co: "cons_ok ?s" using ty by (simp add: typing_def)
  obtain x where x: "consputc ?c ?s = Ok () (?s\<lparr>ttyd := x\<rparr>)" "cons_ok (?s\<lparr>ttyd := x\<rparr>)" by (rule consputc_ok [OF co])
  let ?t = "?s\<lparr>ttyd := x\<rparr>"
  have e: "consolechar c s = (if ?c = 10 \<or> ?c = 4 \<or> inp_e (?f (cdev s)) = inp_r (cdev s) + INPUT_BUF
      then wakeup Cinput (upd_cd (\<lambda>d. d\<lparr>inp_w := inp_e d\<rparr>) ?t) else Ok () ?t)"
    using True inp_limit [OF ok] x(1) by (simp add: consolechar_def Let_def)
  have full: "inp_e (?f (cdev s)) = inp_r (cdev s) + INPUT_BUF \<longleftrightarrow> length (inp_ready (cdev s)) + length (inp_line (cdev s)) + 1 = 128" if "?c \<noteq> 10"
    using inp_full [OF T(3)] T(1,2) that nl by simp
  have ed: "edit1 c (inp_state (cdev s)) = (if ?c = 10 \<or> ?c = 4 \<or> length (inp_ready (cdev s)) + length (inp_line (cdev s)) + 1 = 128
      then (inp_ready (cdev s) @ inp_line (cdev s) @ [of_int ?c], []) else (inp_ready (cdev s), inp_line (cdev s) @ [of_int ?c]))"
    using True c unfolding edit1_def inp_state_def by (simp add: Let_def)
  show ?thesis
  proof (cases "?c = 10 \<or> ?c = 4 \<or> inp_e (?f (cdev s)) = inp_r (cdev s) + INPUT_BUF")
    case cm: True
    let ?u = "wakeup1 Cinput (upd_cd (\<lambda>d. d\<lparr>inp_w := inp_e d\<rparr>) ?t)"
    have "consolechar c s = Ok () ?u" unfolding e using cm q by (simp add: wakeup_eq)
    moreover have "typing ?u" using T(4) ty x(2) by (simp add: typing_def)
    then have "typed s ?u" by (auto simp: typed_def wakeup1_nth)
    moreover have "inp_state (cdev ?u) = edit1 c (inp_state (cdev s))" unfolding ed using cm full T(5,6) by (auto simp: inp_state_def)
    ultimately show ?thesis by blast
  next
    case cm: False
    then have "consolechar c s = Ok () ?t" unfolding e by simp
    moreover have "typing ?t" using T(3) nl cm ty x(2) by (simp add: typing_def)
    then have "typed s ?t" by (rule typed_same) (use T(2) in simp_all)
    moreover have "inp_state (cdev ?t) = edit1 c (inp_state (cdev s))" unfolding ed using cm full T(1,2) by (auto simp: inp_state_def)
    ultimately show ?thesis by blast
  qed
qed

lemma consoleintr_loop_spec:
  assumes "typing s" "\<forall>c\<in>set cs. 0 \<le> c \<and> c < 256"
  shows "\<exists>t. consoleintr_loop cs dump s = Ok (dump \<or> 16 \<in> set cs) t \<and> typed s t \<and> inp_state (cdev t) = fold edit1 cs (inp_state (cdev s))"
  using assms
proof (induction cs arbitrary: dump s)
  case Nil
  then show ?case by (simp add: typed_same)
next
  case (Cons c cs)
  have ok: "inp_ok (cdev s)" using Cons.prems(1) by (simp add: typing_def)
  have IH: "\<exists>t. consoleintr_loop cs d u = Ok (d \<or> 16 \<in> set cs) t \<and> typed s t \<and> inp_state (cdev t) = fold edit1 (c # cs) (inp_state (cdev s))"
    if u: "typed s u" "inp_state (cdev u) = edit1 c (inp_state (cdev s))" for u d
  proof -
    have "typing u" using u(1) by (simp add: typed_def)
    from Cons.IH [OF this, of d] Cons.prems(2) obtain t where "consoleintr_loop cs d u = Ok (d \<or> 16 \<in> set cs) t" "typed u t"
      "inp_state (cdev t) = fold edit1 cs (inp_state (cdev u))" by auto
    then show ?thesis using u typed_trans by auto
  qed
  consider "c = 16" | "c = 21" | "c = 8 \<or> c = 0x7f" | "c \<noteq> 16" "c \<noteq> 21" "c \<noteq> 8" "c \<noteq> 0x7f" by blast
  then show ?case
  proof cases
    case 1
    then show ?thesis using IH [OF typed_same [OF Cons.prems(1)], of True] by (simp add: edit1_control inp_state_def)
  next
    case 2
    obtain u where u: "kill_line (unat (inp_e (cdev s) - inp_w (cdev s))) s = Ok () u" "typed s u" "inp_line (cdev u) = []" "inp_ready (cdev u) = inp_ready (cdev s)"
      using kill_line_spec [OF Cons.prems(1)] by (auto simp: inp_line_def)
    then have "inp_state (cdev u) = edit1 c (inp_state (cdev s))" using 2 by (simp add: edit1_control inp_state_def)
    from IH [OF u(2) this, of dump] show ?thesis using 2 u(1) by simp
  next
    case 3
    show ?thesis
    proof (cases "inp_line (cdev s) = []")
      case True
      then show ?thesis using IH [OF typed_same [OF Cons.prems(1)], of dump] 3 line_empty [of "cdev s"] by (auto simp: edit1_control inp_state_def)
    next
      case False
      let ?s = "upd_cd (\<lambda>d. d\<lparr>inp_e := inp_e d - 1\<rparr>) s"
      note R = rubout [OF ok False]
      have "typing ?s" using Cons.prems(1) R(1) by (simp add: typing_def)
      then obtain x where x: "consputc BACKSPACE ?s = Ok () (?s\<lparr>ttyd := x\<rparr>)" "typing (?s\<lparr>ttyd := x\<rparr>)" by (rule typing_putc)
      have t: "typed s (?s\<lparr>ttyd := x\<rparr>)" by (rule typed_same [OF x(2)]) (use R(3) in simp_all)
      have "inp_state (cdev (?s\<lparr>ttyd := x\<rparr>)) = edit1 c (inp_state (cdev s))" using 3 R(2,3) by (auto simp: edit1_control inp_state_def)
      from IH [OF t this, of dump] show ?thesis using 3 False x(1) line_empty [of "cdev s"] by auto
    qed
  next
    case 4
    obtain u where u: "consolechar c s = Ok () u" "typed s u" "inp_state (cdev u) = edit1 c (inp_state (cdev s))"
      using consolechar_spec [OF Cons.prems(1) _ _ 4] Cons.prems(2) by auto
    from IH [OF u(2,3), of dump] show ?thesis using 4 u(1) by simp
  qed
qed

text \<open>
  C18: the console is a line editor. Whatever characters the keyboard or the serial line delivers
  (\<open>^P\<close> aside, which also prints the process table), \<open>consoleintr\<close> returns with the console lock free, and
  the bytes ready to be read and the line being typed are what the editor on lists makes of them,
  character by character: \<open>^U\<close> empties the line, backspace removes its last byte, a newline or \<open>^D\<close>
  or a full buffer makes the line ready, carriage return counts as newline, and characters are
  dropped while 128 bytes are waiting. When bytes become ready every process that waits for
  input is made runnable. The counters \<open>r\<close>, \<open>w\<close>, \<open>e\<close> stay in order, through wrap-around.
\<close>

theorem consoleintr_edits:
  assumes "quiet s" "lk_free Lcons s" "lk_free Lptable s" "cons_ok s" "inp_ok (cdev s)" "\<forall>c\<in>set cs. 0 \<le> c \<and> c < 256 \<and> c \<noteq> 16"
  shows "\<exists>t. consoleintr cs s = Ok () t \<and> inp_ok (cdev t) \<and> lk_free Lcons t \<and> quiet t \<and>
    (inp_ready (cdev t), inp_line (cdev t)) = fold edit1 cs (inp_ready (cdev s), inp_line (cdev s)) \<and>
    (inp_ready (cdev t) \<noteq> inp_ready (cdev s) \<longrightarrow>
      (\<forall>i < length (procs s). p_state (procs s ! i) = SLEEPING \<and> p_chan (procs s ! i) = Cinput \<longrightarrow> p_state (procs t ! i) = RUNNABLE))"
proof -
  let ?h = "hold Lcons s"
  have "typing ?h" using assms(1-5) by (simp add: typing_def)
  from consoleintr_loop_spec [OF this, of cs False] assms(6) obtain t where t: "consoleintr_loop cs False ?h = Ok False t" "typed ?h t"
    "inp_state (cdev t) = fold edit1 cs (inp_state (cdev s))" by auto
  have k: "quiet t" "lk_held Lcons t" "inp_ok (cdev t)" using t(2) by (simp_all add: typed_def typing_def)
  have "consoleintr cs s = Ok () (unhold Lcons t)" using t(1) assms(1,2) k by (simp add: consoleintr_def acquire_eq release_eq)
  then show ?thesis using t(2,3) k unhold_lemmas [OF k(1,2)] by (intro exI [of _ "unhold Lcons t"]) (simp add: inp_state_def typed_def)
qed


theorem consoleintr_edits_witness:
  "\<exists>t. consoleintr [104, 105, 8, 111, 13] ex_kst = Ok () t \<and> (inp_ready (cdev t), inp_line (cdev t)) = ([104, 111, 10], [])"
proof -
  have "inp_ok (cdev ex_kst)" "(inp_ready (cdev ex_kst), inp_line (cdev ex_kst)) = ([], [])"
    by (simp_all add: inp_ok_def inp_line_def inp_ready_def)
  moreover have "fold edit1 [104, 105, 8, 111, 13] ([], []) = ([104, 111, 10], [])" by (simp add: edit1_def Let_def)
  ultimately show ?thesis using consoleintr_edits [of ex_kst "[104, 105, 8, 111, 13]"] by fastforce
qed

end
