(* ===== verification/Grep.thy ===== *)
theory Grep
  imports Prelude
begin

text \<open>
  user/grep.c: the matcher of regular expressions, and the program. A C string is the list of its
  bytes without the terminating zero. The input of \<open>grep\<close> is what the calls of \<open>read\<close> return, one
  list of bytes for each call.
\<close>

section \<open>The matcher\<close>

abbreviation (input) STAR :: u8 where "STAR \<equiv> 42"
abbreviation (input) DOT :: u8 where "DOT \<equiv> 46"
abbreviation (input) DOLLAR :: u8 where "DOLLAR \<equiv> 36"
abbreviation (input) CARET :: u8 where "CARET \<equiv> 94"

function (sequential) matchhere :: "u8 list \<Rightarrow> u8 list \<Rightarrow> bool"
and matchstar :: "u8 \<Rightarrow> u8 list \<Rightarrow> u8 list \<Rightarrow> bool" where
  "matchhere [] text = True"
| "matchhere (c # re) text =
     (if re \<noteq> [] \<and> hd re = STAR then matchstar c (tl re) text
      else if c = DOLLAR \<and> re = [] then text = []
      else case text of [] \<Rightarrow> False | x # text' \<Rightarrow> if c = DOT \<or> c = x then matchhere re text' else False)"
| "matchstar c re text =
     (if matchhere re text then True
      else case text of [] \<Rightarrow> False | x # text' \<Rightarrow> if x = c \<or> c = DOT then matchstar c re text' else False)"
  by pat_completeness auto
termination
proof (relation "measures [case_sum (\<lambda>(re, text). length re) (\<lambda>(c, re, text). length re),
      case_sum (\<lambda>(re, text). length text) (\<lambda>(c, re, text). length text), case_sum (\<lambda>_. 0) (\<lambda>_. 1)]")
  show "wf (measures [case_sum (\<lambda>(re, text). length re) (\<lambda>(c, re, text). length re),
      case_sum (\<lambda>(re, text). length text) (\<lambda>(c, re, text). length text), case_sum (\<lambda>_. 0) (\<lambda>_. 1)])" by simp
qed auto

fun match_loop :: "u8 list \<Rightarrow> u8 list \<Rightarrow> bool" where
  "match_loop re text = (if matchhere re text then True else case text of [] \<Rightarrow> False | _ # text' \<Rightarrow> match_loop re text')"

definition match :: "u8 list \<Rightarrow> u8 list \<Rightarrow> bool" where
  "match re text = (if re \<noteq> [] \<and> hd re = CARET then matchhere (tl re) text else match_loop re text)"

section \<open>The program\<close>

text \<open>
  \<open>grep_lines pattern p\<close> runs over the lines in \<open>p\<close>, which end with a newline: what it writes, and the bytes after
  the last newline.
\<close>

function grep_lines :: "u8 list \<Rightarrow> u8 list \<Rightarrow> u8 list \<times> u8 list" where
  "grep_lines pattern p =
     (if 10 \<in> set p then
        let line = takeWhile (\<lambda>x. x \<noteq> 10) p;
            (out, rest) = grep_lines pattern (drop (length line + 1) p) in
        ((if match pattern line then line @ [10] else []) @ out, rest)
      else ([], p))"
  by pat_completeness auto
termination by (relation "measure (\<lambda>(_, p). length p)") (auto intro!: diff_less length_pos_if_in_set)

text \<open>
  The loop over the reads: \<open>b\<close> are the \<open>m\<close> bytes kept in the buffer. Bytes are only kept when the buffer had a
  newline. A zero byte ends the string that \<open>strchr\<close> looks at.
\<close>

fun grep :: "u8 list \<Rightarrow> u8 list list \<Rightarrow> u8 list \<Rightarrow> u8 list" where
  "grep pattern [] b = []"
| "grep pattern (r # rs) b =
     (if r = [] then []
      else
        let buf = b @ r;
            (out, p) = grep_lines pattern (takeWhile (\<lambda>x. x \<noteq> 0) buf);
            used = length (takeWhile (\<lambda>x. x \<noteq> 0) buf) - length p in
        out @ grep pattern rs (if used = 0 then [] else drop used buf))"

text \<open>
  What the program writes to which descriptor. \<open>inp\<close> is what reading descriptor 0 gives, \<open>fs f\<close> what
  reading the file \<open>f\<close> gives, or \<open>None\<close> if it cannot be opened.
\<close>

fun grep_files :: "u8 list \<Rightarrow> u8 list list \<Rightarrow> (u8 list \<Rightarrow> u8 list list option) \<Rightarrow> (int \<times> u8 list) list" where
  "grep_files pattern [] fs = []"
| "grep_files pattern (f # argv) fs =
     (case fs f of
        None \<Rightarrow> [(1, map of_char ''grep: cannot open '' @ f @ [10])]
      | Some rs \<Rightarrow> (1, grep pattern rs []) # grep_files pattern argv fs)"

definition grep_main :: "u8 list list \<Rightarrow> u8 list list \<Rightarrow> (u8 list \<Rightarrow> u8 list list option) \<Rightarrow> (int \<times> u8 list) list" where
  "grep_main argv inp fs =
     (if length argv \<le> 1 then [(2, map of_char ''usage: grep pattern [file ...]'' @ [10])]
      else
        let pattern = argv ! 1 in
        if length argv \<le> 2 then [(1, grep pattern inp [])]
        else grep_files pattern (drop 2 argv) fs)"

declare matchstar.simps [simp del] match_loop.simps [simp del] grep_lines.simps [simp del]

section \<open>What the matcher decides\<close>

text \<open>
  \<open>here re t\<close>: some prefix of \<open>t\<close> matches \<open>re\<close>, where \<open>c*\<close> stands for any number of \<open>c\<close>, a dot for any byte, and a
  dollar at the end for the end of the text.
\<close>

inductive here :: "u8 list \<Rightarrow> u8 list \<Rightarrow> bool" where
  here_nil: "here [] t"
| here_star: "\<forall>x\<in>set p. x = c \<or> c = DOT \<Longrightarrow> here re t \<Longrightarrow> here (c # STAR # re) (p @ t)"
| here_end: "here [DOLLAR] []"
| here_char: "\<not> (re \<noteq> [] \<and> hd re = STAR) \<Longrightarrow> \<not> (c = DOLLAR \<and> re = []) \<Longrightarrow> c = DOT \<or> c = x \<Longrightarrow> here re t \<Longrightarrow> here (c # re) (x # t)"

inductive_simps here_simps: "here [] t" "here (c # re) t"

lemma matchhere_iff:
  "matchhere re t \<longleftrightarrow> here re t"
  "matchstar c re' t' \<longleftrightarrow> (\<exists>p u. t' = p @ u \<and> (\<forall>x\<in>set p. x = c \<or> c = DOT) \<and> here re' u)"
proof (induction re t and c re' t' rule: matchhere_matchstar.induct)
  case (1 t)
  then show ?case by (simp add: here_nil)
next
  case (2 c re t)
  show ?case
  proof (cases "re \<noteq> [] \<and> hd re = STAR")
    case True
    then obtain re' where re: "re = STAR # re'" by (cases re) auto
    then show ?thesis using 2(1) by (auto simp: here_simps(2))
  next
    case False
    then show ?thesis using 2(2) by (cases t) (auto simp: here_simps(2))
  qed
next
  case (3 c re t)
  show ?case
  proof (cases "matchhere re t")
    case True
    then have "here re t" using 3(1) by simp
    then have "\<exists>p u. t = p @ u \<and> (\<forall>x\<in>set p. x = c \<or> c = DOT) \<and> here re u" by (intro exI [of _ "[]"] exI [of _ t]) simp
    then show ?thesis using True by (simp add: matchstar.simps)
  next
    case False
    then have nh: "\<not> here re t" using 3(1) by simp
    show ?thesis
    proof (cases t)
      case Nil
      then show ?thesis using nh False by (simp add: matchstar.simps)
    next
      case (Cons x t')
      have e: "(\<exists>p u. t = p @ u \<and> (\<forall>x\<in>set p. x = c \<or> c = DOT) \<and> here re u) \<longleftrightarrow>
          (x = c \<or> c = DOT) \<and> (\<exists>p u. t' = p @ u \<and> (\<forall>x\<in>set p. x = c \<or> c = DOT) \<and> here re u)"
        (is "?L \<longleftrightarrow> ?R")
      proof
        assume ?L
        then obtain p u where p: "t = p @ u" "\<forall>x\<in>set p. x = c \<or> c = DOT" "here re u" by blast
        moreover from p nh have "p \<noteq> []" by auto
        ultimately show ?R using Cons by (cases p) auto
      next
        assume ?R
        then obtain p u where "x = c \<or> c = DOT" "t' = p @ u" "\<forall>x\<in>set p. x = c \<or> c = DOT" "here re u" by blast
        then show ?L using Cons by (intro exI [of _ "x # p"] exI [of _ u]) auto
      qed
      have f: "matchstar c re t \<longleftrightarrow> (x = c \<or> c = DOT) \<and> matchstar c re t'" unfolding matchstar.simps [of c re t] using False Cons by simp
      show ?thesis
      proof (cases "x = c \<or> c = DOT")
        case True
        then show ?thesis unfolding e f 3(2) [OF False Cons True] by simp
      next
        case False
        then show ?thesis unfolding e f by simp
      qed
    qed
  qed
qed

lemma match_loop_iff: "match_loop re t \<longleftrightarrow> (\<exists>p u. t = p @ u \<and> here re u)"
proof (induction t)
  case Nil
  then show ?case by (simp add: match_loop.simps matchhere_iff)
next
  case (Cons x t)
  have "(\<exists>p u. x # t = p @ u \<and> here re u) \<longleftrightarrow> here re (x # t) \<or> (\<exists>p u. t = p @ u \<and> here re u)"
    by (auto simp: Cons_eq_append_conv)
  then show ?case using Cons by (simp add: match_loop.simps [of re "x # t"] matchhere_iff)
qed

text \<open>
  C24: the matcher decides the language of its patterns. \<open>match re text\<close> holds exactly when \<open>re\<close>
  matches somewhere in \<open>text\<close>, at its start if \<open>re\<close> begins with a caret, for the declarative meaning of
  patterns; the backtracking of \<open>matchstar\<close> finds a match whenever there is one.
\<close>

theorem match_regexp:
  "match re text \<longleftrightarrow> (if re \<noteq> [] \<and> hd re = CARET then here (tl re) text else \<exists>p u. text = p @ u \<and> here re u)"
  by (simp add: match_def matchhere_iff match_loop_iff)

section \<open>What the program prints\<close>

text \<open>The complete lines of a text, and what follows the last newline.\<close>

function text_lines :: "u8 list \<Rightarrow> u8 list list" where
  "text_lines t = (if 10 \<in> set t then takeWhile (\<lambda>x. x \<noteq> 10) t # text_lines (drop (length (takeWhile (\<lambda>x. x \<noteq> 10) t) + 1) t) else [])"
  by pat_completeness auto
termination by (relation "measure length") (auto intro!: diff_less length_pos_if_in_set)

definition text_rest :: "u8 list \<Rightarrow> u8 list" where
  "text_rest t = rev (takeWhile (\<lambda>x. x \<noteq> 10) (rev t))"

definition matching :: "u8 list \<Rightarrow> u8 list list \<Rightarrow> u8 list" where
  "matching pattern ls = concat (map (\<lambda>l. l @ [10]) (filter (match pattern) ls))"

declare text_lines.simps [simp del]

lemma no_newline: "10 \<notin> set l \<Longrightarrow> takeWhile (\<lambda>x. x \<noteq> 10) l = l" for l :: "u8 list"
  by (auto simp: takeWhile_eq_all_conv)

lemma text_rest_line: "10 \<notin> set l \<Longrightarrow> text_rest (l @ 10 # t) = text_rest t" "10 \<notin> set l \<Longrightarrow> text_rest l = l"
  by (auto simp: text_rest_def takeWhile_append no_newline)

lemma first_line: "10 \<in> set t \<Longrightarrow> \<exists>l u. t = l @ 10 # u \<and> 10 \<notin> set l"
  by (rule split_list_first)

lemma text_lines_line: "10 \<notin> set l \<Longrightarrow> text_lines (l @ 10 # t) = l # text_lines t" "10 \<notin> set l \<Longrightarrow> text_lines l = []"
proof -
  assume l: "10 \<notin> set l"
  have "takeWhile (\<lambda>x. x \<noteq> 10) (l @ 10 # t) = l" using no_newline [OF l] by (simp add: takeWhile_append)
  then show "text_lines (l @ 10 # t) = l # text_lines t" using l by (simp add: text_lines.simps [of "l @ 10 # t"])
  show "text_lines l = []" using l by (simp add: text_lines.simps)
qed

lemma text_append: "text_lines (t @ u) = text_lines t @ text_lines (text_rest t @ u) \<and> text_rest (t @ u) = text_rest (text_rest t @ u)"
proof (induction t rule: length_induct)
  case (1 t)
  show ?case
  proof (cases "10 \<in> set t")
    case True
    then obtain l v where "t = l @ 10 # v" "10 \<notin> set l" using first_line by blast
    then show ?thesis using 1 [rule_format, of v] by (simp add: text_lines_line text_rest_line)
  qed (simp add: text_rest_line text_lines_line)
qed

lemma grep_lines_eq: "grep_lines pattern t = (matching pattern (text_lines t), text_rest t)"
proof (induction t rule: length_induct)
  case (1 t)
  show ?case
  proof (cases "10 \<in> set t")
    case True
    then obtain l v where t: "t = l @ 10 # v" "10 \<notin> set l" using first_line by blast
    have "takeWhile (\<lambda>x. x \<noteq> 10) t = l" using no_newline [OF t(2)] t by (simp add: takeWhile_append)
    then show ?thesis using 1 [rule_format, of v] t
      by (simp add: grep_lines.simps [of pattern "l @ 10 # v"] text_lines_line text_rest_line matching_def)
  qed (simp add: grep_lines.simps text_lines_line text_rest_line matching_def)
qed

text \<open>
  \<open>keeps rs b\<close>: with \<open>b\<close> in the buffer, every read of \<open>rs\<close> brings the buffer to where it has a newline.
\<close>

fun keeps :: "u8 list list \<Rightarrow> u8 list \<Rightarrow> bool" where
  "keeps [] b = True"
| "keeps (r # rs) b = (r \<noteq> [] \<and> 10 \<in> set (b @ r) \<and> keeps rs (text_rest (b @ r)))"

lemma text_rest_suffix: "drop (length t - length (text_rest t)) t = text_rest t"
proof -
  have "t = rev (dropWhile (\<lambda>x. x \<noteq> 10) (rev t)) @ text_rest t"
    unfolding text_rest_def rev_append [symmetric] by (simp add: takeWhile_dropWhile_id)
  then show ?thesis by (metis append_eq_conv_conj length_append add_diff_cancel_right')
qed

lemma text_rest_less:
  assumes "10 \<in> set t"
  shows "length (text_rest t) < length t"
proof (rule ccontr)
  assume "\<not> ?thesis"
  then have "text_rest t = t" using text_rest_suffix [of t] by simp
  moreover have "10 \<notin> set (text_rest t)" by (auto simp: text_rest_def dest: set_takeWhileD)
  ultimately show False using assms by simp
qed

text \<open>
  C25: \<open>grep\<close> prints, in order and complete, exactly the lines of its input that match the pattern,
  however the reads cut the input into pieces, as long as the input has no zero byte and each
  read leaves a newline in the buffer. What follows the last newline is not printed.
\<close>

theorem grep_prints_matches:
  assumes "keeps rs []" "0 \<notin> set (concat rs)"
  shows "grep pattern (rs @ [[]]) [] = matching pattern (text_lines (concat rs))"
proof -
  have "grep pattern (rs @ [[]]) b = matching pattern (text_lines (b @ concat rs))" if "keeps rs b" "0 \<notin> set (b @ concat rs)" "10 \<notin> set b" for b
    using that
  proof (induction rs arbitrary: b)
    case Nil
    then show ?case by (simp add: text_lines_line matching_def)
  next
    case (Cons r rs)
    define t where "t = b @ r"
    have z: "takeWhile (\<lambda>x. x \<noteq> 0) t = t" using Cons.prems(2) by (auto simp: takeWhile_eq_all_conv t_def)
    have k: "r \<noteq> []" "10 \<in> set t" "keeps rs (text_rest t)" using Cons.prems(1) by (simp_all add: t_def)
    have n: "10 \<notin> set (text_rest t)" "set (text_rest t) \<subseteq> set t" by (auto simp: text_rest_def dest: set_takeWhileD)
    have "length t - length (text_rest t) \<noteq> 0" using text_rest_less [OF k(2)] by simp
    then have "grep pattern ((r # rs) @ [[]]) b = matching pattern (text_lines t) @ grep pattern (rs @ [[]]) (text_rest t)"
      using k(1) grep_lines_eq [of pattern t] text_rest_suffix [of t] by (simp add: Let_def t_def [symmetric] z del: drop_append)
    also have "grep pattern (rs @ [[]]) (text_rest t) = matching pattern (text_lines (text_rest t @ concat rs))"
      using k(3) n Cons.prems(2) by (intro Cons.IH) (auto simp: t_def)
    finally show ?case using text_append [of t "concat rs"] by (simp add: matching_def t_def)
  qed
  from this [of "[]"] assms show ?thesis by simp
qed

text \<open>The input \<open>abc\<close>, newline, \<open>xb\<close>, newline, in two pieces, for the pattern \<open>^a.c\<close>.\<close>

theorem grep_prints_matches_witness: "grep [94, 97, 46, 99] ([[97, 98, 99, 10, 120], [98, 10]] @ [[]]) [] = [97, 98, 99, 10]"
proof -
  let ?rs = "[[97, 98, 99, 10, 120], [98, 10]] :: u8 list list"
  have "grep [94, 97, 46, 99] (?rs @ [[]]) [] = matching [94, 97, 46, 99] (text_lines (concat ?rs))"
    by (rule grep_prints_matches) (simp_all add: text_rest_def)
  also have "text_lines (concat ?rs) = [[97, 98, 99], [120, 98]]" by (simp add: text_lines.simps)
  also have "matching [94, 97, 46, 99] [[97, 98, 99], [120, 98]] = [97, 98, 99, 10]" by (simp add: matching_def match_def)
  finally show ?thesis .
qed


end
