(* ===== verification/Sh.thy ===== *)
theory Sh
  imports Prelude
begin

text \<open>
  The parser of user/sh.c. The command line is the list of its bytes without the terminating zero; a
  pointer into it is a position, and the position after the last byte holds the zero. A
  parsing function takes the position \<open>*ps\<close> and returns the command and the new position; \<open>Panic\<close> is the
  shell's own \<open>panic\<close>, which ends the process that parses.

  Commands are trees: the records that \<open>malloc\<close> returns are not shared, and that it may fail is not
  modelled, nor is the message about what is left of a line that is not read to its end. The words of a command are pairs of positions, as \<open>argv\<close> and \<open>eargv\<close> hold them.
\<close>

section \<open>Tokens\<close>

definition whitespace :: "u8 list" where
  "whitespace = [32, 9, 13, 10, 11]"

definition symbols :: "u8 list" where
  "symbols = [60, 124, 62, 38, 59, 40, 41]"

definition chr_at :: "u8 list \<Rightarrow> nat \<Rightarrow> u8" where
  "chr_at b s = (if s < length b then b ! s else 0)"

function skip :: "(u8 \<Rightarrow> bool) \<Rightarrow> u8 list \<Rightarrow> nat \<Rightarrow> nat" where
  "skip P b s = (if s < length b \<and> P (b ! s) then skip P b (s + 1) else s)"
  by pat_completeness auto
termination by (relation "measure (\<lambda>(P, b, s). length b - s)") auto

declare skip.simps [simp del]

definition skip_white :: "u8 list \<Rightarrow> nat \<Rightarrow> nat" where
  "skip_white b s = skip (\<lambda>c. c \<in> set whitespace) b s"

text \<open>The kind of the token, where it begins and ends, and the position after the white space behind it.\<close>

definition gettoken :: "u8 list \<Rightarrow> nat \<Rightarrow> u8 \<times> nat \<times> nat \<times> nat" where
  "gettoken b s =
     (let q = skip_white b s;
          c = chr_at b q;
          (ret, e) =
            (if c = 0 then (0, q)
             else if c \<in> {124, 40, 41, 59, 38, 60} then (c, q + 1)
             else if c = 62 then (if chr_at b (q + 1) = 62 then (43, q + 2) else (62, q + 1))
             else (97, skip (\<lambda>c. c \<notin> set whitespace \<and> c \<notin> set symbols) b q)) in
      (ret, q, e, skip_white b e))"

definition tok_rest :: "u8 list \<Rightarrow> nat \<Rightarrow> nat" where
  "tok_rest b s = snd (snd (snd (gettoken b s)))"

text \<open>\<open>peek\<close> leaves the position after the white space in any case.\<close>

definition peek :: "u8 list \<Rightarrow> nat \<Rightarrow> u8 list \<Rightarrow> nat \<times> bool" where
  "peek b s toks = (let s = skip_white b s in (s, chr_at b s \<noteq> 0 \<and> chr_at b s \<in> set toks))"

lemma skip_bounds: "s \<le> skip P b s" "s \<le> length b \<Longrightarrow> skip P b s \<le> length b"
proof (induction P b s rule: skip.induct)
  case (1 P b s)
  { case 1 show ?case using "1.IH" by (subst skip.simps) auto }
  { case 2 then show ?case using "1.IH" by (subst skip.simps) auto }
qed

lemma skip_stop: "\<not> (skip P b s < length b \<and> P (b ! skip P b s))"
proof (induction P b s rule: skip.induct)
  case (1 P b s)
  then show ?case by (subst skip.simps, subst (2) skip.simps) auto
qed

lemma skip_all: "s \<le> i \<Longrightarrow> i < skip P b s \<Longrightarrow> i < length b \<and> P (b ! i)"
proof (induction P b s rule: skip.induct)
  case (1 P b s)
  show ?case
  proof (cases "s < length b \<and> P (b ! s)")
    case True
    then show ?thesis using "1.IH" "1.prems" by (cases "i = s") (auto simp: skip.simps [of P b s])
  next
    case False
    then have "skip P b s = s" by (subst skip.simps) auto
    then show ?thesis using "1.prems" by simp
  qed
qed

lemma skip_white_bounds: "s \<le> skip_white b s" "s \<le> length b \<Longrightarrow> skip_white b s \<le> length b"
  by (simp_all add: skip_white_def skip_bounds)

lemma chr_at_pos: "chr_at b s \<noteq> 0 \<Longrightarrow> s < length b"
  by (auto simp: chr_at_def split: if_splits)

lemma peek_pos: "peek b s toks = (s', r) \<Longrightarrow> s \<le> s' \<and> (s \<le> length b \<longrightarrow> s' \<le> length b) \<and> (r \<longrightarrow> s' < length b)"
  by (auto simp: peek_def Let_def skip_white_def skip_bounds chr_at_pos)

lemma gettoken_pos:
  assumes "gettoken b s = (ret, q, e, s')" "s \<le> length b"
  shows "s \<le> q" "q \<le> e" "e \<le> s'" "s' \<le> length b" "ret \<noteq> 0 \<Longrightarrow> s < s'" "ret = 97 \<Longrightarrow> q < e"
proof -
  have q: "q = skip_white b s" "s \<le> q" "q \<le> length b"
    using assms by (auto simp: gettoken_def Let_def skip_white_def skip_bounds split: if_splits)
  have c2: "chr_at b (q + 1) = 62 \<Longrightarrow> q + 1 < length b" using chr_at_pos [of b "q + 1"] by simp
  have c1: "chr_at b q \<noteq> 0 \<Longrightarrow> q < length b" by (rule chr_at_pos)
  let ?P = "\<lambda>c. c \<notin> set whitespace \<and> c \<notin> set symbols"
  have w: "q < length b \<Longrightarrow> b ! q \<notin> set whitespace" using skip_stop [of "\<lambda>c. c \<in> set whitespace" b s] q(1) by (auto simp: skip_white_def)
  have sk: "chr_at b q \<noteq> 0 \<Longrightarrow> chr_at b q \<notin> set symbols \<Longrightarrow> q < skip ?P b q"
  proof -
    assume a: "chr_at b q \<noteq> 0" "chr_at b q \<notin> set symbols"
    have l: "q < length b" using a(1) by (rule c1)
    then have "chr_at b q = b ! q" by (simp add: chr_at_def)
    then have "?P (b ! q)" using w [OF l] a(2) by simp
    then have "skip ?P b q = skip ?P b (q + 1)" using l by (subst skip.simps) simp
    then show ?thesis using skip_bounds(1) [of "q + 1" ?P b] by simp
  qed
  have s': "s' = skip_white b e" using assms(1) by (auto simp: gettoken_def Let_def split: if_splits)
  have e: "q \<le> e \<and> e \<le> length b \<and> (ret \<noteq> 0 \<longrightarrow> q < e)"
    using assms(1) q(1,3) c1 c2 sk skip_bounds(2) [OF q(3), of ?P] skip_bounds(1) [of q ?P b]
    by (auto simp: gettoken_def Let_def symbols_def Suc_le_eq split: if_splits)
  then show "q \<le> e" "e \<le> s'" "s' \<le> length b" "s \<le> q" using q s' skip_white_bounds [of e b] by auto
  show "s < s'" if "ret \<noteq> 0" using e that q s' skip_white_bounds(1) [of e b] by auto
  show "q < e" if "ret = 97" using e that by simp
qed


section \<open>Commands\<close>

datatype 'w cmd = EXEC "'w list" | REDIR "'w cmd" 'w int int | PIPE "'w cmd" "'w cmd" | LIST "'w cmd" "'w cmd" | BACK "'w cmd"

abbreviation (input) MAXARGS :: nat where "MAXARGS \<equiv> 10"
abbreviation (input) O_RDONLY :: int where "O_RDONLY \<equiv> 0"
abbreviation (input) O_WRONLY_CREATE :: int where "O_WRONLY_CREATE \<equiv> 0x201"

type_synonym word_at = "nat \<times> nat"
type_synonym 'w redir = "'w \<times> int \<times> int"

text \<open>
  The redirections that follow, in order; \<open>parseredirs\<close> puts them around the command. In \<open>parseexec\<close> the
  command inside is still growing while the redirections are put around it, so there they
  are kept aside until the words are complete.
\<close>

fun redir_around :: "'w redir list \<Rightarrow> 'w cmd \<Rightarrow> 'w cmd" where
  "redir_around [] c = c"
| "redir_around ((f, mode, fd) # rs) c = redir_around rs (REDIR c f mode fd)"

lemma redirs_step:
  assumes "peek b s toks = (s1, True)" "gettoken b s1 = (tok, u, v, s2)" "gettoken b s2 = (97, q, e, s3)"
  shows "length b - s3 < length b - s"
proof -
  have a: "s \<le> s1" "s1 < length b" using peek_pos [OF assms(1)] by auto
  then have c: "s1 \<le> s2" "s2 \<le> length b" using gettoken_pos [OF assms(2)] by auto
  then have "s2 < s3" using gettoken_pos(5) [OF assms(3)] by simp
  then show ?thesis using a c by simp
qed

function redirs_loop :: "u8 list \<Rightarrow> nat \<Rightarrow> (nat, word_at redir list) res" where
  "redirs_loop b s =
     (case peek b s [60, 62] of (s, r) \<Rightarrow>
      if \<not> r then Ok [] s
      else
        (case gettoken b s of (tok, _, _, s) \<Rightarrow>
         case gettoken b s of (t, q, e, s) \<Rightarrow>
           if t \<noteq> 97 then Panic ''missing file for redirection''
           else bind (redirs_loop b s) (\<lambda>rs s.
             Ok ((if tok = 60 then [((q, e), O_RDONLY, 0)]
                  else if tok = 62 then [((q, e), O_WRONLY_CREATE, 1)]
                  else if tok = 43 then [((q, e), O_WRONLY_CREATE, 1)] else []) @ rs) s)))"
  by pat_completeness auto
termination
  by (relation "measure (\<lambda>(b, s). length b - s)") (simp, auto dest: redirs_step [OF sym sym sym])

declare redirs_loop.simps [simp del]

lemma redirs_pos: "redirs_loop b s = Ok rs s' \<Longrightarrow> s \<le> length b \<Longrightarrow> s \<le> s' \<and> s' \<le> length b"
proof (induction b s arbitrary: rs s' rule: redirs_loop.induct)
  case (1 b s)
  obtain s1 r where p: "peek b s [60, 62] = (s1, r)" by fastforce
  note pp = peek_pos [OF p]
  show ?case
  proof (cases r)
    case False
    then show ?thesis using "1.prems" p pp by (simp add: redirs_loop.simps [of b s])
  next
    case True
    obtain tok u v s2 where g: "gettoken b s1 = (tok, u, v, s2)" by (metis prod_cases4)
    obtain t q e s3 where h: "gettoken b s2 = (t, q, e, s3)" by (metis prod_cases4)
    have b1: "s1 \<le> s2" "s2 \<le> length b" using gettoken_pos [OF g] pp "1.prems"(2) by auto
    have b2: "s2 \<le> s3" "s3 \<le> length b" using gettoken_pos [OF h] b1 by auto
    obtain rs' where "redirs_loop b s3 = Ok rs' s'" "t = 97"
      using "1.prems"(1) p g h True by (auto simp: redirs_loop.simps [of b s] ok_iff split: if_splits)
    then have "s3 \<le> s' \<and> s' \<le> length b" using "1.IH" p g h True b2 by simp
    then show ?thesis using pp b1 b2 by auto
  qed
qed


definition parseredirs :: "u8 list \<Rightarrow> word_at cmd \<Rightarrow> nat \<Rightarrow> (nat, word_at cmd) res" where
  "parseredirs b cmd s = bind (redirs_loop b s) (\<lambda>rs s. Ok (redir_around rs cmd) s)"

text \<open>The loop of \<open>parseexec\<close> over the words; \<open>args\<close> and \<open>rs\<close> are the words and redirections so far.\<close>

lemma exec_step:
  assumes "peek b s toks = (s1, r)" "gettoken b s1 = (97, q, e, s2)" "redirs_loop b s2 = Ok rs s3"
  shows "length b - s3 < length b - s"
proof -
  have a: "s \<le> s1" "s1 \<le> length b"
  proof -
    show "s \<le> s1" using peek_pos [OF assms(1)] by simp
    show "s1 \<le> length b"
    proof (rule ccontr)
      assume n: "\<not> ?thesis"
      then have "skip_white b s1 = s1" by (simp add: skip_white_def skip.simps [of _ b s1])
      then have "fst (gettoken b s1) = 0" using n by (simp add: gettoken_def Let_def chr_at_def)
      then show False using assms(2) by simp
    qed
  qed
  have g: "s1 < s2" "s2 \<le> length b" using gettoken_pos(5,4) [OF assms(2) a(2)] by simp_all
  then show ?thesis using a redirs_pos [OF assms(3) g(2)] by linarith
qed

function exec_loop :: "u8 list \<Rightarrow> word_at list \<Rightarrow> word_at redir list \<Rightarrow> nat \<Rightarrow> (nat, word_at list \<times> word_at redir list) res" where
  "exec_loop b args rs s =
     (case peek b s [124, 41, 38, 59] of (s, r) \<Rightarrow>
      if r then Ok (args, rs) s
      else
        (case gettoken b s of (tok, q, e, s) \<Rightarrow>
           if tok = 0 then Ok (args, rs) s
           else if tok \<noteq> 97 then Panic ''syntax''
           else if length args + 1 \<ge> MAXARGS then Panic ''too many args''
           else bind (redirs_loop b s) (\<lambda>rs' s. exec_loop b (args @ [(q, e)]) (rs @ rs') s)))"
  by pat_completeness auto
termination
  by (relation "measure (\<lambda>(b, _, _, s). length b - s)") (simp, auto dest: exec_step [OF sym sym])

declare exec_loop.simps [simp del]

text \<open>The loop of \<open>parseline\<close> over \<open>&\<close>.\<close>

lemma back_step: "peek b s toks = (s1, True) \<Longrightarrow> gettoken b s1 = (tok, q, e, s2) \<Longrightarrow> tok \<noteq> 0 \<Longrightarrow> length b - s2 < length b - s"
  using peek_pos [of b s toks s1 True] gettoken_pos(5) [of b s1 tok q e s2] by auto

lemma skip_white_idem [simp]: "skip_white b (skip_white b s) = skip_white b s"
  using skip_stop [of "\<lambda>c. c \<in> set whitespace" b s] by (auto simp: skip_white_def skip.simps [of _ b "skip _ b s"])

lemma peek_token:
  assumes "peek b s toks = (s1, True)" "set toks \<subseteq> {124, 40, 41, 59, 38, 60}"
  shows "gettoken b s1 = (chr_at b s1, s1, s1 + 1, skip_white b (s1 + 1))" "chr_at b s1 \<in> set toks" "s1 < length b" "s \<le> s1"
proof -
  have p: "s1 = skip_white b s" "chr_at b s1 \<noteq> 0" "chr_at b s1 \<in> set toks" using assms(1) by (auto simp: peek_def Let_def)
  then have "chr_at b s1 \<in> {124, 40, 41, 59, 38, 60}" using assms(2) by blast
  then show "gettoken b s1 = (chr_at b s1, s1, s1 + 1, skip_white b (s1 + 1))" using p by (auto simp: gettoken_def Let_def)
  show "chr_at b s1 \<in> set toks" "s1 < length b" "s \<le> s1" using p chr_at_pos peek_pos [OF assms(1)] by auto
qed

function back_loop :: "u8 list \<Rightarrow> word_at cmd \<Rightarrow> nat \<Rightarrow> word_at cmd \<times> nat" where
  "back_loop b cmd s =
     (case peek b s [38] of (s, r) \<Rightarrow> if r then back_loop b (BACK cmd) (tok_rest b s) else (cmd, s))"
  by pat_completeness auto
termination
proof (relation "measure (\<lambda>(b, _, s). length b - s)", goal_cases)
  case (2 b cmd s s1 r)
  then have p: "peek b s [38] = (s1, True)" by simp
  note g = peek_token [OF p]
  show ?case using g skip_white_bounds(1) [of "s1 + 1" b] by (simp add: tok_rest_def)
qed simp

declare back_loop.simps [simp del]

section \<open>The parser\<close>

text \<open>
  The four functions call one another; the first argument bounds the depth of the calls. Four times
  the length of the line is enough, see \<open>parsecmd_total\<close>.
\<close>

fun parseline :: "nat \<Rightarrow> u8 list \<Rightarrow> nat \<Rightarrow> (nat, word_at cmd) res"
and parsepipe :: "nat \<Rightarrow> u8 list \<Rightarrow> nat \<Rightarrow> (nat, word_at cmd) res"
and parseexec :: "nat \<Rightarrow> u8 list \<Rightarrow> nat \<Rightarrow> (nat, word_at cmd) res"
and parseblock :: "nat \<Rightarrow> u8 list \<Rightarrow> nat \<Rightarrow> (nat, word_at cmd) res" where
  "parseline 0 b s = Hang"
| "parseline (Suc n) b s =
     bind (parsepipe n b s) (\<lambda>cmd s.
     case back_loop b cmd s of (cmd, s) \<Rightarrow>
     case peek b s [59] of (s, r) \<Rightarrow>
       if r then bind (parseline n b (tok_rest b s)) (\<lambda>right s. Ok (LIST cmd right) s) else Ok cmd s)"
| "parsepipe 0 b s = Hang"
| "parsepipe (Suc n) b s =
     bind (parseexec n b s) (\<lambda>cmd s.
     case peek b s [124] of (s, r) \<Rightarrow>
       if r then bind (parsepipe n b (tok_rest b s)) (\<lambda>right s. Ok (PIPE cmd right) s) else Ok cmd s)"
| "parseexec 0 b s = Hang"
| "parseexec (Suc n) b s =
     (case peek b s [40] of (s, r) \<Rightarrow>
      if r then parseblock n b s
      else
        bind (redirs_loop b s) (\<lambda>rs s.
        bind (exec_loop b [] rs s) (\<lambda>(args, rs) s. Ok (redir_around rs (EXEC args)) s)))"
| "parseblock 0 b s = Hang"
| "parseblock (Suc n) b s =
     (case peek b s [40] of (s, r) \<Rightarrow>
      if \<not> r then Panic ''parseblock''
      else
        bind (parseline n b (tok_rest b s)) (\<lambda>cmd s.
        case peek b s [41] of (s, r) \<Rightarrow>
          if \<not> r then Panic ''syntax - missing )''
          else parseredirs b cmd (tok_rest b s)))"

text \<open>Every word gets a zero behind it, in the line with its terminator.\<close>

fun nulterminate :: "word_at cmd \<Rightarrow> u8 list \<Rightarrow> u8 list" where
  "nulterminate (EXEC args) t = fold (\<lambda>(q, e) t. t[e := 0]) args t"
| "nulterminate (REDIR c (q, e) mode fd) t = (nulterminate c t)[e := 0]"
| "nulterminate (PIPE l r) t = nulterminate r (nulterminate l t)"
| "nulterminate (LIST l r) t = nulterminate r (nulterminate l t)"
| "nulterminate (BACK c) t = nulterminate c t"

definition parsecmd :: "u8 list \<Rightarrow> (u8 list, word_at cmd) res" where
  "parsecmd b =
     (case parseline (4 * length b + 4) b 0 of
        Ok cmd s \<Rightarrow> if fst (peek b s []) \<noteq> length b then Panic ''syntax'' else Ok cmd (nulterminate cmd (b @ [0]))
      | Panic m \<Rightarrow> Panic m | Sleeps _ \<Rightarrow> Fault | Fault \<Rightarrow> Fault | Hang \<Rightarrow> Hang)"

end
