(* ===== verification/Shparse.thy ===== *)
theory Shparse
  imports Sh
begin

text \<open>
  The parser of user/sh.c ends on every line, and the strings of the command it builds are the words of
  the line.
\<close>

section \<open>Words\<close>

definition word_char :: "u8 \<Rightarrow> bool" where
  "word_char c \<longleftrightarrow> c \<noteq> 0 \<and> c \<notin> set whitespace \<and> c \<notin> set symbols"

text \<open>A run of word characters that ends where the line does or at another character.\<close>

definition good_word :: "u8 list \<Rightarrow> word_at \<Rightarrow> bool" where
  "good_word b = (\<lambda>(q, e). q < e \<and> e \<le> length b \<and> (\<forall>i. q \<le> i \<and> i < e \<longrightarrow> word_char (b ! i)) \<and>
     (e < length b \<longrightarrow> \<not> word_char (b ! e)))"

lemma gettoken_word:
  assumes "gettoken b s = (97, q, e, s')" "s \<le> length b" "0 \<notin> set b"
  shows "good_word b (q, e)"
proof -
  note g = gettoken_pos [OF assms(1,2)]
  have "q = skip_white b s" and e: "e = skip (\<lambda>c. c \<notin> set whitespace \<and> c \<notin> set symbols) b q"
    using assms(1) by (auto simp: gettoken_def Let_def split: if_splits)
  have "word_char (b ! i)" if "q \<le> i" "i < e" for i
    using skip_all [of q i "\<lambda>c. c \<notin> set whitespace \<and> c \<notin> set symbols" b] that e g(3,4) assms(3)
    by (auto simp: word_char_def in_set_conv_nth)
  moreover have "\<not> word_char (b ! e)" if "e < length b"
    using skip_stop [of "\<lambda>c. c \<notin> set whitespace \<and> c \<notin> set symbols" b q] that e by (simp add: word_char_def)
  ultimately show ?thesis using g by (simp add: good_word_def)
qed

section \<open>Results\<close>

definition parse_errors :: "string list" where
  "parse_errors = [''syntax'', ''too many args'', ''missing file for redirection'', ''syntax - missing )'']"

text \<open>\<open>fine P b s r\<close>: the result is one of the errors, or a value with property \<open>P\<close> and a position from \<open>s\<close> on.\<close>

definition fine :: "('a \<Rightarrow> bool) \<Rightarrow> u8 list \<Rightarrow> nat \<Rightarrow> (nat, 'a) res \<Rightarrow> bool" where
  "fine P b s r \<longleftrightarrow> (case r of Ok a s' \<Rightarrow> P a \<and> s \<le> s' \<and> s' \<le> length b | Panic m \<Rightarrow> m \<in> set parse_errors | _ \<Rightarrow> False)"

lemma parse_errors_mem [simp]:
  "''syntax'' \<in> set parse_errors" "''too many args'' \<in> set parse_errors"
  "''missing file for redirection'' \<in> set parse_errors" "''syntax - missing )'' \<in> set parse_errors"
  by (simp_all add: parse_errors_def)

lemma fine_simps [simp]: "fine P b s (Ok a s') \<longleftrightarrow> P a \<and> s \<le> s' \<and> s' \<le> length b" "fine P b s (Panic m) \<longleftrightarrow> m \<in> set parse_errors"
  by (simp_all add: fine_def)

lemma fine_bind:
  assumes "fine Q b s m" "\<And>a s'. m = Ok a s' \<Longrightarrow> Q a \<Longrightarrow> s \<le> s' \<Longrightarrow> s' \<le> length b \<Longrightarrow> fine P b s' (f a s')"
  shows "fine P b s (bind m f)"
proof (cases m)
  case (Ok a s')
  then have "Q a" "s \<le> s'" "s' \<le> length b" using assms(1) by simp_all
  then show ?thesis using assms(2) [of a s'] Ok by (cases "f a s'") (auto simp: fine_def)
qed (use assms(1) in \<open>auto simp: fine_def\<close>)

lemma fine_mono: "fine P b s r \<Longrightarrow> s0 \<le> s \<Longrightarrow> fine P b s0 r"
  by (auto simp: fine_def split: res.splits)

lemma tok_rest_pos:
  assumes "peek b s toks = (s1, True)" "set toks \<subseteq> {124, 40, 41, 59, 38, 60}"
  shows "s < tok_rest b s1" "tok_rest b s1 \<le> length b"
  using peek_token [OF assms] skip_white_bounds [of "s1 + 1" b] by (simp_all add: tok_rest_def)

lemma redirs_fine:
  assumes "s \<le> length b" "0 \<notin> set b"
  shows "fine (\<lambda>rs. \<forall>w\<in>fst ` set rs. good_word b w) b s (redirs_loop b s)"
  using assms
proof (induction b s rule: redirs_loop.induct)
  case (1 b s)
  obtain s1 r where p: "peek b s [60, 62] = (s1, r)" by fastforce
  have pp: "s \<le> s1" "s1 \<le> length b" using peek_pos [OF p] "1.prems"(1) by auto
  show ?case
  proof (cases r)
    case False
    then show ?thesis using p pp by (subst redirs_loop.simps) simp
  next
    case True
    obtain tok u v s2 where g: "gettoken b s1 = (tok, u, v, s2)" by (metis prod_cases4)
    obtain t q e s3 where h: "gettoken b s2 = (t, q, e, s3)" by (metis prod_cases4)
    have b1: "s1 \<le> s2" "s2 \<le> length b" using gettoken_pos [OF g pp(2)] by auto
    have b2: "s2 \<le> s3" "s3 \<le> length b" using gettoken_pos [OF h b1(2)] by auto
    show ?thesis
    proof (cases "t = 97")
      case False
      then show ?thesis using p g h True by (subst redirs_loop.simps) simp
    next
      case t: True
      have w: "good_word b (q, e)" using gettoken_word [of b s2 q e s3] h t b1 "1.prems"(2) by simp
      have "fine (\<lambda>rs. \<forall>w\<in>fst ` set rs. good_word b w) b s3 (redirs_loop b s3)" using "1.IH" p g h True t b2 "1.prems"(2) by simp
      then have i: "fine (\<lambda>rs. \<forall>w\<in>fst ` set rs. good_word b w) b s (redirs_loop b s3)" by (rule fine_mono) (use pp b1 b2 in simp)
      show ?thesis using p g h True t by (subst redirs_loop.simps) (use w in \<open>auto intro!: fine_bind [OF i]\<close>)
    qed
  qed
qed

lemma exec_fine:
  assumes "s \<le> length b" "0 \<notin> set b" "\<forall>w\<in>set args. good_word b w" "\<forall>w\<in>fst ` set rs. good_word b w"
  shows "fine (\<lambda>(args, rs). (\<forall>w\<in>set args. good_word b w) \<and> (\<forall>w\<in>fst ` set rs. good_word b w)) b s (exec_loop b args rs s)"
  using assms
proof (induction b args rs s rule: exec_loop.induct)
  case (1 b args rs s)
  obtain s1 r where p: "peek b s [124, 41, 38, 59] = (s1, r)" by fastforce
  have pp: "s \<le> s1" "s1 \<le> length b" using peek_pos [OF p] "1.prems"(1) by auto
  obtain tok q e s2 where g: "gettoken b s1 = (tok, q, e, s2)" by (metis prod_cases4)
  have b1: "s1 \<le> s2" "s2 \<le> length b" using gettoken_pos [OF g pp(2)] by auto
  show ?case
  proof (cases "r \<or> tok \<noteq> 97 \<or> MAXARGS \<le> length args + 1")
    case True
    then show ?thesis using p g pp b1 "1.prems" by (subst exec_loop.simps) auto
  next
    case False
    have w: "good_word b (q, e)" using gettoken_word [of b s1 q e s2] g False pp "1.prems"(2) by simp
    have i: "fine (\<lambda>rs. \<forall>w\<in>fst ` set rs. good_word b w) b s (redirs_loop b s2)"
      using fine_mono [OF redirs_fine [OF b1(2) "1.prems"(2)], of s] pp b1 by simp
    have j: "fine (\<lambda>(args, rs). (\<forall>w\<in>set args. good_word b w) \<and> (\<forall>w\<in>fst ` set rs. good_word b w)) b s3 (exec_loop b (args @ [(q, e)]) (rs @ rs') s3)"
      if "redirs_loop b s2 = Ok rs' s3" "\<forall>w\<in>fst ` set rs'. good_word b w" "s3 \<le> length b" for rs' s3
      by (rule "1.IH" [OF p [symmetric] _ g [symmetric]]) (use False that w "1.prems" in auto)
    show ?thesis using p g False by (subst exec_loop.simps) (auto intro!: fine_bind [OF i] j [unfolded ball_simps])
  qed
qed

lemma set_redir_around [simp]: "set_cmd (redir_around rs c) = set_cmd c \<union> fst ` set rs"
  by (induction rs c rule: redir_around.induct) auto

abbreviation good_cmd :: "u8 list \<Rightarrow> word_at cmd \<Rightarrow> bool" where "good_cmd b c \<equiv> \<forall>w\<in>set_cmd c. good_word b w"

lemma parseredirs_fine:
  assumes "s \<le> length b" "0 \<notin> set b" "good_cmd b c"
  shows "fine (good_cmd b) b s (parseredirs b c s)"
  unfolding parseredirs_def by (rule fine_bind [OF redirs_fine [OF assms(1,2)]]) (use assms(3) in auto)

lemma back_loop_pos: "back_loop b c s = (c', s') \<Longrightarrow> s \<le> length b \<Longrightarrow> s \<le> s' \<and> s' \<le> length b \<and> set_cmd c' = set_cmd c"
proof (induction b c s rule: back_loop.induct)
  case (1 b c s)
  obtain s1 r where p: "peek b s [38] = (s1, r)" by fastforce
  show ?case
  proof (cases r)
    case False
    then show ?thesis using "1.prems" p peek_pos [OF p] by (simp add: back_loop.simps [of b c s])
  next
    case True
    note t = tok_rest_pos [OF p [unfolded eqTrueI [OF True]], simplified]
    have "back_loop b (BACK c) (tok_rest b s1) = (c', s')" using "1.prems"(1) p True by (simp add: back_loop.simps [of b c s])
    then show ?thesis using "1.IH" [OF p [symmetric] True] t by simp
  qed
qed

text \<open>
  The depth that is enough from position \<open>s\<close>: every parenthesis, bar or semicolon read takes
  at most four calls.
\<close>

lemma parse_fine:
  assumes "0 \<notin> set b"
  shows "s \<le> length b \<Longrightarrow> 4 * (length b - s) + 4 \<le> n \<Longrightarrow> fine (good_cmd b) b s (parseline n b s)"
    and "s \<le> length b \<Longrightarrow> 4 * (length b - s) + 3 \<le> n \<Longrightarrow> fine (good_cmd b) b s (parsepipe n b s)"
    and "s \<le> length b \<Longrightarrow> 4 * (length b - s) + 2 \<le> n \<Longrightarrow> fine (good_cmd b) b s (parseexec n b s)"
    and "s \<le> length b \<Longrightarrow> 4 * (length b - s) + 1 \<le> n \<Longrightarrow> snd (peek b s [40]) \<Longrightarrow> fine (good_cmd b) b s (parseblock n b s)"
proof (induction n arbitrary: s)
  case (Suc n)
  {
    case 1
    show ?case
    proof (simp only: parseline.simps, rule fine_bind [OF Suc(2) [OF 1(1)]])
      show "4 * (length b - s) + 3 \<le> n" using 1 by simp
      fix c s' assume c: "good_cmd b c" "s \<le> s'" "s' \<le> length b"
      obtain c1 s1 where k: "back_loop b c s' = (c1, s1)" by fastforce
      obtain s2 r where p: "peek b s1 [59] = (s2, r)" by fastforce
      have l: "s' \<le> s1" "s1 \<le> length b" "good_cmd b c1" using back_loop_pos [OF k c(3)] c(1) by auto
      have l2: "s1 \<le> s2" "s2 \<le> length b" using peek_pos [OF p] l by auto
      have "fine (good_cmd b) b s' (bind (parseline n b (tok_rest b s2)) (\<lambda>right s. Ok (LIST c1 right) s))" if r: r
      proof -
        note t = tok_rest_pos [OF p [unfolded eqTrueI [OF r]], simplified]
        have "fine (good_cmd b) b (tok_rest b s2) (parseline n b (tok_rest b s2))" by (rule Suc(1)) (use 1 t l c in auto)
        then have f: "fine (good_cmd b) b s' (parseline n b (tok_rest b s2))" by (rule fine_mono) (use t l in simp)
        show ?thesis by (rule fine_bind [OF f]) (use l in auto)
      qed
      then show "fine (good_cmd b) b s' (case back_loop b c s' of (cmd, s) \<Rightarrow> case peek b s [59] of (s, r) \<Rightarrow>
          if r then bind (parseline n b (tok_rest b s)) (\<lambda>right s. Ok (LIST cmd right) s) else Ok cmd s)"
        using k p l l2 by simp
    qed
  next
    case 2
    show ?case
    proof (simp only: parsepipe.simps, rule fine_bind [OF Suc(3) [OF 2(1)]])
      show "4 * (length b - s) + 2 \<le> n" using 2 by simp
      fix c s' assume c: "good_cmd b c" "s \<le> s'" "s' \<le> length b"
      obtain s2 r where p: "peek b s' [124] = (s2, r)" by fastforce
      have l2: "s' \<le> s2" "s2 \<le> length b" using peek_pos [OF p] c by auto
      have "fine (good_cmd b) b s' (bind (parsepipe n b (tok_rest b s2)) (\<lambda>right s. Ok (PIPE c right) s))" if r: r
      proof -
        note t = tok_rest_pos [OF p [unfolded eqTrueI [OF r]], simplified]
        have "fine (good_cmd b) b (tok_rest b s2) (parsepipe n b (tok_rest b s2))" by (rule Suc(2)) (use 2 t c in auto)
        then have f: "fine (good_cmd b) b s' (parsepipe n b (tok_rest b s2))" by (rule fine_mono) (use t in simp)
        show ?thesis by (rule fine_bind [OF f]) (use c in auto)
      qed
      then show "fine (good_cmd b) b s' (case peek b s' [124] of (s, r) \<Rightarrow>
          if r then bind (parsepipe n b (tok_rest b s)) (\<lambda>right s. Ok (PIPE c right) s) else Ok c s)"
        using p c l2 by simp
    qed
  next
    case 3
    obtain s1 r where p: "peek b s [40] = (s1, r)" by fastforce
    have l: "s \<le> s1" "s1 \<le> length b" using peek_pos [OF p] 3 by auto
    have blk: "fine (good_cmd b) b s (parseblock n b s1)" if r: r
    proof (rule fine_mono [OF Suc(4)])
      show "snd (peek b s1 [40])" using p r by (auto simp: peek_def Let_def)
    qed (use 3 l in auto)
    have rd: "fine (\<lambda>rs. \<forall>w\<in>fst ` set rs. good_word b w) b s (redirs_loop b s1)"
      by (rule fine_mono [OF redirs_fine]) (use l assms in auto)
    have "fine (good_cmd b) b s (bind (redirs_loop b s1) (\<lambda>rs s. bind (exec_loop b [] rs s) (\<lambda>(args, rs) s. Ok (redir_around rs (EXEC args)) s)))"
    proof (rule fine_bind [OF rd])
      fix rs :: "word_at redir list" and s' assume "\<forall>w\<in>fst ` set rs. good_word b w" "s' \<le> length b"
      then show "fine (good_cmd b) b s' (bind (exec_loop b [] rs s') (\<lambda>(args, rs) s. Ok (redir_around rs (EXEC args)) s))"
        using assms by (intro fine_bind [OF exec_fine]) (auto, force)
    qed
    then show ?case using p blk by simp
  next
    case 4
    obtain s1 r where p: "peek b s [40] = (s1, r)" by fastforce
    have "fine (good_cmd b) b s (bind (parseline n b (tok_rest b s1)) (\<lambda>cmd s. case peek b s [41] of (s, r) \<Rightarrow>
        if \<not> r then Panic ''syntax - missing )'' else parseredirs b cmd (tok_rest b s)))" if r: r
    proof (rule fine_bind)
      note t = tok_rest_pos [OF p [unfolded eqTrueI [OF r]], simplified]
      show "fine (good_cmd b) b s (parseline n b (tok_rest b s1))" by (rule fine_mono [OF Suc(1)]) (use 4 t in auto)
      fix c s' assume c: "good_cmd b c" "s \<le> s'" "s' \<le> length b"
      obtain s2 r2 where q: "peek b s' [41] = (s2, r2)" by fastforce
      have "fine (good_cmd b) b s' (parseredirs b c (tok_rest b s2))" if r2
        using tok_rest_pos [OF q [unfolded eqTrueI [OF that]], simplified] c assms
        by (intro fine_mono [OF parseredirs_fine]) auto
      then show "fine (good_cmd b) b s' (case peek b s' [41] of (s, r) \<Rightarrow>
          if \<not> r then Panic ''syntax - missing )'' else parseredirs b c (tok_rest b s))" using q by simp
    qed
    then show ?case using p 4(3) by simp
  }
qed simp_all

section \<open>The terminated line\<close>

lemma update_nth: "i < length t \<Longrightarrow> t[e := x] ! i = (if e = i then x else t ! i)"
  by simp

lemma fold_terminate_length [simp]: "length (fold (\<lambda>(q, e) t. t[e := 0]) args t) = length t"
  by (induction args arbitrary: t) auto

lemma fold_terminate_nth:
  "i < length t \<Longrightarrow> fold (\<lambda>(q, e) t. t[e := 0]) args t ! i = (if i \<in> snd ` set args then (0 :: u8) else t ! i)"
proof (induction args arbitrary: t)
  case (Cons a args)
  then show ?case by (cases a) (simp add: update_nth)
qed simp

lemma nulterminate_length [simp]: "length (nulterminate c t) = length t"
  by (induction c t rule: nulterminate.induct) simp_all

lemma nulterminate_nth: "i < length t \<Longrightarrow> nulterminate c t ! i = (if i \<in> snd ` set_cmd c then 0 else t ! i)"
  by (induction c t rule: nulterminate.induct) (simp_all add: fold_terminate_nth update_nth image_Un)

lemma terminated_word:
  assumes "good_cmd b c" "(q, e) \<in> set_cmd c"
  shows "takeWhile (\<lambda>x. x \<noteq> 0) (drop q (nulterminate c (b @ [0]))) = take (e - q) (drop q b)"
proof -
  let ?t = "nulterminate c (b @ [0])"
  have g: "q < e" "e \<le> length b" "\<And>i. q \<le> i \<Longrightarrow> i < e \<Longrightarrow> word_char (b ! i)" using assms by (auto simp: good_word_def dest!: bspec)
  have l: "length ?t = length b + 1" by (simp add: nulterminate_nth)
  have z: "?t ! e = 0" using assms(2) g by (force simp: nulterminate_nth)
  have k: "?t ! i = b ! i" if i: "q \<le> i" "i < e" for i
  proof -
    have "i \<notin> snd ` set_cmd c" using assms(1) g(2,3) i by (auto simp: good_word_def dest!: bspec)
    then show ?thesis using i g by (simp add: nulterminate_nth nth_append)
  qed
  have "drop q ?t = take (e - q) (drop q b) @ drop e ?t"
  proof (rule nth_equalityI)
    fix i assume "i < length (drop q ?t)"
    then show "drop q ?t ! i = (take (e - q) (drop q b) @ drop e ?t) ! i"
      using k [of "q + i"] g l by (auto simp: nth_append add.commute)
  qed (use g l in auto)
  moreover have "drop e ?t = 0 # drop (Suc e) ?t" using z g l by (metis Cons_nth_drop_Suc Suc_eq_plus1 less_Suc_eq_le)
  moreover have "\<forall>x\<in>set (take (e - q) (drop q b)). x \<noteq> 0" using g by (auto simp: in_set_conv_nth word_char_def)
  ultimately show ?thesis by (simp add: takeWhile_append2)
qed

section \<open>The properties\<close>

lemma parsecmd_cases:
  assumes "0 \<notin> set b"
  shows "(\<exists>c. parsecmd b = Ok c (nulterminate c (b @ [0])) \<and> good_cmd b c) \<or> (\<exists>m\<in>set parse_errors. parsecmd b = Panic m)"
  using parse_fine(1) [OF assms, of 0 "4 * length b + 4"]
  by (cases "parseline (4 * length b + 4) b 0") (auto simp: parsecmd_def fine_def)

text \<open>
  C22: the shell's parser ends on every line. \<open>parsecmd\<close>, four functions that call one another, returns a
  command for every line of bytes other than zero, or panics with one of its four messages; it never
  runs out of the recursion depth of four calls for each byte and four more, and the \<open>panic\<close> of
  \<open>parseblock\<close> cannot be reached.
\<close>

theorem parsecmd_total:
  assumes "0 \<notin> set b"
  shows "(\<exists>cmd t. parsecmd b = Ok cmd t) \<or>
    (\<exists>m. parsecmd b = Panic m \<and> m \<in> {''syntax'', ''too many args'', ''missing file for redirection'', ''syntax - missing )''})"
  using parsecmd_cases [OF assms] by (auto simp: parse_errors_def)

text \<open>The line is \<open>(a|b&\<close>, whose parenthesis is not closed.\<close>

theorem parsecmd_total_witness:
  "parsecmd [40, 97, 124, 98, 38] = Panic ''syntax - missing )'' \<and>
   ((\<exists>cmd t. parsecmd [40, 97, 124, 98, 38] = Ok cmd t) \<or>
    (\<exists>m. parsecmd [40, 97, 124, 98, 38] = Panic m \<and> m \<in> {''syntax'', ''too many args'', ''missing file for redirection'', ''syntax - missing )''}))"
proof -
  have e: "parsecmd [40, 97, 124, 98, 38] = Panic ''syntax - missing )''" by code_simp
  show ?thesis by (intro conjI e parsecmd_total) simp
qed

text \<open>
  C34: the strings of a parsed command are words of the line. When \<open>parsecmd\<close> returns, every \<open>argv\<close> and
  file name of the command, read up to the zero that \<open>nulterminate\<close> has put behind it, is the nonempty
  slice of the line from where the word begins to where it ends, and that slice has no white space and no
  symbol in it: no later zero cuts a word short, and no word runs into what follows it.
\<close>

theorem parsecmd_words:
  assumes "0 \<notin> set b" "parsecmd b = Ok cmd t" "(q, e) \<in> set_cmd cmd"
  shows "takeWhile (\<lambda>x. x \<noteq> 0) (drop q t) = take (e - q) (drop q b) \<and> q < e \<and> e \<le> length b \<and>
    set (take (e - q) (drop q b)) \<inter> (set whitespace \<union> set symbols) = {}"
proof -
  have t: "t = nulterminate cmd (b @ [0])" and g: "good_cmd b cmd" using parsecmd_cases [OF assms(1)] assms(2) by auto
  have w: "good_word b (q, e)" using g assms(3) by blast
  then have "set (take (e - q) (drop q b)) \<inter> (set whitespace \<union> set symbols) = {}"
    by (auto simp: good_word_def in_set_conv_nth word_char_def)
  then show ?thesis using w terminated_word [OF g assms(3)] by (simp add: t good_word_def)
qed

text \<open>The line is \<open>ls a>f\<close>.\<close>

theorem parsecmd_words_witness:
  "parsecmd [108, 115, 32, 97, 62, 102] = Ok (REDIR (EXEC [(0, 2), (3, 4)]) (5, 6) O_WRONLY_CREATE 1) [108, 115, 0, 97, 0, 102, 0] \<and>
   takeWhile (\<lambda>x. x \<noteq> 0) (drop 3 [108, 115, 0, 97, 0, 102, 0 :: u8]) = [97]"
proof -
  have e: "parsecmd [108, 115, 32, 97, 62, 102] = Ok (REDIR (EXEC [(0, 2), (3, 4)]) (5, 6) O_WRONLY_CREATE 1) [108, 115, 0, 97, 0, 102, 0]"
    by code_simp
  show ?thesis using parsecmd_words [OF _ e, of 3 4] e by simp
qed

end
