(* ===== verification/Shprint.thy ===== *)
theory Shprint
  imports Shparse
begin

text \<open>
  A printer for the shell's commands, and that the parser of user/sh.c reads back what it prints.
\<close>

section \<open>The printer\<close>

text \<open>Every operand is put in parentheses, every argument has a blank behind it.\<close>

fun show_cmd :: "u8 list cmd \<Rightarrow> u8 list" where
  "show_cmd (EXEC args) = concat (map (\<lambda>w. w @ [32]) args)"
| "show_cmd (REDIR c f mode fd) = 40 # show_cmd c @ 41 # (if mode = O_RDONLY then 60 else 62) # f"
| "show_cmd (PIPE l r) = 40 # show_cmd l @ 41 # 124 # 40 # show_cmd r @ [41]"
| "show_cmd (LIST l r) = 40 # show_cmd l @ 41 # 59 # 40 # show_cmd r @ [41]"
| "show_cmd (BACK c) = 40 # show_cmd c @ [41, 38]"

definition is_word :: "u8 list \<Rightarrow> bool" where
  "is_word w \<longleftrightarrow> w \<noteq> [] \<and> (\<forall>c\<in>set w. word_char c)"

fun wf_cmd :: "u8 list cmd \<Rightarrow> bool" where
  "wf_cmd (EXEC args) \<longleftrightarrow> length args < MAXARGS \<and> (\<forall>w\<in>set args. is_word w)"
| "wf_cmd (REDIR c f mode fd) \<longleftrightarrow> wf_cmd c \<and> is_word f \<and> (mode, fd) \<in> {(O_RDONLY, 0), (O_WRONLY_CREATE, 1)}"
| "wf_cmd (PIPE l r) \<longleftrightarrow> wf_cmd l \<and> wf_cmd r"
| "wf_cmd (LIST l r) \<longleftrightarrow> wf_cmd l \<and> wf_cmd r"
| "wf_cmd (BACK c) \<longleftrightarrow> wf_cmd c"

section \<open>Reading at a position\<close>

text \<open>\<open>rest b s r\<close>: what is left of the line from the position \<open>s\<close> on.\<close>

definition rest :: "u8 list \<Rightarrow> nat \<Rightarrow> u8 list \<Rightarrow> bool" where
  "rest b s r \<longleftrightarrow> s \<le> length b \<and> drop s b = r"

lemma rest_skip: "rest b s (w @ r) \<Longrightarrow> rest b (s + length w) r"
proof -
  assume a: "rest b s (w @ r)"
  then have l: "s \<le> length b" and d: "drop s b = w @ r" by (simp_all add: rest_def)
  have "length (drop s b) = length w + length r" by (simp only: d length_append)
  then have "s + length w \<le> length b" using l by simp
  moreover have "drop (s + length w) b = drop (length w) (drop s b)" by (simp add: add.commute)
  ultimately show ?thesis using a by (simp add: rest_def del: drop_drop)
qed

lemma rest_next: "rest b s (x # r) \<Longrightarrow> rest b (s + 1) r"
  using rest_skip [of b s "[x]" r] by simp

lemma chr_at_rest: "rest b s (x # r) \<Longrightarrow> chr_at b s = x" "rest b s [] \<Longrightarrow> chr_at b s = 0"
  by (auto simp: rest_def chr_at_def nth_via_drop) 

lemma skip_rest:
  "rest b s (w @ r) \<Longrightarrow> \<forall>c\<in>set w. P c \<Longrightarrow> r = [] \<or> \<not> P (hd r) \<Longrightarrow> skip P b s = s + length w"
proof (induction w arbitrary: s)
  case Nil
  then show ?case by (cases r) (auto simp: skip.simps [of P b s] rest_def nth_via_drop)
next
  case (Cons x w)
  have n: "s < length b" "b ! s = x" using Cons.prems(1) by (auto simp: rest_def nth_via_drop intro: ccontr)
  have "skip P b (s + 1) = s + 1 + length w" by (rule Cons.IH) (use Cons.prems rest_next [of b s x "w @ r"] in auto)
  then show ?case using n Cons.prems(2) by (simp add: skip.simps [of P b s])
qed

definition nonwhite :: "u8 list \<Rightarrow> bool" where
  "nonwhite r \<longleftrightarrow> r = [] \<or> hd r \<notin> set whitespace"

lemma skip_white_rest: "rest b s r \<Longrightarrow> nonwhite r \<Longrightarrow> skip_white b s = s"
  using skip_rest [of b s "[]" r "\<lambda>c. c \<in> set whitespace"] by (auto simp: skip_white_def nonwhite_def)

lemma peek_rest:
  "rest b s (x # r) \<Longrightarrow> x \<notin> set whitespace \<Longrightarrow> x \<noteq> 0 \<Longrightarrow> peek b s toks = (s, x \<in> set toks)"
  "rest b s [] \<Longrightarrow> peek b s toks = (s, False)"
  using skip_white_rest [of b s "x # r"] skip_white_rest [of b s "[]"]
  by (auto simp: peek_def chr_at_rest nonwhite_def)

lemma tok_rest_rest:
  "rest b s (x # r) \<Longrightarrow> x \<in> {124, 40, 41, 59, 38, 60} \<Longrightarrow> nonwhite r \<Longrightarrow> tok_rest b s = s + 1"
proof -
  assume r: "rest b s (x # r)" and x: "x \<in> {124, 40, 41, 59, 38, 60}" and n: "nonwhite r"
  have c: "chr_at b s = x" by (rule chr_at_rest(1) [OF r])
  have "nonwhite (x # r)" using x by (auto simp: nonwhite_def whitespace_def)
  then have s: "skip_white b s = s" by (rule skip_white_rest [OF r])
  have s1: "skip_white b (s + 1) = s + 1" by (rule skip_white_rest [OF rest_next [OF r] n])
  have "x \<noteq> 0" using x by auto
  then show ?thesis using x by (simp add: tok_rest_def gettoken_def c s s1 [unfolded Suc_eq_plus1 [symmetric]])
qed

lemma gettoken_word_rest:
  assumes "rest b s (w @ r)" "is_word w" "r = [] \<or> \<not> word_char (hd r)" "0 \<notin> set r"
  shows "gettoken b s = (97, s, s + length w, skip_white b (s + length w))"
proof -
  obtain x w' where w: "w = x # w'" using assms(2) by (cases w) (auto simp: is_word_def)
  have wc: "\<forall>c\<in>set w. c \<noteq> 0 \<and> c \<notin> set whitespace \<and> c \<notin> set symbols" using assms(2) by (auto simp: is_word_def word_char_def)
  have "skip_white b s = s" by (rule skip_white_rest [OF assms(1)]) (use wc w in \<open>auto simp: nonwhite_def\<close>)
  moreover have "chr_at b s = x" using assms(1) w by (auto intro: chr_at_rest(1))
  moreover have "skip (\<lambda>c. c \<notin> set whitespace \<and> c \<notin> set symbols) b s = s + length w"
  proof (rule skip_rest [OF assms(1)])
    show "\<forall>c\<in>set w. c \<notin> set whitespace \<and> c \<notin> set symbols" using wc by blast
    show "r = [] \<or> \<not> (hd r \<notin> set whitespace \<and> hd r \<notin> set symbols)" using assms(3,4) by (cases r) (auto simp: word_char_def)
  qed
  ultimately show ?thesis using wc w by (auto simp: gettoken_def Let_def symbols_def)
qed

lemma slice_rest: "rest b s (w @ r) \<Longrightarrow> take (s + length w - s) (drop s b) = w"
  by (auto simp: rest_def)

section \<open>Reading back\<close>

abbreviation slice :: "u8 list \<Rightarrow> word_at \<Rightarrow> u8 list" where
  "slice b \<equiv> \<lambda>(q, e). take (e - q) (drop q b)"

text \<open>What follows a printed command: nothing, or a symbol other than those of a redirection.\<close>

definition follows :: "u8 list \<Rightarrow> bool" where
  "follows r \<longleftrightarrow> r = [] \<or> hd r \<in> {124, 41, 59, 38}"

lemma follows_simps [simp]: "follows []" "follows (x # r) \<longleftrightarrow> x \<in> {124, 41, 59, 38}"
  by (simp_all add: follows_def)

lemma follows_nonwhite: "follows r \<Longrightarrow> nonwhite r"
  by (cases r) (auto simp: nonwhite_def whitespace_def)

lemma peek_follows: "rest b s r \<Longrightarrow> follows r \<Longrightarrow> peek b s toks = (s, r \<noteq> [] \<and> hd r \<in> set toks)"
  by (cases r) (auto simp: peek_rest whitespace_def)

lemma redirs_follows: "rest b s r \<Longrightarrow> follows r \<Longrightarrow> redirs_loop b s = Ok [] s"
  by (subst redirs_loop.simps) (cases r, auto simp: peek_follows)

lemma skip_blank: "rest b s (32 # r) \<Longrightarrow> nonwhite r \<Longrightarrow> skip_white b s = s + 1"
  using skip_rest [of b s "[32]" r "\<lambda>c. c \<in> set whitespace"] by (auto simp: skip_white_def nonwhite_def whitespace_def)

lemma exec_reads:
  assumes "\<forall>w\<in>set args. is_word w" "length done' + length args < MAXARGS" "follows r" "0 \<notin> set r"
    "rest b s (concat (map (\<lambda>w. w @ [32]) args) @ r)"
  shows "\<exists>ps. exec_loop b done' [] s = Ok (done' @ ps, []) (s + length (concat (map (\<lambda>w. w @ [32]) args))) \<and> map (slice b) ps = args"
  using assms
proof (induction args arbitrary: done' s)
  case Nil
  then have r: "rest b s r" by simp
  have "gettoken b s = (0, s, s, s)" if "r = []"
    using r that skip_white_rest [OF r] by (simp add: gettoken_def nonwhite_def chr_at_rest(2))
  then show ?case using r Nil.prems(3) by (cases r) (auto simp: exec_loop.simps [of b done' "[]" s] peek_follows [OF r])
next
  case (Cons w args)
  let ?r = "concat (map (\<lambda>w. w @ [32]) args) @ r"
  have w: "is_word w" and r: "rest b s (w @ 32 # ?r)" using Cons.prems by auto
  obtain x w' where x: "w = x # w'" "word_char x" using w by (cases w) (auto simp: is_word_def)
  have nw: "nonwhite ?r" using Cons.prems(1,3) follows_nonwhite
    by (cases args) (auto simp: is_word_def neq_Nil_conv nonwhite_def word_char_def)
  have p: "peek b s [124, 41, 38, 59] = (s, False)"
    using x r peek_rest(1) [of b s x "w' @ 32 # ?r" "[124, 41, 38, 59]"] by (auto simp: word_char_def symbols_def)
  have "0 \<notin> set ?r" using Cons.prems(1,4) by (auto simp: is_word_def word_char_def)
  then have g: "gettoken b s = (97, s, s + length w, skip_white b (s + length w))"
    by (intro gettoken_word_rest [OF r w]) (auto simp: word_char_def whitespace_def)
  have sb: "skip_white b (s + length w) = s + length w + 1" by (rule skip_blank [OF rest_skip [OF r] nw])
  have r2: "rest b (s + length w + 1) ?r" by (rule rest_next [OF rest_skip [OF r]])
  have rd: "redirs_loop b (s + length w + 1) = Ok [] (s + length w + 1)"
  proof (cases args)
    case Nil
    then show ?thesis using redirs_follows [OF _ Cons.prems(3)] r2 by simp
  next
    case (Cons v vs)
    then obtain y v' where y: "v = y # v'" "word_char y" using Cons.prems(1) by (cases v) (auto simp: is_word_def)
    have "peek b (s + length w + 1) [60, 62] = (s + length w + 1, False)"
      using y r2 Cons peek_rest(1) [of b "s + length w + 1" y] by (auto simp: word_char_def symbols_def)
    then show ?thesis by (subst redirs_loop.simps) simp
  qed
  obtain ps where ps: "exec_loop b (done' @ [(s, s + length w)]) [] (s + length w + 1) =
      Ok ((done' @ [(s, s + length w)]) @ ps, []) (s + length w + 1 + length (concat (map (\<lambda>w. w @ [32]) args)))" "map (slice b) ps = args"
    using Cons.IH [of "done' @ [(s, s + length w)]" "s + length w + 1"] Cons.prems r2 by auto
  have "exec_loop b done' [] s = Ok (done' @ (s, s + length w) # ps, []) (s + length w + 1 + length (concat (map (\<lambda>w. w @ [32]) args)))"
    using Cons.prems(2) ps(1) by (simp add: exec_loop.simps [of b done' "[]" s] p g sb [unfolded Suc_eq_plus1 [symmetric]] rd [unfolded Suc_eq_plus1 [symmetric]])
  moreover have "slice b (s, s + length w) = w" using slice_rest [OF r] by simp
  ultimately show ?case using ps(2) by (intro exI [of _ "(s, s + length w) # ps"]) (simp add: add.assoc)
qed


definition parses :: "u8 list cmd \<Rightarrow> bool" where
  "parses c \<longleftrightarrow> (\<forall>b s r n. rest b s (show_cmd c @ r) \<longrightarrow> r = [] \<or> hd r = 41 \<longrightarrow> 0 \<notin> set r \<longrightarrow> 4 * length (show_cmd c) + 4 \<le> n \<longrightarrow>
     (\<exists>c'. parseline n b s = Ok c' (s + length (show_cmd c)) \<and> map_cmd (slice b) c' = c))"

lemma parsesI:
  assumes "\<And>b s r n. rest b s (show_cmd c @ r) \<Longrightarrow> r = [] \<or> hd r = 41 \<Longrightarrow> 0 \<notin> set r \<Longrightarrow> follows r \<Longrightarrow> 4 * length (show_cmd c) \<le> n \<Longrightarrow>
     \<exists>c'. parseline (n + 4) b s = Ok c' (s + length (show_cmd c)) \<and> map_cmd (slice b) c' = c"
  shows "parses c"
proof (unfold parses_def, intro allI impI)
  fix b s r n
  assume a: "rest b s (show_cmd c @ r)" "r = [] \<or> hd r = 41" "0 \<notin> set r" and n: "4 * length (show_cmd c) + 4 \<le> n"
  have f: "follows r" using a(2) by (auto simp: follows_def)
  obtain m where "n = m + 4" "4 * length (show_cmd c) \<le> m" using n by (intro that [of "n - 4"]) auto
  then show "\<exists>c'. parseline n b s = Ok c' (s + length (show_cmd c)) \<and> map_cmd (slice b) c' = c"
    using assms [OF a f, of m] by simp
qed

lemma show_nonwhite: "wf_cmd c \<Longrightarrow> nonwhite r \<Longrightarrow> nonwhite (show_cmd c @ r)"
proof (cases c)
  case (EXEC args)
  then show "wf_cmd c \<Longrightarrow> nonwhite r \<Longrightarrow> nonwhite (show_cmd c @ r)"
    by (cases args) (auto simp: is_word_def neq_Nil_conv nonwhite_def word_char_def)
qed (auto simp: nonwhite_def whitespace_def)

lemma show_nonzero: "wf_cmd c \<Longrightarrow> 0 \<notin> set (show_cmd c)"
  by (induction c) (auto simp: is_word_def word_char_def)

lemma parseline_done:
  assumes "parseexec n b s = Ok c p" "rest b p r" "r = [] \<or> hd r = 41"
  shows "parsepipe (Suc n) b s = Ok c p" "parseline (Suc (Suc n)) b s = Ok c p"
proof -
  have "follows r" using assms(3) by (auto simp: follows_def)
  then have "peek b p [124] = (p, False)" "peek b p [38] = (p, False)" "peek b p [59] = (p, False)"
    using assms(3) by (auto simp: peek_follows [OF assms(2)])
  then show "parsepipe (Suc n) b s = Ok c p" "parseline (Suc (Suc n)) b s = Ok c p"
    using assms(1) by (simp_all add: back_loop.simps [of b c p])
qed

text \<open>A command in parentheses, before its redirections.\<close>

lemma block_reads:
  assumes "parses c" "wf_cmd c" "rest b s (40 # show_cmd c @ 41 # r)" "nonwhite r" "0 \<notin> set r" "4 * length (show_cmd c) + 6 \<le> n"
  shows "\<exists>c'. parseexec n b s = parseredirs b c' (s + length (show_cmd c) + 2) \<and> map_cmd (slice b) c' = c \<and> rest b (s + length (show_cmd c) + 2) r"
proof -
  obtain m where n: "n = Suc (Suc m)" "4 * length (show_cmd c) + 4 \<le> m" using assms(6) by (intro that [of "n - 2"]) auto
  have p: "peek b s [40] = (s, True)" using peek_rest(1) [OF assms(3)] by (simp add: whitespace_def)
  have t: "tok_rest b s = s + 1" 
    by (rule tok_rest_rest [OF assms(3) _ show_nonwhite [OF assms(2)]]) (auto simp: nonwhite_def whitespace_def)
  note r1 = rest_next [OF assms(3)]
  obtain c' where c: "parseline m b (s + 1) = Ok c' (s + 1 + length (show_cmd c))" "map_cmd (slice b) c' = c"
    using assms(1,5) r1 n(2) unfolding parses_def by force
  note r2 = rest_skip [OF r1]
  have p2: "peek b (s + 1 + length (show_cmd c)) [41] = (s + 1 + length (show_cmd c), True)"
    using peek_rest(1) [OF r2] by (simp add: whitespace_def)
  have t2: "tok_rest b (s + 1 + length (show_cmd c)) = s + 1 + length (show_cmd c) + 1"
    by (rule tok_rest_rest [OF r2]) (use assms(4) in auto)
  have "parseexec n b s = parseredirs b c' (s + 1 + length (show_cmd c) + 1)"
    using p t p2 t2 c(1) by (simp add: n(1))
  then show ?thesis using c(2) rest_next [OF r2] by (auto simp: add.commute add.left_commute)
qed

lemma block_reads_plain:
  assumes "parses c" "wf_cmd c" "rest b s (40 # show_cmd c @ 41 # r)" "follows r" "0 \<notin> set r" "4 * length (show_cmd c) + 6 \<le> n"
  shows "\<exists>c'. parseexec n b s = Ok c' (s + length (show_cmd c) + 2) \<and> map_cmd (slice b) c' = c \<and> rest b (s + length (show_cmd c) + 2) r"
  using block_reads [OF assms(1-3) follows_nonwhite [OF assms(4)] assms(5,6)] redirs_follows [OF _ assms(4)]
  by (auto simp: parseredirs_def)

lemma parses_exec: "wf_cmd (EXEC args) \<Longrightarrow> parses (EXEC args)"
proof (rule parsesI)
  fix b s r n
  assume wf: "wf_cmd (EXEC args)" and r: "rest b s (show_cmd (EXEC args) @ r)" "r = [] \<or> hd r = 41" "0 \<notin> set r" "follows r"
  let ?c = "concat (map (\<lambda>w. w @ [32]) args)"
  have p: "peek b s toks = (s, False)" if "set toks \<subseteq> {40, 60, 62}" for toks
  proof (cases args)
    case Nil
    then show ?thesis using peek_follows [of b s r toks] r that by auto
  next
    case (Cons w ws)
    then obtain x w' where "w = x # w'" "word_char x" using wf by (cases w) (auto simp: is_word_def)
    then show ?thesis using r(1) Cons that peek_rest(1) [of b s x] by (auto simp: word_char_def symbols_def)
  qed
  have rd: "redirs_loop b s = Ok [] s" using p [of "[60, 62]"] by (subst redirs_loop.simps) simp
  obtain ps where "exec_loop b [] [] s = Ok ([] @ ps, []) (s + length ?c)" "map (slice b) ps = args"
    using exec_reads [of args "[]" r b s] wf r by auto
  then have "parseexec (n + 2) b s = Ok (EXEC ps) (s + length ?c)" "map_cmd (slice b) (EXEC ps) = EXEC args"
    using p [of "[40]"] rd by simp_all
  then show "\<exists>c'. parseline (n + 4) b s = Ok c' (s + length (show_cmd (EXEC args))) \<and> map_cmd (slice b) c' = EXEC args"
    using parseline_done(2) [of "n + 2" b s "EXEC ps" "s + length ?c" r] rest_skip [OF r(1)] r(2)
    by (intro exI [of _ "EXEC ps"]) (simp add: numeral_eq_Suc)
qed


lemma parses_pipe:
  assumes "wf_cmd l" "wf_cmd r" "parses l" "parses r"
  shows "parses (PIPE l r)"
proof (rule parsesI)
  fix b s t n
  assume a: "rest b s (show_cmd (PIPE l r) @ t)" "t = [] \<or> hd t = 41" "0 \<notin> set t" "follows t" and n: "4 * length (show_cmd (PIPE l r)) \<le> n"
  let ?p = "s + length (show_cmd l) + 2"
  have z: "0 \<notin> set (show_cmd r)" by (rule show_nonzero [OF assms(2)])
  obtain l' where l: "parseexec (n + 2) b s = Ok l' ?p" "map_cmd (slice b) l' = l" and rl: "rest b ?p (124 # 40 # show_cmd r @ 41 # t)"
    using block_reads_plain [OF assms(3,1), of b s "124 # 40 # show_cmd r @ 41 # t" "n + 2"] a n z by auto
  have pk: "peek b ?p [124] = (?p, True)" using peek_rest(1) [OF rl] by (simp add: whitespace_def)
  have tk: "tok_rest b ?p = ?p + 1" by (rule tok_rest_rest [OF rl]) (auto simp: nonwhite_def whitespace_def)
  let ?q = "?p + 1 + length (show_cmd r) + 2"
  obtain r' where r: "parseexec (n + 1) b (?p + 1) = Ok r' ?q" "map_cmd (slice b) r' = r" and rr: "rest b ?q t"
    using block_reads_plain [OF assms(4,2) rest_next [OF rl], of "n + 1"] a n by auto
  have n2: "n + 2 = Suc (n + 1)" by simp
  have pr: "parsepipe (n + 2) b (?p + 1) = Ok r' ?q" unfolding n2 by (rule parseline_done(1) [OF r(1) rr a(2)])
  have pp: "parsepipe (Suc (n + 2)) b s = Ok (PIPE l' r') ?q"
    by (simp only: parsepipe.simps l(1) bind_simps pk prod.case if_True tk pr)
  have "peek b ?q [38] = (?q, False)" "peek b ?q [59] = (?q, False)" unfolding peek_follows [OF rr a(4)] using a(2) by auto
  then have "parseline (Suc (Suc (n + 2))) b s = Ok (PIPE l' r') ?q"
    by (simp only: parseline.simps pp bind_simps back_loop.simps [of b _ ?q] prod.case if_False)
  then show "\<exists>c'. parseline (n + 4) b s = Ok c' (s + length (show_cmd (PIPE l r))) \<and> map_cmd (slice b) c' = PIPE l r"
    using l(2) r(2) by (intro exI [of _ "PIPE l' r'"]) (simp add: numeral_eq_Suc)
qed

lemma parses_list:
  assumes "wf_cmd l" "wf_cmd r" "parses l" "parses r"
  shows "parses (LIST l r)"
proof (rule parsesI)
  fix b s t n
  assume a: "rest b s (show_cmd (LIST l r) @ t)" "t = [] \<or> hd t = 41" "0 \<notin> set t" "follows t" and n: "4 * length (show_cmd (LIST l r)) \<le> n"
  let ?p = "s + length (show_cmd l) + 2"
  have z: "0 \<notin> set (show_cmd r)" by (rule show_nonzero [OF assms(2)])
  obtain l' where l: "parseexec (n + 2) b s = Ok l' ?p" "map_cmd (slice b) l' = l" and rl: "rest b ?p (59 # 40 # show_cmd r @ 41 # t)"
    using block_reads_plain [OF assms(3,1), of b s "59 # 40 # show_cmd r @ 41 # t" "n + 2"] a n z by auto
  have pk: "peek b ?p [124] = (?p, False)" "peek b ?p [38] = (?p, False)" "peek b ?p [59] = (?p, True)"
    using peek_rest(1) [OF rl] by (simp_all add: whitespace_def)
  have tk: "tok_rest b ?p = ?p + 1" by (rule tok_rest_rest [OF rl]) (auto simp: nonwhite_def whitespace_def)
  let ?q = "?p + 1 + length (show_cmd r) + 2"
  obtain r' where r: "parseexec (n + 1) b (?p + 1) = Ok r' ?q" "map_cmd (slice b) r' = r" and rr: "rest b ?q t"
    using block_reads_plain [OF assms(4,2) rest_next [OF rl], of "n + 1"] a n by auto
  have n2: "Suc (n + 2) = Suc (Suc (n + 1))" by simp
  have pr: "parseline (Suc (n + 2)) b (?p + 1) = Ok r' ?q" unfolding n2 by (rule parseline_done(2) [OF r(1) rr a(2)])
  have pp: "parsepipe (Suc (n + 2)) b s = Ok l' ?p"
    by (simp only: parsepipe.simps l(1) bind_simps pk prod.case if_False)
  have "parseline (Suc (Suc (n + 2))) b s = Ok (LIST l' r') ?q"
    by (subst parseline.simps(2), simp only: pp bind_simps back_loop.simps [of b _ ?p] pk prod.case if_False if_True tk pr)
  then show "\<exists>c'. parseline (n + 4) b s = Ok c' (s + length (show_cmd (LIST l r))) \<and> map_cmd (slice b) c' = LIST l r"
    using l(2) r(2) by (intro exI [of _ "LIST l' r'"]) (simp add: numeral_eq_Suc)
qed

lemma parses_back:
  assumes "wf_cmd c" "parses c"
  shows "parses (BACK c)"
proof (rule parsesI)
  fix b s t n
  assume a: "rest b s (show_cmd (BACK c) @ t)" "t = [] \<or> hd t = 41" "0 \<notin> set t" "follows t" and n: "4 * length (show_cmd (BACK c)) \<le> n"
  let ?p = "s + length (show_cmd c) + 2"
  obtain c' where c: "parseexec (n + 2) b s = Ok c' ?p" "map_cmd (slice b) c' = c" and r: "rest b ?p (38 # t)"
    using block_reads_plain [OF assms(2,1), of b s "38 # t" "n + 2"] a n by auto
  have pk: "peek b ?p [124] = (?p, False)" "peek b ?p [38] = (?p, True)" using peek_rest(1) [OF r] by (simp_all add: whitespace_def)
  have tk: "tok_rest b ?p = ?p + 1" by (rule tok_rest_rest [OF r _ follows_nonwhite [OF a(4)]]) simp
  have pk2: "peek b (?p + 1) [38] = (?p + 1, False)" "peek b (?p + 1) [59] = (?p + 1, False)"
    unfolding peek_follows [OF rest_next [OF r] a(4)] using a(2) by auto
  have "back_loop b c' ?p = (BACK c', ?p + 1)"
    by (simp only: back_loop.simps [of b c' ?p] back_loop.simps [of b "BACK c'" "?p + 1"] pk pk2 tk prod.case if_True if_False)
  then have "parseline (Suc (Suc (n + 2))) b s = Ok (BACK c') (?p + 1)"
    by (simp only: parseline.simps parsepipe.simps c(1) bind_simps pk pk2 prod.case if_False)
  then show "\<exists>c'. parseline (n + 4) b s = Ok c' (s + length (show_cmd (BACK c))) \<and> map_cmd (slice b) c' = BACK c"
    using c(2) by (intro exI [of _ "BACK c'"]) (simp add: numeral_eq_Suc)
qed


lemma parses_redir:
  assumes "wf_cmd (REDIR c f mode fd)" "parses c"
  shows "parses (REDIR c f mode fd)"
proof (rule parsesI)
  fix b s t n
  assume a: "rest b s (show_cmd (REDIR c f mode fd) @ t)" "t = [] \<or> hd t = 41" "0 \<notin> set t" "follows t"
    and n: "4 * length (show_cmd (REDIR c f mode fd)) \<le> n"
  let ?p = "s + length (show_cmd c) + 2" and ?k = "if mode = O_RDONLY then 60 else 62 :: u8"
  have wf: "wf_cmd c" "is_word f" "(mode, fd) \<in> {(O_RDONLY, 0), (O_WRONLY_CREATE, 1)}" using assms(1) by auto
  obtain x f' where x: "f = x # f'" "word_char x" using wf(2) by (cases f) (auto simp: is_word_def)
  have fz: "0 \<notin> set f" using wf(2) by (auto simp: is_word_def word_char_def)
  obtain c' where c: "parseexec (n + 2) b s = parseredirs b c' ?p" "map_cmd (slice b) c' = c" and r: "rest b ?p (?k # f @ t)"
  proof -
    have "rest b s (40 # show_cmd c @ 41 # ?k # f @ t)" using a(1) by simp
    moreover have "nonwhite (?k # f @ t)" by (simp add: nonwhite_def whitespace_def)
    moreover have "0 \<notin> set (?k # f @ t)" using fz a(3) by simp
    moreover have "4 * length (show_cmd c) + 6 \<le> n + 2" using n by simp
    ultimately show ?thesis using block_reads [OF assms(2) wf(1)] that by blast
  qed
  have pk: "peek b ?p [60, 62] = (?p, True)" using peek_rest(1) [OF r] by (simp add: whitespace_def)
  note r1 = rest_next [OF r]
  have sw: "skip_white b ?p = ?p" by (rule skip_white_rest [OF r]) (simp add: nonwhite_def whitespace_def)
  have sw1: "skip_white b (?p + 1) = ?p + 1" by (rule skip_white_rest [OF r1]) (use x in \<open>simp add: nonwhite_def word_char_def\<close>)
  have ch1: "chr_at b (?p + 1) \<noteq> 62" using chr_at_rest(1) [of b "?p + 1" x "f' @ t"] r1 x by (auto simp: word_char_def symbols_def)
  have g: "gettoken b ?p = (?k, ?p, ?p + 1, ?p + 1)"
    using chr_at_rest(1) [OF r] ch1 sw1 unfolding gettoken_def sw by (simp add: Let_def)
  let ?q = "?p + 1 + length f"
  note r2 = rest_skip [OF r1]
  have sw2: "skip_white b ?q = ?q" by (rule skip_white_rest [OF r2 follows_nonwhite [OF a(4)]])
  have h: "gettoken b (?p + 1) = (97, ?p + 1, ?q, ?q)"
    using gettoken_word_rest [OF r1 wf(2) _ a(3)] sw2 a(4) by (cases t) (auto simp: word_char_def symbols_def)
  have "redirs_loop b ?p = Ok [((?p + 1, ?q), mode, fd)] ?q"
    using wf(3) redirs_follows [OF r2 a(4)] unfolding redirs_loop.simps [of b ?p] pk prod.case g h by auto
  then have "parseexec (n + 2) b s = Ok (REDIR c' (?p + 1, ?q) mode fd) ?q"
    by (simp only: c(1) parseredirs_def bind_simps redir_around.simps)
  from parseline_done(2) [OF this r2 a(2)]
  have "parseline (n + 4) b s = Ok (REDIR c' (?p + 1, ?q) mode fd) (s + length (show_cmd (REDIR c f mode fd)))"
    by (simp add: numeral_eq_Suc)
  moreover have "slice b (?p + 1, ?q) = f" using slice_rest [OF r1] by simp
  ultimately show "\<exists>c'. parseline (n + 4) b s = Ok c' (s + length (show_cmd (REDIR c f mode fd))) \<and> map_cmd (slice b) c' = REDIR c f mode fd"
    using c(2) by (intro exI [of _ "REDIR c' (?p + 1, ?q) mode fd"]) simp
qed

lemma parses_wf: "wf_cmd c \<Longrightarrow> parses c"
proof (induction c)
  case (EXEC args)
  then show ?case by (rule parses_exec)
qed (auto intro: parses_pipe parses_list parses_back parses_redir)

lemma parsecmd_strings:
  assumes "wf_cmd c"
  shows "\<exists>c' t. parsecmd (show_cmd c) = Ok c' t \<and> map_cmd (\<lambda>(q, e). takeWhile (\<lambda>x. x \<noteq> 0) (drop q t)) c' = c"
proof -
  let ?b = "show_cmd c"
  have r: "rest ?b 0 (show_cmd c @ [])" by (simp add: rest_def)
  obtain c' where c: "parseline (4 * length ?b + 4) ?b 0 = Ok c' (0 + length ?b)" "map_cmd (slice ?b) c' = c"
    using parses_wf [OF assms] r unfolding parses_def by fastforce
  have "fst (peek ?b (length ?b) []) = length ?b" using peek_rest(2) [of ?b "length ?b" "[]"] by (simp add: rest_def)
  then have p: "parsecmd ?b = Ok c' (nulterminate c' (?b @ [0]))" using c(1) by (simp add: parsecmd_def)
  then have g: "good_cmd ?b c'" using parsecmd_cases [OF show_nonzero [OF assms]] by auto
  have "map_cmd (\<lambda>(q, e). takeWhile (\<lambda>x. x \<noteq> 0) (drop q (nulterminate c' (?b @ [0])))) c' = map_cmd (slice ?b) c'"
    by (rule cmd.map_cong0) (auto simp: terminated_word [OF g])
  then show ?thesis using p c(2) by auto
qed

text \<open>
  C20: the shell reads back the commands it can be given. Print a command (at most nine arguments, words
  without white space and symbols, redirections of standard input or output) with parentheses
  around every operand: \<open>parsecmd\<close> accepts the line, and the command it returns, with
  its strings read from the terminated line, is the command that was printed.
\<close>

theorem parsecmd_show:
  assumes "wf_cmd c"
  shows "\<exists>c' t. parsecmd (show_cmd c) = Ok c' t \<and> map_cmd (\<lambda>(q, e). takeWhile (\<lambda>x. x \<noteq> 0) (drop q t)) c' = c"
  by (rule parsecmd_strings [OF assms])

text \<open>The command is \<open>(a )|(b )\<close>.\<close>

theorem parsecmd_show_witness:
  "wf_cmd (PIPE (EXEC [[97]]) (EXEC [[98]])) \<and>
   (\<exists>c' t. parsecmd [40, 97, 32, 41, 124, 40, 98, 32, 41] = Ok c' t \<and>
     map_cmd (\<lambda>(q, e). takeWhile (\<lambda>x. x \<noteq> 0) (drop q t)) c' = PIPE (EXEC [[97]]) (EXEC [[98]]))"
proof -
  have w: "wf_cmd (PIPE (EXEC [[97]]) (EXEC [[98]]))" by (simp add: is_word_def word_char_def whitespace_def symbols_def)
  show ?thesis using parsecmd_show [OF w] w by simp
qed

end
