(* ===== verification/Ulib.thy ===== *)
theory Ulib
  imports KString Console
begin

unbundle bit_operations_syntax

text \<open>
  The C library of the user programs: user/ulib.c and user/printf.c. As in the kernel's string.c, a
  pointer into a string is the list of the bytes from there to the end of its object, and a
  result \<open>None\<close> stands for an access past the end. What is printed is the list of the bytes that
  \<open>write\<close> gets, one in each call.
\<close>

section \<open>Strings\<close>

fun strcpy :: "u8 list \<Rightarrow> u8 list \<Rightarrow> u8 list option" where
  "strcpy (x # s) (y # t) = map_option ((#) y) (if y \<noteq> 0 then strcpy s t else Some s)"
| "strcpy s t = None"

definition ustrncpy :: "u8 list \<Rightarrow> u8 list \<Rightarrow> int \<Rightarrow> u8 list option" where
  "ustrncpy s t n = strncpy s t (nat n)"

definition usafestrcpy :: "u8 list \<Rightarrow> u8 list \<Rightarrow> int \<Rightarrow> u8 list option" where
  "usafestrcpy s t n = (if n \<le> 0 then Some s else copy_nul s t (nat (n - 1)))"

fun strcmp :: "u8 list \<Rightarrow> u8 list \<Rightarrow> int option" where
  "strcmp (x # p) (y # q) = (if x \<noteq> 0 \<and> x = y then strcmp p q else Some (uint x - uint y))"
| "strcmp p q = None"

fun ustrlen_loop :: "u8 list \<Rightarrow> u32 \<Rightarrow> u32 option" where
  "ustrlen_loop [] n = None"
| "ustrlen_loop (x # s) n = (if x \<noteq> 0 then ustrlen_loop s (n + 1) else Some n)"

definition ustrlen :: "u8 list \<Rightarrow> u32 option" where
  "ustrlen s = ustrlen_loop s 0"

definition umemset :: "mem \<Rightarrow> u32 \<Rightarrow> u32 \<Rightarrow> u32 \<Rightarrow> mem" where
  "umemset m dst c n = stosb m dst (ucast c) (unat n)"

text \<open>The result is the position of the byte, \<open>Some None\<close> the null pointer.\<close>

fun strchr :: "u8 list \<Rightarrow> u8 \<Rightarrow> nat option option" where
  "strchr [] c = None"
| "strchr (x # s) c = (if x = 0 then Some None else if x = c then Some (Some 0) else map_option (map_option Suc) (strchr s c))"

text \<open>
  \<open>inp\<close> are the bytes that the calls \<open>read(0, &c, 1)\<close> still have to deliver; after them \<open>read\<close> returns 0. The result is
  the string in the buffer with its terminator, and the bytes left.
\<close>

fun gets_loop :: "nat \<Rightarrow> u8 list \<Rightarrow> u8 list \<times> u8 list" where
  "gets_loop 0 inp = ([], inp)"
| "gets_loop (Suc n) inp = (case inp of [] \<Rightarrow> ([], [])
     | c # inp \<Rightarrow> if c = 10 \<or> c = 13 then ([c], inp) else let (l, inp) = gets_loop n inp in (c # l, inp))"

definition gets :: "int \<Rightarrow> u8 list \<Rightarrow> u8 list \<times> u8 list" where
  "gets mx inp = (let (l, inp) = gets_loop (nat (mx - 1)) inp in (l @ [0], inp))"

fun atoi_loop :: "u8 list \<Rightarrow> u32 \<Rightarrow> u32 option" where
  "atoi_loop [] n = None"
| "atoi_loop (c # s) n = (if 48 \<le> sint c \<and> sint c \<le> 57 then atoi_loop s (n * 10 + scast c - 48) else Some n)"

definition atoi :: "u8 list \<Rightarrow> u32 option" where
  "atoi s = atoi_loop s 0"

definition umemmove :: "mem \<Rightarrow> u32 \<Rightarrow> u32 \<Rightarrow> int \<Rightarrow> mem" where
  "umemmove m dst src n = copy_up m dst src (nat n)"

section \<open>Formatted output\<close>

definition uprintint :: "u32 \<Rightarrow> u32 \<Rightarrow> bool \<Rightarrow> u8 list option" where
  "uprintint xx base sg = map_option (\<lambda>buf. map of_char (rev buf)) (printint_buf ''0123456789ABCDEF'' xx base sg)"

text \<open>\<open>state\<close> is whether the last character was the percent sign of a conversion.\<close>

fun vprintf :: "string \<Rightarrow> bool \<Rightarrow> carg list \<Rightarrow> u8 list option" where
  "vprintf [] state ap = Some []"
| "vprintf (c # fmt) False ap =
     (if c = CHR ''%'' then vprintf fmt True ap else map_option ((#) (of_char c)) (vprintf fmt False ap))"
| "vprintf (c # fmt) True ap =
     (if c = CHR ''d'' then
        (case ap of Aint x # ap \<Rightarrow> (case uprintint x 10 True of None \<Rightarrow> None | Some bs \<Rightarrow> map_option ((@) bs) (vprintf fmt False ap)) | _ \<Rightarrow> None)
      else if c = CHR ''x'' \<or> c = CHR ''p'' then
        (case ap of Aint x # ap \<Rightarrow> (case uprintint x 16 False of None \<Rightarrow> None | Some bs \<Rightarrow> map_option ((@) bs) (vprintf fmt False ap)) | _ \<Rightarrow> None)
      else if c = CHR ''s'' then
        (case ap of Astr s # ap \<Rightarrow>
           let s = (case s of None \<Rightarrow> map of_char ''(null)'' @ [0] | Some s \<Rightarrow> s) in
           if 0 \<in> set s then map_option ((@) (takeWhile (\<lambda>b. b \<noteq> 0) s)) (vprintf fmt False ap) else None
         | _ \<Rightarrow> None)
      else if c = CHR ''c'' then
        (case ap of Aint x # ap \<Rightarrow> map_option ((#) (ucast x)) (vprintf fmt False ap) | _ \<Rightarrow> None)
      else if c = CHR ''%'' then map_option ((#) (of_char c)) (vprintf fmt False ap)
      else map_option (\<lambda>bs. of_char CHR ''%'' # of_char c # bs) (vprintf fmt False ap))"

text \<open>The calls of \<open>write\<close>: descriptor and byte.\<close>

definition fprintf :: "int \<Rightarrow> string \<Rightarrow> carg list \<Rightarrow> (int \<times> u8) list option" where
  "fprintf fd fmt args = map_option (map (Pair fd)) (vprintf fmt False args)"

definition printf :: "string \<Rightarrow> carg list \<Rightarrow> (int \<times> u8) list option" where
  "printf fmt args = fprintf 1 fmt args"

section \<open>Numbers\<close>

lemma digit_facts:
  "\<forall>d\<in>set [0..<10]. of_char (''0123456789ABCDEF'' ! d) = (of_nat (48 + d) :: u8) \<and> sint (of_nat (48 + d) :: u8) = 48 + int d \<and>
    (scast (of_nat (48 + d) :: u8) :: u32) = 48 + of_nat d"
  by code_simp

lemma digit_char: "d < 10 \<Longrightarrow> of_char (''0123456789ABCDEF'' ! d) = (of_nat (48 + d) :: u8)"
  using digit_facts [rule_format, of d] by simp

lemma digit_value:
  "d < 10 \<Longrightarrow> sint (of_nat (48 + d) :: u8) = 48 + int d" "d < 10 \<Longrightarrow> (scast (of_nat (48 + d) :: u8) :: u32) = 48 + of_nat d"
  using digit_facts [rule_format, of d] by simp_all

text \<open>Reading digits from the most significant on.\<close>

lemma atoi_digits:
  "\<forall>d\<in>set ds. d < 10 \<Longrightarrow> atoi_loop (map (\<lambda>d. of_nat (48 + d)) ds @ s) n = atoi_loop s (fold (\<lambda>d n. n * 10 + of_nat d) ds n)"
proof (induction ds arbitrary: n)
  case (Cons d ds)
  then show ?case using digit_value [of d] by (simp add: add.assoc [symmetric])
qed simp

lemma foldr_value: "fold (\<lambda>d n. n * 10 + of_nat d) (rev ds) 0 = (of_nat (foldr (\<lambda>d n. d + 10 * n) ds 0) :: u32)"
  by (induction ds) (simp_all add: algebra_simps)

text \<open>
  C39: a number printed with \<open>%d\<close> is read back by \<open>atoi\<close>: for every number that is not negative, \<open>atoi\<close> on what
  \<open>printf\<close> writes for it, followed by anything that does not begin with a digit, gives the number. For
  a negative number \<open>atoi\<close> stops at the minus sign and gives 0.
\<close>

theorem atoi_printf:
  assumes "s = c # s'" "\<not> (48 \<le> sint c \<and> sint c \<le> 57)"
  shows "\<exists>bs. vprintf ''%d'' False [Aint x] = Some bs \<and> atoi (bs @ s) = Some (if 0 \<le> sint x then x else 0)"
proof -
  obtain ds where ds: "printint_buf ''0123456789ABCDEF'' x 10 True = Some (map ((!) ''0123456789ABCDEF'') ds @ (if True \<and> sint x < 0 then ''-'' else []))"
    "\<forall>d\<in>set ds. d < unat (10 :: u32)" "foldr (\<lambda>d n. d + unat (10 :: u32) * n) ds 0 = unat (if True \<and> sint x < 0 then - x else x)"
    using printint_buf_ok [of 10 "''0123456789ABCDEF''" x True] by blast
  have u: "uprintint x 10 True = Some ((if sint x < 0 then [45] else []) @ map (\<lambda>d. of_nat (48 + d)) (rev ds))"
    using ds(1,2) digit_char by (simp add: uprintint_def rev_map of_char_def del: of_nat_add)
  then have v: "vprintf ''%d'' False [Aint x] = Some ((if sint x < 0 then [45] else []) @ map (\<lambda>d. of_nat (48 + d)) (rev ds))"
    by simp
  show ?thesis
  proof (cases "0 \<le> sint x")
    case True
    then have "atoi (map (\<lambda>d. of_nat (48 + d)) (rev ds) @ s) = Some (of_nat (foldr (\<lambda>d n. d + 10 * n) ds 0))"
      using ds(2) atoi_digits [of "rev ds" s 0] foldr_value [of ds] assms by (simp add: atoi_def)
    then show ?thesis using True v ds(3) by simp
  next
    case False
    then show ?thesis using v by (simp add: atoi_def)
  qed
qed

theorem atoi_printf_witness: "\<exists>bs. vprintf ''%d'' False [Aint 1207] = Some bs \<and> atoi (bs @ [0]) = Some 1207"
  using atoi_printf [of "[0]" 0 "[]" 1207] by simp


section \<open>Comparing and copying\<close>

definition cstr :: "u8 list \<Rightarrow> u8 list" where
  "cstr s = takeWhile (\<lambda>b. b \<noteq> 0) s"

lemma strcpy_spec:
  "0 \<in> set t \<Longrightarrow> length (cstr t) < length s \<Longrightarrow> strcpy s t = Some (cstr t @ 0 # drop (Suc (length (cstr t))) s)"
proof (induction s t rule: strcpy.induct)
  case (1 x s y t)
  then show ?case by (cases "y = 0") (auto simp: cstr_def)
qed (auto simp: cstr_def)

lemma strcmp_spec:
  "0 \<in> set p \<Longrightarrow> 0 \<in> set q \<Longrightarrow> \<exists>r. strcmp p q = Some r \<and> (r = 0 \<longleftrightarrow> cstr p = cstr q) \<and>
    (r < 0 \<longleftrightarrow> (cstr p, cstr q) \<in> lexord {(a, b). a < b})"
proof (induction p q rule: strcmp.induct)
  case (1 x p y q)
  consider "x \<noteq> 0" "x = y" | "x = 0" "y = 0" | "x \<noteq> y" "x = 0" | "x \<noteq> y" "y = 0" | "x \<noteq> y" "x \<noteq> 0" "y \<noteq> 0" by blast
  then show ?case
  proof cases
    case 1
    then show ?thesis using "1.IH" "1.prems" by (auto simp: cstr_def)
  next
    case 2
    then show ?thesis by (simp add: cstr_def)
  next
    case 3
    then have "uint y > 0" by (simp add: word_neq_0_conv word_less_def [of 0, simplified])
    then show ?thesis using 3 by (simp add: cstr_def)
  next
    case 4
    then have "uint x > 0" by (simp add: word_neq_0_conv word_less_def [of 0, simplified])
    then show ?thesis using 4 by (simp add: cstr_def)
  next
    case 5
    then have "uint x \<noteq> uint y" by (simp add: word_uint_eq_iff)
    then show ?thesis using 5 by (auto simp: cstr_def word_less_def)
  qed
qed simp_all

text \<open>
  C40: \<open>strcpy\<close> and \<open>strcmp\<close> of the user library on C strings. A string that fits into the destination with its
  terminator is copied, and the bytes after it stay as they were; \<open>strcmp\<close> then finds the two
  equal. For any two strings the result of \<open>strcmp\<close> is 0 exactly when they are equal and negative exactly when
  the first comes first in the lexicographic order on unsigned bytes.
\<close>

theorem strcpy_strcmp:
  assumes "0 \<in> set t" "length (cstr t) < length s" "0 \<in> set q"
  shows "\<exists>s' r. strcpy s t = Some s' \<and> cstr s' = cstr t \<and> length s' = length s \<and> drop (Suc (length (cstr t))) s' = drop (Suc (length (cstr t))) s \<and>
    strcmp s' t = Some 0 \<and> strcmp s' q = Some r \<and> (r = 0 \<longleftrightarrow> cstr t = cstr q) \<and> (r < 0 \<longleftrightarrow> (cstr t, cstr q) \<in> lexord {(a, b). a < b})"
proof -
  let ?s = "cstr t @ 0 # drop (Suc (length (cstr t))) s"
  have c: "cstr ?s = cstr t" "0 \<in> set ?s" by (auto simp: cstr_def takeWhile_append dest: set_takeWhileD)
  have "strcmp ?s t = Some 0" using strcmp_spec [OF c(2) assms(1)] c(1) by auto
  then show ?thesis using strcpy_spec [OF assms(1,2)] c strcmp_spec [OF c(2) assms(3)] assms(2) by auto
qed

theorem strcpy_strcmp_witness:
  "\<exists>s' r. strcpy [1, 1, 1, 1] [108, 115, 0] = Some s' \<and> strcmp s' [108, 115, 0] = Some 0 \<and> strcmp s' [108, 120, 0] = Some r \<and> r < 0"
proof -
  have "(cstr [108, 115, 0], cstr [108, 120, 0]) \<in> lexord {(a, b). a < b}" by (simp add: cstr_def)
  then show ?thesis using strcpy_strcmp [of "[108, 115, 0]" "[1, 1, 1, 1]" "[108, 120, 0]"] by (auto simp: cstr_def)
qed

end
