(* ===== verification/Uprog.thy ===== *)
theory Uprog
  imports Ulib
begin

text \<open>
  User processes as trees of their system calls: a node is a call, with what the process goes on to do for each
  result. Output through \<open>printf\<close> and \<open>fprintf\<close>, whose results no program looks at, is one node for the bytes of a call.
\<close>

section \<open>Processes\<close>

datatype prog = Exit
  | Crash
  | Fork prog "int \<Rightarrow> prog"
  | Wait "int \<Rightarrow> prog"
  | Exec "u8 list" "u8 list list" prog
  | Open "u8 list" int "int \<Rightarrow> prog"
  | Close int prog
  | Dup int prog
  | Pipe "int \<Rightarrow> int \<Rightarrow> int \<Rightarrow> prog"
  | Read int nat "u8 list option \<Rightarrow> prog"
  | Write int "u8 list" "int \<Rightarrow> prog"
  | Chdir "u8 list" "int \<Rightarrow> prog"
  | Mkdir "u8 list" "int \<Rightarrow> prog"
  | Mknod "u8 list" int int prog
  | Link "u8 list" "u8 list" "int \<Rightarrow> prog"
  | Unlink "u8 list" "int \<Rightarrow> prog"
  | Fstat int "(u32 \<times> u32 \<times> u32) option \<Rightarrow> prog"
  | Kill int prog
  | Getpid "int \<Rightarrow> prog"
  | Sleep int prog
  | Provera prog
  | Print "(int \<times> u8) list" prog
  | Read_line nat "u8 list \<Rightarrow> prog"

text \<open>
  \<open>Read\<close> gives the bytes, \<open>None\<close> on an error; \<open>Fstat\<close> the type, inode number and size; \<open>Read_line\<close> the string that \<open>gets\<close>
  leaves in its buffer.
\<close>

abbreviation bytes :: "string \<Rightarrow> u8 list" where "bytes \<equiv> map of_char"

abbreviation string_arg :: "u8 list \<Rightarrow> carg" where "string_arg w \<equiv> Astr (Some (w @ [0]))"

definition say :: "int \<Rightarrow> string \<Rightarrow> carg list \<Rightarrow> prog \<Rightarrow> prog" where
  "say fd fmt args k = (case fprintf fd fmt args of None \<Rightarrow> Crash | Some bs \<Rightarrow> Print bs k)"

section \<open>Small programs\<close>

text \<open>user/echo.c. The arguments are those after the name of the program.\<close>

fun echo :: "u8 list list \<Rightarrow> prog" where
  "echo [] = Exit"
| "echo (a # args) = say 1 ''%s%s'' [string_arg a, string_arg (if args \<noteq> [] then [32] else [10])] (echo args)"

text \<open>user/kill.c.\<close>

fun kill_loop :: "u8 list list \<Rightarrow> prog" where
  "kill_loop [] = Exit"
| "kill_loop (a # args) = (case atoi (a @ [0]) of None \<Rightarrow> Crash | Some pid \<Rightarrow> Kill (sint pid) (kill_loop args))"

definition kill_main :: "u8 list list \<Rightarrow> prog" where
  "kill_main args = (if args = [] then say 2 ''usage: kill pid...\<newline>'' [] Exit else kill_loop args)"

text \<open>user/ln.c.\<close>

definition ln :: "u8 list list \<Rightarrow> prog" where
  "ln args =
     (case args of
        [a, b] \<Rightarrow> Link a b (\<lambda>r. if r < 0 then say 2 ''link %s %s: failed\<newline>'' [string_arg a, string_arg b] Exit else Exit)
      | _ \<Rightarrow> say 2 ''Usage: ln old new\<newline>'' [] Exit)"

text \<open>user/mkdir.c and user/rm.c.\<close>

fun mkdir_loop :: "u8 list list \<Rightarrow> prog" where
  "mkdir_loop [] = Exit"
| "mkdir_loop (a # args) = Mkdir a (\<lambda>r. if r < 0 then say 2 ''mkdir: %s failed to create\<newline>'' [string_arg a] Exit else mkdir_loop args)"

definition mkdir_main :: "u8 list list \<Rightarrow> prog" where
  "mkdir_main args = (if args = [] then say 2 ''Usage: mkdir files...\<newline>'' [] Exit else mkdir_loop args)"

fun rm_loop :: "u8 list list \<Rightarrow> prog" where
  "rm_loop [] = Exit"
| "rm_loop (a # args) = Unlink a (\<lambda>r. if r < 0 then say 2 ''rm: %s failed to delete\<newline>'' [string_arg a] Exit else rm_loop args)"

definition rm_main :: "u8 list list \<Rightarrow> prog" where
  "rm_main args = (if args = [] then say 2 ''Usage: rm files...\<newline>'' [] Exit else rm_loop args)"

text \<open>user/zombie.c and user/provera.c.\<close>

definition zombie :: prog where
  "zombie = Fork Exit (\<lambda>pid. if pid > 0 then Sleep 5 Exit else Exit)"

definition provera_main :: prog where
  "provera_main = Provera Exit"

text \<open>user/pipetest.c; the child goes on to the calls after the conditional only when \<open>exec\<close> fails.\<close>

definition pipetest :: prog where
  "pipetest =
     Pipe (\<lambda>_ p0 p1.
       Fork (Close 0 (Dup p0 (Close p0 (Close p1 (Exec (bytes ''/bin/wc'') [bytes ''wc''] (Wait (\<lambda>_. Exit)))))))
         (\<lambda>_. Close p0 (Write p1 (bytes ''hello world\<newline>'') (\<lambda>_. Close p1 (Wait (\<lambda>_. Exit))))))"

section \<open>cat\<close>

text \<open>The loop over the reads, at most \<open>n\<close> of them; \<open>k\<close> is what follows the call.\<close>

fun cat :: "nat \<Rightarrow> int \<Rightarrow> prog \<Rightarrow> prog" where
  "cat 0 fd k = Crash"
| "cat (Suc n) fd k =
     Read fd 512 (\<lambda>r. case r of None \<Rightarrow> say 1 ''cat: read error\<newline>'' [] Exit
     | Some bs \<Rightarrow>
       if bs = [] then k
       else Write 1 bs (\<lambda>m. if m \<noteq> int (length bs) then say 1 ''cat: write error\<newline>'' [] Exit else cat n fd k))"

fun cat_files :: "nat \<Rightarrow> u8 list list \<Rightarrow> prog" where
  "cat_files n [] = Exit"
| "cat_files n (a # args) =
     Open a 0 (\<lambda>fd. if fd < 0 then say 1 ''cat: cannot open %s\<newline>'' [string_arg a] Exit
       else cat n fd (Close fd (cat_files n args)))"

definition cat_main :: "nat \<Rightarrow> u8 list list \<Rightarrow> prog" where
  "cat_main n args = (if args = [] then cat n 0 Exit else cat_files n args)"

section \<open>wc\<close>

text \<open>The counters: lines, words, characters, and whether the last character was in a word.\<close>

type_synonym counts = "u32 \<times> u32 \<times> u32 \<times> bool"

definition wc_char :: "u8 \<Rightarrow> counts \<Rightarrow> counts" where
  "wc_char ch = (\<lambda>(l, w, c, inword).
     let c = c + 1; l = (if ch = 10 then l + 1 else l) in
     if strchr [32, 13, 9, 10, 11, 0] ch \<noteq> Some None then (l, w, c, False)
     else if \<not> inword then (l, w + 1, c, True) else (l, w, c, inword))"

definition wc_buf :: "u8 list \<Rightarrow> counts \<Rightarrow> counts" where
  "wc_buf bs = fold wc_char bs"

fun wc :: "nat \<Rightarrow> int \<Rightarrow> u8 list \<Rightarrow> counts \<Rightarrow> prog \<Rightarrow> prog" where
  "wc 0 fd name cs k = Crash"
| "wc (Suc n) fd name cs k =
     Read fd 512 (\<lambda>r. case r of None \<Rightarrow> say 1 ''wc: read error\<newline>'' [] Exit
     | Some bs \<Rightarrow>
       if bs = [] then (case cs of (l, w, c, _) \<Rightarrow> say 1 ''%d %d %d %s\<newline>'' [Aint l, Aint w, Aint c, string_arg name] k)
       else wc n fd name (wc_buf bs cs) k)"

fun wc_files :: "nat \<Rightarrow> u8 list list \<Rightarrow> prog" where
  "wc_files n [] = Exit"
| "wc_files n (a # args) =
     Open a 0 (\<lambda>fd. if fd < 0 then say 1 ''wc: cannot open %s\<newline>'' [string_arg a] Exit
       else wc n fd a (0, 0, 0, False) (Close fd (wc_files n args)))"

definition wc_main :: "nat \<Rightarrow> u8 list list \<Rightarrow> prog" where
  "wc_main n args = (if args = [] then wc n 0 [] (0, 0, 0, False) Exit else wc_files n args)"


section \<open>init\<close>

text \<open>The wait for the shell, with the zombies that come before it; \<open>m\<close> bounds their number.\<close>

fun init_wait :: "nat \<Rightarrow> int \<Rightarrow> prog \<Rightarrow> prog" where
  "init_wait 0 pid k = Crash"
| "init_wait (Suc m) pid k = Wait (\<lambda>wpid. if wpid \<ge> 0 \<and> wpid \<noteq> pid then say 1 ''zombie!\<newline>'' [] (init_wait m pid k) else k)"

text \<open>At most \<open>n\<close> shells.\<close>

fun init_loop :: "nat \<Rightarrow> nat \<Rightarrow> prog" where
  "init_loop 0 m = Crash"
| "init_loop (Suc n) m =
     say 1 ''init: starting sh\<newline>'' []
       (Fork (Exec (bytes ''/bin/sh'') [bytes ''sh''] (say 1 ''init: exec sh failed\<newline>'' [] Exit))
         (\<lambda>pid. if pid < 0 then say 1 ''init: fork failed\<newline>'' [] Exit else init_wait m pid (init_loop n m)))"

definition init_main :: "nat \<Rightarrow> nat \<Rightarrow> prog" where
  "init_main n m =
     Getpid (\<lambda>pid. if pid \<noteq> 1 then say 2 ''init: already running\<newline>'' [] Exit
     else
       (let k = Dup 0 (Dup 0 (init_loop n m)) in
        Open (bytes ''/dev/console'') 2 (\<lambda>fd.
          if fd < 0 then Mknod (bytes ''/dev/console'') 1 1 (Open (bytes ''/dev/console'') 2 (\<lambda>_. k)) else k)))"

section \<open>ls\<close>

text \<open>\<open>stat\<close> of user/ulib.c; \<open>None\<close> is the result \<open>-1\<close>.\<close>

definition ustat :: "u8 list \<Rightarrow> ((u32 \<times> u32 \<times> u32) option \<Rightarrow> prog) \<Rightarrow> prog" where
  "ustat n k = Open n 0 (\<lambda>fd. if fd < 0 then k None else Fstat fd (\<lambda>r. Close fd (k r)))"

text \<open>The name behind the last slash, with blanks up to 14 characters.\<close>

definition fmtname :: "u8 list \<Rightarrow> u8 list" where
  "fmtname path =
     (let p = rev (takeWhile (\<lambda>c. c \<noteq> 47) (rev path)) in
      if length p \<ge> 14 then p else p @ replicate (14 - length p) 32)"

definition ls_line :: "u8 list \<Rightarrow> u32 \<times> u32 \<times> u32 \<Rightarrow> prog \<Rightarrow> prog" where
  "ls_line path = (\<lambda>(ty, ino, sz) k. say 1 ''%s %d %d %d\<newline>'' [string_arg (fmtname path), Aint ty, Aint ino, Aint sz] k)"

text \<open>The entries of a directory, at most \<open>n\<close> of them.\<close>

fun ls_dir :: "nat \<Rightarrow> u8 list \<Rightarrow> int \<Rightarrow> prog \<Rightarrow> prog" where
  "ls_dir 0 path fd k = Crash"
| "ls_dir (Suc n) path fd k =
     Read fd 16 (\<lambda>r. case r of None \<Rightarrow> k
     | Some de \<Rightarrow>
       if length de \<noteq> 16 then k
       else if de ! 0 = 0 \<and> de ! 1 = 0 then ls_dir n path fd k
       else
         let buf = path @ 47 # takeWhile (\<lambda>c. c \<noteq> 0) (drop 2 de) in
         ustat buf (\<lambda>st. case st of None \<Rightarrow> say 1 ''ls: cannot stat %s\<newline>'' [string_arg buf] (ls_dir n path fd k)
           | Some st \<Rightarrow> ls_line buf st (ls_dir n path fd k)))"

definition ls :: "nat \<Rightarrow> u8 list \<Rightarrow> prog \<Rightarrow> prog" where
  "ls n path k =
     Open path 0 (\<lambda>fd. if fd < 0 then say 2 ''ls: cannot open %s\<newline>'' [string_arg path] k
     else Fstat fd (\<lambda>st. case st of None \<Rightarrow> say 2 ''ls: cannot stat %s\<newline>'' [string_arg path] (Close fd k)
       | Some (ty, ino, sz) \<Rightarrow>
         if ty = 2 then ls_line path (ty, ino, sz) (Close fd k)
         else if ty = 1 then
           (if length path + 1 + 14 + 1 > 512 then say 1 ''ls: path too long\<newline>'' [] (Close fd k) else ls_dir n path fd (Close fd k))
         else Close fd k))"

fun ls_loop :: "nat \<Rightarrow> u8 list list \<Rightarrow> prog" where
  "ls_loop n [] = Exit"
| "ls_loop n (a # args) = ls n a (ls_loop n args)"

definition ls_main :: "nat \<Rightarrow> u8 list list \<Rightarrow> prog" where
  "ls_main n args = (if args = [] then ls n (bytes ''.'') Exit else ls_loop n args)"

section \<open>Tests of fork and of the file system\<close>

text \<open>user/forktest.c, with \<open>k\<close> forks left; \<open>n\<close> is how many succeeded.\<close>

fun forktest_wait :: "nat \<Rightarrow> prog \<Rightarrow> prog" where
  "forktest_wait 0 k = Wait (\<lambda>r. if r \<noteq> - 1 then Write 1 (bytes ''wait got too many\<newline>'') (\<lambda>_. Exit) else k)"
| "forktest_wait (Suc n) k = Wait (\<lambda>r. if r < 0 then Write 1 (bytes ''wait stopped early\<newline>'') (\<lambda>_. Exit) else forktest_wait n k)"

fun forktest_loop :: "nat \<Rightarrow> nat \<Rightarrow> prog" where
  "forktest_loop 0 n = Write 1 (bytes ''fork claimed to work N times!\<newline>'') (\<lambda>_. Exit)"
| "forktest_loop (Suc k) n =
     Fork Exit (\<lambda>pid. if pid < 0 then forktest_wait n (Write 1 (bytes ''fork test OK\<newline>'') (\<lambda>_. Exit)) else forktest_loop k (n + 1))"

definition forktest :: prog where
  "forktest = Write 1 (bytes ''fork test\<newline>'') (\<lambda>_. forktest_loop 1000 0)"

text \<open>user/stressfs.c: what each of the five processes does, and the forks.\<close>

fun repeat_call :: "nat \<Rightarrow> (prog \<Rightarrow> prog) \<Rightarrow> prog \<Rightarrow> prog" where
  "repeat_call 0 f k = k"
| "repeat_call (Suc n) f k = f (repeat_call n f k)"

definition stressfs_work :: "nat \<Rightarrow> prog" where
  "stressfs_work i =
     (let path = bytes ''stressfs'' @ [48 + of_nat i] in
      say 1 ''write %d\<newline>'' [Aint (of_nat i)]
        (Open path 0x202 (\<lambda>fd. repeat_call 20 (\<lambda>k. Write fd (replicate 512 97) (\<lambda>_. k)) (Close fd
        (say 1 ''read\<newline>'' []
        (Open path 0 (\<lambda>fd. repeat_call 20 (\<lambda>k. Read fd 512 (\<lambda>_. k)) (Close fd (Wait (\<lambda>_. Exit))))))))))"

fun stressfs_forks :: "nat \<Rightarrow> nat \<Rightarrow> prog" where
  "stressfs_forks 0 i = stressfs_work i"
| "stressfs_forks (Suc n) i = Fork (stressfs_forks n (i + 1)) (\<lambda>pid. if pid > 0 then stressfs_work i else stressfs_forks n (i + 1))"

definition stressfs :: prog where
  "stressfs = say 1 ''stressfs starting\<newline>'' [] (stressfs_forks 4 0)"

end
