(* ===== verification/Shrun.thy ===== *)
theory Shrun
  imports Shprint Uprog Sysfile
begin

text \<open>
  The rest of user/sh.c: running a command and the main loop, as trees of system calls. \<open>run\<close> follows a
  tree with the descriptor table that the kernel keeps for the process and lists the programs that it and
  its children start, each with its descriptors.
\<close>

section \<open>Running a command\<close>

definition sh_panic :: "string \<Rightarrow> prog" where
  "sh_panic m = say 2 ''%s\<newline>'' [string_arg (bytes m)] Exit"

text \<open>What the child goes on to do and what the parent does.\<close>

definition fork1 :: "prog \<Rightarrow> prog \<Rightarrow> prog" where
  "fork1 child parent = Fork child (\<lambda>pid. if pid = - 1 then sh_panic ''fork'' else parent)"

abbreviation (input) BINPATHLEN :: nat where "BINPATHLEN \<equiv> 20"

text \<open>\<open>buf\<close> is what is in the array before.\<close>

definition binpath :: "u8 list \<Rightarrow> u8 list \<Rightarrow> u8 list option" where
  "binpath buf arg =
     (case strcpy buf (bytes ''/bin/'' @ [0]) of None \<Rightarrow> None
      | Some buf \<Rightarrow>
        (case usafestrcpy (drop 5 buf) (arg @ [0]) 14 of None \<Rightarrow> None
         | Some tail \<Rightarrow> Some (takeWhile (\<lambda>x. x \<noteq> 0) (take 5 buf @ tail))))"

fun runcmd :: "u8 list cmd \<Rightarrow> prog" where
  "runcmd (EXEC argv) =
     (case argv of [] \<Rightarrow> Exit
      | a # _ \<Rightarrow>
        (case binpath (replicate BINPATHLEN 0) a of None \<Rightarrow> Crash
         | Some path \<Rightarrow> Exec path argv (say 2 ''exec %s failed\<newline>'' [string_arg path] Exit)))"
| "runcmd (REDIR c f mode fd) =
     Close fd (Open f mode (\<lambda>r. if r < 0 then say 2 ''open %s failed\<newline>'' [string_arg f] Exit else runcmd c))"
| "runcmd (LIST l r) = fork1 (runcmd l) (Wait (\<lambda>_. runcmd r))"
| "runcmd (PIPE l r) =
     Pipe (\<lambda>ret p0 p1. if ret < 0 then sh_panic ''pipe'' else
       fork1 (Close 1 (Dup p1 (Close p0 (Close p1 (runcmd l)))))
       (fork1 (Close 0 (Dup p0 (Close p0 (Close p1 (runcmd r)))))
       (Close p0 (Close p1 (Wait (\<lambda>_. Wait (\<lambda>_. Exit)))))))"
| "runcmd (BACK c) = fork1 (runcmd c) Exit"

section \<open>The main loop\<close>

text \<open>The child that parses and runs a line; the strings of the command are read from the terminated line.\<close>

definition sh_child :: "u8 list \<Rightarrow> prog" where
  "sh_child buf =
     (case parsecmd buf of
        Ok cmd t \<Rightarrow> runcmd (map_cmd (\<lambda>(q, e). takeWhile (\<lambda>x. x \<noteq> 0) (drop q t)) cmd)
      | Panic m \<Rightarrow> sh_panic m
      | _ \<Rightarrow> Crash)"

definition getcmd :: "nat \<Rightarrow> (u8 list option \<Rightarrow> prog) \<Rightarrow> prog" where
  "getcmd nbuf k = say 2 ''$ '' [] (Read_line nbuf (\<lambda>buf. k (if buf = [] then None else Some buf)))"

text \<open>The two loops of \<open>main\<close>; the first argument bounds the number of iterations.\<close>

fun sh_open :: "nat \<Rightarrow> prog \<Rightarrow> prog" where
  "sh_open 0 k = Crash"
| "sh_open (Suc n) k =
     Open (bytes ''/dev/console'') 2 (\<lambda>fd. if fd < 0 then k else if fd \<ge> 3 then Close fd k else sh_open n k)"

fun sh_loop :: "nat \<Rightarrow> prog" where
  "sh_loop 0 = Crash"
| "sh_loop (Suc n) =
     getcmd 100 (\<lambda>b. case b of None \<Rightarrow> Exit
     | Some buf \<Rightarrow>
       if take 3 buf = [99, 100, 32]
       then (let buf = butlast buf in
             Chdir (drop 3 buf) (\<lambda>r. if r < 0 then say 2 ''cannot cd %s\<newline>'' [string_arg (drop 3 buf)] (sh_loop n) else sh_loop n))
       else fork1 (sh_child buf) (Wait (\<lambda>_. sh_loop n)))"

definition sh_main :: "nat \<Rightarrow> prog" where
  "sh_main n = sh_open 4 (sh_loop n)"

section \<open>Descriptors\<close>

datatype obj = Old nat | File "u8 list" int | PipeR nat | PipeW nat

type_synonym fdt = "obj option list"
type_synonym started = "(u8 list \<times> u8 list list \<times> fdt) list"

text \<open>
  \<open>can\<close> says which files can be opened; \<open>k\<close> numbers the pipes. A fork and an
  \<open>exec\<close> succeed, every input is at its end, other calls succeed. \<open>open\<close>, \<open>dup\<close> and \<open>pipe\<close> take the first free
  descriptor, as \<open>fdalloc\<close> does.
\<close>

primrec run :: "(u8 list \<Rightarrow> int \<Rightarrow> bool) \<Rightarrow> prog \<Rightarrow> fdt \<Rightarrow> nat \<Rightarrow> started \<times> nat" where
  "run can Exit fds k = ([], k)"
| "run can Crash fds k = ([], k)"
| "run can (Fork c f) fds k =
     (case run can c fds k of (l, k) \<Rightarrow> case run can (f 1) fds k of (m, k) \<Rightarrow> (l @ m, k))"
| "run can (Wait p) fds k = run can (p 1) fds k"
| "run can (Exec path argv p) fds k = ([(path, argv, fds)], k)"
| "run can (Open f mode p) fds k =
     (case find_idx (\<lambda>x. x = None) fds of
        Some i \<Rightarrow> if can f mode then run can (p (int i)) (fds[i := Some (File f mode)]) k else run can (p (- 1)) fds k
      | None \<Rightarrow> run can (p (- 1)) fds k)"
| "run can (Close fd p) fds k = run can p (if fd < 0 then fds else fds[nat fd := None]) k"
| "run can (Dup fd p) fds k =
     (case find_idx (\<lambda>x. x = None) fds of
        Some i \<Rightarrow> if 0 \<le> fd \<and> nat fd < length fds \<and> fds ! nat fd \<noteq> None then run can p (fds[i := fds ! nat fd]) k else run can p fds k
      | None \<Rightarrow> run can p fds k)"
| "run can (Pipe p) fds k =
     (case find_idx (\<lambda>x. x = None) fds of
        None \<Rightarrow> run can (p (- 1) 0 0) fds k
      | Some i \<Rightarrow>
        (case find_idx (\<lambda>x. x = None) (fds[i := Some (PipeR k)]) of
           None \<Rightarrow> run can (p (- 1) 0 0) fds k
         | Some j \<Rightarrow> run can (p 0 (int i) (int j)) (fds[i := Some (PipeR k), j := Some (PipeW k)]) (k + 1)))"
| "run can (Read fd n p) fds k = run can (p (Some [])) fds k"
| "run can (Write fd bs p) fds k = run can (p (int (length bs))) fds k"
| "run can (Chdir d p) fds k = run can (p 0) fds k"
| "run can (Mkdir d p) fds k = run can (p 0) fds k"
| "run can (Mknod f ma mi p) fds k = run can p fds k"
| "run can (Link f g p) fds k = run can (p 0) fds k"
| "run can (Unlink f p) fds k = run can (p 0) fds k"
| "run can (Fstat fd p) fds k = run can (p None) fds k"
| "run can (Kill pid p) fds k = run can p fds k"
| "run can (Getpid p) fds k = run can (p 1) fds k"
| "run can (Sleep n p) fds k = run can p fds k"
| "run can (Provera p) fds k = run can p fds k"
| "run can (Print bs p) fds k = run can p fds k"
| "run can (Read_line n p) fds k = run can (p []) fds k"


section \<open>What a command starts\<close>

text \<open>
  The programs a command stands for, with the descriptors each should have: the left side of a pipe writes to it
  as descriptor 1, the right side reads from it as descriptor 0, and no other descriptor changes.
\<close>

fun plumb :: "(u8 list \<Rightarrow> int \<Rightarrow> bool) \<Rightarrow> u8 list cmd \<Rightarrow> fdt \<Rightarrow> nat \<Rightarrow> started \<times> nat" where
  "plumb can (EXEC argv) fds k = (if argv = [] then [] else [(bytes ''/bin/'' @ take 13 (hd argv), argv, fds)], k)"
| "plumb can (REDIR c f mode fd) fds k = (if can f mode then plumb can c (fds[nat fd := Some (File f mode)]) k else ([], k))"
| "plumb can (LIST l r) fds k = (case plumb can l fds k of (s, k) \<Rightarrow> case plumb can r fds k of (t, k) \<Rightarrow> (s @ t, k))"
| "plumb can (PIPE l r) fds k =
     (case plumb can l (fds[1 := Some (PipeW k)]) (k + 1) of (s, j) \<Rightarrow>
      case plumb can r (fds[0 := Some (PipeR k)]) j of (t, j) \<Rightarrow> (s @ t, j))"
| "plumb can (BACK c) fds k = plumb can c fds k"

lemma copy_nul_append:
  "0 \<notin> set a \<Longrightarrow> n < length s \<Longrightarrow> \<exists>t. copy_nul s (a @ [0]) n = Some t \<and> takeWhile (\<lambda>x. x \<noteq> 0) t = take n a"
proof (induction a arbitrary: s n)
  case Nil
  then show ?case by (cases s; cases n; cases "tl s") auto
next
  case (Cons x a)
  then obtain y s' where s: "s = y # s'" by (cases s) auto
  show ?case
  proof (cases n)
    case 0
    then show ?thesis using Cons.prems s by simp
  next
    case (Suc m)
    then show ?thesis using Cons.IH [of m s'] Cons.prems s by auto
  qed
qed


lemma binpath_eq: "0 \<notin> set a \<Longrightarrow> binpath (replicate BINPATHLEN 0) a = Some (bytes ''/bin/'' @ take 13 a)"
proof -
  assume a: "0 \<notin> set a"
  have s: "strcpy (replicate 20 0) (bytes ''/bin/'' @ [0]) = Some (bytes ''/bin/'' @ replicate 15 0)" by code_simp
  have d: "drop 5 (bytes ''/bin/'' @ replicate 15 0) = (replicate 15 0 :: u8 list)" "take 5 (bytes ''/bin/'' @ replicate 15 0) = bytes ''/bin/''"
    by (simp_all add: numeral_eq_Suc)
  obtain t where t: "copy_nul (replicate 15 0) (a @ [0]) 13 = Some t" "takeWhile (\<lambda>x. x \<noteq> 0) t = take 13 a"
    using copy_nul_append [OF a, of 13 "replicate 15 0"] by auto
  have "0 \<notin> set (bytes ''/bin/'')" by code_simp
  then show ?thesis unfolding binpath_def s option.case d usafestrcpy_def using t by (auto simp: takeWhile_append)
qed

text \<open>Standard input and output are open, and two more descriptors are free.\<close>

definition free_fds :: "fdt \<Rightarrow> nat set" where
  "free_fds fds = {i. i < length fds \<and> fds ! i = None}"

definition ready :: "fdt \<Rightarrow> bool" where
  "ready fds \<longleftrightarrow> 1 < length fds \<and> {0, 1} \<inter> free_fds fds = {} \<and> (\<exists>i\<in>free_fds fds. \<exists>j\<in>free_fds fds. i \<noteq> j)"

lemma ready_update: "ready fds \<Longrightarrow> a < 2 \<Longrightarrow> ready (fds[a := Some x])"
proof -
  assume r: "ready fds" and a: "a < 2"
  have "a \<notin> free_fds fds" using r a by (auto simp: ready_def less_2_cases_iff)
  then have "free_fds (fds[a := Some x]) = free_fds fds" by (auto simp: free_fds_def update_nth split: if_split_asm)
  then show ?thesis using r by (simp add: ready_def)
qed

lemma ready_pipe:
  assumes "ready fds"
  obtains i j where "find_idx (\<lambda>x. x = None) fds = Some i" "find_idx (\<lambda>x. x = None) (fds[i := Some (PipeR k)]) = Some j"
    "1 < i" "1 < j" "i \<noteq> j" "i < length fds" "j < length fds" "fds ! i = None" "fds ! j = None" "fds ! 0 \<noteq> None" "fds ! 1 \<noteq> None" "1 < length fds"
proof -
  obtain i0 j0 where ij: "i0 \<in> free_fds fds" "j0 \<in> free_fds fds" "i0 \<noteq> j0" using assms by (auto simp: ready_def)
  have z: "1 < length fds" "fds ! 0 \<noteq> None" "fds ! 1 \<noteq> None" using assms by (auto simp: ready_def free_fds_def)
  have big: "1 < m" if "m < length fds" "fds ! m = None" for m using z that by (cases "m = 0 \<or> m = 1") auto
  have "\<exists>x\<in>set fds. x = None" using ij(1) by (force simp: free_fds_def in_set_conv_nth)
  then obtain i where i: "find_idx (\<lambda>x. x = None) fds = Some i" by (cases "find_idx (\<lambda>x. x = None) fds") auto
  note fi = find_idx_SomeD [OF i]
  obtain m where m: "m \<in> free_fds fds" "m \<noteq> i" using ij by blast
  then have "fds[i := Some (PipeR k)] ! m = None" "m < length (fds[i := Some (PipeR k)])" by (auto simp: free_fds_def)
  then have "None \<in> set (fds[i := Some (PipeR k)])" by (metis nth_mem)
  then obtain j where j: "find_idx (\<lambda>x. x = None) (fds[i := Some (PipeR k)]) = Some j"
    by (cases "find_idx (\<lambda>x. x = None) (fds[i := Some (PipeR k)])") auto
  have "j \<noteq> i" "j < length fds" "fds ! j = None" using find_idx_SomeD [OF j] fi by (auto simp: nth_list_update split: if_split_asm)
  then show ?thesis using that [OF i j] fi big z by auto
qed

lemma free_0: "0 < length fds \<Longrightarrow> find_idx (\<lambda>x. x = None) (fds[0 := None]) = Some 0"
  by (cases fds) auto

lemma free_1: "1 < length fds \<Longrightarrow> fds ! 0 \<noteq> None \<Longrightarrow> find_idx (\<lambda>x. x = None) (fds[1 := None]) = Some 1"
  by (cases fds; cases "tl fds") auto

text \<open>The two ends of the pipe are free again once it has been put in place.\<close>

lemma plumbed:
  assumes "1 < i" "1 < j" "i \<noteq> j" "fds ! i = None" "fds ! j = None" "a < 2"
  shows "fds[i := x, j := y, a := u, a := v, i := None, j := None] = fds[a := v]"
  using assms by (intro nth_equalityI) (auto simp: update_nth)


fun std_redirs :: "u8 list cmd \<Rightarrow> bool" where
  "std_redirs (EXEC argv) \<longleftrightarrow> (\<forall>a\<in>set argv. 0 \<notin> set a)"
| "std_redirs (REDIR c f mode fd) \<longleftrightarrow> fd \<in> {0, 1} \<and> 0 \<notin> set f \<and> std_redirs c"
| "std_redirs (PIPE l r) \<longleftrightarrow> std_redirs l \<and> std_redirs r"
| "std_redirs (LIST l r) \<longleftrightarrow> std_redirs l \<and> std_redirs r"
| "std_redirs (BACK c) \<longleftrightarrow> std_redirs c"

lemma say_run [simp]: "run can (say fd fmt args Exit) fds k = ([], k)"
  by (auto simp: say_def split: option.split)

lemma fork1_run: "run can (fork1 c p) fds k = (case run can c fds k of (l, k) \<Rightarrow> case run can p fds k of (m, k) \<Rightarrow> (l @ m, k))"
  by (simp add: fork1_def)

lemma runcmd_pipe:
  assumes "ready fds"
  shows "run can (runcmd (PIPE l r)) fds k =
    (case run can (runcmd l) (fds[1 := Some (PipeW k)]) (k + 1) of (s, j) \<Rightarrow>
     case run can (runcmd r) (fds[0 := Some (PipeR k)]) j of (t, j) \<Rightarrow> (s @ t, j))"
proof -
  obtain i j where ij: "find_idx (\<lambda>x. x = None) fds = Some i" "find_idx (\<lambda>x. x = None) (fds[i := Some (PipeR k)]) = Some j"
    "1 < i" "1 < j" "i \<noteq> j" "i < length fds" "j < length fds" "fds ! i = None" "fds ! j = None" "fds ! 0 \<noteq> None" "fds ! 1 \<noteq> None" "1 < length fds"
    by (rule ready_pipe [OF assms])
  let ?f = "fds[i := Some (PipeR k), j := Some (PipeW k)]"
  have f1: "find_idx (\<lambda>x. x = None) (?f[1 := None]) = Some 1" by (rule free_1) (use ij in auto)
  have f0: "find_idx (\<lambda>x. x = None) (?f[0 := None]) = Some 0" by (rule free_0) (use ij in auto)
  have w: "?f[1 := None] ! j = Some (PipeW k)" "?f[0 := None] ! i = Some (PipeR k)" using ij by (simp_all add: nth_list_update)
  have p1: "?f[1 := None, 1 := Some (PipeW k), i := None, j := None] = fds[1 := Some (PipeW k)]" by (rule plumbed) (use ij in auto)
  have p0: "?f[0 := None, 0 := Some (PipeR k), i := None, j := None] = fds[0 := Some (PipeR k)]" by (rule plumbed) (use ij in auto)
  have l: "run can (Close 1 (Dup (int j) (Close (int i) (Close (int j) q)))) ?f m = run can q (fds[1 := Some (PipeW k)]) m" for q m
    using f1 w(1) p1 ij(7) by simp
  have r: "run can (Close 0 (Dup (int i) (Close (int i) (Close (int j) q)))) ?f m = run can q (fds[0 := Some (PipeR k)]) m" for q m
    using f0 w(2) p0 ij(6) by simp
  have "run can (runcmd (PIPE l r)) fds k =
      run can (fork1 (Close 1 (Dup (int j) (Close (int i) (Close (int j) (runcmd l)))))
        (fork1 (Close 0 (Dup (int i) (Close (int i) (Close (int j) (runcmd r))))) (Close (int i) (Close (int j) (Wait (\<lambda>_. Wait (\<lambda>_. Exit))))))) ?f (k + 1)"
    by (simp add: ij(1,2))
  then show ?thesis unfolding fork1_run l r by (simp split: prod.split)
qed

lemma runcmd_run: "ready fds \<Longrightarrow> std_redirs c \<Longrightarrow> run can (runcmd c) fds k = plumb can c fds k"
proof (induction c arbitrary: fds k)
  case (EXEC argv)
  then show ?case using binpath_eq [of "hd argv"] by (cases argv) auto
next
  case (REDIR c f mode fd)
  have z: "1 < length fds" "fds ! 0 \<noteq> None" using REDIR.prems(1) by (auto simp: ready_def free_fds_def)
  have n: "nat fd < 2" "0 \<le> fd" using REDIR.prems(2) by auto
  have "find_idx (\<lambda>x. x = None) (fds[nat fd := None]) = Some (nat fd)"
    using REDIR.prems(2) length_greater_0_conv [of fds] free_0 [of fds] free_1 [of fds] z by (cases "fds = []") auto
  then show ?case using REDIR.IH [OF ready_update [OF REDIR.prems(1) n(1)]] REDIR.prems(2) n by simp
next
  case (PIPE l r)
  then show ?case using ready_update [OF PIPE.prems(1), of 0] ready_update [OF PIPE.prems(1), of 1]
    by (simp only: runcmd_pipe [OF PIPE.prems(1)]) (simp split: prod.split)
qed (auto simp: fork1_run split: prod.split)


lemma wf_std: "wf_cmd c \<Longrightarrow> std_redirs c"
  by (induction c) (auto simp: is_word_def word_char_def)



end
