(* ===== verification/Primes.thy ===== *)
theory Primes
  imports Shrun
begin

text \<open>
  The three programs that share memory: user/primestart.c registers three regions and starts the other two,
  user/primecalc.c fills the array with prime numbers, user/primecom.c answers the user's commands. The shared
  regions are a record; that \<open>get_shared\<close> finds them is assumed here, see the theory Share for how they
  come to be shared.
\<close>

section \<open>The shared regions\<close>

record shm =
  niz :: "u32 list"
  index :: u32
  komanda :: u32

section \<open>primecalc\<close>

text \<open>The inner loop over \<open>j\<close>; the result is \<open>flag\<close>. Both counters stay far below \<open>2 ^ 31\<close>.\<close>

function calc_flag :: "nat \<Rightarrow> nat \<Rightarrow> bool" where
  "calc_flag i j = (if j < i div 2 then (if i = 2 then True else if i mod j = 0 then False else calc_flag i (j + 1)) else True)"
  by pat_completeness auto
termination by (relation "measure (\<lambda>(i, j). i - j)") auto

declare calc_flag.simps [simp del]

datatype outcome = Running shm | Exited shm | Overrun

text \<open>
  The main loop, from the test of \<open>i\<close> on, with \<open>n\<close> numbers found. \<open>koms\<close> are the commands that the
  reads of \<open>komanda\<close> find, one for each; \<open>primecalc_paused\<close> is the loop of a paused process. A write behind the
  array is \<open>Overrun\<close>.
\<close>

fun primecalc :: "nat \<Rightarrow> nat \<Rightarrow> u32 list \<Rightarrow> shm \<Rightarrow> outcome"
and primecalc_paused :: "nat \<Rightarrow> nat \<Rightarrow> u32 list \<Rightarrow> shm \<Rightarrow> outcome" where
  "primecalc i n [] m = Running m"
| "primecalc i n (k # koms) m =
     (if calc_flag i 2 \<and> n \<ge> length (niz m) then Overrun
      else
        let (n, m) = (if calc_flag i 2 then (n + 1, m\<lparr>niz := (niz m)[n := of_nat i], index := of_nat n\<rparr>) else (n, m)) in
        if k = 4 then primecalc_paused (i + 1) n koms m
        else if k = 5 then Exited m
        else primecalc (i + 1) n koms m)"
| "primecalc_paused i n [] m = Running m"
| "primecalc_paused i n (k # koms) m =
     (if k = 3 then primecalc i n koms m else if k = 5 then Exited m else primecalc_paused i n koms m)"

section \<open>primecom\<close>

text \<open>The digits after the command word: whether they end in a newline, and the value so far.\<close>

fun solve_num :: "u8 list \<Rightarrow> u32 \<Rightarrow> bool \<times> u32" where
  "solve_num [] n = (False, n)"
| "solve_num (c # com) n =
     (if c = 10 then (True, n) else if 48 \<le> c \<and> c \<le> 57 then solve_num com (n * 10 + ucast c - 48) else (False, n))"

text \<open>\<open>com\<close> is the buffer; the result is the number of the command and the global \<open>n\<close>.\<close>

definition solve :: "u8 list \<Rightarrow> u32 \<Rightarrow> int \<times> u32" where
  "solve com n =
     (if strcmp (bytes ''latest\<newline>'' @ [0]) com = Some 0 then (1, n)
      else if strcmp (bytes ''resume\<newline>'' @ [0]) com = Some 0 then (3, n)
      else if strcmp (bytes ''pause\<newline>'' @ [0]) com = Some 0 then (4, n)
      else if strcmp (bytes ''end\<newline>'' @ [0]) com = Some 0 then (5, n)
      else if take 6 com \<noteq> bytes ''prime '' then (0, 0)
      else case solve_num (drop 6 com) 0 of (r, n) \<Rightarrow> (if r then 2 else 0, n))"

definition elem :: "u32 list \<Rightarrow> u32 \<Rightarrow> u32 option" where
  "elem xs k = (if unat k < length xs then Some (xs ! unat k) else None)"

text \<open>
  One line of input: what is printed, the new \<open>n\<close> and shared memory, and whether the process ends. A read outside the
  array is \<open>None\<close>.
\<close>

definition primecom :: "u8 list \<Rightarrow> u32 \<Rightarrow> shm \<Rightarrow> (u8 list \<times> u32 \<times> shm \<times> bool) option" where
  "primecom buf n m =
     (case solve buf n of (kom, n) \<Rightarrow>
      if kom = 1 then
        (case elem (niz m) (index m - 1) of None \<Rightarrow> None
         | Some v \<Rightarrow> map_option (\<lambda>out. (out, n, m, False)) (vprintf ''Latest prime is no: %d value: %d\<newline>'' False [Aint (index m), Aint v]))
      else if kom = 2 then
        (if n > index m
         then map_option (\<lambda>out. (out, n, m, False))
                (vprintf (''Still haven'' @ CHR 0x27 # ''t calculated prime no. %d. We have primes up to %d\<newline>'') False [Aint n, Aint (index m)])
         else case elem (niz m) (n - 1) of None \<Rightarrow> None
              | Some v \<Rightarrow> map_option (\<lambda>out. (out, n, m, False)) (vprintf ''Prime number no. %d is: %d\<newline>'' False [Aint n, Aint v]))
      else if kom = 3 then Some (bytes ''Resuming...\<newline>'', n, m\<lparr>komanda := 3\<rparr>, False)
      else if kom = 4 then Some (bytes ''Pausing...\<newline>'', n, m\<lparr>komanda := 4\<rparr>, False)
      else if kom = 5 then Some ([], n, m\<lparr>komanda := 5\<rparr>, True)
      else Some ([], n, m, False))"


section \<open>primestart\<close>

text \<open>
  The addresses of \<open>idx\<close> and \<open>cmd\<close> on the stack and of the array that \<open>malloc\<close> returns are arguments. \<open>Share_mem\<close>
  is the system call; each child only calls \<open>exec\<close>.
\<close>

definition primestart :: "u32 \<Rightarrow> u32 \<Rightarrow> u32 \<Rightarrow> (u8 list \<times> u32 \<times> u32) list \<times> prog" where
  "primestart idx cmd primes =
     ([(bytes ''index'', idx, 4), (bytes ''komanda'', cmd, 4), (bytes ''niz'', primes, 400000)],
      Fork (Exec (bytes ''/bin/primecalc'') [bytes ''primecalc''] Exit)
        (\<lambda>_. Fork (Exec (bytes ''/bin/primecom'') [bytes ''primecom''] Exit) (\<lambda>_. Wait (\<lambda>_. Wait (\<lambda>_. Exit)))))"

section \<open>What primecalc finds\<close>

definition is_prime :: "nat \<Rightarrow> bool" where
  "is_prime p \<longleftrightarrow> 1 < p \<and> (\<forall>d. d dvd p \<longrightarrow> d = 1 \<or> d = p)"

lemma calc_flag_iff: "calc_flag i j \<longleftrightarrow> i = 2 \<or> (\<forall>d. j \<le> d \<and> d < i div 2 \<longrightarrow> \<not> d dvd i)"
proof (induction i j rule: calc_flag.induct)
  case (1 i j)
  have s: "(\<forall>d. j \<le> d \<and> d < i div 2 \<longrightarrow> \<not> d dvd i) \<longleftrightarrow> (j < i div 2 \<longrightarrow> \<not> j dvd i) \<and> (\<forall>d. j + 1 \<le> d \<and> d < i div 2 \<longrightarrow> \<not> d dvd i)"
    by (auto simp: Suc_le_eq) (metis le_neq_implies_less)
  show ?case
  proof (cases "j < i div 2 \<and> i \<noteq> 2 \<and> i mod j \<noteq> 0")
    case True
    then have "calc_flag i j = calc_flag i (j + 1)" by (simp add: calc_flag.simps [of i j])
    then show ?thesis using "1.IH" True unfolding s by (simp add: mod_eq_0_iff_dvd del: One_nat_def)
  next
    case False
    then show ?thesis unfolding calc_flag.simps [of i j] by (auto simp: mod_eq_0_iff_dvd)
  qed
qed

lemma calc_flag_prime:
  assumes "2 \<le> i"
  shows "calc_flag i 2 \<longleftrightarrow> is_prime i \<or> i = 4"
proof -
  have "i = 4" if no: "\<forall>d. 2 \<le> d \<and> d < i div 2 \<longrightarrow> \<not> d dvd i" and np: "\<not> is_prime i"
  proof -
    obtain d where d: "d dvd i" "d \<noteq> 1" "d \<noteq> i" using np assms by (auto simp: is_prime_def)
    then obtain e where e: "i = d * e" by auto
    have "2 \<le> d" using d e assms by (cases "d = 0") auto
    moreover have "2 \<le> e" using d e assms by (cases "e = 0"; cases "e = 1") auto
    ultimately have "d \<ge> i div 2" using no d(1) by (meson not_le)
    moreover have "2 * d \<le> i" using e \<open>2 \<le> e\<close> by simp
    ultimately have "d = i div 2" by simp
    then have "i < 2 * d + 2" by simp
    moreover have "d * 3 \<le> i" if "3 \<le> e" unfolding e by (rule mult_le_mono2 [OF that])
    ultimately have "\<not> 3 \<le> e" using \<open>2 \<le> d\<close> by linarith
    then have "e = 2" using \<open>2 \<le> e\<close> by linarith
    then have "2 dvd i" using e by simp
    then have "i div 2 \<le> 2" using no by (meson not_le order_refl)
    then show ?thesis using e \<open>e = 2\<close> \<open>2 \<le> d\<close> by simp
  qed
  moreover have "\<not> d dvd i" if "is_prime i" "2 \<le> d" "d < i div 2" for d using that unfolding is_prime_def by fastforce
  moreover have "d = 1 \<or> d = 2" if "d dvd 2" for d :: nat using dvd_imp_le [OF that] that by (cases "d = 0") auto
  then have "is_prime 2" by (simp add: is_prime_def)
  ultimately show ?thesis by (auto simp: calc_flag_iff)
qed


text \<open>The numbers that the test lets through, up to a bound.\<close>

definition found :: "nat \<Rightarrow> nat \<Rightarrow> nat list" where
  "found i k = filter (\<lambda>i. is_prime i \<or> i = 4) [i..<i + k]"

lemma found_Suc: "found i (Suc k) = (if is_prime i \<or> i = 4 then [i] else []) @ found (i + 1) k"
  by (simp add: found_def upt_conv_Cons del: upt_Suc)

lemma primecalc_run:
  assumes "2 \<le> i" "set koms \<inter> {4, 5} = {}" "n + length (found i (length koms)) \<le> length (niz m)"
  shows "primecalc i n koms m = Running (m\<lparr>
      niz := take n (niz m) @ map of_nat (found i (length koms)) @ drop (n + length (found i (length koms))) (niz m),
      index := if found i (length koms) = [] then index m else of_nat (n + length (found i (length koms)) - 1)\<rparr>)"
  using assms
proof (induction koms arbitrary: i n m)
  case Nil
  then show ?case by (simp add: found_def)
next
  case (Cons k koms)
  have k: "k \<noteq> 4" "k \<noteq> 5" and ks: "set koms \<inter> {4, 5} = {}" using Cons.prems(2) by auto
  show ?case
  proof (cases "is_prime i \<or> i = 4")
    case False
    then have f: "found i (length (k # koms)) = found (i + 1) (length koms)" "\<not> calc_flag i 2"
      using found_Suc [of i "length koms"] calc_flag_prime [OF Cons.prems(1)] by auto
    have "primecalc i n (k # koms) m = primecalc (i + 1) n koms m" using f(2) k by simp
    then show ?thesis using Cons.IH [of "i + 1" n m] Cons.prems ks unfolding f(1) by simp
  next
    case True
    let ?F = "found (i + 1) (length koms)"
    have f: "found i (length (k # koms)) = i # ?F" "calc_flag i 2"
      using True found_Suc [of i "length koms"] calc_flag_prime [OF Cons.prems(1)] by auto
    have n: "n < length (niz m)" using Cons.prems(3) f(1) by simp
    let ?m = "m\<lparr>niz := (niz m)[n := of_nat i], index := of_nat n\<rparr>"
    have e: "primecalc i n (k # koms) m = primecalc (i + 1) (n + 1) koms ?m" using f(2) k n by simp
    have i: "primecalc (i + 1) (n + 1) koms ?m = Running (?m\<lparr>
        niz := take (n + 1) (niz ?m) @ map of_nat ?F @ drop (n + 1 + length ?F) (niz ?m),
        index := if ?F = [] then index ?m else of_nat (n + 1 + length ?F - 1)\<rparr>)"
      by (rule Cons.IH) (use Cons.prems ks f(1) in auto)
    have "take (n + 1) ((niz m)[n := of_nat i]) = take n (niz m) @ [of_nat i]" using n by (simp add: take_Suc_conv_app_nth)
    then show ?thesis unfolding f(1) e i by simp
  qed
qed

text \<open>
  C27: primecalc fills the array with the primes, and with 4. As long as it is neither paused nor ended and the array has room,
  after \<open>k\<close> rounds the array holds in order every number from 2 on that is prime or is 4 among the first \<open>k\<close>
  candidates, the rest of the array is unchanged, and \<open>index\<close> is the position of the last one found. The test
  stops its divisors below \<open>i / 2\<close>, so it lets 4 through and no other number that is not prime.
\<close>

theorem primecalc_table:
  assumes "set koms \<inter> {4, 5} = {}" "koms \<noteq> []"
    "length (filter (\<lambda>i. is_prime i \<or> i = 4) [2..<2 + length koms]) \<le> length (niz m)"
  shows "\<exists>m'. primecalc 2 0 koms m = Running m' \<and> komanda m' = komanda m \<and>
    niz m' = map of_nat (filter (\<lambda>i. is_prime i \<or> i = 4) [2..<2 + length koms]) @
      drop (length (filter (\<lambda>i. is_prime i \<or> i = 4) [2..<2 + length koms])) (niz m) \<and>
    index m' = of_nat (length (filter (\<lambda>i. is_prime i \<or> i = 4) [2..<2 + length koms]) - 1)"
proof -
  have "found 2 (length koms) \<noteq> []" using assms(2) found_Suc [of 2 "length koms - 1"] calc_flag_prime [of 2]
    by (auto simp: calc_flag_iff)
  then show ?thesis using primecalc_run [of 2 koms 0 m] assms unfolding found_def [symmetric] by simp
qed

text \<open>Four rounds, the candidates 2 to 5.\<close>

theorem primecalc_table_witness:
  "primecalc 2 0 [0, 0, 0, 0] \<lparr>niz = replicate 6 0, index = 0, komanda = 0\<rparr> = Running \<lparr>niz = [2, 3, 4, 5, 0, 0], index = 3, komanda = 0\<rparr> \<and>
   filter (\<lambda>i. is_prime i \<or> i = 4) [2..<6] = [2, 3, 4, 5]"
proof -
  have "calc_flag 2 2" "calc_flag 3 2" "calc_flag 4 2" "calc_flag 5 2" by code_simp+
  then have f: "filter (\<lambda>i. is_prime i \<or> i = 4) [2..<2 + length [0, 0, 0, 0 :: u32]] = [2, 3, 4, 5]"
    using calc_flag_prime [of 2] calc_flag_prime [of 3] calc_flag_prime [of 4] calc_flag_prime [of 5] by (simp add: upt_rec)
  let ?m = "\<lparr>niz = replicate 6 0, index = 0, komanda = 0\<rparr>"
  have n: "map of_nat [2, 3, 4, 5] @ drop (length [2 :: nat, 3, 4, 5]) (niz ?m) = [2, 3, 4, 5, 0, 0]" by code_simp
  have "\<exists>m'. primecalc 2 0 [0, 0, 0, 0] ?m = Running m' \<and> komanda m' = komanda ?m \<and>
      niz m' = map of_nat [2, 3, 4, 5] @ drop (length [2 :: nat, 3, 4, 5]) (niz ?m) \<and> index m' = of_nat (length [2 :: nat, 3, 4, 5] - 1)"
    by (rule primecalc_table [of "[0, 0, 0, 0]" ?m, unfolded f]) simp_all
  then obtain m' where m: "primecalc 2 0 [0, 0, 0, 0] ?m = Running m'" "komanda m' = 0" "niz m' = [2, 3, 4, 5, 0, 0]" "index m' = 3"
    unfolding n by auto
  then have "m' = \<lparr>niz = [2, 3, 4, 5, 0, 0], index = 3, komanda = 0\<rparr>" by (cases m') simp
  then show ?thesis using m(1) f by simp
qed


text \<open>
  C28: primecom is one number behind primecalc. Once primecalc has found \<open>k \<ge> 2\<close> numbers, the command \<open>latest\<close> prints the
  one before the last as number \<open>k - 1\<close>, and a request for number \<open>k\<close>, which is in the array, is answered that it has not
  been calculated: \<open>index\<close> is the position of the last number, and primecom reads it as how many there are.
\<close>

theorem primecom_behind:
  fixes koms m m'
  defines "F \<equiv> filter (\<lambda>i. is_prime i \<or> i = 4) [2..<2 + length koms]"
  assumes "set koms \<inter> {4, 5} = {}" "2 \<le> length F" "length F \<le> length (niz m)" "length F < 2 ^ 31"
    "primecalc 2 0 koms m = Running m'"
  shows "primecom (bytes ''latest\<newline>'' @ replicate 13 0) n m' = map_option (\<lambda>out. (out, n, m', False))
      (vprintf ''Latest prime is no: %d value: %d\<newline>'' False [Aint (of_nat (length F - 1)), Aint (of_nat (F ! (length F - 2)))]) \<and>
    (solve buf n = (2, of_nat (length F)) \<longrightarrow> primecom buf n m' = map_option (\<lambda>out. (out, of_nat (length F), m', False))
      (vprintf (''Still haven'' @ CHR 0x27 # ''t calculated prime no. %d. We have primes up to %d\<newline>'') False
        [Aint (of_nat (length F)), Aint (of_nat (length F - 1))]))"
proof -
  have F: "F = found 2 (length koms)" by (simp add: F_def found_def)
  have m': "niz m' = map of_nat F @ drop (length F) (niz m)" "index m' = of_nat (length F - 1)"
    using primecalc_run [of 2 koms 0 m] assms(2-6) unfolding F by auto
  have l: "solve (bytes ''latest\<newline>'' @ replicate 13 0) n = (1, n)" by (simp add: solve_def numeral_eq_Suc)
  have u: "unat (of_nat (length F - 1) - 1 :: u32) = length F - 2"
  proof -
    have "of_nat (length F - 1) - 1 = (of_nat (length F - 2) :: u32)" using assms(3) by (simp add: of_nat_diff)
    then show ?thesis using assms(5) by (simp add: unat_of_nat)
  qed
  have e: "elem (niz m') (index m' - 1) = Some (of_nat (F ! (length F - 2)))"
  proof -
    have "length F - 2 < length F" using assms(3) by linarith
    then show ?thesis unfolding elem_def m' u by (simp add: nth_append)
  qed
  have g: "of_nat (length F) > (of_nat (length F - 1) :: u32)"
    using assms(3,5) unat_of_nat32 [of "length F"] unat_of_nat32 [of "length F - 1"] by (simp add: word_less_nat_alt del: of_nat_diff)
  show ?thesis unfolding primecom_def l using e g by (auto simp: m'(2))
qed

text \<open>After four rounds, with 2, 3, 4 and 5 in the array, \<open>latest\<close> prints 4 as number 3.\<close>

theorem primecom_behind_witness:
  "primecom (bytes ''latest\<newline>'' @ replicate 13 0) 0 \<lparr>niz = [2, 3, 4, 5, 0, 0], index = 3, komanda = 0\<rparr> =
   map_option (\<lambda>out. (out, 0, \<lparr>niz = [2, 3, 4, 5, 0, 0], index = 3, komanda = 0\<rparr>, False))
     (vprintf ''Latest prime is no: %d value: %d\<newline>'' False [Aint 3, Aint 4])"
proof -
  have c: "calc_flag 2 2" "calc_flag 3 2" "calc_flag 4 2" "calc_flag 5 2" by code_simp+
  then have f: "filter (\<lambda>i. is_prime i \<or> i = 4) [2..<2 + length [0, 0, 0, 0 :: u32]] = [2, 3, 4, 5]"
    using calc_flag_prime [of 2] calc_flag_prime [of 3] calc_flag_prime [of 4] calc_flag_prime [of 5] by (simp add: upt_rec)
  have r: "primecalc 2 0 [0, 0, 0, 0] \<lparr>niz = replicate 6 0, index = 0, komanda = 0\<rparr> = Running \<lparr>niz = [2, 3, 4, 5, 0, 0], index = 3, komanda = 0\<rparr>"
    by code_simp
  show ?thesis using primecom_behind [OF _ _ _ _ r, unfolded f, of 0] by simp
qed

end
