(* ===== verification/Uargs.thy ===== *)
theory Uargs
  imports Sysfile Example
begin

text \<open>
  What the functions of kernel/syscall.c that fetch the arguments of a system call let through: pointers into
  the memory of the process, and nothing beyond it.
\<close>

section \<open>Addresses below a size\<close>

definition user_size :: "'a pst_scheme \<Rightarrow> u32" where
  "user_size s = (case curproc s of None \<Rightarrow> 0 | Some p \<Rightarrow> p_sz (procs s ! p))"

text \<open>Every page below the size is there, and the size keeps user memory below the kernel.\<close>

definition user_mapped :: "'a vst_scheme \<Rightarrow> bool" where
  "user_mapped s \<longleftrightarrow> quiet s \<and> curproc s \<noteq> None \<and> user_size s \<le> 0x80000000 \<and> (\<forall>ua < user_size s. vload ua s \<noteq> None)"

lemma no_wrap:
  fixes ua lim :: u32
  assumes "ua < lim" "lim \<le> 0x80000000" "k \<le> 0x7fffffff"
  shows "unat (ua + of_nat k) = unat ua + k"
proof -
  have "unat ua < 0x80000000" using assms(1,2) by (simp add: word_less_nat_alt word_le_nat_alt)
  then show ?thesis using assms(3) by (subst unat_add_lem [THEN iffD1]) (simp_all add: unat_of_nat32)
qed

lemma within:
  fixes ua lim :: u32
  assumes "ua < lim" "lim \<le> 0x80000000" "k \<le> 0x7fffffff"
  shows "ua + of_nat k > lim \<longleftrightarrow> unat ua + k > unat lim"
  using no_wrap [OF assms] by (simp add: word_less_nat_alt)

lemma within_le:
  fixes ua lim :: u32
  shows "ua < lim \<Longrightarrow> lim \<le> 0x80000000 \<Longrightarrow> k \<le> 0x7fffffff \<Longrightarrow> ua + of_nat k \<le> lim \<Longrightarrow> unat ua + k \<le> unat lim"
  using within [of ua lim k] by (simp add: linorder_not_less [symmetric])

lemma vloads_mapped:
  assumes "\<forall>ua < lim. vload ua s \<noteq> None" "lim \<le> 0x80000000" "unat ua + n \<le> unat lim"
  shows "\<exists>bs. vloads ua n s = Some bs \<and> length bs = n"
  using assms(3)
proof (induction n arbitrary: ua)
  case (Suc n)
  have ua: "ua < lim" using Suc.prems by (simp add: word_less_nat_alt)
  have u: "unat (ua + 1) = unat ua + 1" using no_wrap [OF ua assms(2), of 1] by simp
  obtain b where "vload ua s = Some b" using assms(1) ua by auto
  moreover obtain bs where "vloads (ua + 1) n s = Some bs" "length bs = n" using Suc.IH [of "ua + 1"] Suc.prems u by auto
  ultimately show ?case by simp
qed simp

section \<open>The arguments\<close>

lemma argint_eq:
  assumes "user_mapped s"
  shows "\<exists>r. argint n s = Ok r s"
proof -
  obtain p where p: "curproc s = Some p" "user_size s = p_sz (procs s ! p)" "quiet s" using assms by (auto simp: user_mapped_def user_size_def)
  let ?ua = "tf_esp (p_tf (procs s ! p)) + 4 + 4 * of_nat n" and ?lim = "p_sz (procs s ! p)"
  have e: "argint n s = (if ?ua \<ge> ?lim \<or> ?ua + 4 > ?lim then Ok None s else case vload32 ?ua s of None \<Rightarrow> Fault | Some w \<Rightarrow> Ok (Some w) s)"
    using p by (simp add: argint_def fetchint_def myproc_eq)
  have "\<exists>w. vload32 ?ua s = Some w" if "?ua < ?lim" "?ua + 4 \<le> ?lim"
  proof -
    have "?ua + of_nat 4 \<le> ?lim" using that(2) by simp
    then have "unat ?ua + 4 \<le> unat ?lim" using assms p(2) by (intro within_le [OF that(1)]) (simp_all add: user_mapped_def)
    then obtain bs where "vloads ?ua 4 s = Some bs" using vloads_mapped [of ?lim s ?ua 4] assms p(2) by (auto simp: user_mapped_def)
    then show ?thesis by (simp add: vload32_def)
  qed
  then show ?thesis unfolding e by (auto simp: not_le not_less)
qed

lemma argptr_inside:
  assumes "user_mapped s" "nbytes < 0x80000000"
  shows "\<exists>r. argptr n nbytes s = Ok r s \<and> (\<forall>i. r = Some i \<longrightarrow> 0 \<le> nbytes \<and> unat i + nat nbytes \<le> unat (user_size s))"
proof -
  obtain p where p: "curproc s = Some p" "user_size s = p_sz (procs s ! p)" "quiet s" using assms(1) by (auto simp: user_mapped_def user_size_def)
  obtain r where r: "argint n s = Ok r s" using argint_eq [OF assms(1)] by blast
  have "\<not> i + of_int nbytes > user_size s \<longleftrightarrow> unat i + nat nbytes \<le> unat (user_size s)" if "0 \<le> nbytes" "i < user_size s" for i
    using within [of i "user_size s" "nat nbytes"] that assms by (auto simp: user_mapped_def not_less)
  then show ?thesis using p r by (cases r) (auto simp: argptr_def myproc_eq Let_def not_le not_less)
qed

lemma fetchstr_inside:
  assumes "\<forall>ua < lim. vload ua s \<noteq> None" "lim \<le> 0x80000000" "unat ua + n \<le> unat lim"
  shows "\<exists>r. fetchstr_loop n ua acc s = Ok r s \<and>
    (\<forall>str. r = Some str \<longrightarrow> (\<exists>t. str = acc @ t @ [0] \<and> 0 \<notin> set t \<and> length t < n \<and> vloads ua (length t + 1) s = Some (t @ [0])))"
  using assms(3)
proof (induction n arbitrary: ua acc)
  case (Suc n)
  have ua: "ua < lim" using Suc.prems by (simp add: word_less_nat_alt)
  have u: "unat (ua + 1) = unat ua + 1" using no_wrap [OF ua assms(2), of 1] by simp
  obtain b where b: "vload ua s = Some b" using assms(1) ua by auto
  show ?case
  proof (cases "b = 0")
    case True
    then show ?thesis using b by (intro exI [of _ "Some (acc @ [0])"]) simp
  next
    case False
    obtain r where r: "fetchstr_loop n (ua + 1) (acc @ [b]) s = Ok r s"
      "\<forall>str. r = Some str \<longrightarrow> (\<exists>t. str = (acc @ [b]) @ t @ [0] \<and> 0 \<notin> set t \<and> length t < n \<and> vloads (ua + 1) (length t + 1) s = Some (t @ [0]))"
      using Suc.IH [of "ua + 1" "acc @ [b]"] Suc.prems u by auto
    show ?thesis
    proof (intro exI [of _ r] conjI allI impI)
      show "fetchstr_loop (Suc n) ua acc s = Ok r s" using b False r(1) by simp
      fix str assume "r = Some str"
      then obtain t where t: "str = (acc @ [b]) @ t @ [0]" "0 \<notin> set t" "length t < n" "vloads (ua + 1) (length t + 1) s = Some (t @ [0])"
        using r(2) by blast
      then show "\<exists>t. str = acc @ t @ [0] \<and> 0 \<notin> set t \<and> length t < Suc n \<and> vloads ua (length t + 1) s = Some (t @ [0])"
        using b False by (intro exI [of _ "b # t"]) simp
    qed
  qed
qed simp

lemma argstr_inside:
  assumes "user_mapped s"
  shows "\<exists>r. argstr n s = Ok r s \<and> (\<forall>ua str. r = Some (ua, str) \<longrightarrow>
    unat ua + length str \<le> unat (user_size s) \<and> vloads ua (length str) s = Some str \<and> (\<exists>t. str = t @ [0] \<and> 0 \<notin> set t))"
proof -
  obtain p where p: "curproc s = Some p" "user_size s = p_sz (procs s ! p)" "quiet s" using assms by (auto simp: user_mapped_def user_size_def)
  let ?lim = "p_sz (procs s ! p)"
  obtain r where r: "argint n s = Ok r s" using argint_eq [OF assms] by blast
  show ?thesis
  proof (cases "\<exists>ua. r = Some ua \<and> ua < ?lim")
    case False
    then show ?thesis using r p by (cases r) (auto simp: argstr_def fetchstr_def myproc_eq Let_def not_le)
  next
    case True
    then obtain ua where ua: "r = Some ua" "ua < ?lim" by blast
    have l: "unat ua + (unat ?lim - unat ua) \<le> unat ?lim" using ua(2) by (simp add: word_less_nat_alt)
    obtain q where q: "fetchstr_loop (unat ?lim - unat ua) ua [] s = Ok q s"
      "\<forall>str. q = Some str \<longrightarrow> (\<exists>t. str = [] @ t @ [0] \<and> 0 \<notin> set t \<and> length t < unat ?lim - unat ua \<and> vloads ua (length t + 1) s = Some (t @ [0]))"
      using fetchstr_inside [OF _ _ l, of s "[]"] assms p(2) unfolding user_mapped_def by auto
    have e: "argstr n s = Ok (map_option (Pair ua) q) s" using r ua p q(1) by (auto simp: argstr_def fetchstr_def myproc_eq Let_def dest: leD)
    show ?thesis
    proof (intro exI [of _ "map_option (Pair ua) q"] conjI allI impI e)
      fix a' str assume "map_option (Pair ua) q = Some (a', str)"
      then have x: "q = Some str" "a' = ua" by auto
      obtain t where t: "str = t @ [0]" "0 \<notin> set t" "length t < unat ?lim - unat ua" "vloads ua (length t + 1) s = Some (t @ [0])"
        using q(2) x(1) by auto
      then show "unat a' + length str \<le> unat (user_size s)" "vloads a' (length str) s = Some str" "\<exists>t. str = t @ [0] \<and> 0 \<notin> set t"
        by (auto simp: x(2) p(2))
    qed
  qed
qed

text \<open>
  C6: a system call gets only pointers into the memory of its process. For a process whose pages up to its size are mapped, below
  the kernel, \<open>argptr\<close> and \<open>argstr\<close> return without a fault and leave the state alone. A buffer of \<open>nbytes\<close> that \<open>argptr\<close>
  lets through lies wholly below the size of the process, whatever the addition of pointer and length does
  in 32 bits; ua string that \<open>argstr\<close> lets through does too, with its final zero, and is what the process has there. So no
  system call reads or writes kernel memory, or memory shared above the size, through such ua pointer.
\<close>

theorem user_pointers_inside:
  assumes "quiet s" "curproc s = Some p" "p_sz (procs s ! p) \<le> 0x80000000" "\<forall>ua < p_sz (procs s ! p). vload ua s \<noteq> None"
    "nbytes < 0x80000000"
  shows "(\<exists>r. argptr n nbytes s = Ok r s \<and> (\<forall>i. r = Some i \<longrightarrow> 0 \<le> nbytes \<and> unat i + nat nbytes \<le> unat (p_sz (procs s ! p)))) \<and>
    (\<exists>r. argstr n s = Ok r s \<and> (\<forall>ua str. r = Some (ua, str) \<longrightarrow>
      unat ua + length str \<le> unat (p_sz (procs s ! p)) \<and> vloads ua (length str) s = Some str \<and> (\<exists>t. str = t @ [0] \<and> 0 \<notin> set t)))"
proof
  have m: "user_mapped s" and lim: "user_size s = p_sz (procs s ! p)" using assms by (simp_all add: user_mapped_def user_size_def)
  show "\<exists>r. argptr n nbytes s = Ok r s \<and> (\<forall>i. r = Some i \<longrightarrow> 0 \<le> nbytes \<and> unat i + nat nbytes \<le> unat (p_sz (procs s ! p)))"
    using argptr_inside [OF m assms(5)] unfolding lim .
  show "\<exists>r. argstr n s = Ok r s \<and> (\<forall>ua str. r = Some (ua, str) \<longrightarrow>
      unat ua + length str \<le> unat (p_sz (procs s ! p)) \<and> vloads ua (length str) s = Some str \<and> (\<exists>t. str = t @ [0] \<and> 0 \<notin> set t))"
    using argstr_inside [OF m] unfolding lim .
qed

section \<open>A process to evaluate on\<close>

text \<open>
  One page at address 0, of which 40 bytes belong to the process: the string \<open>ab\<close> at 8, and a stack pointer at
  16 with the arguments 8, 0 and 4 above it.
\<close>

definition ex_bytes :: "(u32 \<times> u8) list" where
  "ex_bytes = [(0x80600000, 7), (0x80600001, 0x10), (0x80600002, 0x60), (0x80601000, 7), (0x80601001, 0x20), (0x80601002, 0x60),
     (0x80602008, 97), (0x80602009, 98), (0x80602014, 8), (0x8060201c, 4)]"

definition ex_umem :: mem where
  "ex_umem ua = (case map_of ex_bytes ua of None \<Rightarrow> 0 | Some b \<Rightarrow> b)"

definition ex_user_with :: "shared list \<Rightarrow> kst" where
  "ex_user_with tab = ex_kst\<lparr>mem := ex_umem, cr3 := 0x600000,
     procs := [zero_proc\<lparr>p_state := RUNNING, p_sz := 40, p_tf := (p_tf zero_proc)\<lparr>tf_esp := 16\<rparr>, p_shared := tab\<rparr>]\<rparr>"

abbreviation ex_user :: kst where "ex_user \<equiv> ex_user_with (replicate MAXSHARED zero_shared)"

lemma ex_user_ready: "quiet (ex_user_with tab)" "curproc (ex_user_with tab) = Some 0" "lk_free l (ex_user_with tab)"
  using ex_kst_ready by (simp_all add: ex_user_with_def)

lemma ex_user_fields: "mem (ex_user_with tab) = ex_umem" "cr3 (ex_user_with tab) = 0x600000"
  "procs (ex_user_with tab) = [zero_proc\<lparr>p_state := RUNNING, p_sz := 40, p_tf := (p_tf zero_proc)\<lparr>tf_esp := 16\<rparr>, p_shared := tab\<rparr>]"
  by (simp_all add: ex_user_with_def)

lemma ex_pte: "pte_at ex_umem 0x80600000 0 = 0x602007"
proof -
  have "pde_at ex_umem 0x80600000 (PDX 0) = 0x601007"
    by (simp add: pde_at_def PDX_def load32_def ex_umem_def ex_bytes_def)
  then show ?thesis by (simp add: pte_at_def pte_addr_def present_def frame_of_def P2V_def PTE_ADDR_def PTX_def load32_def ex_umem_def ex_bytes_def)
qed

lemma ex_user_byte:
  assumes "mem s = m" "cr3 s = 0x600000" "pte_at m 0x80600000 0 = 0x602007" "ua < 4096"
  shows "vload ua s = Some (m (0x80602000 + ua))" "pte_at m 0x80600000 ua = 0x602007" "uaddr m 0x80600000 ua = 0x80602000 + ua"
proof -
  have d: "PGROUNDDOWN ua = 0" using PGROUNDDOWN_add [of 0 ua] assms(4) by (simp add: aligned_def)
  have "pte_at m 0x80600000 ua = pte_at m 0x80600000 0" by (rule pte_at_page) (simp add: d, simp add: PGROUNDDOWN_def)
  then show p: "pte_at m 0x80600000 ua = 0x602007" using assms(3) by simp
  show u: "uaddr m 0x80600000 ua = 0x80602000 + ua" by (simp add: uaddr_def p d frame_of_def P2V_def PTE_ADDR_def)
  show "vload ua s = Some (m (0x80602000 + ua))" by (simp add: vload_def ubyte_def assms(1,2) P2V_def p u present_def)
qed

lemma four: "(4 :: nat) = Suc (Suc (Suc (Suc 0)))"
  by simp

lemma ex_user_mapped: "user_mapped (ex_user_with tab)"
proof -
  have "vload ua (ex_user_with tab) \<noteq> None" if "ua < 40" for ua
    using ex_user_byte(1) [OF ex_user_fields(1,2) ex_pte, of ua] that by (simp add: order.strict_trans)
  moreover have "user_size (ex_user_with tab) = 40" using ex_user_ready(2) by (simp add: user_size_def ex_user_fields)
  ultimately show ?thesis using ex_user_ready by (simp add: user_mapped_def)
qed

lemma ex_user_args:
  "argstr 0 (ex_user_with tab) = Ok (Some (8, [97, 98, 0])) (ex_user_with tab)"
  "argptr 1 4 (ex_user_with tab) = Ok (Some 0) (ex_user_with tab)" "argint 2 (ex_user_with tab) = Ok (Some 4) (ex_user_with tab)"
proof -
  let ?s = "ex_user_with tab"
  note b = ex_user_byte(1) [OF ex_user_fields(1,2) ex_pte]
  have w: "vloads 20 4 ?s = Some [8, 0, 0, 0]" "vloads 24 4 ?s = Some [0, 0, 0, 0]" "vloads 28 4 ?s = Some [4, 0, 0, 0]"
    unfolding four by (simp_all add: b ex_umem_def ex_bytes_def)
  have a0: "argint 0 ?s = Ok (Some 8) ?s" and a1: "argint 1 ?s = Ok (Some 0) ?s"
    by (simp_all add: argint_def fetchint_def myproc_eq ex_user_ready ex_user_fields vload32_def w)
  show "argint 2 ?s = Ok (Some 4) ?s"
    by (simp add: argint_def fetchint_def myproc_eq ex_user_ready ex_user_fields vload32_def w)
  have n: "(32 :: nat) = Suc (Suc (Suc 29))" by simp
  have f: "fetchstr_loop 32 8 [] ?s = Ok (Some [97, 98, 0]) ?s" unfolding n by (simp add: b ex_umem_def ex_bytes_def del: Suc_numeral)
  show "argstr 0 ?s = Ok (Some (8, [97, 98, 0])) ?s"
    unfolding argstr_def a0 by (simp add: fetchstr_def myproc_eq ex_user_ready ex_user_fields f)
  show "argptr 1 4 ?s = Ok (Some 0) ?s"
    unfolding argptr_def a1 by (simp add: myproc_eq ex_user_ready a1 [unfolded One_nat_def] ex_user_fields)
qed

text \<open>Its first argument is the string \<open>ab\<close> at 8.\<close>

theorem user_pointers_inside_witness:
  "argstr 0 ex_user = Ok (Some (8, [97, 98, 0])) ex_user \<and> unat (8 :: u32) + length [97, 98, 0 :: u8] \<le> 40 \<and>
   (\<exists>r. argptr 0 4 ex_user = Ok r ex_user \<and> (\<forall>i. r = Some i \<longrightarrow> unat i + 4 \<le> 40))"
proof -
  have m: "\<forall>ua < p_sz (procs ex_user ! 0). vload ua ex_user \<noteq> None" "p_sz (procs ex_user ! 0) \<le> 0x80000000"
    using ex_user_mapped ex_user_ready(2) unfolding user_mapped_def user_size_def by simp_all
  show ?thesis
    using user_pointers_inside [OF ex_user_ready(1,2) m(2,1), where nbytes = 4 and n = 0] ex_user_args(1) by (simp add: ex_user_fields)
qed

end
