(* ===== verification/Ipc.thy ===== *)
theory Ipc
  imports Uargs
begin

text \<open>
  The two system calls of kernel/sysfile.c by which a process registers a region of its memory under a name and
  its children find it.
\<close>

section \<open>The table of regions\<close>

text \<open>The entries in use come first; names are compared up to their zero or their 20 bytes.\<close>

definition used :: "shared list \<Rightarrow> shared list" where
  "used tab = takeWhile (\<lambda>e. sh_sz e \<noteq> 0) tab"

abbreviation key :: "u8 list \<Rightarrow> u8 list" where "key \<equiv> KString.cstr SHAREDNAME"

definition tab_ok :: "shared list \<Rightarrow> bool" where
  "tab_ok tab \<longleftrightarrow> length tab = MAXSHARED \<and> (\<forall>e\<in>set tab. length (sh_name e) = SHAREDNAME)"

lemma strncmp_key:
  assumes "readable_str SHAREDNAME name" "length (sh_name e) = SHAREDNAME"
  shows "\<exists>c. strncmp name (sh_name e) SHAREDNAME = Some c \<and> (c = 0 \<longleftrightarrow> key name = key (sh_name e))"
  by (rule strncmp_readable [OF assms(1)]) (simp add: readable_str_def assms(2))

lemma share_slot_from:
  assumes "readable_str SHAREDNAME name" "\<forall>e\<in>set tab. length (sh_name e) = SHAREDNAME" "i + n = length tab"
  shows "share_slot n i name tab = Some
    (if \<exists>e\<in>set (used (drop i tab)). key (sh_name e) = key name then Inl (- 2)
     else if length (used (drop i tab)) = n then Inl (- 3) else Inr (i + length (used (drop i tab))))"
  using assms(3)
proof (induction n arbitrary: i)
  case 0
  then show ?case by (simp add: used_def)
next
  case (Suc n)
  then have i: "i < length tab" by simp
  then have d: "drop i tab = tab ! i # drop (Suc i) tab" by (simp add: Cons_nth_drop_Suc)
  show ?case
  proof (cases "sh_sz (tab ! i) = 0")
    case True
    then show ?thesis by (simp add: d used_def)
  next
    case False
    obtain c where c: "strncmp name (sh_name (tab ! i)) SHAREDNAME = Some c" "c = 0 \<longleftrightarrow> key name = key (sh_name (tab ! i))"
      using strncmp_key [OF assms(1)] assms(2) i by (meson nth_mem)
    have u: "used (drop i tab) = tab ! i # used (drop (i + 1) tab)" using False by (simp add: d used_def)
    show ?thesis
    proof (cases "c = 0")
      case True
      then show ?thesis using False c by (auto simp: u)
    next
      case nz: False
      then have "share_slot (Suc n) i name tab = share_slot n (i + 1) name tab" using False c(1) by simp
      also have "\<dots> = Some
        (if \<exists>e\<in>set (used (drop (i + 1) tab)). key (sh_name e) = key name then Inl (- 2)
         else if length (used (drop (i + 1) tab)) = n then Inl (- 3) else Inr (i + 1 + length (used (drop (i + 1) tab))))"
        by (rule Suc.IH) (use Suc.prems in simp)
      finally show ?thesis unfolding u using c(2) nz by auto
    qed
  qed
qed

lemma share_slot_eq:
  assumes "tab_ok tab" "readable_str SHAREDNAME name"
  shows "share_slot MAXSHARED 0 name tab = Some
    (if \<exists>e\<in>set (used tab). key (sh_name e) = key name then Inl (- 2)
     else if length (used tab) = MAXSHARED then Inl (- 3) else Inr (length (used tab)))"
  using share_slot_from [OF assms(2), of tab 0 MAXSHARED] assms(1) by (simp add: tab_ok_def)

lemma shared_entry_from:
  assumes "readable_str SHAREDNAME name" "\<forall>e\<in>set tab. length (sh_name e) = SHAREDNAME" "i + n = length tab"
  shows "shared_entry n i name tab = Some (map_option ((+) i) (find_idx (\<lambda>e. key name = key (sh_name e)) (drop i tab)))"
  using assms(3)
proof (induction n arbitrary: i)
  case (Suc n)
  then have i: "i < length tab" by simp
  then have d: "drop i tab = tab ! i # drop (Suc i) tab" by (simp add: Cons_nth_drop_Suc)
  obtain c where c: "strncmp name (sh_name (tab ! i)) SHAREDNAME = Some c" "c = 0 \<longleftrightarrow> key name = key (sh_name (tab ! i))"
    using strncmp_key [OF assms(1)] assms(2) i by (meson nth_mem)
  then show ?case using Suc.IH [of "i + 1"] Suc.prems
    by (cases "c = 0") (simp_all add: d option.map_comp comp_def)
qed simp

lemma shared_entry_eq:
  assumes "tab_ok tab" "readable_str SHAREDNAME name"
  shows "shared_entry MAXSHARED 0 name tab = Some (find_idx (\<lambda>e. key name = key (sh_name e)) tab)"
proof -
  have "map_option ((+) 0) x = x" for x :: "nat option" by (cases x) auto
  then show ?thesis using shared_entry_from [OF assms(2), of tab 0 MAXSHARED] assms(1) by (simp add: tab_ok_def)
qed


section \<open>Registering\<close>

lemma copied_name:
  assumes "readable_str SHAREDNAME name"
  shows "\<exists>nm. strncpy (replicate SHAREDNAME 0) name SHAREDNAME = Some nm \<and> key nm = key name \<and> length nm = SHAREDNAME"
proof -
  have l: "SHAREDNAME \<le> length (replicate SHAREDNAME (0 :: u8))" by (simp only: length_replicate order_refl)
  obtain nm where n: "strncpy (replicate SHAREDNAME 0) name SHAREDNAME = Some nm" using strncpy_eq [OF l assms] by blast
  show ?thesis using cstr_strncpy [OF l assms n] n by (intro exI [of _ nm] conjI) (simp_all only: length_replicate)
qed

lemma share_mem_eq:
  assumes "quiet s" "curproc s = Some p" "tab_ok (p_shared (procs s ! p))"
    "argstr 0 s = Ok (Some (ua, name)) s" "0 \<in> set name" "argptr 1 4 s = Ok (Some vamem) s" "argint 2 s = Ok (Some lim) s"
  shows "if \<exists>e\<in>set (used (p_shared (procs s ! p))). key (sh_name e) = key name
    then sys_share_mem s = bind (cprintf (''fratelo obrisi strukture kada zavrsis sa programom (share_mem)'' @ [CHR 0x0A]) [] s) (\<lambda>_ s. Ok (- 2) s)
    else if length (used (p_shared (procs s ! p))) = MAXSHARED then sys_share_mem s = Ok (- 3) s
    else \<exists>nm. key nm = key name \<and> length nm = SHAREDNAME \<and>
      sys_share_mem s = Ok (int (length (used (p_shared (procs s ! p)))))
        (upd_proc p (\<lambda>q. q\<lparr>p_shared := (p_shared q)[length (used (p_shared (procs s ! p))) := \<lparr>sh_name = nm, sh_memstart = vamem, sh_sz = lim\<rparr>]\<rparr>) s)"
proof -
  have rd: "readable_str SHAREDNAME name" using assms(5) by (simp add: readable_str_def)
  obtain nm where nm: "strncpy (replicate SHAREDNAME 0) name SHAREDNAME = Some nm" "key nm = key name" "length nm = SHAREDNAME"
    using copied_name [OF rd] by blast
  note sl = share_slot_eq [OF assms(3) rd]
  show ?thesis
    unfolding sys_share_mem_def myproc_eq [OF assms(1)] assms(2,4,6,7) bind_simps option.case prod.case sl
    using nm by (simp add: assms(6,7) del: One_nat_def) blast
qed



section \<open>Finding\<close>

lemma vstores_only_mem: "vstores ua bs s = Some t \<Longrightarrow> t = s\<lparr>mem := mem t\<rparr>"
proof (induction bs arbitrary: ua s)
  case (Cons b bs)
  then obtain s1 where s1: "vstore ua b s = Some s1" "vstores (ua + 1) bs s1 = Some t" by (auto split: option.splits)
  have "s1 = s\<lparr>mem := mem s1\<rparr>" using s1(1) by (auto simp: vstore_def Let_def split: if_splits)
  moreover have "t = s1\<lparr>mem := mem t\<rparr>" using Cons.IH [OF s1(2)] .
  ultimately have "t = (s\<lparr>mem := mem s1\<rparr>)\<lparr>mem := mem t\<rparr>" by metis
  then show ?case by simp
qed simp

lemma glob_frame [simp]:
  "quiet (upd_glob f s) = quiet s" "lk_free l (upd_glob f s) = lk_free l s" "curproc (upd_glob f s) = curproc s"
  "procs (upd_glob f s) = procs s" "glob (upd_glob f s) = f (glob s)" "mem (upd_glob f s) = mem s" "cr3 (upd_glob f s) = cr3 s"
  by (simp_all add: upd_glob_def)

lemma mem_frame [simp]:
  "quiet (s\<lparr>mem := m\<rparr>) = quiet s" "lk_free l (s\<lparr>mem := m\<rparr>) = lk_free l s" "curproc (s\<lparr>mem := m\<rparr>) = curproc s"
  by simp_all

lemma vstores_glob: "vstores ua bs (upd_glob f s) = map_option (upd_glob f) (vstores ua bs s)"
proof (induction bs arbitrary: ua s)
  case (Cons b bs)
  have "vstore ua b (upd_glob f s) = map_option (upd_glob f) (vstore ua b s)" by (simp add: vstore_def Let_def upd_glob_def)
  then show ?case using Cons.IH by (simp split: option.split)
qed simp

lemma key_cstring: "key (cstring ''primecom'') \<noteq> key (cstring ''primecalc'')" "readable_str SHAREDNAME (cstring cs)"
  by (code_simp, simp add: readable_str_def cstring_def)

lemma get_shared_eq:
  assumes "quiet t" "lk_free Lptable t" "curproc t = Some q" "tab_ok (p_shared (procs t ! q))" "0 \<in> set (p_name (procs t ! q))"
    "\<not> g_primecom (glob t)" "argstr 0 t = Ok (Some (ua, name)) t" "0 \<in> set name" "argptr 1 4 t = Ok (Some addr) t"
    "find_idx (\<lambda>e. key name = key (sh_name e)) (p_shared (procs t ! q)) = Some i"
    "vstores addr (bytes32 (sh_memstart (p_shared (procs t ! q) ! i))) t = Some t1"
  shows "\<exists>u. sys_get_shared t = Ok 0 u \<and> mem u = mem t1"
proof -
  let ?n = "p_name (procs t ! q)"
  have rd: "readable_str SHAREDNAME name" "readable_str SHAREDNAME ?n" using assms(5,8) by (simp_all add: readable_str_def)
  obtain com where com: "strncmp (cstring ''primecom'') ?n SHAREDNAME = Some com" "com = 0 \<longleftrightarrow> key (cstring ''primecom'') = key ?n"
    using strncmp_readable [OF key_cstring(2) rd(2)] by blast
  obtain calc where calc: "strncmp (cstring ''primecalc'') ?n SHAREDNAME = Some calc" "calc = 0 \<longleftrightarrow> key (cstring ''primecalc'') = key ?n"
    using strncmp_readable [OF key_cstring(2) rd(2)] by blast
  have nb: "\<not> (com = 0 \<and> calc = 0)" using com(2) calc(2) key_cstring(1) by auto
  note se = shared_entry_eq [OF assms(4) rd(1), unfolded assms(10)]
  have t1: "t1 = t\<lparr>mem := mem t1\<rparr>" by (rule vstores_only_mem [OF assms(11)])
  have q1: "quiet t1" "lk_free Lptable t1" "procs t1 = procs t" "glob t1 = glob t"
    using assms(1,2) by (subst t1, simp)+
  have w: "\<exists>v. (if b then wakeup (Cparent q) (upd_glob f t1) else Ok () (upd_glob f t1)) = Ok () v \<and> mem v = mem t1" for b f
    using q1 by (simp add: wakeup_eq)
  define f :: "globals \<Rightarrow> globals" where "f = (\<lambda>g. if com = 0 then g\<lparr>g_primecom := True\<rparr> else g)"
  have s1: "(if com = 0 then upd_glob (\<lambda>g. g\<lparr>g_primecom := True\<rparr>) t else t) = upd_glob f t" by (simp add: f_def upd_glob_def)
  have nc: "\<not> (calc = 0 \<and> g_primecom (glob (upd_glob f t)))" using nb assms(6) by (auto simp: f_def)
  have d: "dest_put (Daddr addr) (bytes32 (sh_memstart (p_shared (procs (upd_glob f t) ! q) ! i))) (upd_glob f t) = Ok () (upd_glob f t1)"
    using assms(11) by (simp add: vstores_glob)
  have "sys_get_shared t =
    bind (if strncmp (cstring ''primecom'') ?n (if g_primecom (glob (upd_glob f t1)) then 1 else 0) = Some 0
          then wakeup (Cparent q) (upd_glob f t1) else Ok () (upd_glob f t1)) (\<lambda>_ s. Ok 0 (upd_glob (\<lambda>g. g\<lparr>g_primecom := False\<rparr>) s))"
    unfolding sys_get_shared_def myproc_eq [OF assms(1)] assms(3,7,9) bind_simps option.case prod.case Let_def com(1) calc(1) s1
    using nc se d by (simp add: assms(9) del: One_nat_def dest_put.simps) blast
  then show ?thesis using w [of "strncmp (cstring ''primecom'') ?n (if g_primecom (glob (upd_glob f t1)) then 1 else 0) = Some 0" f] by auto
qed


lemma registered_found:
  assumes "\<forall>e\<in>set (used tab). key (sh_name e) \<noteq> key name" "length (used tab) < length tab" "key nm = key name"
  shows "find_idx (\<lambda>x. key name = key x) (map sh_name (tab[length (used tab) := \<lparr>sh_name = nm, sh_memstart = m, sh_sz = z\<rparr>])) = Some (length (used tab))"
proof -
  have "key (sh_name (tab ! j)) \<noteq> key name" if "j < length (used tab)" for j
  proof -
    have "used tab ! j = tab ! j" using that by (simp add: used_def takeWhile_nth)
    then show ?thesis using assms(1) nth_mem [OF that] by auto
  qed
  then show ?thesis using assms(2,3) unfolding find_idx_Some by (auto simp: nth_list_update) (metis less_trans)
qed

lemma find_idx_map: "find_idx P (map f xs) = find_idx (\<lambda>x. P (f x)) xs"
  by (induction xs) auto

text \<open>
  C3: what \<open>share_mem\<close> registers, \<open>get_shared\<close> finds. A process \<open>p\<close> registers a region under a name that none of its
  regions has. Later a process \<open>q\<close> whose table has the same names in the same order, a child of \<open>p\<close>, asks
  for that name, up to 20 characters, while no call of primecom is under way: the result is 0, and the address that is
  stored where the caller wants it is the address in \<open>q\<close>'s table for exactly that region.
\<close>

theorem get_shared_finds:
  assumes "quiet s" "curproc s = Some p" "p < length (procs s)" "length (p_shared (procs s ! p)) = MAXSHARED"
    "\<forall>e\<in>set (p_shared (procs s ! p)). length (sh_name e) = SHAREDNAME"
    "argstr 0 s = Ok (Some (ua, name)) s" "0 \<in> set name" "argptr 1 4 s = Ok (Some vamem) s" "argint 2 s = Ok (Some lim) s"
    "\<forall>e\<in>set (used (p_shared (procs s ! p))). key (sh_name e) \<noteq> key name" "sys_share_mem s = Ok r s'" "0 \<le> r"
    "quiet t" "lk_free Lptable t" "curproc t = Some q" "0 \<in> set (p_name (procs t ! q))" "\<not> g_primecom (glob t)"
    "map sh_name (p_shared (procs t ! q)) = map sh_name (p_shared (procs s' ! p))"
    "argstr 0 t = Ok (Some (ub, name')) t" "0 \<in> set name'" "key name' = key name" "argptr 1 4 t = Ok (Some addr) t"
    "vstores addr (bytes32 (sh_memstart (p_shared (procs t ! q) ! nat r))) t = Some t1"
  shows "\<exists>u. sys_get_shared t = Ok 0 u \<and> mem u = mem t1"
proof -
  let ?tab = "p_shared (procs s ! p)" and ?i = "length (used (p_shared (procs s ! p)))"
  have ok: "tab_ok ?tab" by (simp add: tab_ok_def assms(4,5))
  note e = share_mem_eq [OF assms(1,2) ok assms(6-9)]
  have i: "?i < MAXSHARED"
  proof (rule ccontr)
    assume "\<not> ?thesis"
    then have "?i = MAXSHARED" using length_takeWhile_le [of _ ?tab] assms(4) unfolding used_def by (metis le_neq_implies_less)
    then have "sys_share_mem s = Ok (- 3) s" using e assms(10) by (auto split: if_split_asm)
    then show False using assms(11,12) by simp
  qed
  then obtain nm where nm: "key nm = key name" "length nm = SHAREDNAME" "r = int ?i"
    and s': "s' = upd_proc p (\<lambda>q. q\<lparr>p_shared := (p_shared q)[?i := \<lparr>sh_name = nm, sh_memstart = vamem, sh_sz = lim\<rparr>]\<rparr>) s"
    using e assms(10,11) by (auto split: if_split_asm)
  have tab': "p_shared (procs s' ! p) = ?tab[?i := \<lparr>sh_name = nm, sh_memstart = vamem, sh_sz = lim\<rparr>]"
    using assms(3) by (simp add: s' upd_proc_def)
  have names: "map sh_name (p_shared (procs t ! q)) = map sh_name (?tab[?i := \<lparr>sh_name = nm, sh_memstart = vamem, sh_sz = lim\<rparr>])"
    using assms(18) by (simp add: tab')
  have "length (p_shared (procs t ! q)) = MAXSHARED" using arg_cong [OF names, of length] assms(4) by simp
  moreover have "set (map sh_name (p_shared (procs t ! q))) \<subseteq> insert nm (sh_name ` set ?tab)"
    unfolding names by (auto dest!: set_update_subset_insert [THEN subsetD])
  then have "\<forall>x\<in>set (p_shared (procs t ! q)). length (sh_name x) = SHAREDNAME" using nm(2) assms(5) by fastforce
  ultimately have okt: "tab_ok (p_shared (procs t ! q))" by (simp add: tab_ok_def)
  have "find_idx (\<lambda>x. key name = key x) (map sh_name (p_shared (procs t ! q))) = Some ?i"
    unfolding names by (rule registered_found [OF assms(10) _ nm(1)]) (use i assms(4) in simp)
  then have f: "find_idx (\<lambda>x. key name' = key (sh_name x)) (p_shared (procs t ! q)) = Some ?i"
    by (simp add: find_idx_map assms(21))
  show ?thesis
    by (rule get_shared_eq [OF assms(13,14,15) okt assms(16,17,19,20,22) f]) (use assms(23) nm(3) in simp)
qed

text \<open>
  primecalc calls \<open>get_shared\<close> while a call of primecom is under way: the kernel stops, because what is passed to \<open>sleep\<close>
  is not a lock.
\<close>

lemma get_shared_panics:
  assumes "quiet t" "lk_free Lptable t" "curproc t = Some q" "0 \<in> set (p_name (procs t ! q))" "key (p_name (procs t ! q)) = key (cstring ''primecalc'')"
    "g_primecom (glob t)" "argstr 0 t = Ok (Some (ua, name)) t" "argptr 1 4 t = Ok (Some addr) t"
  shows "sys_get_shared t = Panic ''release''"
proof -
  let ?n = "p_name (procs t ! q)"
  have rd: "readable_str SHAREDNAME ?n" using assms(4) by (simp add: readable_str_def)
  obtain com where com: "strncmp (cstring ''primecom'') ?n SHAREDNAME = Some com" "com = 0 \<longleftrightarrow> key (cstring ''primecom'') = key ?n"
    using strncmp_readable [OF key_cstring(2) rd] by blast
  have calc: "strncmp (cstring ''primecalc'') ?n SHAREDNAME = Some 0" using strncmp_readable [OF key_cstring(2) rd, of "''primecalc''"] assms(5) by auto
  have nz: "com \<noteq> 0" using com(2) key_cstring(1) assms(5) by simp
  show ?thesis
    unfolding sys_get_shared_def myproc_eq [OF assms(1)] assms(3,7,8) bind_simps option.case prod.case Let_def com(1) calc
    using nz assms(1,2,6) by (simp add: assms(8) sleep_on_parent_def lock_eqs del: One_nat_def)
qed

section \<open>Witnesses\<close>

lemma ex_table: "length (replicate MAXSHARED zero_shared) = MAXSHARED" "\<forall>e\<in>set (replicate MAXSHARED zero_shared). length (sh_name e) = SHAREDNAME"
  "used (replicate MAXSHARED zero_shared) = []"
  by (simp_all add: zero_shared_def used_def)

lemma ex_user_table: "p_shared (procs (ex_user_with tab) ! 0) = tab" "length (procs (ex_user_with tab)) = 1" "p_name (procs (ex_user_with tab) ! 0) = p_name zero_proc"
  by (simp_all add: ex_user_fields)

lemma ex_user_upd: "upd_proc 0 (\<lambda>q. q\<lparr>p_shared := f (p_shared q)\<rparr>) (ex_user_with tab) = ex_user_with (f tab)"
  by (simp add: upd_proc_def ex_user_with_def)



lemma ex_user_store: "vstores 0 (bytes32 0) (ex_user_with tab) = Some (ex_user_with tab)"
proof -
  have "vstore k 0 (ex_user_with tab) = Some (ex_user_with tab)" if "k \<in> {0, 1, 2, 3}" for k
  proof -
    have l: "k < 4096" "ex_umem (0x80602000 + k) = 0" using that by (auto simp: ex_umem_def ex_bytes_def)
    note b = ex_user_byte [OF ex_user_fields(1,2) ex_pte l(1)]
    have "ex_umem(0x80602000 + k := 0) = ex_umem" using l(2) by (simp add: fun_upd_idem)
    then show ?thesis by (simp add: vstore_def ex_user_fields P2V_def b)
  qed
  then show ?thesis by (simp add: bytes32_def)
qed

text \<open>It then asks for the name itself and gets the address 0.\<close>

theorem get_shared_finds_witness:
  "\<exists>t u. sys_share_mem ex_user = Ok 0 t \<and> sys_get_shared t = Ok 0 u \<and> mem u = ex_umem"
proof -
  have k: "length (used (p_shared (procs ex_user ! 0))) = 0" "tab_ok (p_shared (procs ex_user ! 0))"
    by (simp_all add: ex_user_table ex_table tab_ok_def)
  obtain nm where s: "sys_share_mem ex_user = Ok 0 (ex_user_with ((replicate MAXSHARED zero_shared)[0 := \<lparr>sh_name = nm, sh_memstart = 0, sh_sz = 4\<rparr>]))"
    using share_mem_eq [OF ex_user_ready(1,2) k(2) ex_user_args(1) _ ex_user_args(2,3)]
    by (simp add: ex_user_table ex_table ex_user_upd [of "\<lambda>t. t[0 := _]"]) blast
  let ?t = "ex_user_with ((replicate MAXSHARED zero_shared)[0 := \<lparr>sh_name = nm, sh_memstart = 0, sh_sz = 4\<rparr>])"
  have g: "\<not> g_primecom (glob ?t)" by (simp add: ex_user_with_def ex_kst_defs)
  have z: "0 \<in> set (p_name (procs ?t ! 0))" by (simp add: ex_user_table zero_proc_def)
  have m: "vstores 0 (bytes32 (sh_memstart (p_shared (procs ?t ! 0) ! nat 0))) ?t = Some ?t" by (simp add: ex_user_table ex_user_store)
  have "\<exists>u. sys_get_shared ?t = Ok 0 u \<and> mem u = mem ?t"
    by (rule get_shared_finds [OF ex_user_ready(1,2) _ _ _ ex_user_args(1) _ ex_user_args(2,3) _ s _ ex_user_ready(1,3,2) z g _ ex_user_args(1) _ _ ex_user_args(2) m])
      (simp_all add: ex_user_table ex_table)
  then show ?thesis using s by (auto simp: ex_user_fields)
qed

end
