(* ===== verification/Ide.thy ===== *)
theory Ide
  imports Blocking Bio
begin

unbundle bit_operations_syntax

text \<open>
  kernel/ide.c: the driver of the IDE disk, which the kernel has in place of kernel/memide.c when its disk is not
  in memory. The controller is a parameter: its state, and what reading and writing its
  ports does to it. The queue is linked through the buffers, as the code has it.
\<close>

section \<open>State\<close>

record 'd ports =
  pt_inb :: "u32 \<Rightarrow> 'd \<Rightarrow> u8 \<times> 'd"
  pt_outb :: "u32 \<Rightarrow> u8 \<Rightarrow> 'd \<Rightarrow> 'd"
  pt_insl :: "u32 \<Rightarrow> 'd \<Rightarrow> block \<times> 'd"
  pt_outsl :: "u32 \<Rightarrow> block \<Rightarrow> 'd \<Rightarrow> 'd"

text \<open>\<open>qnext\<close> is the field of that name of each buffer.\<close>

record 'd ide =
  idequeue :: "nat option"
  qnext :: "nat \<Rightarrow> nat option"
  havedisk1 :: bool
  idev :: 'd

record 'd idest = bst +
  idd :: "'d ide"

definition upd_ide :: "('d ide \<Rightarrow> 'd ide) \<Rightarrow> ('d, 'a) idest_scheme \<Rightarrow> ('d, 'a) idest_scheme" where
  "upd_ide f s = s\<lparr>idd := f (idd s)\<rparr>"

definition inb :: "'d ports \<Rightarrow> u32 \<Rightarrow> ('d, 'a) idest_scheme \<Rightarrow> u8 \<times> ('d, 'a) idest_scheme" where
  "inb P port s = (case pt_inb P port (idev (idd s)) of (r, d) \<Rightarrow> (r, upd_ide (\<lambda>k. k\<lparr>idev := d\<rparr>) s))"

definition outb :: "'d ports \<Rightarrow> u32 \<Rightarrow> u8 \<Rightarrow> ('d, 'a) idest_scheme \<Rightarrow> ('d, 'a) idest_scheme" where
  "outb P port v s = upd_ide (\<lambda>k. k\<lparr>idev := pt_outb P port v (idev k)\<rparr>) s"

abbreviation (input) IDE_BSY :: u8 where "IDE_BSY \<equiv> 0x80"
abbreviation (input) IDE_DRDY :: u8 where "IDE_DRDY \<equiv> 0x40"
abbreviation (input) IDE_DF :: u8 where "IDE_DF \<equiv> 0x20"
abbreviation (input) IDE_ERR :: u8 where "IDE_ERR \<equiv> 0x01"
abbreviation (input) FSSIZE :: u32 where "FSSIZE \<equiv> 1000"

section \<open>The operations\<close>

text \<open>The loop over the status port ends when the controller says so; the first argument bounds its rounds.\<close>

fun idewait :: "'d ports \<Rightarrow> nat \<Rightarrow> bool \<Rightarrow> ('d, 'a) idest_scheme \<Rightarrow> (('d, 'a) idest_scheme, int) res" where
  "idewait P 0 checkerr s = Hang"
| "idewait P (Suc n) checkerr s =
     (case inb P 0x1f7 s of (r, s) \<Rightarrow>
      if r AND (IDE_BSY OR IDE_DRDY) \<noteq> IDE_DRDY then idewait P n checkerr s
      else Ok (if checkerr \<and> r AND (IDE_DF OR IDE_ERR) \<noteq> 0 then - 1 else 0) s)"

text \<open>The search for disk 1, with \<open>n\<close> rounds left.\<close>

fun disk1_loop :: "'d ports \<Rightarrow> nat \<Rightarrow> ('d, 'a) idest_scheme \<Rightarrow> ('d, 'a) idest_scheme" where
  "disk1_loop P 0 s = s"
| "disk1_loop P (Suc n) s =
     (case inb P 0x1f7 s of (r, s) \<Rightarrow> if r \<noteq> 0 then upd_ide (\<lambda>k. k\<lparr>havedisk1 := True\<rparr>) s else disk1_loop P n s)"

text \<open>That the interrupt is routed to the last CPU is left out.\<close>

definition ata_init :: "'d ports \<Rightarrow> nat \<Rightarrow> ('d, 'a) idest_scheme \<Rightarrow> (('d, 'a) idest_scheme, unit) res" where
  "ata_init P n s =
     (let s = initlock Lide ''ide'' s in
      bind (idewait P n False s) (\<lambda>_ s.
      let s = disk1_loop P 1000 (outb P 0x1f6 0xf0 s) in
      Ok () (outb P 0x1f6 0xe0 s)))"

text \<open>A block is one sector, so the sector number is the block number.\<close>

definition idestart :: "'d ports \<Rightarrow> nat \<Rightarrow> nat option \<Rightarrow> ('d, 'a) idest_scheme \<Rightarrow> (('d, 'a) idest_scheme, unit) res" where
  "idestart P n b s =
     (case b of None \<Rightarrow> Panic ''idestart''
      | Some i \<Rightarrow>
        let b = buf_at s i in
        if b_blockno b \<ge> FSSIZE then Panic ''incorrect blockno''
        else
          let sector = b_blockno b in
          bind (idewait P n False s) (\<lambda>_ s.
          let s = outb P 0x3f6 0 s;
              s = outb P 0x1f2 1 s;
              s = outb P 0x1f3 (ucast (sector AND 0xff)) s;
              s = outb P 0x1f4 (ucast (drop_bit 8 sector AND 0xff)) s;
              s = outb P 0x1f5 (ucast (drop_bit 16 sector AND 0xff)) s;
              s = outb P 0x1f6 (0xe0 OR ucast (push_bit 4 (b_dev b AND 1)) OR ucast (drop_bit 24 sector AND 0x0f)) s in
          if b_flags b AND B_DIRTY \<noteq> 0
          then Ok () (upd_ide (\<lambda>k. k\<lparr>idev := pt_outsl P 0x1f0 (b_data b) (idev k)\<rparr>) (outb P 0x1f7 0x30 s))
          else Ok () (outb P 0x1f7 0x20 s)))"

definition ideintr :: "'d ports \<Rightarrow> nat \<Rightarrow> ('d, 'a) idest_scheme \<Rightarrow> (('d, 'a) idest_scheme, unit) res" where
  "ideintr P n s =
     bind (acquire Lide s) (\<lambda>_ s.
     case idequeue (idd s) of None \<Rightarrow> release Lide s
     | Some i \<Rightarrow>
       let s = upd_ide (\<lambda>k. k\<lparr>idequeue := qnext k i\<rparr>) s in
       bind (if b_flags (buf_at s i) AND B_DIRTY = 0
             then bind (idewait P n True s) (\<lambda>r s.
               if r \<ge> 0 then (case pt_insl P 0x1f0 (idev (idd s)) of (bs, d) \<Rightarrow>
                 Ok () (upd_buf i (\<lambda>b. b\<lparr>b_data := bs\<rparr>) (upd_ide (\<lambda>k. k\<lparr>idev := d\<rparr>) s)))
               else Ok () s)
             else Ok () s) (\<lambda>_ s.
       let s = upd_buf i (\<lambda>b. b\<lparr>b_flags := b_flags b OR B_VALID\<rparr>) s;
           s = upd_buf i (\<lambda>b. b\<lparr>b_flags := b_flags b AND NOT B_DIRTY\<rparr>) s in
       bind (wakeup (Cbuf i) s) (\<lambda>_ s.
       bind (if idequeue (idd s) \<noteq> None then idestart P n (idequeue (idd s)) s else Ok () s) (\<lambda>_ s.
       release Lide s))))"

text \<open>The end of the queue: \<open>None\<close> is the variable \<open>idequeue\<close>, \<open>Some j\<close> the field of buffer \<open>j\<close>. A queue that runs in a circle has none.\<close>

fun queue_end :: "nat \<Rightarrow> nat option \<Rightarrow> ('d, 'a) idest_scheme \<Rightarrow> nat option option" where
  "queue_end 0 pp s = None"
| "queue_end (Suc n) pp s =
     (case (case pp of None \<Rightarrow> idequeue (idd s) | Some j \<Rightarrow> qnext (idd s) j) of
        None \<Rightarrow> Some pp
      | Some j \<Rightarrow> queue_end n (Some j) s)"

text \<open>The loop that waits for the request, entered again after each sleep.\<close>

definition iderw_wait :: "nat \<Rightarrow> ('d, 'a) idest_scheme \<Rightarrow> (('d, 'a) idest_scheme, unit) res" where
  "iderw_wait i s =
     (if b_flags (buf_at s i) AND (B_VALID OR B_DIRTY) \<noteq> B_VALID then sleep (Cbuf i) (Some Lide) s else release Lide s)"

definition iderw_resume :: "nat \<Rightarrow> ('d, 'a) idest_scheme \<Rightarrow> (('d, 'a) idest_scheme, unit) res" where
  "iderw_resume i s = bind (sleep_return Lide s) (\<lambda>_ s. iderw_wait i s)"

definition ata_rw :: "'d ports \<Rightarrow> nat \<Rightarrow> nat \<Rightarrow> ('d, 'a) idest_scheme \<Rightarrow> (('d, 'a) idest_scheme, unit) res" where
  "ata_rw P n i s =
     bind (holdingsleep (Lbufsleep i) s) (\<lambda>h s.
     if \<not> h then Panic ''iderw: buf not locked''
     else if b_flags (buf_at s i) AND (B_VALID OR B_DIRTY) = B_VALID then Panic ''iderw: nothing to do''
     else if b_dev (buf_at s i) \<noteq> 0 \<and> \<not> havedisk1 (idd s) then Panic ''iderw: ide disk 1 not present''
     else
       bind (acquire Lide s) (\<lambda>_ s.
       let s = upd_ide (\<lambda>k. k\<lparr>qnext := (qnext k)(i := None)\<rparr>) s in
       case queue_end (length (bufs (bc s)) + 1) None s of None \<Rightarrow> Hang
       | Some pp \<Rightarrow>
         let s = (case pp of None \<Rightarrow> upd_ide (\<lambda>k. k\<lparr>idequeue := Some i\<rparr>) s
                  | Some j \<Rightarrow> upd_ide (\<lambda>k. k\<lparr>qnext := (qnext k)(j := Some i)\<rparr>) s) in
         bind (if idequeue (idd s) = Some i then idestart P n (Some i) s else Ok () s) (\<lambda>_ s.
         iderw_wait i s)))"


section \<open>Frames\<close>

lemma upd_ide_fields [simp]:
  "procs (upd_ide f s) = procs s" "cur (upd_ide f s) = cur s" "curproc (upd_ide f s) = curproc s" "curcpu (upd_ide f s) = curcpu s"
  "quiet (upd_ide f s) = quiet s" "lk_free l (upd_ide f s) = lk_free l s" "lk_held l (upd_ide f s) = lk_held l s"
  "hold l (upd_ide f s) = upd_ide f (hold l s)" "unhold l (upd_ide f s) = upd_ide f (unhold l s)"
  "bc (upd_ide f s) = bc s" "idd (upd_ide f s) = f (idd s)" "wakeup1 ch (upd_ide f s) = upd_ide f (wakeup1 ch s)"
  "upd_proc p g (upd_ide f s) = upd_ide f (upd_proc p g s)" "upd_buf i h (upd_ide f s) = upd_ide f (upd_buf i h s)"
  by (simp_all add: upd_ide_def hold_def unhold_def push_def pop_def curcpu_def cur_def curproc_def quiet_def lk_free_def lk_held_def
      wakeup1_def upd_proc_def upd_buf_def upd_bc_def)

lemma upd_ide_twice [simp]: "upd_ide g (upd_ide f s) = upd_ide (\<lambda>k. g (f k)) s"
  by (simp add: upd_ide_def)

lemma idd_frame [simp]:
  "idd (hold l s) = idd s" "idd (unhold l s) = idd s" "idd (upd_buf i h s) = idd s" "idd (wakeup1 ch s) = idd s" "idd (upd_proc p g s) = idd s"
  by (simp_all add: hold_def unhold_def push_def pop_def upd_buf_def upd_bc_def wakeup1_def upd_proc_def)

lemma outb_eq: "outb P port v s = upd_ide (\<lambda>k. k\<lparr>idev := pt_outb P port v (idev k)\<rparr>) s"
  by (simp add: outb_def)

section \<open>The controller\<close>

text \<open>A controller that is ready whenever its status is read, and what it is told when a request starts.\<close>

definition ide_ready :: "'d ports \<Rightarrow> bool" where
  "ide_ready P \<longleftrightarrow> (\<forall>d. fst (pt_inb P 0x1f7 d) AND (IDE_BSY OR IDE_DRDY) = IDE_DRDY)"

definition asked :: "'d ports \<Rightarrow> 'd \<Rightarrow> 'd" where
  "asked P d = snd (pt_inb P 0x1f7 d)"

definition told :: "'d ports \<Rightarrow> buf \<Rightarrow> 'd \<Rightarrow> 'd" where
  "told P b d =
     (let d = pt_outb P 0x1f2 1 (pt_outb P 0x3f6 0 (asked P d));
          d = pt_outb P 0x1f3 (ucast (b_blockno b AND 0xff)) d;
          d = pt_outb P 0x1f4 (ucast (drop_bit 8 (b_blockno b) AND 0xff)) d;
          d = pt_outb P 0x1f5 (ucast (drop_bit 16 (b_blockno b) AND 0xff)) d;
          d = pt_outb P 0x1f6 (0xe0 OR ucast (push_bit 4 (b_dev b AND 1)) OR ucast (drop_bit 24 (b_blockno b) AND 0x0f)) d in
      if b_flags b AND B_DIRTY \<noteq> 0 then pt_outsl P 0x1f0 (b_data b) (pt_outb P 0x1f7 0x30 d) else pt_outb P 0x1f7 0x20 d)"

lemma idewait_ready:
  assumes "ide_ready P" "0 < n"
  shows "idewait P n ck s = Ok (if ck \<and> fst (pt_inb P 0x1f7 (idev (idd s))) AND (IDE_DF OR IDE_ERR) \<noteq> 0 then - 1 else 0)
    (upd_ide (\<lambda>k. k\<lparr>idev := asked P (idev (idd s))\<rparr>) s)"
proof -
  obtain m where n: "n = Suc m" using assms(2) by (cases n) auto
  have "fst (pt_inb P 0x1f7 (idev (idd s))) AND (IDE_BSY OR IDE_DRDY) = IDE_DRDY" using assms(1) unfolding ide_ready_def by blast
  then show ?thesis by (cases "pt_inb P 0x1f7 (idev (idd s))") (simp add: n inb_def asked_def)
qed

lemma idestart_ready:
  assumes "ide_ready P" "0 < n" "b_blockno (buf_at s i) < FSSIZE"
  shows "idestart P n (Some i) s = Ok () (upd_ide (\<lambda>k. k\<lparr>idev := told P (buf_at s i) (idev (idd s))\<rparr>) s)"
  using assms(3) by (simp add: idestart_def Let_def idewait_ready [OF assms(1,2)] outb_eq told_def not_le [symmetric])

section \<open>The queue\<close>

fun qchain :: "(nat \<Rightarrow> nat option) \<Rightarrow> nat option \<Rightarrow> nat list \<Rightarrow> bool" where
  "qchain f a [] \<longleftrightarrow> a = None"
| "qchain f a (x # xs) \<longleftrightarrow> a = Some x \<and> qchain f (f x) xs"

definition queue_is :: "'d ide \<Rightarrow> nat list \<Rightarrow> bool" where
  "queue_is k xs \<longleftrightarrow> qchain (qnext k) (idequeue k) xs \<and> distinct xs"

lemma qchain_cong: "(\<And>x. x \<in> set xs \<Longrightarrow> f x = g x) \<Longrightarrow> qchain f a xs = qchain g a xs"
  by (induction xs arbitrary: a) auto

lemma qchain_append: "qchain f a xs \<Longrightarrow> xs \<noteq> [] \<Longrightarrow> i \<notin> set xs \<Longrightarrow> distinct xs \<Longrightarrow> f i = None \<Longrightarrow> qchain (f(last xs := Some i)) a (xs @ [i])"
proof (induction xs arbitrary: a)
  case (Cons x xs)
  show ?case
  proof (cases "xs = []")
    case True
    then show ?thesis using Cons.prems by auto
  next
    case False
    have "x \<noteq> last xs" using Cons.prems(4) False by auto
    then show ?thesis using Cons.IH [of "f x"] Cons.prems False by simp
  qed
qed simp

lemma queue_end_qchain:
  "qchain (qnext (idd s)) (case pp of None \<Rightarrow> idequeue (idd s) | Some j \<Rightarrow> qnext (idd s) j) xs \<Longrightarrow> length xs < n \<Longrightarrow>
   queue_end n pp s = Some (if xs = [] then pp else Some (last xs))"
proof (induction xs arbitrary: n pp)
  case Nil
  then show ?case by (cases n) auto
next
  case (Cons x xs)
  then obtain m where n: "n = Suc m" by (cases n) auto
  then show ?case using Cons.IH [of "Some x" m] Cons.prems by auto
qed


section \<open>A request\<close>

lemma ata_rw_eq:
  fixes s :: "('d, 'a) idest_scheme"
  assumes "ide_ready P" "0 < n" "quiet s" "lk_free Lide s" "lk_free Lptable s" "ncli (curcpu s) = 0" "curproc s = Some p" "p < length (procs s)"
    "holdingsleep (Lbufsleep i) s = Ok True s" "b_flags (buf_at s i) AND (B_VALID OR B_DIRTY) \<noteq> B_VALID"
    "b_dev (buf_at s i) = 0 \<or> havedisk1 (idd s)" "b_blockno (buf_at s i) < FSSIZE"
    "queue_is (idd s) xs" "i \<notin> set xs" "length xs \<le> length (bufs (bc s))"
  shows "\<exists>s'. ata_rw P n i s = Sleeps s' \<and> queue_is (idd s') (xs @ [i]) \<and> bc s' = bc s \<and>
    idev (idd s') = (if xs = [] then told P (buf_at s i) (idev (idd s)) else idev (idd s)) \<and>
    lk_free Lide s' \<and> p_state (procs s' ! p) = SLEEPING \<and> p_chan (procs s' ! p) = Cbuf i"
proof -
  let ?u = "upd_ide (\<lambda>k. k\<lparr>qnext := (qnext k)(i := None)\<rparr>) (hold Lide s)"
  have c: "qchain (qnext (idd ?u)) (idequeue (idd ?u)) xs"
  proof -
    have "qchain ((qnext (idd s))(i := None)) (idequeue (idd s)) xs = qchain (qnext (idd s)) (idequeue (idd s)) xs"
      by (rule qchain_cong) (use assms(14) in auto)
    then show ?thesis using assms(13) by (simp add: queue_is_def)
  qed
  have d: "distinct xs" using assms(13) by (simp add: queue_is_def)
  have qe: "queue_end (length (bufs (bc ?u)) + 1) None ?u = Some (if xs = [] then None else Some (last xs))"
    by (rule queue_end_qchain) (use c assms(15) in simp_all)
  define k where "k = (if xs = [] then (idd ?u)\<lparr>idequeue := Some i, idev := told P (buf_at s i) (idev (idd s))\<rparr>
    else (idd ?u)\<lparr>qnext := (qnext (idd ?u))(last xs := Some i)\<rparr>)"
  have hd: "idequeue (idd ?u) \<noteq> Some i" if "xs \<noteq> []" using c that assms(14) by (cases xs) auto
  have kq: "queue_is k (xs @ [i])"
  proof (cases "xs = []")
    case False
    then show ?thesis using qchain_append [OF c False assms(14) d] d assms(14) by (simp add: k_def queue_is_def)
  qed (simp add: k_def queue_is_def)
  have kd: "idev k = (if xs = [] then told P (buf_at s i) (idev (idd s)) else idev (idd s))" by (simp add: k_def)
  have st: "idestart P n (Some i) (upd_ide (\<lambda>k. k\<lparr>idequeue := Some i\<rparr>) ?u) = Ok () (upd_ide (\<lambda>_. k) (hold Lide s))" if "xs = []"
    using that assms(12) by (subst idestart_ready [OF assms(1,2)]) (simp_all add: k_def upd_ide_def)
  let ?v = "upd_ide (\<lambda>_. k) (hold Lide s)"
  have a: "acquire Lide s = Ok () (hold Lide s)" using assms(3,4) by (simp add: lock_eqs)
  have n2: "(b_dev (buf_at s i) \<noteq> 0 \<and> \<not> havedisk1 (idd s)) = False" using assms(11) by auto
  have e0: "ata_rw P n i s = (case (if xs = [] then None else Some (last xs)) of
      None \<Rightarrow> bind (idestart P n (Some i) (upd_ide (\<lambda>k. k\<lparr>idequeue := Some i\<rparr>) ?u)) (\<lambda>_ s. iderw_wait i s)
    | Some j \<Rightarrow> iderw_wait i (upd_ide (\<lambda>k. k\<lparr>qnext := (qnext k)(j := Some i)\<rparr>) ?u))"
    unfolding ata_rw_def assms(9) bind_simps a Let_def n2 qe option.case if_not_P [OF assms(10)] using hd by auto
  have "ata_rw P n i s = iderw_wait i ?v"
  proof (cases "xs = []")
    case True
    then show ?thesis unfolding e0 by (simp only: True if_True option.case st [OF True] bind_simps)
  next
    case False
    have "upd_ide (\<lambda>k. k\<lparr>qnext := (qnext k)(last xs := Some i)\<rparr>) ?u = ?v" using False by (simp add: k_def upd_ide_def)
    then show ?thesis unfolding e0 by (simp only: False if_False option.case)
  qed
  also have "\<dots> = sleep (Cbuf i) (Some Lide) ?v" using assms(10) by (simp add: iderw_wait_def)
  finally have e: "ata_rw P n i s = sleep (Cbuf i) (Some Lide) ?v" .
  have f: "lk_held Lide ?v" "ncli (curcpu ?v) = 1" "lk_free Lptable ?v" "curproc ?v = Some p" "p < length (procs ?v)" "quiet ?v"
    using assms by (simp_all add: hold_lemmas)
  have lf: "lk_free Lide (unhold Lide (hold Lptable (hold Lide s)))"
    by (rule unhold_lemmas(5)) (use assms in \<open>simp_all add: hold_lemmas\<close>)
  show ?thesis unfolding e sleep_eq [OF f(6) f(1) f(2) f(3) _ f(4,5), of "Cbuf i", simplified]
    using kq kd lf assms(8) by (auto simp: upd_proc_def hold_lemmas)
qed


section \<open>An interrupt\<close>

text \<open>What a request leaves in its buffer, and the controller after its data have been read.\<close>

definition served :: "'d ports \<Rightarrow> buf \<Rightarrow> 'd \<Rightarrow> buf \<times> 'd" where
  "served P b d =
     (if b_flags b AND B_DIRTY \<noteq> 0 then (b\<lparr>b_flags := (b_flags b OR B_VALID) AND NOT B_DIRTY\<rparr>, d)
      else if fst (pt_inb P 0x1f7 d) AND (IDE_DF OR IDE_ERR) \<noteq> 0
      then (b\<lparr>b_flags := (b_flags b OR B_VALID) AND NOT B_DIRTY\<rparr>, asked P d)
      else (b\<lparr>b_data := fst (pt_insl P 0x1f0 (asked P d)), b_flags := (b_flags b OR B_VALID) AND NOT B_DIRTY\<rparr>,
            snd (pt_insl P 0x1f0 (asked P d))))"

lemma upd_buf_merge: "i < length (bufs (bc s)) \<Longrightarrow> upd_buf i g (upd_buf i f s) = upd_buf i (\<lambda>b. g (f b)) s"
  by (simp add: upd_buf_def upd_bc_def)

lemma ideintr_eq:
  assumes "ide_ready P" "0 < n" "quiet s" "lk_free Lide s" "lk_free Lptable s" "queue_is (idd s) (i # xs)"
    "set (i # xs) \<subseteq> {..<length (bufs (bc s))}" "\<forall>j\<in>set xs. b_blockno (buf_at s j) < FSSIZE"
  shows "\<exists>s'. ideintr P n s = Ok () s' \<and> queue_is (idd s') xs \<and> bc s' = (bc s)\<lparr>bufs := (bufs (bc s))[i := fst (served P (buf_at s i) (idev (idd s)))]\<rparr> \<and>
    idev (idd s') = (if xs = [] then snd (served P (buf_at s i) (idev (idd s))) else told P (buf_at s (hd xs)) (snd (served P (buf_at s i) (idev (idd s))))) \<and>
    procs s' = procs (wakeup1 (Cbuf i) s) \<and> quiet s' \<and> lk_free Lide s' \<and> lk_free Lptable s'"
proof -
  let ?h = "hold Lide s" and ?b = "fst (served P (buf_at s i) (idev (idd s)))" and ?d = "snd (served P (buf_at s i) (idev (idd s)))"
  have a: "acquire Lide s = Ok () ?h" using assms(3,4) by (simp add: lock_eqs)
  have q: "idequeue (idd s) = Some i" "qchain (qnext (idd s)) (qnext (idd s) i) xs" "i \<notin> set xs" "distinct xs" using assms(6) by (auto simp: queue_is_def)
  have il: "i < length (bufs (bc s))" using assms(7) by simp
  let ?v = "upd_ide (\<lambda>k. k\<lparr>idequeue := qnext k i, idev := ?d\<rparr>) (upd_buf i (\<lambda>_. ?b) ?h)"
  let ?w = "wakeup1 (Cbuf i) ?v"
  let ?x = "if xs = [] then ?w else upd_ide (\<lambda>k. k\<lparr>idev := told P (buf_at s (hd xs)) ?d\<rparr>) ?w"
  have wk: "wakeup (Cbuf i) ?v = Ok () ?w" by (rule wakeup_eq) (use assms in \<open>simp_all add: upd_buf_def upd_bc_def\<close>)
  have st: "(if idequeue (idd ?w) \<noteq> None then idestart P n (idequeue (idd ?w)) ?w else Ok () ?w) = Ok () ?x"
  proof (cases xs)
    case Nil
    then show ?thesis using q(2) by simp
  next
    case (Cons j ys)
    have "buf_at ?w j = buf_at s j" using q(3) Cons by (simp add: upd_buf_def upd_bc_def wakeup1_def)
    then show ?thesis using q(2) Cons assms(8) by (simp add: idestart_ready [OF assms(1,2)])
  qed
  let ?u = "upd_ide (\<lambda>k. k\<lparr>idequeue := qnext k i\<rparr>) ?h"
  let ?ph = "if b_flags (buf_at ?u i) AND B_DIRTY = 0
      then bind (idewait P n True ?u) (\<lambda>r s.
        if r \<ge> 0 then (case pt_insl P 0x1f0 (idev (idd s)) of (bs, d) \<Rightarrow>
          Ok () (upd_buf i (\<lambda>b. b\<lparr>b_data := bs\<rparr>) (upd_ide (\<lambda>k. k\<lparr>idev := d\<rparr>) s)))
        else Ok () s)
      else Ok () ?u"
  obtain t where t: "?ph = Ok () t"
    "upd_buf i (\<lambda>b. b\<lparr>b_flags := b_flags b AND NOT B_DIRTY\<rparr>) (upd_buf i (\<lambda>b. b\<lparr>b_flags := b_flags b OR B_VALID\<rparr>) t) = ?v"
  proof (cases "b_flags (buf_at s i) AND B_DIRTY = 0")
    case False
    show thesis
    proof (rule that [of ?u])
      show "?ph = Ok () ?u" using False by simp
      show "upd_buf i (\<lambda>b. b\<lparr>b_flags := b_flags b AND NOT B_DIRTY\<rparr>) (upd_buf i (\<lambda>b. b\<lparr>b_flags := b_flags b OR B_VALID\<rparr>) ?u) = ?v"
        using False il by (simp add: served_def upd_buf_merge) (simp add: upd_buf_def upd_bc_def upd_ide_def)
    qed
  next
    case dirty: True
    show thesis
    proof (cases "fst (pt_inb P 0x1f7 (idev (idd s))) AND (IDE_DF OR IDE_ERR) \<noteq> 0")
      case True
      let ?t = "upd_ide (\<lambda>k. k\<lparr>idev := asked P (idev (idd ?u))\<rparr>) ?u"
      show thesis
      proof (rule that [of ?t])
        show "?ph = Ok () ?t" unfolding idewait_ready [OF assms(1,2)] bind_simps using dirty True by simp
        show "upd_buf i (\<lambda>b. b\<lparr>b_flags := b_flags b AND NOT B_DIRTY\<rparr>) (upd_buf i (\<lambda>b. b\<lparr>b_flags := b_flags b OR B_VALID\<rparr>) ?t) = ?v"
          using dirty True il by (simp add: served_def upd_buf_merge) (simp add: upd_buf_def upd_bc_def upd_ide_def)
      qed
    next
      case False
      obtain bs d where bs: "pt_insl P 0x1f0 (asked P (idev (idd s))) = (bs, d)" by fastforce
      let ?t = "upd_buf i (\<lambda>b. b\<lparr>b_data := bs\<rparr>) (upd_ide (\<lambda>k. k\<lparr>idev := d\<rparr>) (upd_ide (\<lambda>k. k\<lparr>idev := asked P (idev (idd ?u))\<rparr>) ?u))"
      show thesis
      proof (rule that [of ?t])
        show "?ph = Ok () ?t" unfolding idewait_ready [OF assms(1,2)] bind_simps using dirty False bs by simp
        show "upd_buf i (\<lambda>b. b\<lparr>b_flags := b_flags b AND NOT B_DIRTY\<rparr>) (upd_buf i (\<lambda>b. b\<lparr>b_flags := b_flags b OR B_VALID\<rparr>) ?t) = ?v"
          using dirty False il bs by (simp add: served_def upd_buf_merge) (simp add: upd_buf_def upd_bc_def upd_ide_def)
      qed
    qed
  qed
  have qh: "idequeue (idd ?h) = Some i" using q(1) by simp
  have "ideintr P n s = release Lide ?x"
    unfolding ideintr_def a bind_simps qh option.case Let_def t wk st by simp
  also have "\<dots> = Ok () (unhold Lide ?x)" using assms(3,4) by (simp add: release_eq upd_buf_def upd_bc_def)
  finally have e: "ideintr P n s = Ok () (unhold Lide ?x)" .
  have hx: "quiet ?x" "lk_held Lide ?x" "lk_free Lptable ?x" using assms(3-5) by (simp_all add: upd_buf_def upd_bc_def)
  note un = unhold_lemmas [OF hx(1,2)]
  have "lk_free Lptable (unhold Lide ?x)" using un(6) [of Lptable] hx(3) by (simp add: lk_free_def)
  then show ?thesis using e q il un(1,5)
    by (intro exI [of _ "unhold Lide ?x"]) (auto simp: queue_is_def upd_buf_def upd_bc_def wakeup1_def)
qed


section \<open>The disk behind the queue\<close>

text \<open>
  A controller that behaves as a disk with the contents \<open>con\<close>: a write request stores the block, a read request
  delivers it, nothing else changes the contents, and no read fails.
\<close>

definition is_disk :: "'d ports \<Rightarrow> ('d \<Rightarrow> u32 \<Rightarrow> block) \<Rightarrow> bool" where
  "is_disk P con \<longleftrightarrow> ide_ready P \<and> (\<forall>d. con (asked P d) = con d \<and> con (snd (pt_insl P 0x1f0 d)) = con d) \<and>
     (\<forall>d. fst (pt_inb P 0x1f7 d) AND (IDE_DF OR IDE_ERR) = 0) \<and>
     (\<forall>b d. b_blockno b < FSSIZE \<longrightarrow> con (told P b d) = (if b_flags b AND B_DIRTY \<noteq> 0 then (con d)(b_blockno b := b_data b) else con d) \<and>
       (b_flags b AND B_DIRTY = 0 \<longrightarrow> fst (pt_insl P 0x1f0 (asked P (told P b d))) = con d (b_blockno b)))"

text \<open>What a request does to the buffer and to the disk, at once; this is what \<open>iderw\<close> of the memory disk does.\<close>

definition transfer :: "nat \<Rightarrow> buf list \<times> (u32 \<Rightarrow> block) \<Rightarrow> buf list \<times> (u32 \<Rightarrow> block)" where
  "transfer i = (\<lambda>(bs, dk). let b = bs ! i; fl = (b_flags b OR B_VALID) AND NOT B_DIRTY in
     if b_flags b AND B_DIRTY \<noteq> 0 then (bs[i := b\<lparr>b_flags := fl\<rparr>], dk(b_blockno b := b_data b))
     else (bs[i := b\<lparr>b_data := dk (b_blockno b), b_flags := fl\<rparr>], dk))"

lemma flag_algebra:
  fixes f :: u32
  shows "(f AND - 5) OR 2 = (f OR 2) AND - 5" "f AND 4 = 0 \<Longrightarrow> (f OR 2) AND - 5 = f OR 2"
proof -
  have e: "(f OR 2) AND - 5 = (f AND - 5) OR 2" by (simp only: bit.conj_disj_distrib2) simp
  then show "(f AND - 5) OR 2 = (f OR 2) AND - 5" by simp
  have "f = f AND (4 OR - 5)" by simp
  also have "\<dots> = (f AND 4) OR (f AND - 5)" by (rule bit.conj_disj_distrib)
  finally show "(f OR 2) AND - 5 = f OR 2" if "f AND 4 = 0" using e that by simp
qed

lemma iderw_transfers:
  assumes "iderw i s = Ok () s'" "holdingsleep (Lbufsleep i) s = Ok True s" "i < length (bufs (bc s))"
  shows "(bufs (bc s'), disk (bc s')) = transfer i (bufs (bc s), disk (bc s))"
  using assms(1,3) unfolding iderw_def assms(2) bind_simps
  by (auto simp: transfer_def Let_def upd_buf_def upd_bc_def flag_algebra split: if_split_asm)

text \<open>\<open>k\<close> interrupts, one after the other.\<close>

fun interrupts :: "'d ports \<Rightarrow> nat \<Rightarrow> nat \<Rightarrow> ('d, 'a) idest_scheme \<Rightarrow> (('d, 'a) idest_scheme, unit) res" where
  "interrupts P n 0 s = Ok () s"
| "interrupts P n (Suc k) s = bind (ideintr P n s) (\<lambda>_ s. interrupts P n k s)"

lemma served_disk:
  assumes "is_disk P con" "b_blockno b < FSSIZE"
  shows "con (snd (served P b (told P b d))) = (if b_flags b AND B_DIRTY \<noteq> 0 then (con d)(b_blockno b := b_data b) else con d)"
    "fst (served P b (told P b d)) = (if b_flags b AND B_DIRTY \<noteq> 0 then b\<lparr>b_flags := (b_flags b OR B_VALID) AND NOT B_DIRTY\<rparr>
       else b\<lparr>b_data := con d (b_blockno b), b_flags := (b_flags b OR B_VALID) AND NOT B_DIRTY\<rparr>)"
  using assms by (auto simp: is_disk_def served_def)

lemma interrupts_transfer:
  fixes s :: "('d, 'a) idest_scheme"
  assumes "is_disk P con" "0 < n" "quiet s" "lk_free Lide s" "lk_free Lptable s" "queue_is (idd s) xs"
    "set xs \<subseteq> {..<length (bufs (bc s))}" "\<forall>j\<in>set xs. b_blockno (buf_at s j) < FSSIZE"
    "xs \<noteq> [] \<Longrightarrow> idev (idd s) = told P (buf_at s (hd xs)) d" "xs = [] \<Longrightarrow> con (idev (idd s)) = con d"
  shows "\<exists>s'. interrupts P n (length xs) s = Ok () s' \<and> queue_is (idd s') [] \<and> (bufs (bc s'), con (idev (idd s'))) = fold transfer xs (bufs (bc s), con d)"
  using assms(3-)
proof (induction xs arbitrary: s d)
  case Nil
  then show ?case by simp
next
  case (Cons i xs)
  have r: "ide_ready P" using assms(1) by (simp add: is_disk_def)
  let ?b = "buf_at s i" and ?d = "snd (served P (buf_at s i) (told P (buf_at s i) d))"
  have bn: "b_blockno ?b < FSSIZE" using Cons.prems(6) by simp
  obtain s' where s': "ideintr P n s = Ok () s'" "queue_is (idd s') xs"
      "bc s' = (bc s)\<lparr>bufs := (bufs (bc s))[i := fst (served P ?b (told P ?b d))]\<rparr>"
      "idev (idd s') = (if xs = [] then ?d else told P (buf_at s (hd xs)) ?d)" "quiet s'" "lk_free Lide s'" "lk_free Lptable s'"
    using ideintr_eq [OF r assms(2) Cons.prems(1-5)] Cons.prems(6) unfolding Cons.prems(7) [OF list.simps(3), simplified] by auto
  have i: "i \<notin> set xs" "i < length (bufs (bc s))" using Cons.prems(4,5) by (auto simp: queue_is_def)
  have bufs': "buf_at s' j = buf_at s j" if "j \<in> set xs" for j
  proof -
    have "i \<noteq> j" using that i(1) by blast
    then show ?thesis using s'(3) by simp
  qed
  have "\<exists>s''. interrupts P n (length xs) s' = Ok () s'' \<and> queue_is (idd s'') [] \<and> (bufs (bc s''), con (idev (idd s''))) = fold transfer xs (bufs (bc s'), con ?d)"
  proof (rule Cons.IH [OF s'(5-7,2)])
    show "set xs \<subseteq> {..<length (bufs (bc s'))}" using Cons.prems(5) s'(3) by auto
    show "\<forall>j\<in>set xs. b_blockno (buf_at s' j) < FSSIZE" using Cons.prems(6) bufs' by auto
    show "idev (idd s') = told P (buf_at s' (hd xs)) ?d" if "xs \<noteq> []" using s'(4) that bufs' [of "hd xs"] by simp
    show "con (idev (idd s')) = con ?d" if "xs = []" using s'(4) that by simp
  qed
  moreover have "(bufs (bc s'), con ?d) = transfer i (bufs (bc s), con d)"
    unfolding served_disk(1) [OF assms(1) bn] s'(3) served_disk(2) [OF assms(1) bn] by (simp add: transfer_def Let_def)
  ultimately show ?case using s'(1) by simp
qed



section \<open>A controller\<close>

text \<open>A controller that keeps the bytes written to its ports, and a disk of at most 65536 sectors.\<close>

type_synonym ata = "(u32 \<Rightarrow> block) \<times> (u32 \<Rightarrow> u8)"

definition ata_sector :: "(u32 \<Rightarrow> u8) \<Rightarrow> u32" where
  "ata_sector r = ucast (r 0x1f3) + 256 * ucast (r 0x1f4)"

definition ata_ports :: "ata ports" where
  "ata_ports = \<lparr>pt_inb = (\<lambda>port d. (0x40, d)), pt_outb = (\<lambda>port v (con, r). (con, r(port := v))),
     pt_insl = (\<lambda>port (con, r). (con (ata_sector r), (con, r))), pt_outsl = (\<lambda>port bs (con, r). (con(ata_sector r := bs), r))\<rparr>"

lemma sector_bytes:
  fixes x :: u32
  assumes "x < FSSIZE"
  shows "ucast (ucast (x AND 0xff) :: u8) + 256 * ucast (ucast (drop_bit 8 x AND 0xff) :: u8) = x"
proof -
  have m: "(0xff :: u32) = mask 8" by (simp add: mask_eq_exp_minus_1)
  have u: "unat x < 1000" using assms by (simp add: word_less_nat_alt)
  have low: "unat (ucast (ucast (y AND 0xff) :: u8) :: u32) = unat y mod 256" for y :: u32
    unfolding m by (simp add: take_bit_eq_mask [symmetric] unsigned_ucast_eq unsigned_take_bit_eq take_bit_eq_mod unat_mod)
  have hi: "unat (drop_bit 8 x) = unat x div 256" by (simp add: drop_bit_eq_div unat_div)
  show ?thesis
    by (rule word_unat_eq_iff [THEN iffD2]) (use u in \<open>simp add: unat_word_ariths low hi\<close>)
qed

lemma ata_port_simps:
  "fst (pt_inb ata_ports p d) = 0x40" "asked ata_ports d = d" "fst (pt_insl ata_ports p d) = fst d (ata_sector (snd d))" "snd (pt_insl ata_ports p d) = d"
  by (simp_all add: ata_ports_def asked_def split: prod.split)

lemma ata_is_disk: "is_disk ata_ports fst"
proof -
  have r: "ide_ready ata_ports" by (simp add: ide_ready_def ata_ports_def)
  have "ata_sector (snd (told ata_ports b d)) = b_blockno b" if "b_blockno b < FSSIZE" for b d
    using sector_bytes [OF that] by (cases d) (simp add: told_def Let_def asked_def ata_ports_def ata_sector_def)
  moreover have "fst (told ata_ports b d) = (if b_flags b AND B_DIRTY \<noteq> 0 then (fst d)(b_blockno b := b_data b) else fst d)" if "b_blockno b < FSSIZE" for b d
    using sector_bytes [OF that] by (cases d) (simp add: told_def Let_def asked_def ata_ports_def ata_sector_def)
  ultimately show ?thesis using r by (simp add: is_disk_def ata_port_simps)
qed


text \<open>Two buffers of three wait: buffer 2 is to be written to block 7, buffer 0 to be read from it.\<close>

definition ex_buf :: "u32 \<Rightarrow> u8 \<Rightarrow> buf" where
  "ex_buf f v = \<lparr>b_flags = f, b_dev = 1, b_blockno = 7, b_refcnt = 1, b_prev = None, b_next = None, b_data = replicate BSIZE v\<rparr>"

definition ex_ata :: ata where
  "ex_ata = (\<lambda>_. replicate BSIZE 0, \<lambda>_. 0)"

definition ex_ide :: "ata idest" where
  "ex_ide = bst.extend (sst.extend ex_sst \<lparr>bc = \<lparr>bufs = [ex_buf 0 0, ex_buf 2 1, ex_buf 4 9], head_prev = None, head_next = None,
     disk = (\<lambda>_. []), disksize = 0, dk_hist = []\<rparr>\<rparr>)
     \<lparr>idd = \<lparr>idequeue = Some 2, qnext = [2 \<mapsto> 0], havedisk1 = True, idev = told ata_ports (ex_buf 4 9) ex_ata\<rparr>\<rparr>"



text \<open>A read that fails leaves the data as they were, and the buffer is marked valid all the same.\<close>

lemma read_error_marked_valid:
  assumes "b_flags b AND B_DIRTY = 0" "fst (pt_inb P 0x1f7 d) AND (IDE_DF OR IDE_ERR) \<noteq> 0"
  shows "b_data (fst (served P b d)) = b_data b" "b_flags (fst (served P b d)) = (b_flags b OR B_VALID) AND NOT B_DIRTY"
  using assms by (simp_all add: served_def)

end
