(* ===== verification/Filters.thy ===== *)
theory Filters
  imports Uprog
begin

text \<open>
  What the programs that read a file print: user/cat.c copies its input and user/wc.c counts it, however the
  reads cut it into pieces.
\<close>

section \<open>The output of a process\<close>

text \<open>
  The bytes a process writes when its reads deliver the pieces of \<open>inp\<close> one after the other and then nothing more; files
  can be opened and writes are complete.
\<close>

primrec written :: "prog \<Rightarrow> u8 list list \<Rightarrow> (int \<times> u8) list" where
  "written Exit inp = []"
| "written Crash inp = []"
| "written (Fork c p) inp = written (p 1) inp"
| "written (Wait p) inp = written (p 1) inp"
| "written (Exec path argv p) inp = []"
| "written (Open f mode p) inp = written (p 3) inp"
| "written (Close fd p) inp = written p inp"
| "written (Dup fd p) inp = written p inp"
| "written (Pipe p) inp = written (p 0 3 4) inp"
| "written (Read fd n p) inp = (case inp of [] \<Rightarrow> written (p (Some [])) [] | bs # inp \<Rightarrow> written (p (Some bs)) inp)"
| "written (Write fd bs p) inp = map (Pair fd) bs @ written (p (int (length bs))) inp"
| "written (Chdir d p) inp = written (p 0) inp"
| "written (Mkdir d p) inp = written (p 0) inp"
| "written (Mknod f ma mi p) inp = written p inp"
| "written (Link f g p) inp = written (p 0) inp"
| "written (Unlink f p) inp = written (p 0) inp"
| "written (Fstat fd p) inp = written (p None) inp"
| "written (Kill pid p) inp = written p inp"
| "written (Getpid p) inp = written (p 1) inp"
| "written (Sleep n p) inp = written p inp"
| "written (Provera p) inp = written p inp"
| "written (Print bs p) inp = bs @ written p inp"
| "written (Read_line n p) inp = written (p []) inp"

section \<open>cat\<close>

text \<open>Every read delivers something, so there are enough rounds for the reads and one more.\<close>

lemma cat_copies:
  "[] \<notin> set inp \<Longrightarrow> length inp < n \<Longrightarrow> written (cat n fd Exit) inp = map (Pair 1) (concat inp)"
proof (induction inp arbitrary: n)
  case Nil
  then show ?case by (cases n) auto
next
  case (Cons bs inp)
  then show ?case by (cases n) auto
qed

section \<open>wc\<close>

definition space :: "u8 \<Rightarrow> bool" where
  "space c \<longleftrightarrow> c \<in> {32, 13, 9, 10, 11}"

text \<open>The words of a text begin where a character that is no space follows a space or the beginning.\<close>

definition word_starts :: "bool \<Rightarrow> u8 list \<Rightarrow> nat" where
  "word_starts inword bs = length (filter (\<lambda>i. \<not> space (bs ! i) \<and> (if i = 0 then \<not> inword else space (bs ! (i - 1)))) [0..<length bs])"

lemma word_starts_Cons: "word_starts b (x # xs) = (if \<not> space x \<and> \<not> b then 1 else 0) + word_starts (\<not> space x) xs"
proof -
  have "[0..<length (x # xs)] = 0 # map Suc [0..<length xs]" by (simp add: upt_conv_Cons map_Suc_upt del: upt_Suc)
  moreover have "(\<lambda>i. \<not> space ((x # xs) ! Suc i) \<and> (if Suc i = 0 then \<not> b else space ((x # xs) ! (Suc i - 1)))) =
      (\<lambda>i. \<not> space (xs ! i) \<and> (if i = 0 then \<not> \<not> space x else space (xs ! (i - 1))))"
    by (auto simp: nth_Cons')
  ultimately show ?thesis by (simp add: word_starts_def filter_map comp_def del: upt_Suc)
qed

lemma wc_char_eq:
  "wc_char ch (l, w, c, b) = (if ch = 10 then l + 1 else l, if \<not> space ch \<and> \<not> b then w + 1 else w, c + 1, \<not> space ch)"
  by (auto simp: wc_char_def space_def Let_def)

lemma wc_buf_eq:
  "wc_buf bs (l, w, c, b) = (l + of_nat (count_list bs 10), w + of_nat (word_starts b bs), c + of_nat (length bs),
     if bs = [] then b else \<not> space (last bs))"
proof (induction bs arbitrary: l w c b)
  case Nil
  then show ?case by (simp add: wc_buf_def word_starts_def)
next
  case (Cons x bs)
  have "wc_buf (x # bs) (l, w, c, b) = wc_buf bs (wc_char x (l, w, c, b))" by (simp add: wc_buf_def)
  then show ?case by (auto simp: wc_char_eq Cons.IH word_starts_Cons algebra_simps)
qed

lemma wc_reads:
  "[] \<notin> set inp \<Longrightarrow> length inp < n \<Longrightarrow> written (wc n fd name cs Exit) inp =
   written (case wc_buf (concat inp) cs of (l, w, c, _) \<Rightarrow> say 1 ''%d %d %d %s\<newline>'' [Aint l, Aint w, Aint c, string_arg name] Exit) []"
proof (induction inp arbitrary: n cs)
  case Nil
  then show ?case by (cases n) (auto simp: wc_buf_def)
next
  case (Cons bs inp)
  then show ?case by (cases n) (auto simp: wc_buf_def)
qed

text \<open>
  C26: wc counts lines, words and characters. Whatever pieces the reads deliver, the program prints how many newlines the input
  has, how many words, that is how many characters that are no space come first or after a space, and how many
  characters, each modulo \<open>2 ^ 32\<close>, and the name.
\<close>

theorem wc_counts:
  assumes "[] \<notin> set inp" "length inp < n"
  shows "Some (written (wc n fd name (0, 0, 0, False) Exit) inp) =
    fprintf 1 ''%d %d %d %s\<newline>'' [Aint (of_nat (count_list (concat inp) 10)),
      Aint (of_nat (length (filter (\<lambda>i. \<not> space (concat inp ! i) \<and> (i = 0 \<or> space (concat inp ! (i - 1)))) [0..<length (concat inp)]))),
      Aint (of_nat (length (concat inp))), string_arg name]"
proof -
  have w: "length (filter (\<lambda>i. \<not> space (concat inp ! i) \<and> (i = 0 \<or> space (concat inp ! (i - 1)))) [0..<length (concat inp)]) = word_starts False (concat inp)"
    unfolding word_starts_def by (rule arg_cong [where f = length], rule filter_cong) auto
  have f: "\<exists>bs. fprintf 1 ''%d %d %d %s\<newline>'' [Aint l, Aint v, Aint c, string_arg name] = Some bs" for l v c
  proof -
    have "\<exists>bs. uprintint x 10 True = Some bs" for x using printint_buf_ok [of 10 "''0123456789ABCDEF''" x True] by (auto simp: uprintint_def)
    then obtain a1 a2 a3 where "uprintint l 10 True = Some a1" "uprintint v 10 True = Some a2" "uprintint c 10 True = Some a3" by meson
    then show ?thesis by (simp add: fprintf_def)
  qed
  obtain bs where "fprintf 1 ''%d %d %d %s\<newline>'' [Aint (of_nat (count_list (concat inp) 10)), Aint (of_nat (word_starts False (concat inp))),
      Aint (of_nat (length (concat inp))), string_arg name] = Some bs" using f by blast
  then show ?thesis unfolding w wc_reads [OF assms(1,2)] wc_buf_eq by (simp add: say_def)
qed

text \<open>The input \<open>ab c\<close>, newline, in two pieces.\<close>

theorem wc_counts_witness:
  "Some (written (wc 3 0 [] (0, 0, 0, False) Exit) [[97, 98, 32], [99, 10]]) = fprintf 1 ''%d %d %d %s\<newline>'' [Aint 1, Aint 2, Aint 5, string_arg []]"
proof -
  have c: "count_list (concat [[97, 98, 32], [99, 10 :: u8]]) 10 = 1" "length (concat [[97, 98, 32], [99, 10 :: u8]]) = 5"
    "length (filter (\<lambda>i. \<not> space (concat [[97, 98, 32], [99, 10]] ! i) \<and> (i = 0 \<or> space (concat [[97, 98, 32], [99, 10]] ! (i - 1)))) [0..<5]) = 2"
    by (simp_all add: space_def upt_rec)
  show ?thesis using wc_counts [of "[[97, 98, 32], [99, 10]]" 3 0 "[]", unfolded c] by simp
qed

end
