(* ===== verification/Mp.thy ===== *)
theory Mp
  imports Kalloc
begin

unbundle bit_operations_syntax

text \<open>
  kernel/mp.c: the search for the tables in which the firmware describes the processors, and reading them. The tables are in
  the byte memory. The signatures are compared with the bytes of the string constants.
\<close>

section \<open>State\<close>

text \<open>The fields are \<open>ioapicid\<close>, \<open>lapic\<close>, and the interrupt mode register, which ports 0x22 and 0x23 select and access.\<close>

record mpst = mst +
  ioapicid :: u8
  lapic :: u32
  imcr :: u8

text \<open>\<open>n\<close> bytes from an address on.\<close>

definition bytes_at :: "mem \<Rightarrow> u32 \<Rightarrow> nat \<Rightarrow> u8 list" where
  "bytes_at m p n = map (\<lambda>k. m (p + of_nat k)) [0..<n]"

definition load16 :: "mem \<Rightarrow> u32 \<Rightarrow> nat" where
  "load16 m p = unat (m p) + 256 * unat (m (p + 1))"

section \<open>The search\<close>

definition mp_sum :: "mem \<Rightarrow> u32 \<Rightarrow> nat \<Rightarrow> u8" where
  "mp_sum m addr n = sum_list (bytes_at m addr n)"

text \<open>\<open>n\<close> structures of 16 bytes fit from \<open>p\<close> on; 0 is the null pointer.\<close>

fun mpsearch_loop :: "mem \<Rightarrow> u32 \<Rightarrow> nat \<Rightarrow> u32" where
  "mpsearch_loop m p 0 = 0"
| "mpsearch_loop m p (Suc n) =
     (if bytes_at m p 4 = [95, 77, 80, 95] \<and> mp_sum m p 16 = 0 then p else mpsearch_loop m (p + 16) n)"

definition mpsearch1 :: "mem \<Rightarrow> u32 \<Rightarrow> nat \<Rightarrow> u32" where
  "mpsearch1 m a len = mpsearch_loop m (P2V a) ((len + 15) div 16)"

definition mpsearch :: "mem \<Rightarrow> u32" where
  "mpsearch m =
     (let bda = P2V 0x400;
          p = push_bit 4 (push_bit 8 (ucast (m (bda + 0x0F))) OR ucast (m (bda + 0x0E)));
          q = (push_bit 8 (ucast (m (bda + 0x14))) OR ucast (m (bda + 0x13))) * 1024;
          r = (if p \<noteq> 0 then mpsearch1 m p 1024 else mpsearch1 m (q - 1024) 1024) in
      if r \<noteq> 0 then r else mpsearch1 m 0xF0000 0x10000)"

text \<open>The pointer structure and the table, if there is one.\<close>

definition mpconfig :: "mem \<Rightarrow> (u32 \<times> u32) option" where
  "mpconfig m =
     (let mp = mpsearch m in
      if mp = 0 \<or> load32 m (mp + 4) = 0 then None
      else
        let conf = P2V (load32 m (mp + 4)) in
        if bytes_at m conf 4 \<noteq> [80, 67, 77, 80] then None
        else if m (conf + 6) \<noteq> 1 \<and> m (conf + 6) \<noteq> 4 then None
        else if mp_sum m conf (load16 m (conf + 4)) \<noteq> 0 then None
        else Some (mp, conf))"

section \<open>The entries\<close>

text \<open>
  The loop over the entries from \<open>p\<close> to \<open>e\<close>. In the default case the \<open>break\<close> leaves only the \<open>switch\<close>, so
  that the loop goes on at the same entry. The first argument bounds the rounds.
\<close>

fun mpinit_loop :: "nat \<Rightarrow> u32 \<Rightarrow> u32 \<Rightarrow> bool \<Rightarrow> 'a mpst_scheme \<Rightarrow> ('a mpst_scheme, bool) res" where
  "mpinit_loop 0 p e ismp s = Hang"
| "mpinit_loop (Suc n) p e ismp s =
     (if p < e then
        (if mem s p = 0 then
           mpinit_loop n (p + 20) e ismp
             (if ncpu s < 8 then s\<lparr>cpus := (cpus s)[ncpu s := (cpus s ! ncpu s)\<lparr>apicid := mem s (p + 1)\<rparr>], ncpu := ncpu s + 1\<rparr> else s)
         else if mem s p = 2 then mpinit_loop n (p + 8) e ismp (s\<lparr>ioapicid := mem s (p + 1)\<rparr>)
         else if mem s p \<in> {1, 3, 4} then mpinit_loop n (p + 8) e ismp s
         else mpinit_loop n p e False s)
      else Ok ismp s)"

text \<open>On a machine with an interrupt mode register, external interrupts are masked at the end.\<close>

definition mpinit :: "nat \<Rightarrow> 'a mpst_scheme \<Rightarrow> ('a mpst_scheme, unit) res" where
  "mpinit n s =
     (case mpconfig (mem s) of None \<Rightarrow> Panic ''Expect to run on an SMP''
      | Some (mp, conf) \<Rightarrow>
        let s = s\<lparr>lapic := load32 (mem s) (conf + 36)\<rparr> in
        bind (mpinit_loop n (conf + 44) (conf + of_nat (load16 (mem s) (conf + 4))) True s) (\<lambda>ismp s.
        if \<not> ismp then Panic (''Didn'' @ CHR 0x27 # ''t find a suitable machine'')
        else Ok () (if mem s (mp + 12) \<noteq> 0 then s\<lparr>imcr := imcr s OR 1\<rparr> else s)))"

section \<open>What it finds\<close>

text \<open>An entry of a kind that the code does not know.\<close>

lemma unknown_entry_hangs: "p < e \<Longrightarrow> mem s p \<notin> {0, 1, 2, 3, 4} \<Longrightarrow> mpinit_loop n p e ismp s = Hang"
  by (induction n arbitrary: ismp) auto


text \<open>The entries of a table, and where they are in memory.\<close>

datatype mpentry = Processor u8 | Ioapic u8 | Other u8

fun entry_size :: "mpentry \<Rightarrow> u32" where
  "entry_size (Processor _) = 20"
| "entry_size _ = 8"

fun entry_at :: "mem \<Rightarrow> u32 \<Rightarrow> mpentry \<Rightarrow> bool" where
  "entry_at m p (Processor i) \<longleftrightarrow> m p = 0 \<and> m (p + 1) = i"
| "entry_at m p (Ioapic i) \<longleftrightarrow> m p = 2 \<and> m (p + 1) = i"
| "entry_at m p (Other k) \<longleftrightarrow> m p = k \<and> k \<in> {1, 3, 4}"

fun table_at :: "mem \<Rightarrow> u32 \<Rightarrow> mpentry list \<Rightarrow> u32 \<Rightarrow> bool" where
  "table_at m p [] e \<longleftrightarrow> p = e"
| "table_at m p (x # xs) e \<longleftrightarrow> p < e \<and> entry_at m p x \<and> table_at m (p + entry_size x) xs e"

fun processors :: "mpentry list \<Rightarrow> u8 list" where
  "processors [] = []"
| "processors (Processor i # xs) = i # processors xs"
| "processors (_ # xs) = processors xs"

definition ids :: "'a mpst_scheme \<Rightarrow> u8 list" where
  "ids s = map apicid (take (ncpu s) (cpus s))"

lemma mpinit_loop_finds:
  assumes "table_at (mem s) p xs e" "length xs < n" "length (cpus s) = 8" "ncpu s \<le> 8"
  shows "\<exists>s'. mpinit_loop n p e ismp s = Ok ismp s' \<and> ids s' = ids s @ take (8 - ncpu s) (processors xs) \<and>
    ncpu s' = min 8 (ncpu s + length (processors xs)) \<and> mem s' = mem s \<and> length (cpus s') = 8"
  using assms
proof (induction xs arbitrary: n p s)
  case Nil
  then obtain m where "n = Suc m" by (cases n) auto
  then show ?case using Nil.prems by simp
next
  case (Cons x xs)
  obtain m where n: "n = Suc m" "length xs < m" using Cons.prems(2) by (cases n) auto
  have p: "p < e" "entry_at (mem s) p x" "table_at (mem s) (p + entry_size x) xs e" using Cons.prems(1) by auto
  show ?case
  proof (cases x)
    case (Processor i)
    let ?s = "if ncpu s < 8 then s\<lparr>cpus := (cpus s)[ncpu s := (cpus s ! ncpu s)\<lparr>apicid := i\<rparr>], ncpu := ncpu s + 1\<rparr> else s"
    have s: "mem ?s = mem s" "length (cpus ?s) = 8" "ncpu ?s \<le> 8" using Cons.prems by auto
    have e: "mpinit_loop n p e ismp s = mpinit_loop m (p + 20) e ismp ?s" using p Processor by (simp add: n)
    have i: "ids ?s @ take (8 - ncpu ?s) (processors xs) = ids s @ take (8 - ncpu s) (processors (x # xs))"
    proof (cases "ncpu s < 8")
      case True
      then have "8 - ncpu s = Suc (8 - (ncpu s + 1))" by simp
      then show ?thesis using True Cons.prems(3) Processor by (simp add: ids_def take_Suc_conv_app_nth)
    qed (use Cons.prems(4) Processor in \<open>simp add: ids_def\<close>)
    have c: "min 8 (ncpu ?s + length (processors xs)) = min 8 (ncpu s + length (processors (x # xs)))" using Processor Cons.prems(4) by simp
    obtain s' where "mpinit_loop m (p + 20) e ismp ?s = Ok ismp s'" "ids s' = ids ?s @ take (8 - ncpu ?s) (processors xs)"
        "ncpu s' = min 8 (ncpu ?s + length (processors xs))" "mem s' = mem ?s" "length (cpus s') = 8"
      using Cons.IH [of ?s "p + 20" m] p(3) n(2) s Processor by auto
    then show ?thesis unfolding e i c s(1) by blast
  next
    case (Ioapic i)
    then show ?thesis using p n Cons.prems Cons.IH [of "s\<lparr>ioapicid := i\<rparr>" "p + 8" m] by (simp add: ids_def)
  next
    case (Other k)
    then show ?thesis using p n Cons.prems Cons.IH [of s "p + 8" m] by auto
  qed
qed



text \<open>The tables of a machine with one processor.\<close>

definition ex_tables :: "u8 list" where
  "ex_tables = [95, 77, 80, 95, 48, 0, 0, 0, 1, 4, 240, 0, 128, 0, 0, 0] @ replicate 16 0 @
     [80, 67, 77, 80, 80, 0, 4, 105] @ replicate 28 0 @ [0, 0, 224, 254] @ replicate 4 0 @
     [0, 0, 20, 3] @ replicate 16 0 @ [2, 9, 17, 1, 0, 0, 0, 0, 1, 0, 0, 0, 0, 0, 0, 0]"

definition ex_mp_mem :: mem where
  "ex_mp_mem a = (if a = 0x8000040E then 1
     else let k = unat (a - 0x80000010) in if k < length ex_tables then ex_tables ! k else 0)"

definition ex_mp :: mpst where
  "ex_mp = mst.extend ex_mst \<lparr>ioapicid = 0, lapic = 0, imcr = 0\<rparr>\<lparr>mem := ex_mp_mem, cpus := replicate 8 ex_cpu, ncpu := 0\<rparr>"


end
