(* ===== verification/Spec2Isabelle.thy ===== *)
theory Spec2Isabelle
  imports Share Schedule Trap Pipeq Lineed Grep Primes Ipc Ide Filters Mp
begin

text \<open>
  A verification library for an xv6 kernel in which a process can share regions of its memory with its
  children by name, and for its user programs.

  \<^bold>\<open>The program.\<close> The kernel (\<open>src/kernel\<close>) manages memory (kalloc.c, vm.c), processes (proc.c, spinlock.c,
  sleeplock.c), a file system with a log (bio.c, log.c, fs.c, file.c, over ide.c or memide.c), pipes
  (pipe.c), the console (console.c, uart.c, kbd.c), and system calls (trap.c, syscall.c, sysproc.c, sysfile.c,
  exec.c). A process registers a region with \<open>share_mem\<close>; \<open>fork\<close> copies the table of regions, and \<open>exec\<close>
  of the programs primecalc and primecom maps the parent's pages into the new address space from \<open>SHAREBASE\<close>
  on (\<open>linkphysaddr\<close> in vm.c); the child finds them with \<open>get_shared\<close>. The user side (\<open>src/user\<close>) is a C
  library, a shell, and programs.

  \<^bold>\<open>How it is modelled.\<close> Theory Prelude has the results of an operation: a value and a new state (\<open>Ok\<close>), giving up the CPU
  (\<open>Sleeps\<close>), the kernel's \<open>panic\<close>, an access the processor refuses or the C code leaves undefined
  (\<open>Fault\<close>), and running on for ever (\<open>Hang\<close>). State is passed explicitly. It is a chain of records, each component adding its own
  variables: locks and CPUs (\<open>lst\<close>, Spinlock), the bytes of memory and the free list (\<open>mst\<close>, Kalloc), the screen
  (\<open>cst\<close>, Console), the process table (\<open>pst\<close>, Ptable), the loaded page directory (\<open>vst\<close>, Vm), sleep locks
  (\<open>sst\<close>, Sleeplock), the buffer cache and disk (\<open>bst\<close>, Bio), the log (\<open>gst\<close>, Log), inodes (\<open>ist\<close>, Inode), the
  console device (\<open>dst\<close>, Consdev), pipes (\<open>ppst\<close>, Pipe), open files (\<open>flst\<close>, File), and the remaining globals (\<open>kst\<close>,
  Proclife); the IDE driver adds its queue to the cache (\<open>idest\<close>, Ide). An operation is a definition with the name of its C
  function, with a loop as a function of its own. Words are \<open>32 word\<close> and \<open>8 word\<close>, with wrap-around as in C. Page tables are
  in the byte memory, linked lists are linked. One CPU executes at a time, between points where the code can be
  interrupted or gives up the CPU; a context switch ends a definition and the code after it is another one.

  \<^bold>\<open>Theories of definitions.\<close> Memory (memlayout.h, mmu.h), KString (string.c), Spinlock (spinlock.c), Kalloc (kalloc.c), Console (output of
  console.c, uart.c), Ptable (proc.h), Vm (vm.c), Proc and Proclife (proc.c), Sleeplock (sleeplock.c), Fsformat (fs.h), Bio (bio.c, memide.c), Ide
  (ide.c), Log (log.c), Umem (access by virtual address), Inode and Fs (fs.c), Consdev (input side of console.c, kbd.c), Pipe (pipe.c), File (file.c), Sysarg
  (syscall.c, sysproc.c), Exec (exec.c), Sysfile (sysfile.c), Trap (trap.c, the dispatch of syscall.c); Ulib (ulib.c, printf.c), Grep
  (grep.c), Sh and Shrun (sh.c), Primes (primestart.c, primecalc.c, primecom.c).

  \<^bold>\<open>Theories of lemmas.\<close> Paging, Uvm, Kvm and Share show what page directories represent, that address spaces are built, grown, copied and
  freed without losing a page, and that a child of \<open>linkphysaddr\<close> has the parent's own pages. Blocking and Schedule show that
  \<open>sleep\<close> loses no wakeup, that locks exclude, and that the scheduler serves every runnable process in a round. Ring and Cache show that the
  buffer cache is a correct cache; Blockio states its contract as the locale \<open>block_cache\<close> and interprets it on the functions of Bio; Diskfmt, Crash, Tx and Atomic
  show on it that a file system call is atomic even if the power fails at any write. Ringbuf has the locale
  \<open>ringbuf\<close> for the two ring buffers, interpreted for pipes (Pipeq) and for the console's line
  editing (Lineed). Uargs and Ipc show what the argument functions let through and that a shared region is found under its name. Shparse and
  Shprint show that the shell's parser ends, cuts words right and reads back what is printed; Shrun that processes are connected
  as the command says. Example has the states that the theorems are evaluated on.

  \<^bold>\<open>Bounds and fuel.\<close> Loops that C leaves unbounded take a bound and give \<open>Hang\<close> at its end. Loops over pages have 1048577 rounds, one more than there are
  pages; the theorems on them show that a value is returned. The searches of the buffer cache and the queue of the IDE driver have one
  round for each buffer and one more. The parser of the shell has four calls for each byte and four more, shown to be enough by
  \<open>parsecmd_total\<close>; the loop of its \<open>main\<close> takes the number of lines as an argument. Waiting for the IDE controller takes
  any positive number of rounds for a controller that is ready. Spinning for a lock that another CPU holds is \<open>Hang\<close>: the model
  has no step of another CPU in between.

  \<^bold>\<open>Parameters.\<close> The IDE controller is given by what its ports do; that it stores and delivers blocks is a hypothesis (\<open>is_disk\<close>), with a
  controller that satisfies it. The bytes a program reads, and which files can be opened, are arguments of the user programs.

  \<^bold>\<open>Not modelled.\<close> The assembly code (entry.S, entryother.S, swtch.S, trapasm.S, the generated vectors, initcode.S, usys.S, bootasm.S) and the boot
  loader: they set up what the model starts from. Programming of interrupt controllers and timer (lapic.c, ioapic.c, picirq.c, uartinit, tvinit,
  idtinit) and the search for processors (mp.c): device registers and firmware tables, with no effect on the state the other parts share. main.c,
  which calls the initialisation functions in order. Headers that only declare (defs.h, types.h, date.h, traps.h, syscall.h, asm.h, user.h). The host tool
  mkfs.c. umalloc.c, and the small programs around system calls (cat, echo, init, kill, ln, ls, mkdir, rm, wc, zombie, provera) and the test
  programs (usertests, forktest, stressfs, pipetest).
\<close>

end
